(* ===== verification/Go_Prelude.thy ===== *)
theory Go_Prelude
  imports Main "HOL-Library.Word" "HOL-Library.Monad_Syntax"
begin

text \<open>
  What the components of the development share: Go slices with their bounds checks, the
  run-time panic, signed 32-bit integers, and the quorum contract that both consensus
  protocols rest on.

  A computation that may panic has an option type: None is the run-time panic (an index
  or a slice bound out of range), Some its result. The protocol counters of the program
  (terms, log indices, ballot numbers, sequence numbers) are Go ints of 64 bits that only
  grow by one at a time, and are read as mathematical integers; the int32 session
  identifiers and counters keep their width, since the code uses their bits.
\<close>

unbundle bit_operations_syntax

named_theorems go_slices "bounds-checked accesses to Go slices"

type_synonym 'a panics = "'a option"
type_synonym int32 = "32 word"
type_synonym byte = "8 word"

section \<open>Slices\<close>

definition go_index :: "'a list \<Rightarrow> int \<Rightarrow> 'a panics" where
  "go_index xs i = (if 0 \<le> i \<and> i < int (length xs) then Some (xs ! nat i) else None)"

definition go_store :: "'a list \<Rightarrow> int \<Rightarrow> 'a \<Rightarrow> 'a list panics" where
  "go_store xs i v = (if 0 \<le> i \<and> i < int (length xs) then Some (xs[nat i := v]) else None)"

definition go_from :: "'a list \<Rightarrow> int \<Rightarrow> 'a list panics" where
  "go_from xs i = (if 0 \<le> i \<and> i \<le> int (length xs) then Some (drop (nat i) xs) else None)"

definition go_upto :: "'a list \<Rightarrow> int \<Rightarrow> 'a list panics" where
  "go_upto xs i = (if 0 \<le> i \<and> i \<le> int (length xs) then Some (take (nat i) xs) else None)"

lemma go_index_Some [go_slices]:
  "go_index xs i = Some x \<longleftrightarrow> 0 \<le> i \<and> i < int (length xs) \<and> xs ! nat i = x"
  by (auto simp: go_index_def)

lemma go_index_in [simp]:
  "0 \<le> i \<Longrightarrow> i < int (length xs) \<Longrightarrow> go_index xs i = Some (xs ! nat i)"
  by (simp add: go_index_def)

lemma go_index_None [go_slices]:
  "go_index xs i = None \<longleftrightarrow> \<not> (0 \<le> i \<and> i < int (length xs))"
  by (auto simp: go_index_def)

lemma go_store_Some [go_slices]:
  "go_store xs i v = Some ys \<longleftrightarrow> 0 \<le> i \<and> i < int (length xs) \<and> ys = xs[nat i := v]"
  by (auto simp: go_store_def)

lemma go_from_Some [go_slices]:
  "go_from xs i = Some ys \<longleftrightarrow> 0 \<le> i \<and> i \<le> int (length xs) \<and> ys = drop (nat i) xs"
  by (auto simp: go_from_def)

lemma go_upto_Some [go_slices]:
  "go_upto xs i = Some ys \<longleftrightarrow> 0 \<le> i \<and> i \<le> int (length xs) \<and> ys = take (nat i) xs"
  by (auto simp: go_upto_def)

section \<open>Integer division and remainder\<close>

text \<open>Go truncates towards zero, so the remainder has the sign of the dividend.\<close>

definition go_rem :: "int \<Rightarrow> int \<Rightarrow> int" where
  "go_rem a b = sgn a * (\<bar>a\<bar> mod \<bar>b\<bar>)"

lemma go_rem_nonneg: "0 \<le> a \<Longrightarrow> go_rem a b = a mod \<bar>b\<bar>"
  by (cases "a = 0") (auto simp: go_rem_def)

lemma go_rem_bounds:
  assumes "0 < b"
  shows "go_rem a b < b" and "- b < go_rem a b"
proof -
  define r where "r = \<bar>a\<bar> mod b"
  have "0 \<le> r" and "r < b" using assms by (simp_all add: r_def)
  moreover have "go_rem a b = sgn a * r" using assms by (simp add: go_rem_def r_def)
  ultimately show "go_rem a b < b" and "- b < go_rem a b"
    using assms by (auto simp: sgn_if)
qed

section \<open>Quorums\<close>

text \<open>
  Both protocols count votes until they are more than half of the servers and rely on
  one law: two such sets of servers share a member.
\<close>

locale quorums =
  fixes is_quorum :: "nat set \<Rightarrow> bool"
  assumes quorum_meet: "is_quorum A \<Longrightarrow> is_quorum B \<Longrightarrow> A \<inter> B \<noteq> {}"
begin

lemma quorum_common:
  assumes "is_quorum A" and "is_quorum B"
  obtains q where "q \<in> A" and "q \<in> B"
  using quorum_meet [OF assms] by blast

lemma quorum_nonempty: "is_quorum A \<Longrightarrow> A \<noteq> {}"
  using quorum_meet [of A A] by simp

text \<open>A function that gives each member of a quorum one choice cannot serve two choices.\<close>

lemma quorum_functional:
  assumes "is_quorum A" and "is_quorum B"
    and "\<And>q. q \<in> A \<Longrightarrow> f q = x" and "\<And>q. q \<in> B \<Longrightarrow> f q = y"
  shows "x = y"
  using quorum_common [OF assms(1,2)] assms(3,4) by metis

end

definition majority :: "nat \<Rightarrow> nat set \<Rightarrow> bool" where
  "majority n A \<longleftrightarrow> A \<subseteq> {..<n} \<and> n < card A * 2"

lemma majority_finite: "majority n A \<Longrightarrow> finite A"
  unfolding majority_def by (metis finite_lessThan finite_subset)

lemma majority_meet:
  assumes "majority n A" and "majority n B"
  shows "A \<inter> B \<noteq> {}"
proof
  assume "A \<inter> B = {}"
  moreover have "finite A" "finite B" using assms by (auto intro: majority_finite)
  ultimately have "card (A \<union> B) = card A + card B" by (simp add: card_Un_disjoint)
  moreover have "card (A \<union> B) \<le> card {..<n}"
    using assms by (intro card_mono) (auto simp: majority_def)
  ultimately show False using assms by (auto simp: majority_def)
qed

interpretation maj: quorums "majority n" for n
  by unfold_locales (rule majority_meet)

section \<open>Runs\<close>

text \<open>
  Both groups of peers are step relations whose reachable states are closed under steps; a
  function that performs one named step makes their runs executable.
\<close>

locale transitions =
  fixes step :: "'s \<Rightarrow> 's \<Rightarrow> bool" and reach :: "'s \<Rightarrow> bool"
  assumes reach_step: "reach s \<Longrightarrow> step s t \<Longrightarrow> reach t"
begin

lemma steps_reach: "step\<^sup>*\<^sup>* s t \<Longrightarrow> reach s \<Longrightarrow> reach t"
  by (induction rule: rtranclp_induct) (auto intro: reach_step)

lemma steps_invariant:
  assumes "step\<^sup>*\<^sup>* s t" and "reach s" and "P s"
    and "\<And>u v. reach u \<Longrightarrow> P u \<Longrightarrow> step u v \<Longrightarrow> P v"
  shows "P t"
  using assms(1)
proof (induction rule: rtranclp_induct)
  case (step u v)
  then show ?case using assms(4) steps_reach [OF step.hyps(1) assms(2)] by blast
qed (rule assms(3))

end

locale runs = transitions step reach
  for step :: "'s \<Rightarrow> 's \<Rightarrow> bool" and reach :: "'s \<Rightarrow> bool" +
  fixes exec :: "'a \<Rightarrow> 's \<Rightarrow> 's option" and run :: "'a list \<Rightarrow> 's \<Rightarrow> 's option"
  assumes exec_sound: "exec a s = Some t \<Longrightarrow> step s t"
    and run_Nil: "run [] s = Some s"
    and run_Cons: "run (a # as) s = (case exec a s of None \<Rightarrow> None | Some t \<Rightarrow> run as t)"
begin

lemma run_steps: "run as s = Some t \<Longrightarrow> step\<^sup>*\<^sup>* s t"
  by (induction as arbitrary: s)
    (auto simp: run_Nil run_Cons split: option.splits
      intro: converse_rtranclp_into_rtranclp dest: exec_sound)

lemma run_append: "run (as @ bs) s = (case run as s of None \<Rightarrow> None | Some t \<Rightarrow> run bs t)"
  by (induction as arbitrary: s) (auto simp: run_Nil run_Cons split: option.splits)

lemma run_reach: "run as s = Some t \<Longrightarrow> reach s \<Longrightarrow> reach t"
  by (rule steps_reach [OF run_steps])

end

end
