(* ===== verification/Paxos_Node.thy ===== *)
theory Paxos_Node
  imports Go_Prelude
begin

text \<open>
  One Paxos peer: paxos.go, rpc.go, acceptor.go, persister.go and ticker.go of the package
  paxos. The instances of a peer are objects behind pointers that proposer and decide
  goroutines keep after the peer has dropped them from its slice, so the model has an
  explicit store: px_instances is the slice of pointers, px_heap the objects. A peer
  allocates the object of sequence number i at the pointer i.

  Goroutines that an operation starts are returned as tasks. An interface value is an
  option, None being nil.
\<close>

section \<open>Messages (rpc.go)\<close>

definition RpcOk :: int where "RpcOk = -1"
definition RpcFail :: int where "RpcFail = 0"
definition LowPrepare :: int where "LowPrepare = 1"
definition HasDecided :: int where "HasDecided = 2"
definition LateRequest :: int where "LateRequest = 3"

lemmas rpc_codes = RpcOk_def RpcFail_def LowPrepare_def HasDecided_def LateRequest_def

record PrepareArgs =
  pa_Seq :: int
  pa_Prepare :: int

record 'v PrepareReply =
  pr_Code :: int
  pr_AcPr :: int
  pr_Value :: "'v option"

record 'v AcceptArgs =
  aa_Seq :: int
  aa_Accept :: int
  aa_Value :: "'v option"

record AcceptReply =
  ar_Reply :: int

record 'v DecideArgs =
  da_Seq :: int
  da_Value :: "'v option"

record DoneReply =
  dr_Done :: int
  dr_Decided :: int
  dr_SrvId :: int

section \<open>State (paxos.go, persister.go)\<close>

datatype Fate = Decided | Pending | Forgotten | Exceeded

record 'v Instance =
  inst_prepare :: int
  inst_accept :: int
  inst_value :: "'v option"
  inst_status :: Fate

record 'v PersistInstance =
  pi_prepare :: int
  pi_accept :: int
  pi_value :: "'v option"
  pi_status :: Fate

record 'v PxPersister =
  ps_paxosstate :: int
  ps_instanceState :: "'v PersistInstance list"
  ps_snapshotuntil :: int
  ps_snapshot :: "byte list"
  ps_enable :: bool

type_synonym ref = int

record 'v Paxos =
  px_peers :: nat
  px_me :: nat
  px_persister :: "'v PxPersister"
  px_dead :: bool
  px_instances :: "ref list"
  px_heap :: "ref \<Rightarrow> 'v Instance"
  px_startIndex :: int
  px_done :: "int list"
  px_decided :: int

datatype 'v task = GoProposer int "'v option" ref | GoDecide int ref "'v option"

section \<open>Persister (persister.go)\<close>

definition px_MakePersister :: "bool \<Rightarrow> 'v PxPersister" where
  "px_MakePersister enable =
     \<lparr>ps_paxosstate = 0, ps_instanceState = [], ps_snapshotuntil = 0, ps_snapshot = [],
      ps_enable = enable\<rparr>"

definition ps_Copy :: "'v PxPersister \<Rightarrow> 'v PxPersister" where
  "ps_Copy ps = (px_MakePersister (ps_enable ps))
     \<lparr>ps_paxosstate := ps_paxosstate ps, ps_instanceState := ps_instanceState ps\<rparr>"

definition ps_ReadPaxosState :: "'v PxPersister \<Rightarrow> int \<times> 'v PersistInstance list" where
  "ps_ReadPaxosState ps = (ps_paxosstate ps, ps_instanceState ps)"

definition ps_Save :: "int \<Rightarrow> 'v PersistInstance list \<Rightarrow> 'v PxPersister \<Rightarrow> 'v PxPersister" where
  "ps_Save paxosstate instState ps =
     ps\<lparr>ps_paxosstate := paxosstate, ps_instanceState := instState\<rparr>"

definition ps_Snapshot :: "int \<Rightarrow> byte list \<Rightarrow> 'v PxPersister \<Rightarrow> 'v PxPersister" where
  "ps_Snapshot until snapshot ps = ps\<lparr>ps_snapshotuntil := until, ps_snapshot := snapshot\<rparr>"

definition ps_ReadSnapshot :: "'v PxPersister \<Rightarrow> int \<times> byte list" where
  "ps_ReadSnapshot ps = (ps_snapshotuntil ps, ps_snapshot ps)"

text \<open>The field copies between Instance and PersistInstance, in both directions.\<close>

definition psi_read :: "'v PersistInstance \<Rightarrow> 'v Instance" where
  "psi_read psi = \<lparr>inst_prepare = pi_prepare psi, inst_accept = pi_accept psi,
     inst_value = pi_value psi, inst_status = pi_status psi\<rparr>"

definition psi_of :: "'v Instance \<Rightarrow> 'v PersistInstance" where
  "psi_of inst = \<lparr>pi_prepare = inst_prepare inst, pi_accept = inst_accept inst,
     pi_value = inst_value inst, pi_status = inst_status inst\<rparr>"

definition psi_pending :: "'v PersistInstance" where
  "psi_pending = \<lparr>pi_prepare = 0, pi_accept = 0, pi_value = None, pi_status = Pending\<rparr>"

fun ps_extend :: "nat \<Rightarrow> 'v PersistInstance list \<Rightarrow> 'v PersistInstance list" where
  "ps_extend 0 pinsts = pinsts"
| "ps_extend (Suc missing) pinsts = ps_extend missing (pinsts @ [psi_pending])"

definition persistInstanceL ::
  "int \<Rightarrow> 'v Instance \<Rightarrow> 'v PxPersister \<Rightarrow> 'v PxPersister" where
  "persistInstanceL seq inst ps =
     (if ps_enable ps then
        if seq < ps_paxosstate ps then ps
        else let k = nat (seq - ps_paxosstate ps);
                 pinsts = ps_extend (Suc k - length (ps_instanceState ps)) (ps_instanceState ps)
             in ps\<lparr>ps_instanceState := pinsts[k := psi_of inst]\<rparr>
      else ps)"

definition px_persistL :: "bool \<Rightarrow> 'v Paxos \<Rightarrow> 'v Paxos" where
  "px_persistL force px =
     (if ps_enable (px_persister px) \<or> force then
        px\<lparr>px_persister := ps_Save (px_startIndex px)
              (map (\<lambda>r. psi_of (px_heap px r)) (px_instances px)) (px_persister px)\<rparr>
      else px)"

section \<open>The peer (paxos.go)\<close>

definition new_instance :: "'v Instance" where
  "new_instance = \<lparr>inst_prepare = 0, inst_accept = 0, inst_value = None, inst_status = Pending\<rparr>"

function getInstanceL_loop ::
  "int \<Rightarrow> bool \<Rightarrow> int \<Rightarrow> 'v Paxos \<Rightarrow> 'v Paxos \<times> 'v task list" where
  "getInstanceL_loop seq propose i px =
     (if i \<le> seq then
        let px1 = px\<lparr>px_heap := (px_heap px)(i := new_instance),
                     px_instances := px_instances px @ [i]\<rparr>;
            tasks = (if i < seq \<or> propose then [GoProposer i None i] else []);
            (px2, tasks2) = getInstanceL_loop seq propose (i + 1) px1
        in (px2, tasks @ tasks2)
      else (px, []))"
  by pat_completeness auto
termination
  by (relation "measure (\<lambda>(seq, propose, i, px). nat (seq + 1 - i))") auto

declare getInstanceL_loop.simps [simp del]

definition getInstanceL ::
  "int \<Rightarrow> bool \<Rightarrow> 'v Paxos \<Rightarrow> ('v Paxos \<times> ref option \<times> 'v task list) panics" where
  "getInstanceL seq propose px =
     (if seq < px_startIndex px then Some (px, None, [])
      else do {
        let (px1, tasks) = getInstanceL_loop seq propose
               (int (length (px_instances px)) + px_startIndex px) px;
        r \<leftarrow> go_index (px_instances px1) (seq - px_startIndex px1);
        Some (px1, Some r, tasks)
      })"

text \<open>decide works in two critical sections: the instance, then the peer.\<close>

definition decide_inst :: "'v option \<Rightarrow> 'v Instance \<Rightarrow> 'v Instance" where
  "decide_inst value inst =
     (if inst_status inst \<noteq> Decided then
        (case value of
           None \<Rightarrow> inst\<lparr>inst_status := Decided\<rparr>
         | Some v \<Rightarrow> inst\<lparr>inst_status := Decided, inst_value := Some v\<rparr>)
      else inst)"

definition px_decide :: "int \<Rightarrow> ref \<Rightarrow> 'v option \<Rightarrow> 'v Paxos \<Rightarrow> 'v Paxos" where
  "px_decide seq r value px =
     (let inst = decide_inst value (px_heap px r);
          px1 = (if inst_status (px_heap px r) \<noteq> Decided then
                   px\<lparr>px_heap := (px_heap px)(r := inst),
                      px_persister := persistInstanceL seq inst (px_persister px)\<rparr>
                 else px)
      in if seq > px_decided px1 then px1\<lparr>px_decided := seq\<rparr> else px1)"

definition px_Start :: "int \<Rightarrow> 'v option \<Rightarrow> 'v Paxos \<Rightarrow> ('v Paxos \<times> 'v task list) panics" where
  "px_Start seq v px = do {
     (px1, inst, tasks) \<leftarrow> getInstanceL seq False px;
     Some (px1, case inst of None \<Rightarrow> tasks | Some r \<Rightarrow> tasks @ [GoProposer seq v r])
   }"

definition px_Done :: "int \<Rightarrow> 'v Paxos \<Rightarrow> 'v Paxos panics" where
  "px_Done seq px = do {
     d \<leftarrow> go_index (px_done px) (int (px_me px));
     if seq \<ge> d then do {
       done \<leftarrow> go_store (px_done px) (int (px_me px)) (seq + 1);
       Some (px\<lparr>px_done := done\<rparr>)
     } else Some px
   }"

definition px_Max :: "'v Paxos \<Rightarrow> int" where
  "px_Max px = px_startIndex px + int (length (px_instances px)) - 1"

definition px_Min :: "'v Paxos \<Rightarrow> int" where
  "px_Min px = px_startIndex px"

definition px_Status :: "int \<Rightarrow> 'v Paxos \<Rightarrow> (Fate \<times> 'v option) panics" where
  "px_Status seq px =
     (if seq \<ge> int (length (px_instances px)) + px_startIndex px then Some (Exceeded, None)
      else do {
        (px1, inst, tasks) \<leftarrow> getInstanceL seq False px;
        case inst of
          None \<Rightarrow> Some (Forgotten, None)
        | Some r \<Rightarrow>
            if inst_status (px_heap px1 r) = Decided
            then Some (Decided, inst_value (px_heap px1 r))
            else Some (Pending, None)
      })"

definition px_Kill :: "'v Paxos \<Rightarrow> 'v Paxos" where
  "px_Kill px = px\<lparr>px_dead := True\<rparr>"

definition px_isdead :: "'v Paxos \<Rightarrow> bool" where
  "px_isdead px = px_dead px"

definition px_Persist :: "'v Paxos \<Rightarrow> 'v Paxos" where
  "px_Persist px = px_persistL True px"

text \<open>The restore loop of readPersist appends one object per saved instance.\<close>

fun readPersist_loop ::
  "int \<Rightarrow> int \<Rightarrow> 'v PersistInstance list \<Rightarrow> 'v Paxos \<Rightarrow> 'v Paxos \<times> 'v task list" where
  "readPersist_loop startIndex i [] px = (px, [])"
| "readPersist_loop startIndex i (pinst # pinsts) px =
     (let inst = psi_read pinst; r = startIndex + i;
          px1 = px\<lparr>px_heap := (px_heap px)(r := inst), px_instances := px_instances px @ [r]\<rparr>;
          px2 = (if inst_status inst = Decided then px1\<lparr>px_decided := startIndex + i\<rparr> else px1);
          tasks = (if inst_status inst = Decided then [] else [GoProposer (startIndex + i) None r]);
          (px3, tasks3) = readPersist_loop startIndex (i + 1) pinsts px2
      in (px3, tasks @ tasks3))"

definition px_readPersist :: "'v PxPersister \<Rightarrow> 'v Paxos \<Rightarrow> ('v Paxos \<times> 'v task list) panics" where
  "px_readPersist ps px = do {
     let (startIndex, instances) = ps_ReadPaxosState ps;
     done \<leftarrow> go_store (px_done px) (int (px_me px)) startIndex;
     Some (readPersist_loop startIndex 0 instances
       (px\<lparr>px_startIndex := startIndex, px_done := done, px_decided := startIndex - 1\<rparr>))
   }"

definition px_Make :: "nat \<Rightarrow> nat \<Rightarrow> 'v PxPersister \<Rightarrow> ('v Paxos \<times> 'v task list) panics" where
  "px_Make peers me persister =
     px_readPersist persister
       \<lparr>px_peers = peers, px_me = me, px_persister = persister, px_dead = False,
        px_instances = [], px_heap = (\<lambda>_. new_instance), px_startIndex = 0,
        px_done = replicate peers 0, px_decided = 0\<rparr>"

section \<open>RPC handlers (acceptor.go)\<close>

definition prepare_inst :: "int \<Rightarrow> 'v Instance \<Rightarrow> 'v Instance \<times> 'v PrepareReply" where
  "prepare_inst prepare inst =
     (if inst_status inst = Decided then
        (inst, \<lparr>pr_Code = HasDecided, pr_AcPr = 0, pr_Value = inst_value inst\<rparr>)
      else if prepare > inst_prepare inst then
        (inst\<lparr>inst_prepare := prepare\<rparr>,
         \<lparr>pr_Code = RpcOk, pr_AcPr = inst_accept inst, pr_Value = inst_value inst\<rparr>)
      else
        (inst, \<lparr>pr_Code = LowPrepare, pr_AcPr = inst_prepare inst, pr_Value = None\<rparr>))"

definition px_Prepare ::
  "PrepareArgs \<Rightarrow> 'v Paxos \<Rightarrow> ('v Paxos \<times> 'v PrepareReply \<times> 'v task list) panics" where
  "px_Prepare args px = do {
     (px1, inst, tasks) \<leftarrow> getInstanceL (pa_Seq args) True px;
     case inst of
       None \<Rightarrow> Some (px1, \<lparr>pr_Code = LateRequest, pr_AcPr = 0, pr_Value = None\<rparr>, tasks)
     | Some r \<Rightarrow>
         let (inst1, reply) = prepare_inst (pa_Prepare args) (px_heap px1 r)
         in Some (px1\<lparr>px_heap := (px_heap px1)(r := inst1)\<rparr>, reply, tasks)
   }"

text \<open>The flag says whether the value was accepted, which is when the handler persists it.\<close>

definition accept_inst ::
  "int \<Rightarrow> 'v option \<Rightarrow> 'v Instance \<Rightarrow> 'v Instance \<times> AcceptReply \<times> bool" where
  "accept_inst accept value inst =
     (if inst_status inst \<noteq> Decided \<and> accept \<ge> inst_prepare inst then
        (inst\<lparr>inst_prepare := accept, inst_accept := accept, inst_value := value\<rparr>,
         \<lparr>ar_Reply = RpcOk\<rparr>, True)
      else (inst, \<lparr>ar_Reply = inst_prepare inst\<rparr>, False))"

definition px_Accept ::
  "'v AcceptArgs \<Rightarrow> 'v Paxos \<Rightarrow> ('v Paxos \<times> AcceptReply \<times> 'v task list) panics" where
  "px_Accept args px = do {
     (px1, inst, tasks) \<leftarrow> getInstanceL (aa_Seq args) True px;
     case inst of
       None \<Rightarrow> Some (px1, \<lparr>ar_Reply = RpcFail\<rparr>, tasks)
     | Some r \<Rightarrow>
         let (inst1, reply, accepted) =
               accept_inst (aa_Accept args) (aa_Value args) (px_heap px1 r);
             px2 = px1\<lparr>px_heap := (px_heap px1)(r := inst1)\<rparr>;
             px3 = (if accepted
                    then px2\<lparr>px_persister := persistInstanceL (aa_Seq args) inst1 (px_persister px2)\<rparr>
                    else px2)
         in Some (px3, reply, tasks)
   }"

definition px_Decide :: "'v DecideArgs \<Rightarrow> 'v Paxos \<Rightarrow> ('v Paxos \<times> 'v task list) panics" where
  "px_Decide args px = do {
     (px1, inst, tasks) \<leftarrow> getInstanceL (da_Seq args) False px;
     Some (px1, case inst of None \<Rightarrow> tasks
                | Some r \<Rightarrow> tasks @ [GoDecide (da_Seq args) r (da_Value args)])
   }"

section \<open>Forgetting (ticker.go)\<close>

definition px_GetDone :: "'v Paxos \<Rightarrow> DoneReply panics" where
  "px_GetDone px = do {
     d \<leftarrow> go_index (px_done px) (int (px_me px));
     Some \<lparr>dr_Done = d, dr_Decided = px_decided px, dr_SrvId = int (px_me px)\<rparr>
   }"

text \<open>
  One reply per peer. A failed call leaves the zero DoneReply with SrvId set to -1.
\<close>

definition failed_DoneReply :: DoneReply where
  "failed_DoneReply = \<lparr>dr_Done = 0, dr_Decided = 0, dr_SrvId = -1\<rparr>"

fun ticker_collect :: "DoneReply list \<Rightarrow> int list \<Rightarrow> int \<Rightarrow> (int list \<times> int) panics" where
  "ticker_collect [] replyDone replyDecided = Some (replyDone, replyDecided)"
| "ticker_collect (reply # replies) replyDone replyDecided =
     (let decided = (if dr_Decided reply > replyDecided then dr_Decided reply else replyDecided)
      in if dr_SrvId reply \<ge> 0 then do {
           done \<leftarrow> go_store replyDone (dr_SrvId reply) (dr_Done reply);
           ticker_collect replies done decided
         } else ticker_collect replies replyDone decided)"

fun ticker_merge :: "int list \<Rightarrow> nat \<Rightarrow> int list \<Rightarrow> int \<Rightarrow> (int list \<times> int) panics" where
  "ticker_merge [] i done d = Some (done, d)"
| "ticker_merge (rd # rds) i done d = do {
     di \<leftarrow> go_index done (int i);
     let (done1, di1) = (if rd > di then (done[i := rd], rd) else (done, di));
     ticker_merge rds (Suc i) done1 (if di1 < d then di1 else d)
   }"

fun ticker_forget :: "int \<Rightarrow> nat \<Rightarrow> 'v Paxos \<Rightarrow> ('v Paxos \<times> 'v task list) panics" where
  "ticker_forget i 0 px = Some (px, [])"
| "ticker_forget i (Suc k) px = do {
     (px1, inst, tasks) \<leftarrow> getInstanceL i False px;
     (px2, tasks2) \<leftarrow> ticker_forget (i + 1) k px1;
     Some (px2, tasks @ (case inst of None \<Rightarrow> [] | Some r \<Rightarrow> [GoDecide i r None]) @ tasks2)
   }"

definition ticker_advance :: "int \<Rightarrow> 'v Paxos \<Rightarrow> ('v Paxos \<times> 'v task list) panics" where
  "ticker_advance done0 px =
     (if done0 > px_startIndex px then do {
        let done = (if done0 > px_startIndex px + int (length (px_instances px))
                    then px_startIndex px + int (length (px_instances px)) else done0);
        (px1, tasks) \<leftarrow> ticker_forget (px_startIndex px) (nat (done - px_startIndex px)) px;
        instances \<leftarrow> go_from (px_instances px1) (done - px_startIndex px1);
        Some (px_persistL False (px1\<lparr>px_instances := instances, px_startIndex := done\<rparr>), tasks)
      } else Some (px, []))"

definition px_tick :: "DoneReply list \<Rightarrow> 'v Paxos \<Rightarrow> ('v Paxos \<times> 'v task list) panics" where
  "px_tick replies px = do {
     (replyDone, replyDecided) \<leftarrow> ticker_collect replies (replicate (px_peers px) 0) (-1);
     d0 \<leftarrow> go_index (px_done px) (int (px_me px));
     (done, d) \<leftarrow> ticker_merge replyDone 0 (px_done px) d0;
     (px1, tasks1) \<leftarrow> ticker_advance d (px\<lparr>px_done := done\<rparr>);
     if replyDecided > px_decided px1 then do {
       (px2, inst, tasks2) \<leftarrow> getInstanceL replyDecided True px1;
       Some (px2, tasks1 @ tasks2)
     } else Some (px1, tasks1)
   }"

section \<open>The window of live instances\<close>

text \<open>
  Well-formedness of a peer: the slice holds the pointers of a contiguous window that
  starts at px_startIndex, objects above the window are still fresh, and there is one
  done entry per peer.
\<close>

definition px_next :: "'v Paxos \<Rightarrow> int" where
  "px_next px = px_startIndex px + int (length (px_instances px))"

definition px_wf :: "'v Paxos \<Rightarrow> bool" where
  "px_wf px \<longleftrightarrow> 0 \<le> px_startIndex px \<and>
     px_instances px = [px_startIndex px .. px_next px - 1] \<and>
     (\<forall>i \<ge> px_next px. px_heap px i = new_instance) \<and>
     length (px_done px) = px_peers px \<and> px_me px < px_peers px"

lemma getInstanceL_loop_eq:
  "getInstanceL_loop seq propose i px =
     (px\<lparr>px_heap := (\<lambda>j. if i \<le> j \<and> j \<le> seq then new_instance else px_heap px j),
         px_instances := px_instances px @ [i..seq]\<rparr>,
      map (\<lambda>j. GoProposer j None j) (filter (\<lambda>j. j < seq \<or> propose) [i..seq]))"
proof (induction seq propose i px rule: getInstanceL_loop.induct)
  case (1 seq propose i px)
  show ?case
  proof (cases "i \<le> seq")
    case True
    define px1 where "px1 = px\<lparr>px_heap := (px_heap px)(i := new_instance),
                               px_instances := px_instances px @ [i]\<rparr>"
    have heap: "(\<lambda>j. if i + 1 \<le> j \<and> j \<le> seq then new_instance else px_heap px1 j) =
               (\<lambda>j. if i \<le> j \<and> j \<le> seq then new_instance else px_heap px j)"
      using True by (auto simp: fun_eq_iff px1_def)
    have px2: "px1\<lparr>px_heap := h, px_instances := px_instances px1 @ [i + 1..seq]\<rparr> =
               px\<lparr>px_heap := h, px_instances := px_instances px @ [i..seq]\<rparr>" for h
      using True by (simp add: px1_def upto_rec1)
    have "getInstanceL_loop seq propose i px =
       (let (px2, tasks2) = getInstanceL_loop seq propose (i + 1) px1
        in (px2, (if i < seq \<or> propose then [GoProposer i None i] else []) @ tasks2))"
      using True by (subst getInstanceL_loop.simps) (simp add: px1_def Let_def)
    then show ?thesis
      using True "1.IH" [OF True px1_def refl] unfolding heap px2
      by (simp add: upto_rec1 [of i seq])
  next
    case False
    then have "(\<lambda>j. if i \<le> j \<and> j \<le> seq then new_instance else px_heap px j) = px_heap px"
      by (auto simp: fun_eq_iff)
    with False show ?thesis by (subst getInstanceL_loop.simps) simp
  qed
qed

lemma upto_append: "i \<le> j + 1 \<Longrightarrow> j \<le> k \<Longrightarrow> [i..j] @ [j + 1..k] = [i..k::int]"
proof (cases "i \<le> j")
  case False
  moreover assume "i \<le> j + 1"
  ultimately have "i = j + 1" by simp
  then show ?thesis by simp
qed (simp add: upto_split2 [of i j k])

text \<open>Looking an instance up never panics: the slice has been grown to hold it.\<close>

lemma getInstanceL_total: "\<exists>px1 r tasks. getInstanceL seq propose px = Some (px1, r, tasks)"
  by (auto simp: getInstanceL_def getInstanceL_loop_eq go_index_def)

definition px_grow :: "int \<Rightarrow> 'v Paxos \<Rightarrow> 'v Paxos" where
  "px_grow seq px = px\<lparr>px_instances := [px_startIndex px .. max (px_next px - 1) seq]\<rparr>"

lemma px_grow_simps [simp]:
  "px_startIndex (px_grow seq px) = px_startIndex px" "px_heap (px_grow seq px) = px_heap px"
  "px_done (px_grow seq px) = px_done px" "px_me (px_grow seq px) = px_me px"
  "px_peers (px_grow seq px) = px_peers px" "px_persister (px_grow seq px) = px_persister px"
  "px_decided (px_grow seq px) = px_decided px"
  by (simp_all add: px_grow_def)

lemma px_next_grow:
  assumes "px_startIndex px \<le> seq"
  shows "px_next (px_grow seq px) = max (px_next px) (seq + 1)"
proof -
  have "px_startIndex px \<le> px_next px" by (simp add: px_next_def)
  then have "px_startIndex px + int (nat (max (px_next px - 1) seq - px_startIndex px + 1)) =
             max (px_next px - 1) seq + 1"
    using assms by simp
  then show ?thesis
    unfolding px_next_def [of "px_grow seq px"] by (simp add: px_grow_def)
qed

lemma px_wf_grow: "px_wf px \<Longrightarrow> px_startIndex px \<le> seq \<Longrightarrow> px_wf (px_grow seq px)"
  by (auto simp: px_wf_def px_next_grow) (auto simp: px_grow_def max_def)

lemma getInstanceL_wf:
  assumes wf: "px_wf px"
  shows "getInstanceL seq propose px =
     (if seq < px_startIndex px then Some (px, None, [])
      else Some (px_grow seq px, Some seq,
        map (\<lambda>j. GoProposer j None j) (filter (\<lambda>j. j < seq \<or> propose) [px_next px..seq])))"
proof (cases "seq < px_startIndex px")
  case True
  then show ?thesis by (simp add: getInstanceL_def)
next
  case False
  have inst: "px_instances px = [px_startIndex px..px_next px - 1]"
    and fresh: "\<And>i. px_next px \<le> i \<Longrightarrow> px_heap px i = new_instance"
    and len: "px_startIndex px \<le> px_next px"
    using wf by (auto simp: px_wf_def px_next_def)
  have heap: "(\<lambda>j. if px_next px \<le> j \<and> j \<le> seq then new_instance else px_heap px j) = px_heap px"
    using fresh by (auto simp: fun_eq_iff)
  have app: "px_instances px @ [px_next px..seq] = [px_startIndex px..max (px_next px - 1) seq]"
  proof (cases "px_next px \<le> seq")
    case True
    then show ?thesis
      using upto_append [of "px_startIndex px" "px_next px - 1" seq] len
      by (simp add: inst max_def)
  next
    case False
    then have "max (px_next px - 1) seq = px_next px - 1" by simp
    with False show ?thesis by (simp add: inst)
  qed
  have "getInstanceL_loop seq propose (int (length (px_instances px)) + px_startIndex px) px =
     (px_grow seq px,
      map (\<lambda>j. GoProposer j None j) (filter (\<lambda>j. j < seq \<or> propose) [px_next px..seq]))"
    by (simp add: getInstanceL_loop_eq px_grow_def app heap add.commute flip: px_next_def)
  moreover have "go_index (px_instances (px_grow seq px)) (seq - px_startIndex px) = Some seq"
    using False by (simp add: go_index_def px_grow_def nth_upto max_def)
  ultimately show ?thesis using False by (simp add: getInstanceL_def)
qed

section \<open>The ticker\<close>

lemma ticker_collect_Some:
  "ticker_collect replies rd d = Some (rd', d') \<Longrightarrow>
   length rd' = length rd \<and> d \<le> d' \<and>
   (\<forall>q. (\<forall>r \<in> set replies. dr_SrvId r \<noteq> int q) \<longrightarrow> q < length rd \<longrightarrow> rd' ! q = rd ! q)"
proof (induction replies rd d rule: ticker_collect.induct)
  case (2 reply replies rd d)
  then show ?case
    by (fastforce simp: Let_def go_store_def nat_eq_iff split: if_splits bind_splits)
qed simp

lemma ticker_merge_eq:
  "i + length rds = length done \<Longrightarrow>
   ticker_merge rds i done d =
     Some (take i done @ map2 max (drop i done) rds, foldl min d (map2 max (drop i done) rds))"
proof (induction rds arbitrary: i "done" d)
  case (Cons rd rds)
  from Cons(2) have i: "i < length done" by simp
  then have drop: "drop i done = done ! i # drop (Suc i) done" by (rule Cons_nth_drop_Suc [symmetric])
  let ?m = "max (done ! i) rd"
  let ?r = "if rd > done ! i then (done[i := rd], rd) else (done, done ! i)"
  have r: "?r = (done[i := ?m], ?m)" by (simp add: max_def)
  have d: "(if m < d then m else d) = min d m" for m by (simp add: min_def)
  have "ticker_merge (rd # rds) i done d = ticker_merge rds (Suc i) (done[i := ?m]) (min d ?m)"
    using i by (simp only: ticker_merge.simps) (simp add: r d del: ticker_merge.simps)
  also have "\<dots> = Some (take (Suc i) (done[i := ?m]) @ map2 max (drop (Suc i) done) rds,
                      foldl min (min d ?m) (map2 max (drop (Suc i) done) rds))"
    using Cons.IH [of "Suc i" "done[i := ?m]" "min d ?m"] Cons.prems by simp
  finally show ?case
    using i by (simp add: drop take_Suc_conv_app_nth)
qed simp

lemma foldl_min_le: "foldl min d xs \<le> (d::int)" "x \<in> set xs \<Longrightarrow> foldl min d xs \<le> x"
proof (induction xs arbitrary: d)
  case (Cons y ys)
  { case 1 show ?case using Cons.IH(1) [of "min d y"] by simp }
  { case 2 then show ?case using Cons.IH(1) [of "min d y"] Cons.IH(2) [of "min d y"] by auto }
qed simp_all

lemma ticker_forget_eq:
  "px_wf px \<Longrightarrow> px_startIndex px \<le> i \<Longrightarrow> i + int k \<le> px_next px \<Longrightarrow>
   ticker_forget i k px = Some (px, map (\<lambda>j. GoDecide j j None) [i..i + int k - 1])"
proof (induction i k px rule: ticker_forget.induct)
  case (2 i k px)
  have "max (px_next px - 1) i = px_next px - 1" using "2.prems"(3) by simp
  then have "px_grow i px = px"
    using "2.prems"(1) by (simp add: px_grow_def px_wf_def)
  then have "getInstanceL i False px = Some (px, Some i, [])"
    using "2.prems" by (simp add: getInstanceL_wf)
  then show ?case
    using 2 by (simp add: upto_rec1 algebra_simps)
qed simp

lemma px_persistL_simps [simp]:
  "px_startIndex (px_persistL force px) = px_startIndex px"
  "px_heap (px_persistL force px) = px_heap px" "px_done (px_persistL force px) = px_done px"
  "px_me (px_persistL force px) = px_me px" "px_peers (px_persistL force px) = px_peers px"
  "px_instances (px_persistL force px) = px_instances px"
  "px_next (px_persistL force px) = px_next px" "px_decided (px_persistL force px) = px_decided px"
  by (simp_all add: px_persistL_def px_next_def)

definition px_forget :: "int \<Rightarrow> 'v Paxos \<Rightarrow> 'v Paxos" where
  "px_forget d px = px\<lparr>px_instances := [d..px_next px - 1], px_startIndex := d\<rparr>"

lemma px_forget_wf:
  "px_wf px \<Longrightarrow> px_startIndex px \<le> d \<Longrightarrow> d \<le> px_next px \<Longrightarrow>
   px_wf (px_forget d px) \<and> px_next (px_forget d px) = px_next px"
  by (auto simp: px_wf_def px_next_def px_forget_def)

lemma ticker_advance_eq:
  assumes wf: "px_wf px" and d: "px_startIndex px < d"
  shows "ticker_advance d px =
     Some (px_persistL False (px_forget (min d (px_next px)) px),
       map (\<lambda>j. GoDecide j j None) [px_startIndex px..min d (px_next px) - 1])"
proof -
  define e where "e = min d (px_next px)"
  have le: "px_startIndex px \<le> px_next px" by (simp add: px_next_def)
  then have e: "px_startIndex px \<le> e" "e \<le> px_next px" using d by (auto simp: e_def)
  have e': "(if d > px_startIndex px + int (length (px_instances px))
             then px_startIndex px + int (length (px_instances px)) else d) = e"
    by (simp add: e_def px_next_def)
  have inst: "px_instances px = [px_startIndex px..px_next px - 1]"
    using wf by (simp add: px_wf_def)
  have "go_from (px_instances px) (e - px_startIndex px) = Some [e..px_next px - 1]"
  proof (cases "e = px_startIndex px")
    case True
    then show ?thesis by (simp add: go_from_def inst)
  next
    case False
    have "px_instances px = [px_startIndex px..e - 1] @ [e..px_next px - 1]"
      using upto_append [of "px_startIndex px" "e - 1" "px_next px - 1"] e False
      by (simp add: inst)
    then show ?thesis using e by (simp add: go_from_def)
  qed
  then show ?thesis
    using d e ticker_forget_eq [OF wf order_refl, of "nat (e - px_startIndex px)"]
    by (simp add: ticker_advance_def Let_def e' px_forget_def flip: e_def)
qed

text \<open>
  What one tick does to a well-formed peer. The done vector takes the pointwise maximum
  with the replies, the window starts at the least of its entries (but never moves back
  and never past its end), and the objects themselves are left alone.
\<close>

lemma px_tick_spec:
  assumes wf: "px_wf px" and tick: "px_tick replies px = Some (px', tasks)"
  obtains rd dec e where
    "ticker_collect replies (replicate (px_peers px) 0) (-1) = Some (rd, dec)"
    "px_done px' = map2 max (px_done px) rd"
    "e = foldl min (px_done px ! px_me px) (px_done px')"
    "px_startIndex px' = max (px_startIndex px) (min e (px_next px))"
    "px_next px \<le> px_next px'" "px_wf px'" "px_heap px' = px_heap px"
    "px_me px' = px_me px" "px_peers px' = px_peers px"
proof -
  obtain rd dec where rd: "ticker_collect replies (replicate (px_peers px) 0) (-1) = Some (rd, dec)"
    using tick by (auto simp: px_tick_def split: bind_splits)
  have me: "px_me px < length (px_done px)" and len: "length rd = length (px_done px)"
    using wf ticker_collect_Some [OF rd] by (auto simp: px_wf_def)
  define e where "e = foldl min (px_done px ! px_me px) (map2 max (px_done px) rd)"
  define px0 where "px0 = px\<lparr>px_done := map2 max (px_done px) rd\<rparr>"
  define px1 where "px1 = (if e > px_startIndex px
      then px_persistL False (px_forget (min e (px_next px)) px0) else px0)"
  have wf0: "px_wf px0" and next0: "px_next px0 = px_next px"
    using wf len by (auto simp: px_wf_def px0_def px_next_def)
  have le: "px_startIndex px \<le> px_next px" by (simp add: px_next_def)
  have wf1: "px_wf px1 \<and> px_next px1 = px_next px"
  proof (cases "e > px_startIndex px")
    case True
    then have "px_wf (px_forget (min e (px_next px)) px0) \<and>
        px_next (px_forget (min e (px_next px)) px0) = px_next px0"
      using px_forget_wf [OF wf0, of "min e (px_next px)"] le next0 by (simp add: px0_def)
    with True next0 show ?thesis by (simp add: px1_def px_wf_def)
  qed (simp add: px1_def wf0 next0)
  have "ticker_advance e px0 = Some (px1, if e > px_startIndex px
      then map (\<lambda>j. GoDecide j j None) [px_startIndex px..min e (px_next px) - 1] else [])"
    using ticker_advance_eq [OF wf0, of e] next0
    by (auto simp: px1_def px0_def ticker_advance_def)
  then have "px' = px1 \<or> (\<exists>r tasks2. getInstanceL dec True px1 = Some (px', r, tasks2))"
    using tick rd me len
    by (auto simp: px_tick_def ticker_merge_eq px0_def e_def split: bind_splits if_splits)
  then have grow: "px' = px1 \<or> px_startIndex px1 \<le> dec \<and> px' = px_grow dec px1"
    using getInstanceL_wf [of px1 dec True] wf1 by (auto split: if_splits)
  have fields: "px_startIndex px' = px_startIndex px1" "px_heap px' = px_heap px1"
    "px_done px' = px_done px1" "px_me px' = px_me px1" "px_peers px' = px_peers px1"
    using grow by auto
  have more: "px_next px1 \<le> px_next px'" "px_wf px'"
    using grow wf1 px_next_grow [of px1 dec] px_wf_grow [of px1 dec] by auto
  have px1: "px_startIndex px1 = max (px_startIndex px) (min e (px_next px))"
    "px_heap px1 = px_heap px" "px_done px1 = map2 max (px_done px) rd" "px_me px1 = px_me px"
    "px_peers px1 = px_peers px"
    using le by (auto simp: px1_def px0_def px_forget_def)
  show ?thesis
    by (rule that [OF rd, of e]) (use fields more px1 wf1 in \<open>auto simp: e_def\<close>)
qed

end
