(* ===== verification/Paxos_Proposer.thy ===== *)
theory Paxos_Proposer
  imports Paxos_Node
begin

text \<open>
  The proposer goroutine of proposer.go. It touches shared state in four short critical
  sections on its instance; in between it only reads its reply channels and its own
  variables. The model has one definition per section and per reply loop:

    proposer_begin   lines 23-32, the new ballot number;
    prepare_loop     lines 47-82, the replies to Prepare, in the order they arrive;
    proposer_accept  lines 83-100, its own acceptance before the Accept calls;
    accept_loop      lines 121-140, the replies to Accept;
    raise_prepare    lines 68-72 and 153-157, learning of a higher ballot.

  A reply that was lost is the zero reply, whose code is Fail.
\<close>

section \<open>The ballot\<close>

definition proposer_begin :: "'v Instance \<Rightarrow> ('v Instance \<times> int \<times> 'v option \<times> int) option" where
  "proposer_begin inst =
     (if inst_status inst = Decided then None
      else let inst1 = inst\<lparr>inst_prepare := inst_prepare inst + 1\<rparr>
           in Some (inst1, inst_prepare inst1, inst_value inst1, inst_accept inst1))"

definition raise_prepare :: "int \<Rightarrow> 'v Instance \<Rightarrow> 'v Instance" where
  "raise_prepare n inst = (if n > inst_prepare inst then inst\<lparr>inst_prepare := n\<rparr> else inst)"

section \<open>Replies to Prepare\<close>

datatype 'v prep_outcome =
    PrepareOk int "'v option"
  | PrepareDecided "'v option"
  | PrepareLow int
  | PrepareLate
  | BadNetwork
  | PrepareExhausted

definition zero_PrepareReply :: "'v PrepareReply" where
  "zero_PrepareReply = \<lparr>pr_Code = RpcFail, pr_AcPr = 0, pr_Value = None\<rparr>"

fun prepare_loop ::
  "int \<Rightarrow> int \<Rightarrow> int \<Rightarrow> int \<Rightarrow> 'v option \<Rightarrow> 'v PrepareReply list \<Rightarrow> 'v prep_outcome" where
  "prepare_loop numServers i votes accept value [] = PrepareExhausted"
| "prepare_loop numServers i votes accept value (reply # replies) =
     (if pr_Code reply = RpcOk then
        let votes1 = votes + 1;
            accept1 = (if pr_AcPr reply > accept then pr_AcPr reply else accept);
            value1 = (if pr_AcPr reply > accept then pr_Value reply else value)
        in if votes1 * 2 > numServers then PrepareOk accept1 value1
           else if (i + 1 - votes1) * 2 \<ge> numServers then BadNetwork
           else prepare_loop numServers (i + 1) votes1 accept1 value1 replies
      else if pr_Code reply = HasDecided then PrepareDecided (pr_Value reply)
      else if pr_Code reply = LowPrepare then PrepareLow (pr_AcPr reply)
      else if pr_Code reply = LateRequest then PrepareLate
      else if (i + 1 - votes) * 2 \<ge> numServers then BadNetwork
      else prepare_loop numServers (i + 1) votes accept value replies)"

definition run_prepare_loop ::
  "nat \<Rightarrow> int \<Rightarrow> 'v option \<Rightarrow> 'v PrepareReply list \<Rightarrow> 'v prep_outcome" where
  "run_prepare_loop numServers accept value replies =
     prepare_loop (int numServers) 1 1 accept value replies"

section \<open>Its own acceptance\<close>

datatype 'v accept_entry = EntryDecided | EntryStale | EntryAccepted "'v Instance" "'v option"

definition chosen_value :: "'v option \<Rightarrow> 'v option \<Rightarrow> 'v option" where
  "chosen_value value v = (if value = None then v else value)"

definition proposer_accept ::
  "int \<Rightarrow> 'v option \<Rightarrow> 'v option \<Rightarrow> 'v Instance \<Rightarrow> 'v accept_entry" where
  "proposer_accept prepare value v inst =
     (if inst_status inst = Decided then EntryDecided
      else if inst_prepare inst \<noteq> prepare then EntryStale
      else EntryAccepted
             (inst\<lparr>inst_accept := prepare, inst_value := chosen_value value v\<rparr>)
             (chosen_value value v))"

section \<open>Replies to Accept\<close>

datatype accept_outcome = AcceptOk | AcceptFailed int

definition zero_AcceptReply :: AcceptReply where
  "zero_AcceptReply = \<lparr>ar_Reply = RpcFail\<rparr>"

fun accept_loop ::
  "int \<Rightarrow> int \<Rightarrow> int \<Rightarrow> int \<Rightarrow> AcceptReply list \<Rightarrow> accept_outcome" where
  "accept_loop numServers i votes replyPrepare [] = AcceptFailed replyPrepare"
| "accept_loop numServers i votes replyPrepare (reply # replies) =
     (if ar_Reply reply = RpcOk then
        if (votes + 1) * 2 > numServers then AcceptOk
        else accept_loop numServers (i + 1) (votes + 1) replyPrepare replies
      else
        let replyPrepare1 = (if ar_Reply reply > replyPrepare then ar_Reply reply else replyPrepare)
        in if (i + 1 - votes) * 2 \<ge> numServers then AcceptFailed replyPrepare1
           else accept_loop numServers (i + 1) votes replyPrepare1 replies)"

definition run_accept_loop :: "nat \<Rightarrow> int \<Rightarrow> AcceptReply list \<Rightarrow> accept_outcome" where
  "run_accept_loop numServers prepare replies =
     accept_loop (int numServers) 1 1 prepare replies"

section \<open>The loops count quorums\<close>

text \<open>
  What the prepare loop guarantees when it ends with PrepareOk: the replies it has read
  are a prefix of the channel, the Ok replies among them with the proposer itself are a
  majority, and the reported pair is the highest one, the proposer's own included.
\<close>

definition ok_replies :: "'v PrepareReply list \<Rightarrow> 'v PrepareReply list" where
  "ok_replies rs = filter (\<lambda>r. pr_Code r = RpcOk) rs"

lemma ok_replies_simps [simp]:
  "ok_replies [] = []"
  "ok_replies (r # rs) = (if pr_Code r = RpcOk then r # ok_replies rs else ok_replies rs)"
  by (auto simp: ok_replies_def)

lemma prepare_loop_PrepareOk:
  assumes "prepare_loop N i votes a v rs = PrepareOk a' v'"
  shows "\<exists>k. N < (votes + int (length (ok_replies (take k rs)))) * 2 \<and>
           a \<le> a' \<and> (\<forall>r \<in> set (ok_replies (take k rs)). pr_AcPr r \<le> a') \<and>
           ((a', v') = (a, v) \<or>
            (\<exists>r \<in> set (ok_replies (take k rs)). a < a' \<and> pr_AcPr r = a' \<and> pr_Value r = v'))"
  using assms
proof (induction N i votes a v rs rule: prepare_loop.induct)
  case (1 N i votes a v)
  then show ?case by simp
next
  case (2 N i votes a v r rs)
  let ?a = "if pr_AcPr r > a then pr_AcPr r else a"
  let ?v = "if pr_AcPr r > a then pr_Value r else v"
  consider (last) "pr_Code r = RpcOk" "(votes + 1) * 2 > N" "a' = ?a" "v' = ?v"
    | (ok) "pr_Code r = RpcOk" "\<not> (votes + 1) * 2 > N" "\<not> (i + 1 - (votes + 1)) * 2 \<ge> N"
        "prepare_loop N (i + 1) (votes + 1) ?a ?v rs = PrepareOk a' v'"
    | (skip) "pr_Code r \<noteq> RpcOk" "pr_Code r \<noteq> HasDecided" "pr_Code r \<noteq> LowPrepare"
        "pr_Code r \<noteq> LateRequest" "\<not> (i + 1 - votes) * 2 \<ge> N"
        "prepare_loop N (i + 1) votes a v rs = PrepareOk a' v'"
    using "2.prems" by (auto simp: Let_def split: if_splits)
  then show ?case
  proof cases
    case last
    then show ?thesis by (intro exI [of _ "Suc 0"]) auto
  next
    case ok
    from "2.IH"(1) [OF ok(1) refl refl refl ok(2,3,4)] obtain k where
      k: "N < (votes + 1 + int (length (ok_replies (take k rs)))) * 2"
        "?a \<le> a'" "\<forall>r \<in> set (ok_replies (take k rs)). pr_AcPr r \<le> a'"
        "(a', v') = (?a, ?v) \<or>
         (\<exists>r \<in> set (ok_replies (take k rs)). ?a < a' \<and> pr_AcPr r = a' \<and> pr_Value r = v')"
      by blast
    show ?thesis
      using k ok(1) by (intro exI [of _ "Suc k"]) (auto split: if_splits)
  next
    case skip
    from "2.IH"(2) [OF skip] obtain k where
      "N < (votes + int (length (ok_replies (take k rs)))) * 2"
      "a \<le> a'" "\<forall>r \<in> set (ok_replies (take k rs)). pr_AcPr r \<le> a'"
      "(a', v') = (a, v) \<or>
       (\<exists>r \<in> set (ok_replies (take k rs)). a < a' \<and> pr_AcPr r = a' \<and> pr_Value r = v')"
      by blast
    then show ?thesis using skip(1) by (intro exI [of _ "Suc k"]) simp
  qed
qed

lemma prepare_loop_PrepareDecided:
  "prepare_loop N i votes a v rs = PrepareDecided w \<Longrightarrow>
   \<exists>r \<in> set rs. pr_Code r = HasDecided \<and> pr_Value r = w"
  by (induction N i votes a v rs rule: prepare_loop.induct)
    (auto simp: Let_def split: if_splits)

definition ok_accepts :: "AcceptReply list \<Rightarrow> AcceptReply list" where
  "ok_accepts rs = filter (\<lambda>r. ar_Reply r = RpcOk) rs"

lemma ok_accepts_simps [simp]:
  "ok_accepts [] = []"
  "ok_accepts (r # rs) = (if ar_Reply r = RpcOk then r # ok_accepts rs else ok_accepts rs)"
  by (auto simp: ok_accepts_def)

lemma accept_loop_AcceptOk:
  "accept_loop N i votes p rs = AcceptOk \<Longrightarrow>
   N < (votes + int (length (ok_accepts rs))) * 2"
  by (induction N i votes p rs rule: accept_loop.induct)
    (auto simp: Let_def algebra_simps split: if_splits)

lemma accept_loop_AcceptFailed:
  "accept_loop N i votes p rs = AcceptFailed n \<Longrightarrow> p \<le> n"
  by (induction N i votes p rs rule: accept_loop.induct)
    (force simp: Let_def split: if_splits)+

end
