(* ===== verification/Paxos_Cluster.thy ===== *)
theory Paxos_Cluster
  imports Paxos_Proposer
begin

text \<open>
  A group of Paxos peers and the network between them, as an interleaving of the critical
  sections of the code: every rule of px_step is one section that runs under a lock (or
  one step of a goroutine on its own variables), built from the definitions of Paxos_Node
  and Paxos_Proposer.

  Calls may be lost, delayed and reordered: a request stays in the network and its handler
  may run at any later time, and a proposer may read the zero reply in place of any reply.
  A goroutine reads at most one reply per peer and call. A decision goes to every peer when
  the proposer got its majority of acceptances, and to its own peer only when a promise
  told it about an earlier decision. The second critical section of
  an RPC handler works on a pointer it got earlier, so it may run even after the peer has
  forgotten the instance.

  cl_promised, cl_voted, cl_proposed and cl_early are history variables: who promised which
  ballot to whom, which values were accepted at which ballot, which values proposers were
  started with, and for which sequence numbers Done was called at a peer that had not
  decided them yet. No rule reads them.

  Done may be called at any time with any sequence number, as paxos.go allows it. A peer
  that forgets an instance decides it with nil (decide_forgotten), which is harmless for an
  instance it had decided before and wrong otherwise; done_ok is the contract of Done under
  which that does not happen. There is no rule for a crash or a restart of a peer: the runs
  are those of peers that stay up.
\<close>

section \<open>The state\<close>

datatype 'v proc =
    ProcNone
  | Looping nat int "'v option"
  | Preparing nat int "'v option" int "'v option" int
  | Accepting nat int "'v option" int "'v option"
  | ProcDone

record 'v cluster =
  cl_size :: nat
  cl_px :: "nat \<Rightarrow> 'v Paxos"
  cl_proc :: "nat \<Rightarrow> 'v proc"
  cl_prepareReq :: "(nat \<times> int \<times> int) set"
  cl_prepareRep :: "(nat \<times> nat \<times> int \<times> int \<times> 'v PrepareReply) set"
  cl_acceptReq :: "(nat \<times> int \<times> int \<times> 'v option) set"
  cl_acceptRep :: "(nat \<times> nat \<times> int \<times> int \<times> AcceptReply) set"
  cl_decide :: "(nat \<times> int \<times> 'v option) set"
  cl_promised :: "(nat \<times> int \<times> int \<times> nat) set"
  cl_voted :: "(nat \<times> int \<times> int \<times> 'v option) set"
  cl_proposed :: "(int \<times> 'v option) set"
  cl_early :: "int set"

abbreviation cl_inst :: "'v cluster \<Rightarrow> nat \<Rightarrow> int \<Rightarrow> 'v Instance" where
  "cl_inst s q seq \<equiv> px_heap (cl_px s q) seq"

definition put_inst :: "nat \<Rightarrow> int \<Rightarrow> 'v Instance \<Rightarrow> 'v cluster \<Rightarrow> 'v cluster" where
  "put_inst q seq inst s = s\<lparr>cl_px := (cl_px s)(q :=
     (cl_px s q)\<lparr>px_heap := (px_heap (cl_px s q))(seq := inst)\<rparr>)\<rparr>"

definition put_persist :: "nat \<Rightarrow> int \<Rightarrow> 'v Instance \<Rightarrow> 'v cluster \<Rightarrow> 'v cluster" where
  "put_persist q seq inst s = s\<lparr>cl_px := (cl_px s)(q :=
     (cl_px s q)\<lparr>px_persister := persistInstanceL seq inst (px_persister (cl_px s q))\<rparr>)\<rparr>"

definition put_proc :: "nat \<Rightarrow> 'v proc \<Rightarrow> 'v cluster \<Rightarrow> 'v cluster" where
  "put_proc g c s = s\<lparr>cl_proc := (cl_proc s)(g := c)\<rparr>"

definition put_px :: "nat \<Rightarrow> 'v Paxos \<Rightarrow> 'v cluster \<Rightarrow> 'v cluster" where
  "put_px q px s = s\<lparr>cl_px := (cl_px s)(q := px)\<rparr>"

text \<open>A peer as Make returns it on an empty persister.\<close>

definition px_peer0 :: "nat \<Rightarrow> bool \<Rightarrow> nat \<Rightarrow> 'v Paxos" where
  "px_peer0 N enable q =
     \<lparr>px_peers = N, px_me = q, px_persister = px_MakePersister enable, px_dead = False,
      px_instances = [], px_heap = (\<lambda>_. new_instance), px_startIndex = 0,
      px_done = replicate N 0, px_decided = -1\<rparr>"

lemma px_Make_fresh:
  "q < N \<Longrightarrow> px_Make N q (px_MakePersister enable) = Some (px_peer0 N enable q, [])"
  by (simp add: px_peer0_def px_Make_def px_readPersist_def ps_ReadPaxosState_def
      px_MakePersister_def go_store_def list_update_same_conv)

definition cl_init :: "nat \<Rightarrow> bool \<Rightarrow> 'v cluster" where
  "cl_init N enable =
     \<lparr>cl_size = N, cl_px = px_peer0 N enable, cl_proc = (\<lambda>_. ProcNone), cl_prepareReq = {},
      cl_prepareRep = {}, cl_acceptReq = {}, cl_acceptRep = {}, cl_decide = {},
      cl_promised = {}, cl_voted = {}, cl_proposed = {}, cl_early = {}\<rparr>"

section \<open>Steps\<close>

text \<open>The object of seq has been allocated by peer q (and may have been forgotten since).\<close>

definition allocated :: "'v Paxos \<Rightarrow> int \<Rightarrow> bool" where
  "allocated px seq \<longleftrightarrow> 0 \<le> seq \<and> seq < px_startIndex px + int (length (px_instances px))"

text \<open>The sequence numbers up to seq that px has not decided, those a call Done(seq) is early for.\<close>

definition undecided_upto :: "int \<Rightarrow> 'v Paxos \<Rightarrow> int set" where
  "undecided_upto seq px = set (filter (\<lambda>i. inst_status (px_heap px i) \<noteq> Decided) [0..seq])"

text \<open>The contract of Done, for one sequence number: no peer was told to forget it before it was decided there.\<close>

definition done_ok :: "'v cluster \<Rightarrow> int \<Rightarrow> bool" where
  "done_ok s seq \<longleftrightarrow> seq \<notin> cl_early s"

text \<open>Replies in the channel of a proposer: one per peer, each real or lost.\<close>

definition prepare_channel ::
  "'v cluster \<Rightarrow> nat \<Rightarrow> int \<Rightarrow> int \<Rightarrow> (nat \<times> 'v PrepareReply) list \<Rightarrow> bool" where
  "prepare_channel s p seq n rs \<longleftrightarrow> distinct (map fst rs) \<and>
     (\<forall>(q, r) \<in> set rs. q < cl_size s \<and> q \<noteq> p \<and>
        (r = zero_PrepareReply \<or> (q, p, seq, n, r) \<in> cl_prepareRep s))"

definition accept_channel ::
  "'v cluster \<Rightarrow> nat \<Rightarrow> int \<Rightarrow> int \<Rightarrow> (nat \<times> AcceptReply) list \<Rightarrow> bool" where
  "accept_channel s p seq n rs \<longleftrightarrow> distinct (map fst rs) \<and>
     (\<forall>(q, r) \<in> set rs. q < cl_size s \<and> q \<noteq> p \<and>
        (r = zero_AcceptReply \<or> (q, p, seq, n, r) \<in> cl_acceptRep s))"

inductive px_step :: "'v cluster \<Rightarrow> 'v cluster \<Rightarrow> bool" where
  alloc: "p < cl_size s \<Longrightarrow> getInstanceL seq propose (cl_px s p) = Some (px, r, tasks) \<Longrightarrow>
    px_step s (put_px p px s)"
| spawn: "p < cl_size s \<Longrightarrow> cl_proc s g = ProcNone \<Longrightarrow> allocated (cl_px s p) seq \<Longrightarrow>
    px_step s (put_proc g (Looping p seq v) s\<lparr>cl_proposed := insert (seq, v) (cl_proposed s)\<rparr>)"
| begin_round: "cl_proc s g = Looping p seq v \<Longrightarrow>
    proposer_begin (cl_inst s p seq) = Some (inst, n, value, accept) \<Longrightarrow>
    px_step s (put_proc g (Preparing p seq v n value accept) (put_inst p seq inst s)
      \<lparr>cl_prepareReq := insert (p, seq, n) (cl_prepareReq s),
       cl_promised := insert (p, seq, n, p) (cl_promised s)\<rparr>)"
| begin_decided: "cl_proc s g = Looping p seq v \<Longrightarrow> proposer_begin (cl_inst s p seq) = None \<Longrightarrow>
    px_step s (put_proc g ProcDone s)"
| prepare: "(p, seq, n) \<in> cl_prepareReq s \<Longrightarrow> q < cl_size s \<Longrightarrow> q \<noteq> p \<Longrightarrow>
    allocated (cl_px s q) seq \<Longrightarrow> prepare_inst n (cl_inst s q seq) = (inst, reply) \<Longrightarrow>
    px_step s (put_inst q seq inst s
      \<lparr>cl_prepareRep := insert (q, p, seq, n, reply) (cl_prepareRep s),
       cl_promised := (if pr_Code reply = RpcOk then {(q, seq, n, p)} else {}) \<union> cl_promised s\<rparr>)"
| prepare_late: "(p, seq, n) \<in> cl_prepareReq s \<Longrightarrow> q < cl_size s \<Longrightarrow> q \<noteq> p \<Longrightarrow>
    seq < px_startIndex (cl_px s q) \<Longrightarrow>
    px_step s (s\<lparr>cl_prepareRep := insert (q, p, seq, n,
      \<lparr>pr_Code = LateRequest, pr_AcPr = 0, pr_Value = None\<rparr>) (cl_prepareRep s)\<rparr>)"
| enter_accept: "cl_proc s g = Preparing p seq v n value accept \<Longrightarrow>
    prepare_channel s p seq n rs \<Longrightarrow>
    run_prepare_loop (cl_size s) accept value (map snd rs) = PrepareOk a w \<Longrightarrow>
    proposer_accept n w v (cl_inst s p seq) = EntryAccepted inst w' \<Longrightarrow>
    px_step s (put_proc g (Accepting p seq v n w') (put_persist p seq inst (put_inst p seq inst s))
      \<lparr>cl_acceptReq := insert (p, seq, n, w') (cl_acceptReq s),
       cl_voted := insert (p, seq, n, w') (cl_voted s)\<rparr>)"
| enter_stale: "cl_proc s g = Preparing p seq v n value accept \<Longrightarrow>
    prepare_channel s p seq n rs \<Longrightarrow>
    run_prepare_loop (cl_size s) accept value (map snd rs) = PrepareOk a w \<Longrightarrow>
    proposer_accept n w v (cl_inst s p seq) = EntryStale \<Longrightarrow>
    px_step s (put_proc g (Looping p seq v) s)"
| enter_decided: "cl_proc s g = Preparing p seq v n value accept \<Longrightarrow>
    prepare_channel s p seq n rs \<Longrightarrow>
    run_prepare_loop (cl_size s) accept value (map snd rs) = PrepareOk a w \<Longrightarrow>
    proposer_accept n w v (cl_inst s p seq) = EntryDecided \<Longrightarrow>
    px_step s (put_proc g ProcDone s)"
| learn_decided: "cl_proc s g = Preparing p seq v n value accept \<Longrightarrow>
    prepare_channel s p seq n rs \<Longrightarrow>
    run_prepare_loop (cl_size s) accept value (map snd rs) = PrepareDecided w \<Longrightarrow>
    px_step s (put_proc g ProcDone s\<lparr>cl_decide := insert (p, seq, w) (cl_decide s)\<rparr>)"
| prepare_low: "cl_proc s g = Preparing p seq v n value accept \<Longrightarrow>
    prepare_channel s p seq n rs \<Longrightarrow>
    run_prepare_loop (cl_size s) accept value (map snd rs) = PrepareLow a \<Longrightarrow>
    px_step s (put_proc g (Looping p seq v)
      (put_inst p seq (raise_prepare a (cl_inst s p seq)) s))"
| prepare_retry: "cl_proc s g = Preparing p seq v n value accept \<Longrightarrow>
    prepare_channel s p seq n rs \<Longrightarrow>
    run_prepare_loop (cl_size s) accept value (map snd rs) \<in> {PrepareLate, BadNetwork} \<or>
      run_prepare_loop (cl_size s) accept value (map snd rs) = PrepareExhausted \<and>
      Suc (length rs) = cl_size s \<Longrightarrow>
    px_step s (put_proc g (Looping p seq v) s)"
| accept: "(p, seq, n, w) \<in> cl_acceptReq s \<Longrightarrow> q < cl_size s \<Longrightarrow> q \<noteq> p \<Longrightarrow>
    allocated (cl_px s q) seq \<Longrightarrow>
    accept_inst n w (cl_inst s q seq) = (inst, reply, True) \<Longrightarrow>
    px_step s (put_persist q seq inst (put_inst q seq inst s)
      \<lparr>cl_acceptRep := insert (q, p, seq, n, reply) (cl_acceptRep s),
       cl_voted := insert (q, seq, n, w) (cl_voted s)\<rparr>)"
| accept_refused: "(p, seq, n, w) \<in> cl_acceptReq s \<Longrightarrow> q < cl_size s \<Longrightarrow> q \<noteq> p \<Longrightarrow>
    allocated (cl_px s q) seq \<Longrightarrow>
    accept_inst n w (cl_inst s q seq) = (inst, reply, False) \<Longrightarrow>
    px_step s (s\<lparr>cl_acceptRep := insert (q, p, seq, n, reply) (cl_acceptRep s)\<rparr>)"
| accept_late: "(p, seq, n, w) \<in> cl_acceptReq s \<Longrightarrow> q < cl_size s \<Longrightarrow> q \<noteq> p \<Longrightarrow>
    seq < px_startIndex (cl_px s q) \<Longrightarrow>
    px_step s (s\<lparr>cl_acceptRep := insert (q, p, seq, n, \<lparr>ar_Reply = RpcFail\<rparr>) (cl_acceptRep s)\<rparr>)"
| accept_ok: "cl_proc s g = Accepting p seq v n w \<Longrightarrow> accept_channel s p seq n rs \<Longrightarrow>
    run_accept_loop (cl_size s) n (map snd rs) = AcceptOk \<Longrightarrow>
    px_step s (put_proc g ProcDone s
      \<lparr>cl_decide := (\<lambda>q. (q, seq, w)) ` set [0..<cl_size s] \<union> cl_decide s\<rparr>)"
| accept_failed: "cl_proc s g = Accepting p seq v n w \<Longrightarrow> accept_channel s p seq n rs \<Longrightarrow>
    run_accept_loop (cl_size s) n (map snd rs) = AcceptFailed m \<Longrightarrow>
    px_step s (put_proc g (Looping p seq v)
      (put_inst p seq (if m > n then raise_prepare m (cl_inst s p seq) else cl_inst s p seq) s))"
| decide: "(q, seq, w) \<in> cl_decide s \<Longrightarrow> q < cl_size s \<Longrightarrow> allocated (cl_px s q) seq \<Longrightarrow>
    px_step s (put_px q (px_decide seq seq w (cl_px s q)) s)"
| app_done: "q < cl_size s \<Longrightarrow> px_Done seq (cl_px s q) = Some px \<Longrightarrow>
    px_step s (put_px q px s\<lparr>cl_early := undecided_upto seq (cl_px s q) \<union> cl_early s\<rparr>)"
| tick: "q < cl_size s \<Longrightarrow> \<forall>r \<in> set replies. dr_SrvId r \<noteq> int q \<Longrightarrow>
    px_tick replies (cl_px s q) = Some (px, tasks) \<Longrightarrow>
    px_step s (put_px q px s)"
| decide_forgotten: "q < cl_size s \<Longrightarrow> 0 \<le> seq \<Longrightarrow> seq < px_startIndex (cl_px s q) \<Longrightarrow>
    px_step s (put_px q (px_decide seq seq None (cl_px s q)) s)"

inductive px_reachable :: "nat \<Rightarrow> bool \<Rightarrow> 'v cluster \<Rightarrow> bool" for N enable where
  init: "px_reachable N enable (cl_init N enable)"
| step: "px_reachable N enable s \<Longrightarrow> px_step s t \<Longrightarrow> px_reachable N enable t"

end
