(* ===== verification/Paxos_Agreement.thy ===== *)
theory Paxos_Agreement
  imports Paxos_Cluster
begin

text \<open>
  Safety of the Paxos protocol as the code runs it. The argument is the classical one:
  a ballot has at most one value, because a peer promises a ballot number to at most one
  proposer (the ballot numbers themselves are not unique to a peer); and a value proposed
  at a ballot agrees with every value that may have been chosen at a lower one.

  The second half needs every value that enters the accept phase to be different from nil:
  the proposer takes the absence of an accepted value and an accepted nil for the same
  thing. nil_free states that condition. A peer that forgets an instance decides it with nil;
  what is learned as a decision is a chosen value only for instances that were decided before
  Done covered them, which done_ok states. Paxos_Faults shows what happens without each of
  the two.
\<close>

section \<open>Voting in ballots\<close>

text \<open>
  The contract between the acceptors and the learners: what a vote at a ballot promises
  about votes at the same ballot and at lower ones.
\<close>

locale ballot_voting = quorums is_quorum
  for is_quorum :: "nat set \<Rightarrow> bool" +
  fixes wf :: "'s \<Rightarrow> bool"
    and voted :: "'s \<Rightarrow> nat \<Rightarrow> int \<Rightarrow> 'w \<Rightarrow> bool"
  assumes one_value: "wf s \<Longrightarrow> voted s q n w \<Longrightarrow> voted s q' n w' \<Longrightarrow> w = w'"
    and safe_below: "wf s \<Longrightarrow> voted s q n w \<Longrightarrow> m < n \<Longrightarrow>
      \<exists>Q. is_quorum Q \<and> (\<forall>r \<in> Q. \<forall>u. voted s r m u \<longrightarrow> u = w)"
begin

definition elected :: "'s \<Rightarrow> int \<Rightarrow> 'w \<Rightarrow> bool" where
  "elected s n w \<longleftrightarrow> (\<exists>Q. is_quorum Q \<and> (\<forall>q \<in> Q. voted s q n w))"

lemma elected_lower:
  assumes "wf s" and "elected s m u" and "elected s n w" and "m < n"
  shows "u = w"
proof -
  from assms(2,3) obtain A B where A: "is_quorum A" "\<forall>q \<in> A. voted s q m u"
    and B: "is_quorum B" "\<forall>q \<in> B. voted s q n w" by (auto simp: elected_def)
  from B obtain q where "voted s q n w" using quorum_nonempty [OF B(1)] by blast
  from safe_below [OF assms(1) this assms(4)] obtain C where
    C: "is_quorum C" "\<forall>r \<in> C. \<forall>u. voted s r m u \<longrightarrow> u = w" by blast
  show ?thesis using quorum_common [OF A(1) C(1)] A(2) C(2) by metis
qed

lemma elected_unique:
  assumes "wf s" and "elected s m u" and "elected s n w"
  shows "u = w"
proof (cases m n rule: linorder_cases)
  case equal
  with assms show ?thesis
    by (metis elected_def quorum_nonempty one_value all_not_in_conv)
qed (use elected_lower assms in blast)+

end

section \<open>What the invariant says\<close>

abbreviation prep :: "'v cluster \<Rightarrow> nat \<Rightarrow> int \<Rightarrow> int" where
  "prep s q seq \<equiv> inst_prepare (cl_inst s q seq)"

definition chosen :: "'v cluster \<Rightarrow> int \<Rightarrow> 'v option \<Rightarrow> bool" where
  "chosen s seq w \<longleftrightarrow>
     (\<exists>n Q. majority (cl_size s) Q \<and> (\<forall>q \<in> Q. (q, seq, n, w) \<in> cl_voted s))"

definition nil_free :: "'v cluster \<Rightarrow> int \<Rightarrow> bool" where
  "nil_free s seq \<longleftrightarrow> (\<forall>p n w. (p, seq, n, w) \<in> cl_acceptReq s \<longrightarrow> w \<noteq> None)"

text \<open>What peer q reports with its promise of ballot n to p: the last vote below n.\<close>

definition report :: "'v cluster \<Rightarrow> nat \<Rightarrow> nat \<Rightarrow> int \<Rightarrow> int \<Rightarrow> int \<Rightarrow> 'v option \<Rightarrow> bool" where
  "report s q p seq n a w \<longleftrightarrow> (q, seq, n, p) \<in> cl_promised s \<and> 0 \<le> a \<and> a < n \<and>
     (\<forall>m u. (q, seq, m, u) \<in> cl_voted s \<longrightarrow> m < n \<longrightarrow> m \<le> a) \<and>
     (a = 0 \<and> w = None \<or> 0 < a \<and> (q, seq, a, w) \<in> cl_voted s)"

text \<open>No value other than w can be chosen at ballot m any more.\<close>

definition safe_at :: "'v cluster \<Rightarrow> int \<Rightarrow> int \<Rightarrow> 'v option \<Rightarrow> bool" where
  "safe_at s seq m w \<longleftrightarrow> (\<exists>Q. majority (cl_size s) Q \<and>
     (\<forall>q \<in> Q. m < prep s q seq \<and> (\<forall>u. (q, seq, m, u) \<in> cl_voted s \<longrightarrow> u = w)))"

definition acceptor_ok ::
  "(nat \<times> int \<times> int \<times> 'v option) set \<Rightarrow> nat \<Rightarrow> int \<Rightarrow> 'v Instance \<Rightarrow> bool" where
  "acceptor_ok V q seq i \<longleftrightarrow> 0 \<le> inst_accept i \<and> inst_accept i \<le> inst_prepare i \<and>
     (inst_status i = Decided \<or> inst_accept i = 0 \<and> inst_value i = None \<or>
      0 < inst_accept i \<and> (q, seq, inst_accept i, inst_value i) \<in> V) \<and>
     (\<forall>n w. (q, seq, n, w) \<in> V \<longrightarrow> n \<le> inst_accept i)"

definition acceptor_inv :: "'v cluster \<Rightarrow> bool" where
  "acceptor_inv s \<longleftrightarrow> (\<forall>q seq. acceptor_ok (cl_voted s) q seq (cl_inst s q seq))"

definition promise_inv :: "'v cluster \<Rightarrow> bool" where
  "promise_inv s \<longleftrightarrow>
     (\<forall>q seq n p. (q, seq, n, p) \<in> cl_promised s \<longrightarrow>
        q < cl_size s \<and> 0 < n \<and> n \<le> prep s q seq) \<and>
     (\<forall>q seq n p p'. (q, seq, n, p) \<in> cl_promised s \<longrightarrow> (q, seq, n, p') \<in> cl_promised s \<longrightarrow> p = p')"

definition prepare_reply_ok ::
  "'v cluster \<Rightarrow> nat \<times> nat \<times> int \<times> int \<times> 'v PrepareReply \<Rightarrow> bool" where
  "prepare_reply_ok s = (\<lambda>(q, p, seq, n, r). pr_Code r = RpcOk \<longrightarrow>
     report s q p seq n (pr_AcPr r) (pr_Value r))"

definition accept_reply_ok ::
  "'v cluster \<Rightarrow> nat \<times> nat \<times> int \<times> int \<times> AcceptReply \<Rightarrow> bool" where
  "accept_reply_ok s = (\<lambda>(q, p, seq, n, r). ar_Reply r = RpcOk \<longrightarrow>
     (\<exists>w. (p, seq, n, w) \<in> cl_acceptReq s \<and> (q, seq, n, w) \<in> cl_voted s))"

definition reply_inv :: "'v cluster \<Rightarrow> bool" where
  "reply_inv s \<longleftrightarrow> (\<forall>x \<in> cl_prepareRep s. prepare_reply_ok s x) \<and>
     (\<forall>x \<in> cl_acceptRep s. accept_reply_ok s x)"

definition proc_ok :: "'v cluster \<Rightarrow> 'v proc \<Rightarrow> bool" where
  "proc_ok s c = (case c of
     Looping p seq v \<Rightarrow>
       p < cl_size s \<and> allocated (cl_px s p) seq \<and> (seq, v) \<in> cl_proposed s
   | Preparing p seq v n value accept \<Rightarrow>
       p < cl_size s \<and> allocated (cl_px s p) seq \<and> (seq, v) \<in> cl_proposed s \<and>
       report s p p seq n accept value \<and> (\<forall>w. (p, seq, n, w) \<notin> cl_acceptReq s)
   | Accepting p seq v n w \<Rightarrow>
       p < cl_size s \<and> allocated (cl_px s p) seq \<and> (seq, v) \<in> cl_proposed s \<and>
       (p, seq, n, w) \<in> cl_acceptReq s \<and> (p, seq, n, w) \<in> cl_voted s
   | _ \<Rightarrow> True)"

fun same_round :: "'v proc \<Rightarrow> 'v proc \<Rightarrow> bool" where
  "same_round (Preparing p seq v n value accept) (Preparing p' seq' v' n' value' accept') =
     (p = p' \<and> seq = seq' \<and> n = n')"
| "same_round _ _ = False"

definition proc_inv :: "'v cluster \<Rightarrow> bool" where
  "proc_inv s \<longleftrightarrow> (\<forall>g. proc_ok s (cl_proc s g)) \<and>
     (\<forall>g h. same_round (cl_proc s g) (cl_proc s h) \<longrightarrow> g = h)"

definition backed :: "'v cluster \<Rightarrow> nat \<Rightarrow> int \<Rightarrow> int \<Rightarrow> bool" where
  "backed s p seq n \<longleftrightarrow> (p, seq, n, p) \<in> cl_promised s \<and>
     (\<exists>Q. majority (cl_size s) Q \<and> (\<forall>q \<in> Q. (q, seq, n, p) \<in> cl_promised s))"

definition request_inv :: "'v cluster \<Rightarrow> bool" where
  "request_inv s \<longleftrightarrow>
     (\<forall>p seq n w. (p, seq, n, w) \<in> cl_acceptReq s \<longrightarrow> backed s p seq n) \<and>
     (\<forall>p seq n w w'. (p, seq, n, w) \<in> cl_acceptReq s \<longrightarrow> (p, seq, n, w') \<in> cl_acceptReq s \<longrightarrow> w' = w) \<and>
     (\<forall>q seq n w. (q, seq, n, w) \<in> cl_voted s \<longrightarrow> (\<exists>p. (p, seq, n, w) \<in> cl_acceptReq s))"

definition safe_inv :: "'v cluster \<Rightarrow> bool" where
  "safe_inv s \<longleftrightarrow>
     (\<forall>p seq n w m. (p, seq, n, w) \<in> cl_acceptReq s \<longrightarrow> nil_free s seq \<longrightarrow> m < n \<longrightarrow>
        safe_at s seq m w)"

text \<open>The values known as decisions: announced, stored at a peer, or in a reply to a proposer.\<close>

definition learned :: "'v cluster \<Rightarrow> int \<Rightarrow> 'v option \<Rightarrow> bool" where
  "learned s seq w \<longleftrightarrow> (\<exists>q. (q, seq, w) \<in> cl_decide s) \<or>
     (\<exists>q. inst_status (cl_inst s q seq) = Decided \<and> inst_value (cl_inst s q seq) = w) \<or>
     (\<exists>q p n r. (q, p, seq, n, r) \<in> cl_prepareRep s \<and> pr_Code r = HasDecided \<and> pr_Value r = w)"

definition decide_inv :: "'v cluster \<Rightarrow> bool" where
  "decide_inv s \<longleftrightarrow> (\<forall>seq w. nil_free s seq \<longrightarrow> done_ok s seq \<longrightarrow> learned s seq w \<longrightarrow> chosen s seq w)"

definition valid_inv :: "'v cluster \<Rightarrow> bool" where
  "valid_inv s \<longleftrightarrow> (\<forall>p seq n w. (p, seq, n, w) \<in> cl_acceptReq s \<longrightarrow> (seq, w) \<in> cl_proposed s)"

text \<open>Whatever is learned was proposed; nil values make no difference here.\<close>

definition learn_inv :: "'v cluster \<Rightarrow> bool" where
  "learn_inv s \<longleftrightarrow> (\<forall>seq w. done_ok s seq \<longrightarrow> learned s seq w \<longrightarrow> (seq, w) \<in> cl_proposed s)"

definition node_inv :: "'v cluster \<Rightarrow> bool" where
  "node_inv s \<longleftrightarrow> (\<forall>q < cl_size s. px_wf (cl_px s q) \<and> px_me (cl_px s q) = q \<and>
     0 \<le> px_done (cl_px s q) ! q \<and>
     (\<forall>i. 0 \<le> i \<and> (i < px_startIndex (cl_px s q) \<or> i < px_done (cl_px s q) ! q) \<and> done_ok s i \<longrightarrow>
        inst_status (cl_inst s q i) = Decided))"

definition cl_inv :: "'v cluster \<Rightarrow> bool" where
  "cl_inv s \<longleftrightarrow> node_inv s \<and> acceptor_inv s \<and> promise_inv s \<and> reply_inv s \<and> proc_inv s \<and>
     request_inv s \<and> safe_inv s \<and> decide_inv s \<and> valid_inv s \<and> learn_inv s"

section \<open>What every step keeps\<close>

definition extends :: "'v cluster \<Rightarrow> 'v cluster \<Rightarrow> bool" where
  "extends s t \<longleftrightarrow> cl_size t = cl_size s \<and> cl_promised s \<subseteq> cl_promised t \<and>
     cl_voted s \<subseteq> cl_voted t \<and> cl_acceptReq s \<subseteq> cl_acceptReq t \<and> cl_proposed s \<subseteq> cl_proposed t \<and>
     cl_early s \<subseteq> cl_early t \<and>
     (\<forall>q seq. prep s q seq \<le> prep t q seq \<and>
        (inst_status (cl_inst s q seq) = Decided \<longrightarrow>
           inst_status (cl_inst t q seq) = Decided \<and>
           inst_value (cl_inst t q seq) = inst_value (cl_inst s q seq)) \<and>
        (allocated (cl_px s q) seq \<longrightarrow> allocated (cl_px t q) seq)) \<and>
     (\<forall>q seq n w. (q, seq, n, w) \<in> cl_voted t \<longrightarrow> (q, seq, n, w) \<notin> cl_voted s \<longrightarrow>
        prep s q seq \<le> n)"

lemmas put_defs = put_inst_def put_persist_def put_proc_def put_px_def
lemmas section_defs = proposer_begin_def prepare_inst_def accept_inst_def raise_prepare_def
  proposer_accept_def

lemma allocated_next: "allocated px seq \<longleftrightarrow> 0 \<le> seq \<and> seq < px_next px"
  by (simp add: allocated_def px_next_def)

lemma getInstanceL_effect:
  assumes "px_wf px" and "getInstanceL seq propose px = Some (px', r, tasks)"
  shows "px_wf px'" "px_heap px' = px_heap px" "px_next px \<le> px_next px'" "px_me px' = px_me px"
    "px_startIndex px' = px_startIndex px" "px_done px' = px_done px"
  using assms px_wf_grow [of px seq] px_next_grow [of px seq]
  by (auto simp: getInstanceL_wf split: if_splits)

lemma px_Done_effect:
  assumes "px_wf px" and "px_Done seq px = Some px'"
  shows "px_wf px'" "px_heap px' = px_heap px" "px_next px' = px_next px" "px_me px' = px_me px"
    "px_startIndex px' = px_startIndex px"
    "px_done px' ! px_me px = max (px_done px ! px_me px) (seq + 1)"
  using assms
  by (auto simp: px_Done_def px_wf_def px_next_def go_slices split: if_splits bind_splits)

lemma px_decide_effect:
  "px_heap (px_decide seq r w px) = (px_heap px)(r := decide_inst w (px_heap px r))"
  "px_next (px_decide seq r w px) = px_next px" "px_me (px_decide seq r w px) = px_me px"
  "px_startIndex (px_decide seq r w px) = px_startIndex px"
  "px_done (px_decide seq r w px) = px_done px" "px_peers (px_decide seq r w px) = px_peers px"
  "px_instances (px_decide seq r w px) = px_instances px"
  by (auto simp: px_decide_def Let_def decide_inst_def px_next_def)

lemma decide_inst_effect:
  "inst_prepare (decide_inst w i) = inst_prepare i" "inst_accept (decide_inst w i) = inst_accept i"
  "inst_status (decide_inst w i) = Decided"
  "inst_value (decide_inst w i) =
     (if inst_status i = Decided \<or> w = None then inst_value i else w)"
  by (auto simp: decide_inst_def split: option.splits)

lemma px_tick_effect:
  assumes wf: "px_wf px" and foreign: "\<forall>r \<in> set replies. dr_SrvId r \<noteq> int (px_me px)"
    and nonneg: "0 \<le> px_done px ! px_me px" and tick: "px_tick replies px = Some (px', tasks)"
  shows "px_wf px'" "px_heap px' = px_heap px" "px_next px \<le> px_next px'" "px_me px' = px_me px"
    "px_startIndex px \<le> px_startIndex px'"
    "px_startIndex px' \<le> max (px_startIndex px) (px_done px ! px_me px)"
    "px_done px' ! px_me px = px_done px ! px_me px"
proof -
  from px_tick_spec [OF wf tick] obtain rd dec e where
    rd: "ticker_collect replies (replicate (px_peers px) 0) (-1) = Some (rd, dec)"
    and eff: "px_done px' = map2 max (px_done px) rd"
      "e = foldl min (px_done px ! px_me px) (px_done px')"
      "px_startIndex px' = max (px_startIndex px) (min e (px_next px))"
      "px_next px \<le> px_next px'" "px_wf px'" "px_heap px' = px_heap px"
      "px_me px' = px_me px" .
  have me: "px_me px < length (px_done px)" "px_peers px = length (px_done px)"
    using wf by (auto simp: px_wf_def)
  have "rd ! px_me px = 0" "length rd = length (px_done px)"
    using ticker_collect_Some [OF rd] foreign me by auto
  then show "px_done px' ! px_me px = px_done px ! px_me px"
    using eff(1) me nonneg by simp
  show "px_startIndex px' \<le> max (px_startIndex px) (px_done px ! px_me px)"
    using eff(3) foldl_min_le(1) [of "px_done px ! px_me px" "px_done px'"] by (auto simp: eff(2))
qed (use px_tick_spec [OF wf tick] in \<open>force+\<close>)

lemma node_invD:
  assumes "node_inv s" and "q < cl_size s"
  shows "px_wf (cl_px s q)" "px_me (cl_px s q) = q" "0 \<le> px_done (cl_px s q) ! q"
    "\<And>i. 0 \<le> i \<Longrightarrow> i < px_startIndex (cl_px s q) \<or> i < px_done (cl_px s q) ! q \<Longrightarrow>
       done_ok s i \<Longrightarrow> inst_status (cl_inst s q i) = Decided"
  using assms unfolding node_inv_def by blast+

lemma step_extends:
  assumes step: "px_step s t" and node: "node_inv s" and acc: "acceptor_inv s"
  shows "extends s t"
  using step
proof cases
  case (alloc p seq propose px r tasks)
  then show ?thesis
    using getInstanceL_effect [OF node_invD(1) [OF node], of p seq propose px r tasks]
    by (auto simp: extends_def put_defs allocated_next)
next
  case (tick q replies px tasks)
  then show ?thesis
    using px_tick_effect [OF node_invD(1) [OF node tick(2)], of replies px tasks]
      node_invD(2,3) [OF node tick(2)]
    by (auto simp: extends_def put_defs allocated_next)
next
  case (app_done q seq px)
  then show ?thesis
    using px_Done_effect [OF node_invD(1) [OF node app_done(2)], of seq px]
    by (auto simp: extends_def put_defs allocated_next)
qed (use acc in \<open>auto simp: extends_def put_defs section_defs px_decide_effect decide_inst_effect
       allocated_def Let_def split: if_splits\<close>)

lemma extends_nil_free: "extends s t \<Longrightarrow> nil_free t seq \<Longrightarrow> nil_free s seq"
  by (auto simp: extends_def nil_free_def)

lemma extends_done_ok: "extends s t \<Longrightarrow> done_ok t seq \<Longrightarrow> done_ok s seq"
  by (auto simp: extends_def done_ok_def)

lemma extends_chosen:
  assumes "extends s t" and "chosen s seq w"
  shows "chosen t seq w"
proof -
  from assms(2) obtain n Q where "majority (cl_size s) Q" "\<forall>q \<in> Q. (q, seq, n, w) \<in> cl_voted s"
    by (auto simp: chosen_def)
  with assms(1) have "majority (cl_size t) Q \<and> (\<forall>q \<in> Q. (q, seq, n, w) \<in> cl_voted t)"
    by (auto simp: extends_def)
  then show ?thesis unfolding chosen_def by blast
qed

lemma extends_report:
  assumes "extends s t" and "promise_inv s" and "report s q p seq n a w"
  shows "report t q p seq n a w"
proof -
  have "m \<le> a" if "(q, seq, m, u) \<in> cl_voted t" "m < n" for m u
  proof (cases "(q, seq, m, u) \<in> cl_voted s")
    case True
    with assms(3) that show ?thesis by (auto simp: report_def)
  next
    case False
    with assms(1) that have "prep s q seq \<le> m" by (auto simp: extends_def)
    moreover have "n \<le> prep s q seq" using assms(2,3) by (auto simp: report_def promise_inv_def)
    ultimately show ?thesis using that by simp
  qed
  then show ?thesis using assms(1,3) unfolding report_def extends_def by blast
qed

lemma extends_safe_at:
  assumes "extends s t" and "safe_at s seq m w"
  shows "safe_at t seq m w"
proof -
  from assms(2) obtain Q where Q: "majority (cl_size s) Q"
    "\<forall>q \<in> Q. m < prep s q seq \<and> (\<forall>u. (q, seq, m, u) \<in> cl_voted s \<longrightarrow> u = w)"
    by (auto simp: safe_at_def)
  have "m < prep t q seq \<and> (\<forall>u. (q, seq, m, u) \<in> cl_voted t \<longrightarrow> u = w)" if "q \<in> Q" for q
    using Q(2) that assms(1) unfolding extends_def by (meson less_le_trans not_le)
  moreover have "majority (cl_size t) Q" using Q(1) assms(1) by (simp add: extends_def)
  ultimately show ?thesis unfolding safe_at_def by blast
qed

section \<open>Preservation, one conjunct at a time\<close>

lemma px_wf_heap:
  "px_wf px \<Longrightarrow> allocated px seq \<Longrightarrow> px_wf (px\<lparr>px_heap := (px_heap px)(seq := inst)\<rparr>)"
  by (auto simp: px_wf_def px_next_def allocated_def)

lemma px_wf_frame:
  "px_startIndex px' = px_startIndex px \<Longrightarrow> px_instances px' = px_instances px \<Longrightarrow>
   px_done px' = px_done px \<Longrightarrow> px_peers px' = px_peers px \<Longrightarrow> px_me px' = px_me px \<Longrightarrow>
   px_heap px' = (px_heap px)(seq := inst) \<Longrightarrow> allocated px seq \<Longrightarrow> px_wf px \<Longrightarrow> px_wf px'"
  by (auto simp: px_wf_def px_next_def allocated_def)

lemma node_inv_frame:
  assumes node: "node_inv s" and ext: "extends s t" and q: "q < cl_size s"
    and same: "\<And>r. r \<noteq> q \<Longrightarrow> cl_px t r = cl_px s r"
    and px: "px_startIndex (cl_px t q) = px_startIndex (cl_px s q)"
      "px_instances (cl_px t q) = px_instances (cl_px s q)"
      "px_done (cl_px t q) = px_done (cl_px s q)" "px_peers (cl_px t q) = px_peers (cl_px s q)"
      "px_me (cl_px t q) = px_me (cl_px s q)"
      "px_heap (cl_px t q) = (px_heap (cl_px s q))(seq := inst)"
    and alloc: "allocated (cl_px s q) seq"
  shows "node_inv t"
proof -
  have "px_wf (cl_px t q)"
    using px_wf_frame [OF px alloc node_invD(1) [OF node q]] .
  then show ?thesis
    using node ext same px extends_done_ok [OF ext] unfolding node_inv_def extends_def
    by (metis (no_types))
qed

lemma node_inv_same:
  assumes "node_inv s" and "cl_px t = cl_px s" and "cl_size t = cl_size s" and "cl_early t = cl_early s"
  shows "node_inv t"
  using assms by (simp add: node_inv_def done_ok_def)

text \<open>Done covers the instances the peer has decided and those that become early.\<close>

lemma node_inv_app_done:
  assumes node: "node_inv s" and q: "q < cl_size s"
    and px: "px_Done seq (cl_px s q) = Some px"
  shows "node_inv (put_px q px s\<lparr>cl_early := undecided_upto seq (cl_px s q) \<union> cl_early s\<rparr>)"
proof -
  have "inst_status (cl_inst s q i) = Decided"
    if "0 \<le> i" "i < px_startIndex (cl_px s q) \<or> i < max (px_done (cl_px s q) ! q) (seq + 1)"
      "i \<notin> undecided_upto seq (cl_px s q)" "done_ok s i" for i
    using that node_invD(4) [OF node q, of i]
    by (auto simp: undecided_upto_def max_def split: if_splits)
  then show ?thesis
    using px_Done_effect [OF node_invD(1) [OF node q] px] node node_invD(2,3) [OF node q]
    unfolding node_inv_def by (auto simp: put_defs done_ok_def)
qed

lemma node_inv_tick:
  assumes node: "node_inv s" and q: "q < cl_size s"
    and foreign: "\<forall>r \<in> set replies. dr_SrvId r \<noteq> int q"
    and px: "px_tick replies (cl_px s q) = Some (px, tasks)"
  shows "node_inv (put_px q px s)"
proof -
  have eff: "px_wf px" "px_heap px = px_heap (cl_px s q)" "px_next (cl_px s q) \<le> px_next px"
    "px_me px = q" "px_done px ! q = px_done (cl_px s q) ! q"
    "px_startIndex px \<le> max (px_startIndex (cl_px s q)) (px_done (cl_px s q) ! q)"
    using px_tick_effect [OF node_invD(1) [OF node q] _ _ px] node_invD(2,3) [OF node q] foreign
    by simp_all
  have "inst_status (cl_inst s q i) = Decided"
    if "0 \<le> i" "i < px_startIndex px \<or> i < px_done (cl_px s q) ! q" "done_ok s i" for i
    using that eff(6) node_invD(4) [OF node q, of i] by (auto simp: max_def split: if_splits)
  then show ?thesis
    using eff node node_invD(3) [OF node q] unfolding node_inv_def by (auto simp: put_defs done_ok_def)
qed

lemma proc_invD: "proc_inv s \<Longrightarrow> proc_ok s (cl_proc s g)"
  by (simp add: proc_inv_def)

lemma step_node_inv:
  assumes step: "px_step s t" and node: "node_inv s" and acc: "acceptor_inv s"
    and proc: "proc_inv s"
  shows "node_inv t"
proof -
  have ext: "extends s t" using step_extends [OF step node acc] .
  note frame = node_inv_frame [OF node ext]
  show ?thesis
    using step
  proof cases
    case (alloc p seq propose px r tasks)
    then show ?thesis
      using getInstanceL_effect [OF node_invD(1) [OF node], of p seq propose px r tasks] node
      unfolding node_inv_def by (fastforce simp: put_defs done_ok_def)
  next
    case (begin_round g p seq v inst n val acpt)
    then show ?thesis
      using proc_invD [OF proc, of g] frame [of p seq inst] by (simp add: put_defs proc_ok_def)
  next
    case (prepare p seq n q inst reply)
    then show ?thesis using frame [of q seq inst] by (simp add: put_defs)
  next
    case (enter_accept g p seq v n val acpt rs a w inst w')
    then show ?thesis
      using proc_invD [OF proc, of g] frame [of p seq inst] by (simp add: put_defs proc_ok_def)
  next
    case (prepare_low g p seq v n val acpt rs a)
    then show ?thesis
      using proc_invD [OF proc, of g] frame [of p seq "raise_prepare a (cl_inst s p seq)"]
      by (simp add: put_defs proc_ok_def)
  next
    case (accept p seq n w q inst reply)
    then show ?thesis using frame [of q seq inst] by (simp add: put_defs)
  next
    case (accept_failed g p seq v n w rs m)
    then show ?thesis
      using proc_invD [OF proc, of g] frame [of p seq "if m > n
        then raise_prepare m (cl_inst s p seq) else cl_inst s p seq"]
      by (simp add: put_defs proc_ok_def)
  next
    case (decide q seq w)
    then show ?thesis
      using frame [of q seq "decide_inst w (cl_inst s q seq)"]
      by (simp add: put_defs px_decide_effect)
  next
    case (decide_forgotten q seq)
    then show ?thesis
      using frame [of q seq "decide_inst None (cl_inst s q seq)"]
      by (simp add: put_defs px_decide_effect allocated_def)
  next
    case (app_done q seq px)
    then show ?thesis using node_inv_app_done [OF node] by simp
  next
    case (tick q replies px tasks)
    then show ?thesis using node_inv_tick [OF node] by simp
  qed (use node in \<open>auto simp: put_defs intro: node_inv_same [OF node]\<close>)
qed

lemma acceptor_inv_frame:
  assumes acc: "acceptor_inv s"
    and same: "\<And>q' seq'. (q', seq') \<noteq> (q, seq) \<Longrightarrow> cl_inst t q' seq' = cl_inst s q' seq'"
    and votes: "\<And>q' seq' n w. (q', seq') \<noteq> (q, seq) \<Longrightarrow>
       (q', seq', n, w) \<in> cl_voted t \<longleftrightarrow> (q', seq', n, w) \<in> cl_voted s"
    and here: "acceptor_ok (cl_voted t) q seq (cl_inst t q seq)"
  shows "acceptor_inv t"
  unfolding acceptor_inv_def
proof (intro allI)
  fix q' seq'
  show "acceptor_ok (cl_voted t) q' seq' (cl_inst t q' seq')"
  proof (cases "(q', seq') = (q, seq)")
    case True
    with here show ?thesis by simp
  next
    case False
    with acc same votes show ?thesis by (simp add: acceptor_inv_def acceptor_ok_def)
  qed
qed

lemma acceptor_inv_same:
  "acceptor_inv s \<Longrightarrow> cl_voted t = cl_voted s \<Longrightarrow> (\<And>q. px_heap (cl_px t q) = px_heap (cl_px s q)) \<Longrightarrow>
   acceptor_inv t"
  by (simp add: acceptor_inv_def)

text \<open>What each critical section does to the acceptor state of one instance.\<close>

lemma acceptor_ok_sections:
  assumes "acceptor_ok V q seq i"
  shows "proposer_begin i = Some (i1, n, val, acpt) \<Longrightarrow> acceptor_ok V q seq i1"
    "prepare_inst n i = (i2, reply) \<Longrightarrow> acceptor_ok V q seq i2"
    "acceptor_ok V q seq (raise_prepare m i)" "acceptor_ok V q seq (decide_inst w i)"
  using assms
  by (auto simp: acceptor_ok_def section_defs decide_inst_effect Let_def split: if_splits)

lemma acceptor_ok_votes:
  assumes "acceptor_ok V q seq i"
  shows "0 < n \<Longrightarrow> proposer_accept n w v i = EntryAccepted i1 w' \<Longrightarrow>
      acceptor_ok (insert (q, seq, n, w') V) q seq i1"
    "0 < n \<Longrightarrow> accept_inst n w i = (i2, reply, True) \<Longrightarrow>
      acceptor_ok (insert (q, seq, n, w) V) q seq i2"
  using assms
  by (auto simp: acceptor_ok_def proposer_accept_def accept_inst_def split: if_splits)

lemma step_acceptor_inv:
  assumes step: "px_step s t" and acc: "acceptor_inv s" and node: "node_inv s"
    and proc: "proc_inv s" and req: "request_inv s" and prom: "promise_inv s"
  shows "acceptor_inv t"
proof -
  have ok: "acceptor_ok (cl_voted s) q seq (cl_inst s q seq)" for q seq
    using acc by (simp add: acceptor_inv_def)
  have pos: "0 < n" if "(p, seq, n, p') \<in> cl_promised s" for p seq n p'
    using prom that by (auto simp: promise_inv_def)
  note frame = acceptor_inv_frame [OF acc]
  show ?thesis
    using step
  proof cases
    case (alloc p seq propose px r tasks)
    then show ?thesis
      using getInstanceL_effect(2) [OF node_invD(1) [OF node], of p seq propose px r tasks]
      by (intro acceptor_inv_same [OF acc]) (auto simp: put_defs)
  next
    case (tick q replies px tasks)
    then show ?thesis
      using px_tick_effect(2) [OF node_invD(1) [OF node tick(2)], of replies px tasks]
        node_invD(2,3) [OF node tick(2)]
      by (intro acceptor_inv_same [OF acc]) (auto simp: put_defs)
  next
    case (app_done q seq px)
    then show ?thesis
      using px_Done_effect(2) [OF node_invD(1) [OF node app_done(2)], of seq px]
      by (intro acceptor_inv_same [OF acc]) (auto simp: put_defs)
  next
    case (begin_round g p seq v inst n val acpt)
    then show ?thesis
      using acceptor_ok_sections(1) [OF ok] by (intro frame [of p seq]) (auto simp: put_defs)
  next
    case (prepare p seq n q inst reply)
    then show ?thesis
      using acceptor_ok_sections(2) [OF ok] by (intro frame [of q seq]) (auto simp: put_defs)
  next
    case (enter_accept g p seq v n val acpt rs a w inst w')
    moreover have "0 < n"
      using proc_invD [OF proc, of g] enter_accept(2) pos by (auto simp: proc_ok_def report_def)
    ultimately show ?thesis
      using acceptor_ok_votes(1) [OF ok] by (intro frame [of p seq]) (auto simp: put_defs)
  next
    case (accept p seq n w q inst reply)
    moreover have "0 < n" using req accept(2) pos unfolding request_inv_def backed_def by blast
    ultimately show ?thesis
      using acceptor_ok_votes(2) [OF ok] by (intro frame [of q seq]) (auto simp: put_defs)
  qed (use acceptor_ok_sections(3,4) [OF ok] ok in
      \<open>auto simp: acceptor_inv_def put_defs px_decide_effect\<close>)
qed

lemma promise_inv_same:
  assumes "promise_inv s" and "extends s t" and "cl_promised t = cl_promised s"
  shows "promise_inv t"
  using assms unfolding promise_inv_def extends_def by (metis order_trans)

lemma promise_inv_add:
  assumes prom: "promise_inv s" and ext: "extends s t" and acc: "acceptor_inv s"
    and new: "cl_promised t = insert (q, seq, n, p) (cl_promised s)" "q < cl_size s"
      "prep s q seq < n" "prep t q seq = n"
  shows "promise_inv t"
proof -
  have "0 \<le> prep s q seq" using acc unfolding acceptor_inv_def acceptor_ok_def by (meson order_trans)
  with new(3) have pos: "0 < n" by simp
  have old: "n' < n" if "(q, seq, n', p') \<in> cl_promised s" for n' p'
    using prom that new(3) unfolding promise_inv_def by (meson le_less_trans)
  have "q' < cl_size t \<and> 0 < n' \<and> n' \<le> prep t q' seq'"
    if "(q', seq', n', p') \<in> cl_promised t" for q' seq' n' p'
  proof (cases "(q', seq', n', p') \<in> cl_promised s")
    case True
    with prom ext show ?thesis unfolding promise_inv_def extends_def by (metis order_trans)
  next
    case False
    with that new pos ext show ?thesis by (auto simp: extends_def)
  qed
  moreover have "p1 = p2"
    if "(q', seq', n', p1) \<in> cl_promised t" "(q', seq', n', p2) \<in> cl_promised t" for q' seq' n' p1 p2
    using that prom new(1) old by (auto simp: promise_inv_def dest: old)
  ultimately show ?thesis unfolding promise_inv_def by blast
qed

lemma step_promise_inv:
  assumes step: "px_step s t" and prom: "promise_inv s" and ext: "extends s t"
    and proc: "proc_inv s" and acc: "acceptor_inv s"
  shows "promise_inv t"
  using step
proof cases
  case (begin_round g p seq v inst n val acpt)
  show ?thesis
    by (rule promise_inv_add [OF prom ext acc, of p seq n p])
      (use begin_round proc_invD [OF proc, of g] in
        \<open>auto simp: put_defs section_defs proc_ok_def Let_def split: if_splits\<close>)
next
  case (prepare p seq n q inst reply)
  show ?thesis
  proof (cases "pr_Code reply = RpcOk")
    case True
    show ?thesis
      by (rule promise_inv_add [OF prom ext acc, of q seq n p])
        (use prepare True in \<open>auto simp: put_defs section_defs rpc_codes split: if_splits\<close>)
  next
    case False
    then show ?thesis
      using prepare by (intro promise_inv_same [OF prom ext]) (simp add: put_defs)
  qed
qed (rule promise_inv_same [OF prom ext], simp add: put_defs)+

text \<open>A promise made by a peer that has not decided reports its last vote.\<close>

lemma report_new:
  assumes "acceptor_ok (cl_voted s) q seq i" and "inst_status i \<noteq> Decided" and "inst_prepare i < n"
    and "(q, seq, n, p) \<in> cl_promised t" and "cl_voted t = cl_voted s"
  shows "report t q p seq n (inst_accept i) (inst_value i)"
  using assms by (auto simp: report_def acceptor_ok_def)

lemma reply_inv_add:
  assumes rep: "reply_inv s" and ext: "extends s t" and prom: "promise_inv s"
    and prepares: "cl_prepareRep t \<subseteq> insert x (cl_prepareRep s)" "prepare_reply_ok t x"
    and accepts: "cl_acceptRep t \<subseteq> insert y (cl_acceptRep s)" "accept_reply_ok t y"
  shows "reply_inv t"
proof -
  have "prepare_reply_ok t z" if "prepare_reply_ok s z" for z
    using that extends_report [OF ext prom] by (auto simp: prepare_reply_ok_def)
  moreover have "accept_reply_ok t z" if "accept_reply_ok s z" for z
    using that ext unfolding accept_reply_ok_def extends_def by fast
  ultimately show ?thesis using rep prepares accepts unfolding reply_inv_def by blast
qed

lemma reply_ok_trivial:
  "pr_Code r \<noteq> RpcOk \<Longrightarrow> prepare_reply_ok s (q, p, seq, n, r)"
  "ar_Reply r' \<noteq> RpcOk \<Longrightarrow> accept_reply_ok s (q, p, seq, n, r')"
  by (simp_all add: prepare_reply_ok_def accept_reply_ok_def)

lemmas no_prepare_reply = reply_ok_trivial(1) [of zero_PrepareReply _ 0 0 0 0]
lemmas no_accept_reply = reply_ok_trivial(2) [of zero_AcceptReply _ 0 0 0 0]

lemma step_reply_inv:
  assumes step: "px_step s t" and rep: "reply_inv s" and ext: "extends s t"
    and prom: "promise_inv s" and acc: "acceptor_inv s"
  shows "reply_inv t"
proof -
  have ok: "acceptor_ok (cl_voted s) q seq (cl_inst s q seq)" for q seq
    using acc by (simp add: acceptor_inv_def)
  then have nonneg: "0 \<le> prep s q seq" for q seq
    unfolding acceptor_ok_def by (meson order_trans)
  show ?thesis
    using step
  proof cases
    case (prepare p seq n q inst reply)
    have "prepare_reply_ok t (q, p, seq, n, reply)"
      using prepare report_new [OF ok, of q seq n p t]
      by (auto simp: put_defs prepare_inst_def prepare_reply_ok_def rpc_codes split: if_splits)
    then show ?thesis
      using prepare by (intro reply_inv_add [OF rep ext prom _ _ _ no_accept_reply])
        (auto simp: put_defs zero_AcceptReply_def rpc_codes)
  next
    case (prepare_late p seq n q)
    have "prepare_reply_ok t (q, p, seq, n, \<lparr>pr_Code = LateRequest, pr_AcPr = 0, pr_Value = None\<rparr>)"
      by (rule reply_ok_trivial) (simp add: rpc_codes)
    then show ?thesis
      using prepare_late by (intro reply_inv_add [OF rep ext prom _ _ _ no_accept_reply])
        (auto simp: zero_AcceptReply_def rpc_codes)
  next
    case (accept p seq n w q inst reply)
    then have "accept_reply_ok t (q, p, seq, n, reply)"
      by (auto simp: put_defs accept_reply_ok_def)
    then show ?thesis
      using accept by (intro reply_inv_add [OF rep ext prom _ no_prepare_reply])
        (auto simp: put_defs zero_PrepareReply_def rpc_codes)
  next
    case (accept_refused p seq n w q inst reply)
    then have "accept_reply_ok t (q, p, seq, n, reply)"
      using nonneg [of q seq]
      by (intro reply_ok_trivial) (auto simp: accept_inst_def rpc_codes split: if_splits)
    then show ?thesis
      using accept_refused by (intro reply_inv_add [OF rep ext prom _ no_prepare_reply])
        (auto simp: zero_PrepareReply_def rpc_codes)
  next
    case (accept_late p seq n w q)
    have "accept_reply_ok t (q, p, seq, n, \<lparr>ar_Reply = RpcFail\<rparr>)"
      by (rule reply_ok_trivial) (simp add: rpc_codes)
    then show ?thesis
      using accept_late by (intro reply_inv_add [OF rep ext prom _ no_prepare_reply])
        (auto simp: zero_PrepareReply_def rpc_codes)
  qed (intro reply_inv_add [OF rep ext prom _ no_prepare_reply _ no_accept_reply];
      auto simp: put_defs zero_PrepareReply_def zero_AcceptReply_def rpc_codes)+
qed

section \<open>Proposers\<close>

lemma proc_ok_extends:
  assumes "extends s t" and "promise_inv s" and "proc_ok s c"
    and "\<And>p seq v n val acpt w. c = Preparing p seq v n val acpt \<Longrightarrow>
       (p, seq, n, w) \<in> cl_acceptReq t \<Longrightarrow> (p, seq, n, w) \<in> cl_acceptReq s"
  shows "proc_ok t c"
proof (cases c)
  case (Preparing p seq v n val acpt)
  have "allocated (cl_px t p) seq" "cl_size t = cl_size s" "(seq, v) \<in> cl_proposed t"
    using assms(1,3) Preparing by (auto simp: proc_ok_def extends_def)
  moreover have "(p, seq, n, w) \<notin> cl_acceptReq t" for w
    using assms(3) assms(4) [OF Preparing] Preparing by (auto simp: proc_ok_def)
  ultimately show ?thesis
    using Preparing assms(3) extends_report [OF assms(1,2)] by (auto simp: proc_ok_def)
qed (use assms in \<open>auto simp: proc_ok_def extends_def\<close>)

lemma proc_inv_put:
  assumes proc: "proc_inv s" and ext: "extends s t" and prom: "promise_inv s"
    and req: "cl_acceptReq t = cl_acceptReq s" and new: "cl_proc t = (cl_proc s)(g := c)"
    and ok: "proc_ok t c"
    and alone: "\<And>h. h \<noteq> g \<Longrightarrow> \<not> same_round c (cl_proc s h) \<and> \<not> same_round (cl_proc s h) c"
  shows "proc_inv t"
proof -
  have "proc_ok t (cl_proc s h)" for h
    using proc_ok_extends [OF ext prom proc_invD [OF proc]] req by simp
  moreover have "\<forall>h h'. same_round (cl_proc s h) (cl_proc s h') \<longrightarrow> h = h'"
    using proc by (simp add: proc_inv_def)
  ultimately show ?thesis using new ok alone by (simp add: proc_inv_def)
qed

lemma same_round_other [simp]:
  "\<not> same_round (Looping p seq v) c" "\<not> same_round c (Looping p seq v)"
  "\<not> same_round ProcDone c" "\<not> same_round c ProcDone"
  "\<not> same_round ProcNone c" "\<not> same_round c ProcNone"
  "\<not> same_round (Accepting p seq v n w) c" "\<not> same_round c (Accepting p seq v n w)"
  by (cases c; simp)+

lemma same_round_iff:
  "same_round c d \<longleftrightarrow> (\<exists>p seq v n val acpt v' val' acpt'.
     c = Preparing p seq v n val acpt \<and> d = Preparing p seq v' n val' acpt')"
  by (cases c; cases d) auto

lemma proc_inv_same:
  assumes "proc_inv s" and "extends s t" and "promise_inv s"
    and "cl_acceptReq t = cl_acceptReq s" and "cl_proc t = cl_proc s"
  shows "proc_inv t"
  using proc_ok_extends [OF assms(2,3) proc_invD [OF assms(1)]] assms
  by (simp add: proc_inv_def)

lemma proc_inv_enter:
  assumes proc: "proc_inv s" and ext: "extends s t" and prom: "promise_inv s"
    and g: "cl_proc s g = Preparing p seq v n val acpt"
    and new: "cl_acceptReq t = insert (p, seq, n, w) (cl_acceptReq s)"
      "cl_proc t = (cl_proc s)(g := Accepting p seq v n w)" "(p, seq, n, w) \<in> cl_voted t"
  shows "proc_inv t"
proof -
  have alone: "\<forall>h h'. same_round (cl_proc s h) (cl_proc s h') \<longrightarrow> h = h'"
    using proc by (simp add: proc_inv_def)
  have "proc_ok t (cl_proc s h)" if "h \<noteq> g" for h
  proof (rule proc_ok_extends [OF ext prom proc_invD [OF proc]])
    fix p' seq' v' n' val' acpt' w'
    assume h: "cl_proc s h = Preparing p' seq' v' n' val' acpt'"
      and w': "(p', seq', n', w') \<in> cl_acceptReq t"
    have "\<not> same_round (cl_proc s h) (cl_proc s g)" using alone that by blast
    with h g have "(p', seq', n') \<noteq> (p, seq, n)" by auto
    with w' new(1) show "(p', seq', n', w') \<in> cl_acceptReq s" by auto
  qed
  moreover have "proc_ok t (Accepting p seq v n w)"
    using proc_invD [OF proc, of g] g new ext by (auto simp: proc_ok_def extends_def)
  ultimately show ?thesis using new(2) alone by (simp add: proc_inv_def)
qed

lemma proc_inv_begin:
  assumes proc: "proc_inv s" and ext: "extends s t" and prom: "promise_inv s"
    and acc: "acceptor_inv s" and req: "request_inv s"
    and g: "cl_proc s g = Looping p seq v"
    and b: "proposer_begin (cl_inst s p seq) = Some (inst, n, val, acpt)"
    and new: "cl_proc t = (cl_proc s)(g := Preparing p seq v n val acpt)"
      "cl_acceptReq t = cl_acceptReq s" "cl_voted t = cl_voted s" "(p, seq, n, p) \<in> cl_promised t"
  shows "proc_inv t"
proof -
  have i: "inst_status (cl_inst s p seq) \<noteq> Decided" "n = prep s p seq + 1"
    "val = inst_value (cl_inst s p seq)" "acpt = inst_accept (cl_inst s p seq)"
    using b by (auto simp: proposer_begin_def Let_def split: if_splits)
  have fresh: "(p, seq, n, p') \<notin> cl_promised s" for p'
    using prom i(2) unfolding promise_inv_def by (metis add_le_same_cancel1 not_one_le_zero)
  have "report t p p seq n acpt val"
    using report_new [of s p seq "cl_inst s p seq" n p t] acc i new(3,4)
    by (auto simp: acceptor_inv_def)
  moreover have "(p, seq, n, w) \<notin> cl_acceptReq t" for w
    using req fresh new(2) unfolding request_inv_def backed_def by metis
  ultimately have ok: "proc_ok t (Preparing p seq v n val acpt)"
    using proc_invD [OF proc, of g] g ext by (auto simp: proc_ok_def extends_def)
  have "\<not> same_round (cl_proc s h) (Preparing p seq v n val acpt)"
    "\<not> same_round (Preparing p seq v n val acpt) (cl_proc s h)" for h
    using proc_invD [OF proc, of h] fresh by (auto simp: same_round_iff proc_ok_def report_def)
  then show ?thesis using proc_inv_put [OF proc ext prom new(2,1) ok] by blast
qed

lemma proc_inv_loop:
  assumes proc: "proc_inv s" and ext: "extends s t" and prom: "promise_inv s"
    and req: "cl_acceptReq t = cl_acceptReq s"
    and new: "cl_proc t = (cl_proc s)(g := c)"
    and c: "c = ProcDone \<or> (\<exists>p seq v. c = Looping p seq v \<and> p < cl_size s \<and>
       allocated (cl_px s p) seq \<and> (seq, v) \<in> cl_proposed s)"
  shows "proc_inv t"
proof -
  have "proc_ok t c" using c ext by (auto simp: proc_ok_def extends_def)
  moreover have "\<not> same_round c d" "\<not> same_round d c" for d using c by auto
  ultimately show ?thesis using proc_inv_put [OF proc ext prom req new] by blast
qed

lemma step_proc_inv:
  assumes step: "px_step s t" and proc: "proc_inv s" and ext: "extends s t"
    and prom: "promise_inv s" and acc: "acceptor_inv s" and req: "request_inv s"
  shows "proc_inv t"
proof -
  note loop = proc_inv_loop [OF proc ext prom]
  show ?thesis
    using step
  proof cases
    case (begin_round g p seq v inst n val acpt)
    then show ?thesis
      by (intro proc_inv_begin [OF proc ext prom acc req begin_round(2,3)]) (simp_all add: put_defs)
  next
    case (enter_accept g p seq v n val acpt rs a w inst w')
    then show ?thesis
      by (intro proc_inv_enter [OF proc ext prom enter_accept(2), of w']) (simp_all add: put_defs)
  next
    case (spawn p g seq v)
    have "proc_ok t (Looping p seq v)" using spawn ext by (simp add: proc_ok_def put_defs)
    then show ?thesis
      by (intro proc_inv_put [OF proc ext prom, of g "Looping p seq v"])
        (simp_all add: spawn(1) put_defs)
  next
    case (begin_decided g p seq v)
    then show ?thesis by (intro loop [of g ProcDone]) (simp_all add: put_defs)
  next
    case (enter_stale g p seq v n val acpt rs a w)
    then show ?thesis
      using proc_invD [OF proc, of g]
      by (intro loop [of g "Looping p seq v"]) (simp_all add: put_defs proc_ok_def)
  next
    case (enter_decided g p seq v n val acpt rs a w)
    then show ?thesis by (intro loop [of g ProcDone]) (simp_all add: put_defs)
  next
    case (learn_decided g p seq v n val acpt rs w)
    then show ?thesis by (intro loop [of g ProcDone]) (simp_all add: put_defs)
  next
    case (prepare_low g p seq v n val acpt rs a)
    then show ?thesis
      using proc_invD [OF proc, of g]
      by (intro loop [of g "Looping p seq v"]) (simp_all add: put_defs proc_ok_def)
  next
    case (prepare_retry g p seq v n val acpt rs)
    then show ?thesis
      using proc_invD [OF proc, of g]
      by (intro loop [of g "Looping p seq v"]) (simp_all add: put_defs proc_ok_def)
  next
    case (accept_ok g p seq v n w rs)
    then show ?thesis by (intro loop [of g ProcDone]) (simp_all add: put_defs)
  next
    case (accept_failed g p seq v n w rs m)
    then show ?thesis
      using proc_invD [OF proc, of g]
      by (intro loop [of g "Looping p seq v"]) (simp_all add: put_defs proc_ok_def)
  qed (rule proc_inv_same [OF proc ext prom]; simp add: put_defs)+
qed

section \<open>Quorums of replies\<close>

text \<open>
  The prepare loop ends with PrepareOk only after a majority, the proposer included, has
  promised the ballot, and it returns the highest vote these peers reported.
\<close>

lemma prepare_quorum:
  assumes chan: "prepare_channel s p seq n rs" and p: "p < cl_size s" and rep: "reply_inv s"
    and own: "report s p p seq n acpt val"
    and ok: "run_prepare_loop (cl_size s) acpt val (map snd rs) = PrepareOk a w"
  obtains Q where "majority (cl_size s) Q"
    "\<forall>q \<in> Q. \<exists>aq wq. report s q p seq n aq wq \<and> aq \<le> a"
    "\<exists>q \<in> Q. report s q p seq n a w"
proof -
  from prepare_loop_PrepareOk [OF ok [unfolded run_prepare_loop_def]] obtain k where
    k: "int (cl_size s) < (1 + int (length (ok_replies (take k (map snd rs))))) * 2" "acpt \<le> a"
      "\<forall>r \<in> set (ok_replies (take k (map snd rs))). pr_AcPr r \<le> a"
      "(a, w) = (acpt, val) \<or> (\<exists>r \<in> set (ok_replies (take k (map snd rs))).
          acpt < a \<and> pr_AcPr r = a \<and> pr_Value r = w)" by blast
  define xs where "xs = filter (\<lambda>x. pr_Code (snd x) = RpcOk) (take k rs)"
  have oks: "ok_replies (take k (map snd rs)) = map snd xs"
    by (simp add: ok_replies_def xs_def take_map filter_map comp_def)
  have sub: "set xs \<subseteq> set rs" by (auto simp: xs_def dest: in_set_takeD)
  have rpt: "q < cl_size s \<and> q \<noteq> p \<and> report s q p seq n (pr_AcPr r) (pr_Value r)"
    if "(q, r) \<in> set xs" for q r
  proof -
    have "pr_Code r = RpcOk" using that by (auto simp: xs_def)
    moreover from this have "r \<noteq> zero_PrepareReply" by (auto simp: zero_PrepareReply_def rpc_codes)
    moreover have "(q, r) \<in> set rs" using that sub by blast
    ultimately have "q < cl_size s \<and> q \<noteq> p \<and> (q, p, seq, n, r) \<in> cl_prepareRep s"
      and "pr_Code r = RpcOk"
      using chan by (auto simp: prepare_channel_def)
    then show ?thesis using rep by (fastforce simp: reply_inv_def prepare_reply_ok_def)
  qed
  have "distinct (map fst (take k rs))"
    using chan by (simp add: prepare_channel_def flip: take_map)
  then have dist: "distinct (map fst xs)" by (simp add: xs_def distinct_map_filter)
  define Q where "Q = insert p (fst ` set xs)"
  have "card (fst ` set xs) = length xs"
    using dist by (metis distinct_card length_map list.set_map)
  moreover have "p \<notin> fst ` set xs" using rpt by force
  ultimately have "card Q = Suc (length xs)" by (simp add: Q_def)
  then have maj: "majority (cl_size s) Q"
    using k(1) p rpt by (fastforce simp: majority_def Q_def oks)
  have all: "\<forall>q \<in> Q. \<exists>aq wq. report s q p seq n aq wq \<and> aq \<le> a"
    using own k(2,3) rpt unfolding Q_def oks by fastforce
  have "\<exists>q \<in> Q. report s q p seq n a w"
    using k(4) own rpt unfolding Q_def oks by (auto, fastforce)
  with maj all that show ?thesis by blast
qed

lemma accept_quorum:
  assumes chan: "accept_channel s p seq n rs" and p: "p < cl_size s" and rep: "reply_inv s"
    and req: "request_inv s" and own: "(p, seq, n, w) \<in> cl_acceptReq s" "(p, seq, n, w) \<in> cl_voted s"
    and ok: "run_accept_loop (cl_size s) n (map snd rs) = AcceptOk"
  shows "chosen s seq w"
proof -
  define xs where "xs = filter (\<lambda>x. ar_Reply (snd x) = RpcOk) rs"
  have oks: "ok_accepts (map snd rs) = map snd xs"
    by (simp add: ok_accepts_def xs_def filter_map comp_def)
  have vote: "q < cl_size s \<and> q \<noteq> p \<and> (q, seq, n, w) \<in> cl_voted s" if "(q, r) \<in> set xs" for q r
  proof -
    from that have r: "(q, r) \<in> set rs" "ar_Reply r = RpcOk" by (auto simp: xs_def)
    then have q: "q < cl_size s \<and> q \<noteq> p \<and> (q, p, seq, n, r) \<in> cl_acceptRep s"
      using chan by (auto simp: accept_channel_def zero_AcceptReply_def rpc_codes)
    then obtain w' where "(p, seq, n, w') \<in> cl_acceptReq s" "(q, seq, n, w') \<in> cl_voted s"
      using rep r(2) by (auto simp: reply_inv_def accept_reply_ok_def)
    moreover have "w' = w" using req own(1) calculation(1) unfolding request_inv_def by blast
    ultimately show ?thesis using q by simp
  qed
  have dist: "distinct (map fst xs)"
    using chan by (simp add: xs_def accept_channel_def distinct_map_filter)
  define Q where "Q = insert p (fst ` set xs)"
  have "card (fst ` set xs) = length xs"
    using dist by (metis distinct_card length_map list.set_map)
  moreover have "p \<notin> fst ` set xs" using vote by force
  ultimately have "card Q = Suc (length xs)" by (simp add: Q_def)
  then have "majority (cl_size s) Q"
    using accept_loop_AcceptOk [OF ok [unfolded run_accept_loop_def]] p vote
    by (fastforce simp: majority_def Q_def oks)
  moreover have "\<forall>q \<in> Q. (q, seq, n, w) \<in> cl_voted s" using own vote by (auto simp: Q_def)
  ultimately show ?thesis unfolding chosen_def by blast
qed

section \<open>Requests\<close>

lemma request_one_value:
  assumes req: "request_inv s" and prom: "promise_inv s"
    and "(p, seq, n, w) \<in> cl_acceptReq s" and "(p', seq, n, w') \<in> cl_acceptReq s"
  shows "w = w'"
proof -
  from req assms(3) obtain Q where Q: "majority (cl_size s) Q" "\<forall>q \<in> Q. (q, seq, n, p) \<in> cl_promised s"
    unfolding request_inv_def backed_def by blast
  from req assms(4) obtain Q' where
    Q': "majority (cl_size s) Q'" "\<forall>q \<in> Q'. (q, seq, n, p') \<in> cl_promised s"
    unfolding request_inv_def backed_def by blast
  from maj.quorum_common [OF Q(1) Q'(1)] Q(2) Q'(2) obtain q
    where "(q, seq, n, p) \<in> cl_promised s" "(q, seq, n, p') \<in> cl_promised s" by blast
  with prom have "p = p'" unfolding promise_inv_def by blast
  with req assms(3,4) show ?thesis unfolding request_inv_def by blast
qed

lemma vote_facts:
  assumes "request_inv s" and "promise_inv s" and "(q, seq, n, w) \<in> cl_voted s"
  shows "0 < n" and "\<exists>p. (p, seq, n, w) \<in> cl_acceptReq s"
  using assms unfolding request_inv_def backed_def promise_inv_def by meson+

lemma extends_backed: "extends s t \<Longrightarrow> backed s p seq n \<Longrightarrow> backed t p seq n"
  unfolding backed_def extends_def by (metis subsetD)

lemma request_inv_add:
  assumes req: "request_inv s" and ext: "extends s t"
    and new: "cl_acceptReq t = insert (p, seq, n, w) (cl_acceptReq s)"
      "cl_voted t = insert (p, seq, n, w) (cl_voted s)"
    and fresh: "\<And>w'. (p, seq, n, w') \<notin> cl_acceptReq s" and backed: "backed t p seq n"
  shows "request_inv t"
  using req extends_backed [OF ext] backed fresh unfolding request_inv_def new
  by (auto, blast)

lemma request_inv_votes:
  assumes req: "request_inv s" and ext: "extends s t" and same: "cl_acceptReq t = cl_acceptReq s"
    and votes: "cl_voted t \<subseteq> cl_voted s \<union> {(q, seq, n, w)}" and "(p, seq, n, w) \<in> cl_acceptReq s"
  shows "request_inv t"
  using req extends_backed [OF ext] votes assms(5) unfolding request_inv_def same by auto

lemma request_inv_same:
  assumes req: "request_inv s" and ext: "extends s t" and same: "cl_acceptReq t = cl_acceptReq s"
    and votes: "cl_voted t = cl_voted s"
  shows "request_inv t"
  using req extends_backed [OF ext] unfolding request_inv_def same votes by simp

text \<open>The proposer of a Preparing goroutine that leaves its loop with PrepareOk.\<close>

lemma enter_quorum:
  assumes proc: "proc_inv s" and rep: "reply_inv s"
    and g: "cl_proc s g = Preparing p seq v n val acpt" and chan: "prepare_channel s p seq n rs"
    and ok: "run_prepare_loop (cl_size s) acpt val (map snd rs) = PrepareOk a w"
  obtains Q where "majority (cl_size s) Q"
    "\<forall>q \<in> Q. \<exists>aq wq. report s q p seq n aq wq \<and> aq \<le> a"
    "\<exists>q \<in> Q. report s q p seq n a w" "(p, seq, n, p) \<in> cl_promised s"
    "\<forall>w. (p, seq, n, w) \<notin> cl_acceptReq s"
proof -
  have "p < cl_size s" "report s p p seq n acpt val" "\<forall>w. (p, seq, n, w) \<notin> cl_acceptReq s"
    using proc_invD [OF proc, of g] g by (auto simp: proc_ok_def)
  then show ?thesis
    using prepare_quorum [OF chan _ rep _ ok] that by (auto simp: report_def)
qed

lemma step_request_inv:
  assumes step: "px_step s t" and req: "request_inv s" and ext: "extends s t"
    and proc: "proc_inv s" and rep: "reply_inv s"
  shows "request_inv t"
  using step
proof cases
  case (enter_accept g p seq v n val acpt rs a w inst w')
  from enter_quorum [OF proc rep enter_accept(2,3,4)] obtain Q where
    Q: "majority (cl_size s) Q" "\<forall>q \<in> Q. \<exists>aq wq. report s q p seq n aq wq \<and> aq \<le> a"
      "(p, seq, n, p) \<in> cl_promised s" "\<forall>w. (p, seq, n, w) \<notin> cl_acceptReq s" by blast
  have "backed s p seq n" using Q unfolding backed_def report_def by blast
  then show ?thesis
    using enter_accept Q(4)
    by (intro request_inv_add [OF req ext, of p seq n w'] extends_backed [OF ext])
      (auto simp: put_defs)
next
  case (accept p seq n w q inst reply)
  then show ?thesis
    by (intro request_inv_votes [OF req ext, of q seq n w p]) (auto simp: put_defs)
qed (rule request_inv_same [OF req ext]; simp add: put_defs)+

section \<open>Safety of a new proposal\<close>

lemma safe_at_new:
  assumes req: "request_inv s" and prom: "promise_inv s" and safe: "safe_inv s"
    and free: "nil_free s seq"
    and maj: "majority (cl_size s) Q"
    and below: "\<forall>q \<in> Q. \<exists>aq wq. report s q p seq n aq wq \<and> aq \<le> a"
    and top: "\<exists>q \<in> Q. report s q p seq n a w"
    and m: "m < n"
  shows "safe_at s seq m (chosen_value w v)"
proof -
  have late: "m < prep s q seq \<and> (\<forall>u. (q, seq, m, u) \<in> cl_voted s \<longrightarrow> m \<le> a)" if "q \<in> Q" for q
  proof -
    from below that obtain aq wq where "report s q p seq n aq wq" "aq \<le> a" by blast
    with prom m show ?thesis unfolding report_def promise_inv_def
      by (metis less_le_trans order_trans)
  qed
  show ?thesis
  proof (cases "a = 0")
    case True
    then have "(q, seq, m, u) \<notin> cl_voted s" if "q \<in> Q" for q u
      using late [OF that] vote_facts(1) [OF req prom, of q seq m u] by force
    with late maj show ?thesis unfolding safe_at_def by blast
  next
    case False
    with top obtain q0 where q0: "(q0, seq, a, w) \<in> cl_voted s" by (auto simp: report_def)
    from vote_facts(2) [OF req prom q0] obtain p0 where p0: "(p0, seq, a, w) \<in> cl_acceptReq s" ..
    with free have w: "chosen_value w v = w" by (auto simp: nil_free_def chosen_value_def)
    consider "m < a" | "m = a" | "a < m" by linarith
    then show ?thesis
    proof cases
      case 1
      with safe p0 free w show ?thesis unfolding safe_inv_def by metis
    next
      case 2
      have "u = w" if "(q, seq, m, u) \<in> cl_voted s" for q u
        using vote_facts(2) [OF req prom that] request_one_value [OF req prom _ p0] 2 by auto
      with late maj w show ?thesis unfolding safe_at_def by metis
    next
      case 3
      with late have "\<forall>q \<in> Q. \<forall>u. (q, seq, m, u) \<notin> cl_voted s" by (metis not_le)
      with late maj show ?thesis unfolding safe_at_def by blast
    qed
  qed
qed

lemma safe_inv_same:
  assumes "safe_inv s" and "extends s t" and "cl_acceptReq t = cl_acceptReq s"
  shows "safe_inv t"
  using assms(1) extends_safe_at [OF assms(2)] extends_nil_free [OF assms(2)]
  unfolding safe_inv_def assms(3) by blast

lemma step_safe_inv:
  assumes step: "px_step s t" and safe: "safe_inv s" and ext: "extends s t"
    and proc: "proc_inv s" and rep: "reply_inv s" and req: "request_inv s" and prom: "promise_inv s"
  shows "safe_inv t"
  using step
proof cases
  case (enter_accept g p seq v n val acpt rs a w inst w')
  from enter_quorum [OF proc rep enter_accept(2,3,4)] obtain Q where
    Q: "majority (cl_size s) Q" "\<forall>q \<in> Q. \<exists>aq wq. report s q p seq n aq wq \<and> aq \<le> a"
      "\<exists>q \<in> Q. report s q p seq n a w" and "(p, seq, n, p) \<in> cl_promised s"
      "\<forall>w. (p, seq, n, w) \<notin> cl_acceptReq s" .
  have w': "w' = chosen_value w v"
    using enter_accept(5) by (auto simp: proposer_accept_def split: if_splits)
  have reqs: "cl_acceptReq t = insert (p, seq, n, w') (cl_acceptReq s)"
    using enter_accept(1) by (simp add: put_defs)
  show ?thesis
    unfolding safe_inv_def
  proof (intro allI impI)
    fix p1 seq1 n1 w1 m
    assume r: "(p1, seq1, n1, w1) \<in> cl_acceptReq t" and free: "nil_free t seq1" and m: "m < n1"
    have "nil_free s seq1" using extends_nil_free [OF ext free] .
    then have "safe_at s seq1 m w1"
    proof (cases "(p1, seq1, n1, w1) \<in> cl_acceptReq s")
      case False
      with r reqs have "seq1 = seq" "n1 = n" "w1 = chosen_value w v" by (auto simp: w')
      with m \<open>nil_free s seq1\<close> show ?thesis using safe_at_new [OF req prom safe _ Q] by simp
    qed (use safe m in \<open>auto simp: safe_inv_def\<close>)
    then show "safe_at t seq1 m w1" by (rule extends_safe_at [OF ext])
  qed
qed (rule safe_inv_same [OF safe ext]; simp add: put_defs)+

section \<open>Decisions\<close>

lemma chosen_not_nil:
  assumes "request_inv s" and "nil_free s seq" and "chosen s seq w"
  shows "w \<noteq> None"
proof -
  from assms(3) obtain n Q where "majority (cl_size s) Q" "\<forall>q \<in> Q. (q, seq, n, w) \<in> cl_voted s"
    by (auto simp: chosen_def)
  then obtain q where "(q, seq, n, w) \<in> cl_voted s" using maj.quorum_nonempty by blast
  with assms(1) obtain p where "(p, seq, n, w) \<in> cl_acceptReq s" unfolding request_inv_def by blast
  with assms(2) show ?thesis by (auto simp: nil_free_def)
qed

lemma learned_heap: "inst_status (cl_inst s q seq) = Decided \<Longrightarrow> learned s seq (inst_value (cl_inst s q seq))"
  by (auto simp: learned_def)

lemma learned_decide: "(q, seq, w) \<in> cl_decide s \<Longrightarrow> learned s seq w"
  by (auto simp: learned_def)

lemma learned_channel:
  assumes chan: "prepare_channel s p seq n rs"
    and ok: "run_prepare_loop (cl_size s) acpt val (map snd rs) = PrepareDecided w"
  shows "learned s seq w"
proof -
  from prepare_loop_PrepareDecided [OF ok [unfolded run_prepare_loop_def]] obtain q r where
    r: "(q, r) \<in> set rs" "pr_Code r = HasDecided" "pr_Value r = w" by auto
  then have "r \<noteq> zero_PrepareReply" by (auto simp: zero_PrepareReply_def rpc_codes)
  with r(1) chan have "(q, p, seq, n, r) \<in> cl_prepareRep s" by (auto simp: prepare_channel_def)
  with r(2,3) show ?thesis unfolding learned_def by blast
qed

lemma learned_add:
  assumes "learned t seq w"
    and decides: "\<And>q. (q, seq, w) \<in> cl_decide t \<Longrightarrow> (q, seq, w) \<in> cl_decide s \<or> P"
    and insts: "\<And>q. inst_status (cl_inst t q seq) = Decided \<Longrightarrow> inst_value (cl_inst t q seq) = w \<Longrightarrow>
       inst_status (cl_inst s q seq) = Decided \<and> inst_value (cl_inst s q seq) = w \<or> P"
    and replies: "\<And>q p n r. (q, p, seq, n, r) \<in> cl_prepareRep t \<Longrightarrow> pr_Code r = HasDecided \<Longrightarrow>
       pr_Value r = w \<Longrightarrow> (q, p, seq, n, r) \<in> cl_prepareRep s \<or>
       inst_status (cl_inst s q seq) = Decided \<and> inst_value (cl_inst s q seq) = w"
  shows "learned s seq w \<or> P"
  using assms unfolding learned_def by (elim disjE exE conjE) blast+

text \<open>
  Where a decision comes from: it was known before, its ballot has just got a majority, or a
  peer is told the decision nil and keeps the value it had accepted.
\<close>

lemma step_learned:
  assumes step: "px_step s t" and new: "learned t seq w" and early: "done_ok t seq"
    and node: "node_inv s" and acc: "acceptor_inv s" and proc: "proc_inv s" and rep: "reply_inv s"
    and req: "request_inv s"
  shows "learned s seq w \<or>
    (chosen s seq w \<or> learned s seq None \<and> (\<exists>q n. (q, seq, n, w) \<in> cl_voted s))"
    (is "_ \<or> ?P")
proof -
  note add = learned_add [OF new, where s = s and P = ?P]
  have old: "done_ok s seq" using extends_done_ok [OF step_extends [OF step node acc] early] .
  show ?thesis
    using step
  proof cases
    case (alloc p sq propose px r tasks)
    then show ?thesis
      using getInstanceL_effect(2) [OF node_invD(1) [OF node], of p sq propose px r tasks]
      by (intro add) (auto simp: put_defs split: if_splits)
  next
    case (tick q replies px tasks)
    then show ?thesis
      using px_tick_effect(2) [OF node_invD(1) [OF node tick(2)], of replies px tasks]
        node_invD(2,3) [OF node tick(2)]
      by (intro add) (auto simp: put_defs split: if_splits)
  next
    case (app_done q sq px)
    then show ?thesis
      using px_Done_effect(2) [OF node_invD(1) [OF node app_done(2)], of sq px]
      by (intro add) (auto simp: put_defs split: if_splits)
  next
    case (learn_decided g p sq v n val acpt rs u)
    then have "learned s sq u" using learned_channel by blast
    moreover have "learned s seq w \<or> seq = sq \<and> w = u"
      using learn_decided(1) by (intro learned_add [OF new]) (auto simp: put_defs)
    ultimately show ?thesis by blast
  next
    case (accept_ok g p sq v n u rs)
    have "chosen s sq u"
      using accept_quorum [OF accept_ok(3) _ rep req _ _ accept_ok(4)] proc_invD [OF proc, of g]
        accept_ok(2) by (simp add: proc_ok_def)
    with accept_ok show ?thesis by (intro add) (auto simp: put_defs)
  next
    case (decide q sq u)
    have "learned s seq w \<or> seq = sq \<and> (w = u \<or> u = None \<and> inst_status (cl_inst s q sq) \<noteq> Decided \<and>
        inst_value (cl_inst s q sq) = w)"
      using decide(1) by (intro learned_add [OF new])
        (auto simp: put_defs px_decide_effect decide_inst_effect split: if_splits)
    moreover have "w = None \<or> (\<exists>n. (q, sq, n, w) \<in> cl_voted s)"
      if "inst_status (cl_inst s q sq) \<noteq> Decided" "inst_value (cl_inst s q sq) = w"
      using acc that unfolding acceptor_inv_def acceptor_ok_def by metis
    ultimately show ?thesis using learned_decide [OF decide(2)] by metis
  next
    case (decide_forgotten q sq)
    then show ?thesis
      using node_invD(4) [OF node, of q sq] old
      by (intro add) (auto simp: put_defs px_decide_effect decide_inst_effect split: if_splits)
  next
    case (prepare p sq n q inst reply)
    then show ?thesis
      by (intro add) (auto simp: put_defs prepare_inst_def rpc_codes split: if_splits)
  qed (intro add; auto simp: put_defs section_defs rpc_codes Let_def split: if_splits)+
qed

lemma step_decide_inv:
  assumes step: "px_step s t" and dec: "decide_inv s" and ext: "extends s t"
    and node: "node_inv s" and acc: "acceptor_inv s" and proc: "proc_inv s" and rep: "reply_inv s"
    and req: "request_inv s"
  shows "decide_inv t"
  unfolding decide_inv_def
proof (intro allI impI)
  fix seq w
  assume t: "nil_free t seq" "done_ok t seq" "learned t seq w"
  then have s: "nil_free s seq" "done_ok s seq"
    using extends_nil_free [OF ext] extends_done_ok [OF ext] by blast+
  have "\<not> learned s seq None" using dec s chosen_not_nil [OF req s(1)] by (auto simp: decide_inv_def)
  with step_learned [OF step t(3,2) node acc proc rep req] s dec have "chosen s seq w"
    by (auto simp: decide_inv_def)
  then show "chosen t seq w" by (rule extends_chosen [OF ext])
qed

lemma voted_proposed:
  "request_inv s \<Longrightarrow> valid_inv s \<Longrightarrow> (q, seq, n, w) \<in> cl_voted s \<Longrightarrow> (seq, w) \<in> cl_proposed s"
  unfolding request_inv_def valid_inv_def by blast

lemma chosen_voted: "chosen s seq w \<Longrightarrow> \<exists>q n. (q, seq, n, w) \<in> cl_voted s"
  by (metis chosen_def maj.quorum_nonempty all_not_in_conv)

lemma step_learn_inv:
  assumes step: "px_step s t" and learn: "learn_inv s" and ext: "extends s t"
    and node: "node_inv s" and acc: "acceptor_inv s" and proc: "proc_inv s" and rep: "reply_inv s"
    and req: "request_inv s" and valid: "valid_inv s"
  shows "learn_inv t"
  unfolding learn_inv_def
proof (intro allI impI)
  fix seq w
  assume t: "done_ok t seq" "learned t seq w"
  then have "done_ok s seq" using extends_done_ok [OF ext] by blast
  with step_learned [OF step t(2,1) node acc proc rep req] learn have "(seq, w) \<in> cl_proposed s"
    using voted_proposed [OF req valid] chosen_voted [of s seq w] unfolding learn_inv_def by blast
  with ext show "(seq, w) \<in> cl_proposed t" by (auto simp: extends_def)
qed

lemma step_valid_inv:
  assumes step: "px_step s t" and valid: "valid_inv s" and ext: "extends s t"
    and proc: "proc_inv s" and rep: "reply_inv s" and req: "request_inv s"
  shows "valid_inv t"
proof -
  have same: "valid_inv t" if "cl_acceptReq t = cl_acceptReq s"
    using that valid ext unfolding valid_inv_def extends_def by (metis subsetD)
  show ?thesis
    using step
  proof cases
    case (enter_accept g p seq v n val acpt rs a w inst w')
    from enter_quorum [OF proc rep enter_accept(2,3,4)] obtain Q where
      "majority (cl_size s) Q" "\<forall>q \<in> Q. \<exists>aq wq. report s q p seq n aq wq \<and> aq \<le> a"
      and top: "\<exists>q \<in> Q. report s q p seq n a w" and "(p, seq, n, p) \<in> cl_promised s"
      "\<forall>w. (p, seq, n, w) \<notin> cl_acceptReq s" .
    have "(seq, w) \<in> cl_proposed s" if "w \<noteq> None"
    proof -
      from top that obtain q where "(q, seq, a, w) \<in> cl_voted s" by (auto simp: report_def)
      with req valid show ?thesis unfolding request_inv_def valid_inv_def by blast
    qed
    moreover have "(seq, v) \<in> cl_proposed s"
      using proc_invD [OF proc, of g] enter_accept(2) by (simp add: proc_ok_def)
    ultimately have "(seq, w') \<in> cl_proposed s"
      using enter_accept(5) by (auto simp: proposer_accept_def chosen_value_def split: if_splits)
    with valid enter_accept(1) show ?thesis by (auto simp: valid_inv_def put_defs)
  qed (rule same; simp add: put_defs)+
qed

section \<open>The invariant\<close>

lemma cl_inv_init: "cl_inv (cl_init N enable)"
  by (simp add: cl_inv_def cl_init_def node_inv_def acceptor_inv_def acceptor_ok_def promise_inv_def
      reply_inv_def proc_inv_def proc_ok_def request_inv_def safe_inv_def decide_inv_def valid_inv_def
      learn_inv_def learned_def px_peer0_def px_wf_def px_next_def new_instance_def)

lemma step_cl_inv:
  assumes "px_step s t" and "cl_inv s"
  shows "cl_inv t"
proof -
  have ext: "extends s t" using step_extends [OF assms(1)] assms(2) by (simp add: cl_inv_def)
  show ?thesis
    using assms(2) step_node_inv [OF assms(1)] step_acceptor_inv [OF assms(1)]
      step_promise_inv [OF assms(1) _ ext] step_reply_inv [OF assms(1) _ ext]
      step_proc_inv [OF assms(1) _ ext] step_request_inv [OF assms(1) _ ext]
      step_safe_inv [OF assms(1) _ ext] step_decide_inv [OF assms(1) _ ext]
      step_valid_inv [OF assms(1) _ ext] step_learn_inv [OF assms(1) _ ext]
    unfolding cl_inv_def by blast
qed

lemma reachable_cl_inv: "px_reachable N enable s \<Longrightarrow> cl_inv s \<and> cl_size s = N"
proof (induction rule: px_reachable.induct)
  case init
  show ?case using cl_inv_init [of N enable] by (simp add: cl_init_def)
next
  case (step s t)
  then have "extends s t" by (intro step_extends) (auto simp: cl_inv_def)
  with step show ?case using step_cl_inv by (auto simp: extends_def)
qed

interpretation px_trans: transitions px_step "px_reachable N enable" for N enable
  by unfold_locales (rule px_reachable.step)

lemmas run_reachable = px_trans.steps_reach

text \<open>A decision of one peer is never revised, whatever runs next.\<close>

lemma run_decided_stable:
  assumes "px_step\<^sup>*\<^sup>* s t" and "px_reachable N enable s"
    and "inst_status (cl_inst s q seq) = Decided"
  shows "inst_status (cl_inst t q seq) = Decided \<and>
    inst_value (cl_inst t q seq) = inst_value (cl_inst s q seq)"
proof (rule px_trans.steps_invariant [OF assms(1,2)])
  fix u v
  assume u: "px_reachable N enable u" and step: "px_step u v"
    and IH: "inst_status (cl_inst u q seq) = Decided \<and> inst_value (cl_inst u q seq) = inst_value (cl_inst s q seq)"
  have "extends u v" using step_extends [OF step] reachable_cl_inv [OF u] by (simp add: cl_inv_def)
  with IH show "inst_status (cl_inst v q seq) = Decided \<and>
      inst_value (cl_inst v q seq) = inst_value (cl_inst s q seq)"
    by (simp add: extends_def)
qed (use assms(3) in simp)

section \<open>Agreement\<close>

text \<open>The peers of a cluster keep the voting contract for every sequence number.\<close>

interpretation px_ballots: ballot_voting "majority N"
  "\<lambda>s. cl_inv s \<and> nil_free s seq \<and> cl_size s = N"
  "\<lambda>s q n w. (q, seq, n, w) \<in> cl_voted s" for N seq
proof unfold_locales
  fix s q n w q' w'
  assume inv: "cl_inv s \<and> nil_free s seq \<and> cl_size s = N"
    and "(q, seq, n, w) \<in> cl_voted s" "(q', seq, n, w') \<in> cl_voted s"
  then show "w = w'"
    using request_one_value [of s] unfolding cl_inv_def request_inv_def by metis
next
  fix s q n w m
  assume inv: "cl_inv s \<and> nil_free s seq \<and> cl_size s = N"
    and v: "(q, seq, n, w) \<in> cl_voted s" and m: "m < n"
  then obtain p where "(p, seq, n, w) \<in> cl_acceptReq s"
    unfolding cl_inv_def request_inv_def by metis
  with inv m have "safe_at s seq m w" unfolding cl_inv_def safe_inv_def by metis
  with inv show "\<exists>Q. majority N Q \<and> (\<forall>r \<in> Q. \<forall>u. (r, seq, m, u) \<in> cl_voted s \<longrightarrow> u = w)"
    unfolding safe_at_def by blast
qed

lemma chosen_elected:
  "chosen s seq w \<longleftrightarrow> (\<exists>n. px_ballots.elected (cl_size s) seq s n w)"
  by (simp add: chosen_def px_ballots.elected_def)

lemma chosen_unique:
  assumes "cl_inv s" and "nil_free s seq" and "chosen s seq u" and "chosen s seq w"
  shows "u = w"
  using assms px_ballots.elected_unique [of s seq "cl_size s"] unfolding chosen_elected by blast

lemma px_Status_Decided:
  assumes "px_wf px" and "px_Status seq px = Some (Decided, v)"
  shows "inst_status (px_heap px seq) = Decided \<and> inst_value (px_heap px seq) = v"
  using assms by (auto simp: px_Status_def getInstanceL_wf split: if_splits)

lemma status_chosen:
  assumes "cl_inv s" and "nil_free s seq" and "done_ok s seq" and "q < cl_size s"
    and "px_Status seq (cl_px s q) = Some (Decided, v)"
  shows "chosen s seq v" and "inst_status (cl_inst s q seq) = Decided"
proof -
  have "inst_status (cl_inst s q seq) = Decided \<and> inst_value (cl_inst s q seq) = v"
    using px_Status_Decided [OF _ assms(5)] assms(1,4) by (auto simp: cl_inv_def node_inv_def)
  with assms(1,2,3) show "chosen s seq v" and "inst_status (cl_inst s q seq) = Decided"
    using learned_heap [of s q seq] by (auto simp: cl_inv_def decide_inv_def)
qed

text \<open>What Status has reported at some moment of a run is still known at its end, and stays chosen.\<close>

lemma moment_learned:
  assumes "px_reachable N enable s" and "px_step\<^sup>*\<^sup>* s t" and "q < N"
    and "px_Status seq (cl_px s q) = Some (Decided, v)"
  shows "learned t seq v"
proof -
  have "cl_inv s" "cl_size s = N" using assms(1) reachable_cl_inv by blast+
  then have "inst_status (cl_inst s q seq) = Decided \<and> inst_value (cl_inst s q seq) = v"
    using px_Status_Decided [OF _ assms(4)] assms(3) by (auto simp: cl_inv_def node_inv_def)
  with run_decided_stable [OF assms(2,1)] have
    "inst_status (cl_inst t q seq) = Decided" "inst_value (cl_inst t q seq) = v" by metis+
  then show ?thesis using learned_heap by metis
qed

lemma moment_chosen:
  assumes "px_reachable N enable s" and "px_step\<^sup>*\<^sup>* s t" and "nil_free t seq" and "done_ok t seq"
    and "q < N" and "px_Status seq (cl_px s q) = Some (Decided, v)"
  shows "chosen t seq v"
  using moment_learned [OF assms(1,2,5,6)] run_reachable [OF assms(2,1)] reachable_cl_inv assms(3,4)
  unfolding cl_inv_def decide_inv_def by blast

lemma chosen_proposed:
  assumes "cl_inv s" and "chosen s seq v"
  shows "(seq, v) \<in> cl_proposed s"
  using chosen_voted [OF assms(2)] voted_proposed [of s] assms(1) unfolding cl_inv_def by blast

end
