(* ===== verification/Paxos_Exec.thy ===== *)
theory Paxos_Exec
  imports Paxos_Cluster
begin

text \<open>
  The step relation of Paxos_Cluster as a function: an action names the goroutine or the
  message that moves next, cl_exec checks its guard and performs it. Runs of the cluster
  can then be evaluated; every run is a run of px_step.
\<close>

datatype 'v action =
    ActAlloc nat int bool
  | ActSpawn nat nat int "'v option"
  | ActBegin nat
  | ActPrepare nat int int nat
  | ActPrepareDone nat "(nat \<times> 'v PrepareReply) list"
  | ActAccept nat int int "'v option" nat
  | ActAcceptDone nat "(nat \<times> AcceptReply) list"
  | ActDecide int "'v option" nat
  | ActDone nat int
  | ActTick nat "DoneReply list"
  | ActForgotten nat int

definition exec_begin :: "nat \<Rightarrow> nat \<Rightarrow> int \<Rightarrow> 'v option \<Rightarrow> 'v cluster \<Rightarrow> 'v cluster" where
  "exec_begin g p seq v s =
     (case proposer_begin (cl_inst s p seq) of
        None \<Rightarrow> put_proc g ProcDone s
      | Some (inst, n, val, acpt) \<Rightarrow>
          put_proc g (Preparing p seq v n val acpt) (put_inst p seq inst s)
            \<lparr>cl_prepareReq := insert (p, seq, n) (cl_prepareReq s),
             cl_promised := insert (p, seq, n, p) (cl_promised s)\<rparr>)"

definition exec_prepare :: "nat \<Rightarrow> int \<Rightarrow> int \<Rightarrow> nat \<Rightarrow> 'v cluster \<Rightarrow> 'v cluster" where
  "exec_prepare p seq n q s =
     (let (inst, reply) = prepare_inst n (cl_inst s q seq)
      in put_inst q seq inst s
           \<lparr>cl_prepareRep := insert (q, p, seq, n, reply) (cl_prepareRep s),
            cl_promised := (if pr_Code reply = RpcOk then {(q, seq, n, p)} else {}) \<union> cl_promised s\<rparr>)"

definition exec_prepare_done ::
  "nat \<Rightarrow> nat \<Rightarrow> int \<Rightarrow> 'v option \<Rightarrow> int \<Rightarrow> 'v prep_outcome \<Rightarrow> 'v cluster \<Rightarrow> 'v cluster" where
  "exec_prepare_done g p seq v n outcome s =
     (case outcome of
        PrepareOk a w \<Rightarrow>
          (case proposer_accept n w v (cl_inst s p seq) of
             EntryAccepted inst w' \<Rightarrow>
               put_proc g (Accepting p seq v n w')
                 (put_persist p seq inst (put_inst p seq inst s))
                 \<lparr>cl_acceptReq := insert (p, seq, n, w') (cl_acceptReq s),
                  cl_voted := insert (p, seq, n, w') (cl_voted s)\<rparr>
           | EntryStale \<Rightarrow> put_proc g (Looping p seq v) s
           | EntryDecided \<Rightarrow> put_proc g ProcDone s)
      | PrepareDecided w \<Rightarrow> put_proc g ProcDone s\<lparr>cl_decide := insert (p, seq, w) (cl_decide s)\<rparr>
      | PrepareLow a \<Rightarrow>
          put_proc g (Looping p seq v) (put_inst p seq (raise_prepare a (cl_inst s p seq)) s)
      | _ \<Rightarrow> put_proc g (Looping p seq v) s)"

definition exec_accept :: "nat \<Rightarrow> int \<Rightarrow> int \<Rightarrow> 'v option \<Rightarrow> nat \<Rightarrow> 'v cluster \<Rightarrow> 'v cluster" where
  "exec_accept p seq n w q s =
     (let (inst, reply, accepted) = accept_inst n w (cl_inst s q seq)
      in if accepted then
           put_persist q seq inst (put_inst q seq inst s)
             \<lparr>cl_acceptRep := insert (q, p, seq, n, reply) (cl_acceptRep s),
              cl_voted := insert (q, seq, n, w) (cl_voted s)\<rparr>
         else s\<lparr>cl_acceptRep := insert (q, p, seq, n, reply) (cl_acceptRep s)\<rparr>)"

definition exec_accept_done ::
  "nat \<Rightarrow> nat \<Rightarrow> int \<Rightarrow> 'v option \<Rightarrow> int \<Rightarrow> 'v option \<Rightarrow> accept_outcome \<Rightarrow> 'v cluster \<Rightarrow> 'v cluster"
where
  "exec_accept_done g p seq v n w outcome s =
     (case outcome of
        AcceptOk \<Rightarrow> put_proc g ProcDone s
          \<lparr>cl_decide := (\<lambda>q. (q, seq, w)) ` set [0..<cl_size s] \<union> cl_decide s\<rparr>
      | AcceptFailed m \<Rightarrow> put_proc g (Looping p seq v)
          (put_inst p seq (if m > n then raise_prepare m (cl_inst s p seq) else cl_inst s p seq) s))"

fun cl_exec :: "'v action \<Rightarrow> 'v cluster \<Rightarrow> 'v cluster option" where
  "cl_exec (ActAlloc p seq propose) s =
     (if p < cl_size s then
        (case getInstanceL seq propose (cl_px s p) of
           None \<Rightarrow> None | Some (px, r, tasks) \<Rightarrow> Some (put_px p px s))
      else None)"
| "cl_exec (ActSpawn g p seq v) s =
     (if p < cl_size s \<and> cl_proc s g = ProcNone \<and> allocated (cl_px s p) seq
      then Some (put_proc g (Looping p seq v) s\<lparr>cl_proposed := insert (seq, v) (cl_proposed s)\<rparr>)
      else None)"
| "cl_exec (ActBegin g) s =
     (case cl_proc s g of Looping p seq v \<Rightarrow> Some (exec_begin g p seq v s) | _ \<Rightarrow> None)"
| "cl_exec (ActPrepare p seq n q) s =
     (if (p, seq, n) \<in> cl_prepareReq s \<and> q < cl_size s \<and> q \<noteq> p \<and> allocated (cl_px s q) seq
      then Some (exec_prepare p seq n q s) else None)"
| "cl_exec (ActPrepareDone g rs) s =
     (case cl_proc s g of
        Preparing p seq v n val acpt \<Rightarrow>
          if prepare_channel s p seq n rs \<and>
             (run_prepare_loop (cl_size s) acpt val (map snd rs) = PrepareExhausted \<longrightarrow> Suc (length rs) = cl_size s)
          then Some (exec_prepare_done g p seq v n
                 (run_prepare_loop (cl_size s) acpt val (map snd rs)) s)
          else None
      | _ \<Rightarrow> None)"
| "cl_exec (ActAccept p seq n w q) s =
     (if (p, seq, n, w) \<in> cl_acceptReq s \<and> q < cl_size s \<and> q \<noteq> p \<and> allocated (cl_px s q) seq
      then Some (exec_accept p seq n w q s) else None)"
| "cl_exec (ActAcceptDone g rs) s =
     (case cl_proc s g of
        Accepting p seq v n w \<Rightarrow>
          if accept_channel s p seq n rs
          then Some (exec_accept_done g p seq v n w
                 (run_accept_loop (cl_size s) n (map snd rs)) s)
          else None
      | _ \<Rightarrow> None)"
| "cl_exec (ActDecide seq w q) s =
     (if (q, seq, w) \<in> cl_decide s \<and> q < cl_size s \<and> allocated (cl_px s q) seq
      then Some (put_px q (px_decide seq seq w (cl_px s q)) s) else None)"
| "cl_exec (ActDone q seq) s =
     (if q < cl_size s
      then (case px_Done seq (cl_px s q) of None \<Rightarrow> None | Some px \<Rightarrow>
              Some (put_px q px s\<lparr>cl_early := undecided_upto seq (cl_px s q) \<union> cl_early s\<rparr>))
      else None)"
| "cl_exec (ActTick q replies) s =
     (if q < cl_size s \<and> list_all (\<lambda>r. dr_SrvId r \<noteq> int q) replies
      then (case px_tick replies (cl_px s q) of
              None \<Rightarrow> None | Some (px, tasks) \<Rightarrow> Some (put_px q px s))
      else None)"
| "cl_exec (ActForgotten q seq) s =
     (if q < cl_size s \<and> 0 \<le> seq \<and> seq < px_startIndex (cl_px s q)
      then Some (put_px q (px_decide seq seq None (cl_px s q)) s) else None)"

fun cl_run :: "'v action list \<Rightarrow> 'v cluster \<Rightarrow> 'v cluster option" where
  "cl_run [] s = Some s"
| "cl_run (a # as) s = (case cl_exec a s of None \<Rightarrow> None | Some t \<Rightarrow> cl_run as t)"

section \<open>Soundness\<close>

lemma exec_begin_sound:
  "cl_proc s g = Looping p seq v \<Longrightarrow> px_step s (exec_begin g p seq v s)"
  by (cases "proposer_begin (cl_inst s p seq)")
    (auto simp: exec_begin_def intro: px_step.begin_decided px_step.begin_round)

lemma exec_prepare_sound:
  "(p, seq, n) \<in> cl_prepareReq s \<Longrightarrow> q < cl_size s \<Longrightarrow> q \<noteq> p \<Longrightarrow> allocated (cl_px s q) seq \<Longrightarrow>
   px_step s (exec_prepare p seq n q s)"
  by (cases "prepare_inst n (cl_inst s q seq)")
    (simp add: exec_prepare_def px_step.prepare del: insert_is_Un)

lemma exec_prepare_done_sound:
  assumes "cl_proc s g = Preparing p seq v n val acpt" and "prepare_channel s p seq n rs"
    and "run_prepare_loop (cl_size s) acpt val (map snd rs) = outcome"
    and "outcome = PrepareExhausted \<longrightarrow> Suc (length rs) = cl_size s"
  shows "px_step s (exec_prepare_done g p seq v n outcome s)"
proof (cases outcome)
  case (PrepareOk a w)
  with assms show ?thesis
    by (cases "proposer_accept n w v (cl_inst s p seq)")
      (auto simp: exec_prepare_done_def intro: px_step.enter_accept px_step.enter_stale
        px_step.enter_decided)
qed (use assms in \<open>auto simp: exec_prepare_done_def intro: px_step.learn_decided px_step.prepare_low
       px_step.prepare_retry\<close>)

lemma exec_accept_sound:
  "(p, seq, n, w) \<in> cl_acceptReq s \<Longrightarrow> q < cl_size s \<Longrightarrow> q \<noteq> p \<Longrightarrow> allocated (cl_px s q) seq \<Longrightarrow>
   px_step s (exec_accept p seq n w q s)"
proof (cases "accept_inst n w (cl_inst s q seq)")
  case (fields inst reply accepted)
  assume "(p, seq, n, w) \<in> cl_acceptReq s" "q < cl_size s" "q \<noteq> p" "allocated (cl_px s q) seq"
  with fields show ?thesis
    by (cases accepted) (auto simp: exec_accept_def intro: px_step.accept px_step.accept_refused)
qed

lemma exec_accept_done_sound:
  assumes "cl_proc s g = Accepting p seq v n w" and "accept_channel s p seq n rs"
    and "run_accept_loop (cl_size s) n (map snd rs) = outcome"
  shows "px_step s (exec_accept_done g p seq v n w outcome s)"
  using assms
  by (cases outcome)
    (simp_all add: exec_accept_done_def px_step.accept_ok px_step.accept_failed del: set_upt)

lemma cl_exec_sound: "cl_exec a s = Some t \<Longrightarrow> px_step s t"
  by (cases a) (auto simp: list_all_iff split: if_splits option.splits proc.splits
      intro: px_step.alloc px_step.spawn px_step.decide px_step.app_done px_step.tick
        px_step.decide_forgotten exec_begin_sound exec_prepare_sound exec_prepare_done_sound
        exec_accept_sound exec_accept_done_sound)

interpretation px_runs: runs px_step "px_reachable N enable" cl_exec cl_run for N enable
  by unfold_locales (simp_all add: px_reachable.step cl_exec_sound)

lemmas cl_run_steps = px_runs.run_steps
lemmas cl_run_append = px_runs.run_append
lemmas cl_run_reachable = px_runs.run_reach [OF _ px_reachable.init]

end
