(* ===== verification/Paxos_Properties.thy ===== *)
theory Paxos_Properties
  imports Paxos_Agreement Paxos_Exec
begin

text \<open>
  What the Paxos package promises to its users: agreement, validity and stability of the
  values that Status reports, what forgetting and restarting keep, and the handlers as
  runs of the step relation. Concrete runs witness the hypotheses.
\<close>

section \<open>Runs of three peers\<close>

lemma nil_free_code [code]:
  "nil_free s seq \<longleftrightarrow> (\<forall>(p, i, n, w) \<in> cl_acceptReq s. i = seq \<longrightarrow> w \<noteq> None)"
  by (auto simp: nil_free_def)

text \<open>Peer 0 gets 7 decided with the help of peer 1, and learns it first.\<close>

definition demo_decide :: "nat action list" where
  "demo_decide =
     [ActAlloc 0 0 False, ActSpawn 0 0 0 (Some 7), ActBegin 0, ActAlloc 1 0 True,
      ActPrepare 0 0 1 1,
      ActPrepareDone 0 [(1, \<lparr>pr_Code = RpcOk, pr_AcPr = 0, pr_Value = None\<rparr>)],
      ActAccept 0 0 1 (Some 7) 1, ActAcceptDone 0 [(1, \<lparr>ar_Reply = RpcOk\<rparr>)],
      ActDecide 0 (Some 7) 0]"

text \<open>
  Peer 2 then proposes 9. Its first ballot is too low, its second finds the accepted 7
  at peer 1 and decides that.
\<close>

definition demo_learn :: "nat action list" where
  "demo_learn =
     [ActAlloc 2 0 True, ActSpawn 1 2 0 (Some 9), ActBegin 1, ActPrepare 2 0 1 1,
      ActPrepareDone 1 [(1, \<lparr>pr_Code = LowPrepare, pr_AcPr = 1, pr_Value = None\<rparr>)],
      ActBegin 1, ActPrepare 2 0 2 1,
      ActPrepareDone 1 [(1, \<lparr>pr_Code = RpcOk, pr_AcPr = 1, pr_Value = Some 7\<rparr>)],
      ActAccept 2 0 2 (Some 7) 1, ActAcceptDone 1 [(1, \<lparr>ar_Reply = RpcOk\<rparr>)],
      ActDecide 0 (Some 7) 2]"

definition demo_state :: "nat action list \<Rightarrow> nat cluster" where
  "demo_state acts = the (cl_run acts (cl_init 3 True))"

lemma demo_runs:
  "cl_run demo_decide (cl_init 3 True) \<noteq> None"
  "cl_run demo_learn (demo_state demo_decide) \<noteq> None"
  unfolding not_None_eq [symmetric] by code_simp+

lemma demo_reachable:
  "cl_run acts (cl_init 3 True) \<noteq> None \<Longrightarrow> px_reachable 3 True (demo_state acts)"
  by (auto simp: demo_state_def intro: cl_run_reachable)

lemma demo_wf:
  "cl_run acts (cl_init 3 True) \<noteq> None \<Longrightarrow> q < 3 \<Longrightarrow>
   px_wf (cl_px (demo_state acts) q) \<and> px_me (cl_px (demo_state acts) q) = q"
  using reachable_cl_inv [OF demo_reachable] by (auto simp: cl_inv_def node_inv_def)

lemmas demo_decide_reachable = demo_reachable [OF demo_runs(1)]

lemma demo_learn_steps:
  "px_step\<^sup>*\<^sup>* (demo_state demo_decide) (demo_state (demo_decide @ demo_learn))"
  using demo_runs by (auto simp: demo_state_def cl_run_append intro: cl_run_steps)

lemma demo_status:
  "px_Status 0 (cl_px (demo_state demo_decide) 0) = Some (Decided, Some 7)"
  "nil_free (demo_state demo_decide) 0"
  "nil_free (demo_state (demo_decide @ demo_learn)) 0"
  "done_ok (demo_state demo_decide) 0"
  "done_ok (demo_state (demo_decide @ demo_learn)) 0"
  "fst (the (px_Status 0 (cl_px (demo_state (demo_decide @ demo_learn)) 2))) = Decided"
  "px_Status 0 (cl_px (demo_state (demo_decide @ demo_learn)) 2) \<noteq> None"
  by code_simp+

section \<open>Agreement, validity, stability\<close>

text \<open>
  C2. Agreement: if Status reports Decided at one peer and, then or later, at another
  peer for the same sequence number, the two values are equal, whatever calls were lost,
  delayed or reordered and however proposers competed, on two conditions: no nil value
  entered the accept phase of that instance (nil_free), and no peer was given a Done that
  covers the instance before it had decided it (done_ok; Done itself does not check it).
  Peers are not restarted in these runs.
\<close>

theorem paxos_agreement:
  assumes "px_reachable N enable s" and "px_step\<^sup>*\<^sup>* s t" and "nil_free t seq"
    and "done_ok t seq" and "q < N" and "q' < N"
    and "px_Status seq (cl_px s q) = Some (Decided, v)"
    and "px_Status seq (cl_px t q') = Some (Decided, v')"
  shows "v = v'"
proof -
  have t: "px_reachable N enable t" using run_reachable [OF assms(2,1)] .
  have "chosen t seq v" using moment_chosen [OF assms(1,2,3,4,5,7)] .
  moreover have "chosen t seq v'" using moment_chosen [OF t _ assms(3,4,6,8)] by simp
  moreover have "cl_inv t" using reachable_cl_inv [OF t] ..
  ultimately show ?thesis using chosen_unique assms(3) by blast
qed

theorem paxos_agreement_witness:
  "\<exists>v. px_Status 0 (cl_px (demo_state demo_decide) 0) = Some (Decided, Some 7) \<and>
     px_Status 0 (cl_px (demo_state (demo_decide @ demo_learn)) 2) = Some (Decided, v) \<and> v = Some 7"
proof -
  obtain v where v: "px_Status 0 (cl_px (demo_state (demo_decide @ demo_learn)) 2) = Some (Decided, v)"
    using demo_status(6,7) by force
  show ?thesis
    using paxos_agreement [OF demo_decide_reachable demo_learn_steps demo_status(3,5) _ _ demo_status(1) v]
      v demo_status(1) by simp
qed

text \<open>
  C14. Validity: a value that Status reports as decided, at any moment of a run, was given
  to some proposer of that sequence number, nil values included. The one condition is the
  contract of Done: no peer was given a Done that covers the instance before it had decided
  it (a peer that forgets an open instance decides it with nil, which nobody proposed).
\<close>

theorem paxos_validity:
  assumes "px_reachable N enable s" and "done_ok s seq" and "q < N"
    and "px_Status seq (cl_px s q) = Some (Decided, v)"
  shows "(seq, v) \<in> cl_proposed s"
  using moment_learned [OF assms(1) _ assms(3,4)] reachable_cl_inv [OF assms(1)] assms(2)
  unfolding cl_inv_def learn_inv_def by blast

theorem paxos_validity_witness:
  "px_Status 0 (cl_px (demo_state demo_decide) 0) = Some (Decided, Some 7) \<and>
   (0, Some 7) \<in> cl_proposed (demo_state demo_decide)"
  using paxos_validity [OF demo_decide_reachable demo_status(4) _ demo_status(1)] demo_status(1)
  by simp

text \<open>
  C15. Stability: once Status reports a decision at a peer, it reports that same decision
  or Forgotten at that peer for ever after, nil values or not.
\<close>

theorem paxos_stable:
  assumes "px_reachable N enable s" and "px_step\<^sup>*\<^sup>* s t" and "q < N"
    and "px_Status seq (cl_px s q) = Some (Decided, v)"
  shows "px_Status seq (cl_px t q) \<in> {Some (Decided, v), Some (Forgotten, None)}"
proof -
  have s: "px_wf (cl_px s q)" "cl_inv s"
    using assms(1,3) reachable_cl_inv by (fastforce simp: cl_inv_def node_inv_def)+
  have t: "px_wf (cl_px t q)" "cl_inv t"
    using run_reachable [OF assms(2,1)] assms(3) reachable_cl_inv
    by (fastforce simp: cl_inv_def node_inv_def)+
  have "inst_status (cl_inst s q seq) = Decided \<and> inst_value (cl_inst s q seq) = v"
    using px_Status_Decided [OF s(1) assms(4)] .
  with run_decided_stable [OF assms(2,1)] have dec:
    "inst_status (cl_inst t q seq) = Decided" "inst_value (cl_inst t q seq) = v" by metis+
  have "seq < px_next (cl_px t q)"
  proof (rule ccontr)
    assume "\<not> seq < px_next (cl_px t q)"
    with t(1) have "cl_inst t q seq = new_instance" by (simp add: px_wf_def)
    with dec(1) show False by (simp add: new_instance_def)
  qed
  then show ?thesis
    using dec getInstanceL_wf [OF t(1)]
    by (auto simp: px_Status_def px_next_def)
qed

theorem paxos_stable_witness:
  "px_Status 0 (cl_px (demo_state (demo_decide @ demo_learn)) 0)
     \<in> {Some (Decided, Some 7), Some (Forgotten, None)}"
  using paxos_stable [OF demo_decide_reachable demo_learn_steps _ demo_status(1)] by simp

section \<open>Handlers as runs\<close>

lemma getInstanceL_step:
  assumes "cl_inv s" and "q < cl_size s" and "px_startIndex (cl_px s q) \<le> seq"
  shows "px_step s (put_px q (px_grow seq (cl_px s q)) s)"
    and "allocated (px_grow seq (cl_px s q)) seq"
proof -
  have wf: "px_wf (cl_px s q)" using assms(1,2) by (simp add: cl_inv_def node_inv_def)
  show "px_step s (put_px q (px_grow seq (cl_px s q)) s)"
    using getInstanceL_wf [OF wf, of seq False] assms(2,3) by (auto intro: px_step.alloc)
  show "allocated (px_grow seq (cl_px s q)) seq"
    using wf assms(3) by (simp add: allocated_next px_next_grow px_wf_def)
qed

lemma two_steps: "px_step s t \<Longrightarrow> px_step t u \<Longrightarrow> px_step\<^sup>*\<^sup>* s u"
  by (meson converse_rtranclp_into_rtranclp r_into_rtranclp)

lemma Prepare_late_steps:
  assumes "cl_inv s" "q < cl_size s" "q \<noteq> p" "(p, seq, n) \<in> cl_prepareReq s"
    and "seq < px_startIndex (cl_px s q)"
    and "px_Prepare \<lparr>pa_Seq = seq, pa_Prepare = n\<rparr> (cl_px s q) = Some (px, reply, tasks)"
  shows "\<exists>t. px_step s t \<and> cl_px t q = px \<and> (q, p, seq, n, reply) \<in> cl_prepareRep t"
  using assms px_step.prepare_late [OF assms(4,2,3,5)]
  by (auto simp: px_Prepare_def getInstanceL_def)

lemma Prepare_handler_steps:
  assumes inv: "cl_inv s" and q: "q < cl_size s" "q \<noteq> p" and req: "(p, seq, n) \<in> cl_prepareReq s"
    and run: "px_Prepare \<lparr>pa_Seq = seq, pa_Prepare = n\<rparr> (cl_px s q) = Some (px, reply, tasks)"
  shows "\<exists>t. px_step\<^sup>*\<^sup>* s t \<and> cl_px t q = px \<and> (q, p, seq, n, reply) \<in> cl_prepareRep t"
proof (cases "seq < px_startIndex (cl_px s q)")
  case True
  with Prepare_late_steps [OF inv q req _ run] show ?thesis by blast
next
  case False
  then have le: "px_startIndex (cl_px s q) \<le> seq" by simp
  have wf: "px_wf (cl_px s q)" using inv q by (simp add: cl_inv_def node_inv_def)
  define t where "t = put_px q (px_grow seq (cl_px s q)) s"
  have t: "px_step s t" "allocated (cl_px t q) seq" "cl_px t q = px_grow seq (cl_px s q)"
    "q < cl_size t" "(p, seq, n) \<in> cl_prepareReq t"
    using getInstanceL_step [OF inv q(1) le] req q by (auto simp: t_def put_px_def)
  obtain i r where i: "prepare_inst n (cl_inst t q seq) = (i, r)" by fastforce
  have "px = (cl_px t q)\<lparr>px_heap := (cl_inst t q)(seq := i)\<rparr> \<and> reply = r"
    using run False i by (auto simp: px_Prepare_def getInstanceL_wf [OF wf] t(3))
  then have "\<exists>u. px_step t u \<and> cl_px u q = px \<and> (q, p, seq, n, reply) \<in> cl_prepareRep u"
    using px_step.prepare [OF t(5,4) q(2) t(2) i] by (intro exI conjI) (auto simp: put_inst_def)
  with two_steps [OF t(1)] show ?thesis by blast
qed

lemma Accept_late_steps:
  assumes "cl_inv s" "q < cl_size s" "q \<noteq> p" "(p, seq, n, w) \<in> cl_acceptReq s"
    and "seq < px_startIndex (cl_px s q)"
    and "px_Accept \<lparr>aa_Seq = seq, aa_Accept = n, aa_Value = w\<rparr> (cl_px s q) = Some (px, reply, tasks)"
  shows "\<exists>t. px_step s t \<and> cl_px t q = px \<and> (q, p, seq, n, reply) \<in> cl_acceptRep t"
  using assms px_step.accept_late [OF assms(4,2,3,5)]
  by (auto simp: px_Accept_def getInstanceL_def)

lemma Accept_handler_steps:
  assumes inv: "cl_inv s" and q: "q < cl_size s" "q \<noteq> p" and req: "(p, seq, n, w) \<in> cl_acceptReq s"
    and run: "px_Accept \<lparr>aa_Seq = seq, aa_Accept = n, aa_Value = w\<rparr> (cl_px s q) =
      Some (px, reply, tasks)"
  shows "\<exists>t. px_step\<^sup>*\<^sup>* s t \<and> cl_px t q = px \<and> (q, p, seq, n, reply) \<in> cl_acceptRep t"
proof (cases "seq < px_startIndex (cl_px s q)")
  case True
  with Accept_late_steps [OF inv q req _ run] show ?thesis by blast
next
  case False
  then have le: "px_startIndex (cl_px s q) \<le> seq" by simp
  have wf: "px_wf (cl_px s q)" using inv q by (simp add: cl_inv_def node_inv_def)
  define t where "t = put_px q (px_grow seq (cl_px s q)) s"
  have t: "px_step s t" "allocated (cl_px t q) seq" "cl_px t q = px_grow seq (cl_px s q)"
    "q < cl_size t" "(p, seq, n, w) \<in> cl_acceptReq t"
    using getInstanceL_step [OF inv q(1) le] req q by (auto simp: t_def put_px_def)
  obtain i r b where i: "accept_inst n w (cl_inst t q seq) = (i, r, b)" by (metis prod_cases3)
  define px1 where "px1 = (cl_px t q)\<lparr>px_heap := (cl_inst t q)(seq := i)\<rparr>"
  have px: "px = (if b then px1\<lparr>px_persister := persistInstanceL seq i (px_persister px1)\<rparr> else px1)"
    "reply = r"
    using run False i by (auto simp: px_Accept_def getInstanceL_wf [OF wf] t(3) px1_def Let_def)
  have "\<exists>u. px_step t u \<and> cl_px u q = px \<and> (q, p, seq, n, reply) \<in> cl_acceptRep u"
  proof (cases b)
    case True
    with px_step.accept [OF t(5,4) q(2) t(2)] i show ?thesis
      by (intro exI conjI) (auto simp: px px1_def put_defs)
  next
    case False
    then have "i = cl_inst t q seq" using i by (auto simp: accept_inst_def split: if_splits)
    with False px_step.accept_refused [OF t(5,4) q(2) t(2)] i show ?thesis
      by (intro exI [of _ "t\<lparr>cl_acceptRep := insert (q, p, seq, n, r) (cl_acceptRep t)\<rparr>"])
        (simp add: px px1_def)
  qed
  with two_steps [OF t(1)] show ?thesis by blast
qed

text \<open>
  The RPC handlers Prepare and Accept, each taken as a whole, are runs of the step
  relation: the peer ends in the state the handler leaves and the handler's reply is in
  the network. Agreement therefore covers the handlers as the code has them.
\<close>

lemma handlers_refine_steps:
  assumes "px_reachable N enable s" and "q < N" and "q \<noteq> p"
  shows "((p, seq, n) \<in> cl_prepareReq s \<longrightarrow>
      px_Prepare \<lparr>pa_Seq = seq, pa_Prepare = n\<rparr> (cl_px s q) = Some (px, reply, tasks) \<longrightarrow>
      (\<exists>t. px_step\<^sup>*\<^sup>* s t \<and> cl_px t q = px \<and> (q, p, seq, n, reply) \<in> cl_prepareRep t)) \<and>
    ((p, seq, n, w) \<in> cl_acceptReq s \<longrightarrow>
      px_Accept \<lparr>aa_Seq = seq, aa_Accept = n, aa_Value = w\<rparr> (cl_px s q) = Some (px, reply', tasks) \<longrightarrow>
      (\<exists>t. px_step\<^sup>*\<^sup>* s t \<and> cl_px t q = px \<and> (q, p, seq, n, reply') \<in> cl_acceptRep t))"
proof (intro conjI impI)
  have s: "cl_inv s" "q < cl_size s" using reachable_cl_inv [OF assms(1)] assms(2) by auto
  show "\<exists>t. px_step\<^sup>*\<^sup>* s t \<and> cl_px t q = px \<and> (q, p, seq, n, reply) \<in> cl_prepareRep t"
    if "(p, seq, n) \<in> cl_prepareReq s"
      and "px_Prepare \<lparr>pa_Seq = seq, pa_Prepare = n\<rparr> (cl_px s q) = Some (px, reply, tasks)"
    using that by (rule Prepare_handler_steps [OF s assms(3)])
  show "\<exists>t. px_step\<^sup>*\<^sup>* s t \<and> cl_px t q = px \<and> (q, p, seq, n, reply') \<in> cl_acceptRep t"
    if "(p, seq, n, w) \<in> cl_acceptReq s"
      and "px_Accept \<lparr>aa_Seq = seq, aa_Accept = n, aa_Value = w\<rparr> (cl_px s q) = Some (px, reply', tasks)"
    using that by (rule Accept_handler_steps [OF s assms(3)])
qed

definition demo_begin :: "nat action list" where
  "demo_begin = take 3 demo_decide"

lemma handlers_refine_steps_sample:
  "\<exists>px reply tasks t. px_Prepare \<lparr>pa_Seq = 0, pa_Prepare = 1\<rparr> (cl_px (demo_state demo_begin) 1) =
      Some (px, reply, tasks) \<and> px_step\<^sup>*\<^sup>* (demo_state demo_begin) t \<and> cl_px t 1 = px \<and>
      (1, 0, 0, 1, reply) \<in> cl_prepareRep t"
proof -
  have run: "cl_run demo_begin (cl_init 3 True) \<noteq> None"
    "(0, 0, 1) \<in> cl_prepareReq (demo_state demo_begin)"
    "px_Prepare \<lparr>pa_Seq = 0, pa_Prepare = 1\<rparr> (cl_px (demo_state demo_begin) 1) \<noteq> None"
    by code_simp+
  then obtain px reply tasks where
    "px_Prepare \<lparr>pa_Seq = 0, pa_Prepare = 1\<rparr> (cl_px (demo_state demo_begin) 1) =
      Some (px, reply, tasks)" by auto
  with handlers_refine_steps [OF demo_reachable [OF run(1)], of 1 0 0 1] run(2)
  show ?thesis by auto
qed

section \<open>Promises\<close>

lemma px_Prepare_wf:
  assumes "px_wf px" and "px_startIndex px \<le> seq"
  shows "px_Prepare \<lparr>pa_Seq = seq, pa_Prepare = n\<rparr> px =
    Some (px_grow seq px\<lparr>px_heap := (px_heap px)(seq := fst (prepare_inst n (px_heap px seq)))\<rparr>,
      snd (prepare_inst n (px_heap px seq)),
      map (\<lambda>j. GoProposer j None j) [px_next px..seq])"
  using assms by (simp add: px_Prepare_def getInstanceL_wf case_prod_beta)

text \<open>
  C16. A promise binds the acceptor: after Prepare has answered Ok to ballot n, Accept
  refuses every lower ballot for that instance and leaves the instance as it is, and a
  second Prepare with a ballot up to n is refused as well.
\<close>

theorem paxos_promise_binds:
  assumes "px_wf px" and "m < n"
    and "px_Prepare \<lparr>pa_Seq = seq, pa_Prepare = n\<rparr> px = Some (px1, reply, tasks)"
    and "pr_Code reply = RpcOk"
  shows "\<exists>px2 tasks2. px_Accept \<lparr>aa_Seq = seq, aa_Accept = m, aa_Value = w\<rparr> px1 =
      Some (px2, \<lparr>ar_Reply = n\<rparr>, tasks2) \<and> px_heap px2 = px_heap px1 \<and>
    px_Prepare \<lparr>pa_Seq = seq, pa_Prepare = m + 1\<rparr> px1 =
      Some (px2, \<lparr>pr_Code = LowPrepare, pr_AcPr = n, pr_Value = None\<rparr>, tasks2)"
proof -
  have start: "px_startIndex px \<le> seq"
    using assms(3,4) by (auto simp: px_Prepare_def getInstanceL_def rpc_codes split: if_splits)
  then have i: "inst_status (px_heap px seq) \<noteq> Decided" "n > inst_prepare (px_heap px seq)"
    and px1: "px1 = px_grow seq px\<lparr>px_heap := (px_heap px)(seq :=
      (px_heap px seq)\<lparr>inst_prepare := n\<rparr>)\<rparr>"
    using assms(3,4) px_Prepare_wf [OF assms(1), of seq n]
    by (auto simp: prepare_inst_def rpc_codes split: if_splits)
  have "px_next (px_grow seq px) \<ge> seq + 1" using px_next_grow [OF start] by simp
  then have "px_wf px1"
    using px_wf_grow [OF assms(1) start] by (auto simp: px1 px_wf_def px_next_def)
  then show ?thesis
    using assms(2) i start
    by (simp add: px_Accept_def px_Prepare_def getInstanceL_wf px1 accept_inst_def prepare_inst_def)
qed

theorem paxos_promise_binds_witness:
  "\<exists>px1 reply. px_Prepare \<lparr>pa_Seq = 0, pa_Prepare = 3\<rparr> (px_peer0 3 True 1 :: nat Paxos) =
      Some (px1, reply, [GoProposer 0 None 0]) \<and>
    (\<exists>px2 tasks2. px_Accept \<lparr>aa_Seq = 0, aa_Accept = 2, aa_Value = Some 5\<rparr> px1 =
      Some (px2, \<lparr>ar_Reply = 3\<rparr>, tasks2) \<and> px_heap px2 = px_heap px1 \<and>
    px_Prepare \<lparr>pa_Seq = 0, pa_Prepare = 2 + 1\<rparr> px1 =
      Some (px2, \<lparr>pr_Code = LowPrepare, pr_AcPr = 3, pr_Value = None\<rparr>, tasks2))"
proof -
  have wf: "px_wf (px_peer0 3 True 1 :: nat Paxos)"
    by (simp add: px_wf_def px_peer0_def px_next_def)
  have run: "px_Prepare \<lparr>pa_Seq = 0, pa_Prepare = 3\<rparr> (px_peer0 3 True 1 :: nat Paxos) =
      Some (px_grow 0 (px_peer0 3 True 1)\<lparr>px_heap := (\<lambda>_. new_instance)
        (0 := new_instance\<lparr>inst_prepare := 3\<rparr>)\<rparr>,
        \<lparr>pr_Code = RpcOk, pr_AcPr = 0, pr_Value = None\<rparr>, [GoProposer 0 None 0])"
    using px_Prepare_wf [OF wf, of 0 3]
    by (simp add: px_peer0_def px_next_def prepare_inst_def new_instance_def)
  show ?thesis using run paxos_promise_binds [OF wf _ run, of 2] by simp
qed

section \<open>Restarting\<close>

lemma psi_read_of [simp]: "psi_read (psi_of inst) = inst"
  by (simp add: psi_read_def psi_of_def)

lemma filter_upt_Suc:
  "filter Q [0..<Suc m] = (if Q 0 then [0] else []) @ map Suc (filter (\<lambda>k. Q (Suc k)) [0..<m])"
  by (simp add: upt_conv_Cons filter_map o_def flip: map_Suc_upt del: upt_Suc)

lemma nth_Cons_shift: "(b::int) < r \<Longrightarrow> (x # xs) ! nat (r - b) = xs ! nat (r - (b + 1))"
proof -
  assume "b < r"
  then have "nat (r - b) = Suc (nat (r - (b + 1)))" by simp
  then show ?thesis by simp
qed

text \<open>The restore loop puts back the objects in order and starts a proposer for each open one.\<close>

lemma readPersist_loop_spec:
  "readPersist_loop st i pinsts px = (px', tasks) \<Longrightarrow>
   px_instances px' = px_instances px @ [st + i..st + i + int (length pinsts) - 1] \<and>
   px_heap px' = (\<lambda>r. if st + i \<le> r \<and> r < st + i + int (length pinsts)
      then psi_read (pinsts ! nat (r - (st + i))) else px_heap px r) \<and>
   tasks = map (\<lambda>k. GoProposer (st + i + int k) None (st + i + int k))
      (filter (\<lambda>k. inst_status (psi_read (pinsts ! k)) \<noteq> Decided) [0..<length pinsts]) \<and>
   px_startIndex px' = px_startIndex px \<and> px_done px' = px_done px \<and> px_me px' = px_me px \<and>
   px_peers px' = px_peers px"
proof (induction pinsts arbitrary: i px px' tasks)
  case (Cons p ps)
  let ?px = "px\<lparr>px_heap := (px_heap px)(st + i := psi_read p),
                px_instances := px_instances px @ [st + i]\<rparr>"
  define px2 where "px2 = (if inst_status (psi_read p) = Decided then ?px\<lparr>px_decided := st + i\<rparr> else ?px)"
  have px2: "px_heap px2 = (px_heap px)(st + i := psi_read p)" "px_me px2 = px_me px"
    "px_instances px2 = px_instances px @ [st + i]" "px_done px2 = px_done px"
    "px_peers px2 = px_peers px" "px_startIndex px2 = px_startIndex px"
    by (auto simp: px2_def)
  obtain px1 tasks1 where rec: "readPersist_loop st (i + 1) ps px2 = (px1, tasks1)" by fastforce
  have px': "px' = px1" "tasks = (if inst_status (psi_read p) = Decided then []
      else [GoProposer (st + i) None (st + i)]) @ tasks1"
    using Cons.prems rec by (auto simp: Let_def px2_def split: prod.splits if_splits)
  have rng: "[st + i..st + i + int (length (p # ps)) - 1] =
      (st + i) # [st + (i + 1)..st + (i + 1) + int (length ps) - 1]"
    by (simp add: upto_rec1 algebra_simps)
  have heap: "(\<lambda>r. if st + (i + 1) \<le> r \<and> r < st + (i + 1) + int (length ps)
      then psi_read (ps ! nat (r - (st + (i + 1)))) else px_heap px2 r) =
    (\<lambda>r. if st + i \<le> r \<and> r < st + i + int (length (p # ps))
      then psi_read ((p # ps) ! nat (r - (st + i))) else px_heap px r)"
    using nth_Cons_shift [of "st + i" _ p ps]
    by (auto simp: fun_eq_iff add.assoc px2)
  show ?case
    using Cons.IH [OF rec] unfolding px' heap rng
    by (simp add: px2 filter_upt_Suc o_def add.assoc del: upt_Suc)
qed (auto simp: fun_eq_iff)

text \<open>
  C24. Persist followed by Make restores the peer: the same window with the same instances,
  so Status answers as before for every sequence number, and exactly the instances that
  were not decided get a proposer goroutine that finishes them.
\<close>

theorem paxos_persist_restart:
  assumes "px_wf px"
  shows "\<exists>px' tasks. px_Make (px_peers px) (px_me px) (px_persister (px_Persist px)) = Some (px', tasks) \<and>
    px_wf px' \<and> px_instances px' = px_instances px \<and>
    (\<forall>seq. px_Status seq px' = px_Status seq px) \<and>
    (\<forall>seq \<in> set (px_instances px). px_heap px' seq = px_heap px seq) \<and>
    tasks = map (\<lambda>i. GoProposer i None i)
      (filter (\<lambda>i. inst_status (px_heap px i) \<noteq> Decided) (px_instances px))"
proof -
  let ?st = "px_startIndex px" and ?n = "length (px_instances px)"
  let ?pinsts = "map (\<lambda>r. psi_of (px_heap px r)) (px_instances px)"
  have win: "px_instances px = [?st..?st + int ?n - 1]" and me: "px_me px < px_peers px"
    using assms by (auto simp: px_wf_def px_next_def)
  have nth: "px_instances px ! k = ?st + int k" if "k < ?n" for k
    using that by (subst win) (simp add: nth_upto)
  define px0 where "px0 = \<lparr>px_peers = px_peers px, px_me = px_me px,
    px_persister = px_persister (px_Persist px), px_dead = False, px_instances = [],
    px_heap = (\<lambda>_. new_instance), px_startIndex = ?st,
    px_done = (replicate (px_peers px) 0)[px_me px := ?st], px_decided = ?st - 1\<rparr>"
  obtain px' tasks where loop: "readPersist_loop ?st 0 ?pinsts px0 = (px', tasks)" by fastforce
  have run: "px_Make (px_peers px) (px_me px) (px_persister (px_Persist px)) = Some (px', tasks)"
    using loop me by (simp add: px_Make_def px_readPersist_def ps_ReadPaxosState_def ps_Save_def
        px_Persist_def px_persistL_def go_store_def px0_def)
  note sp = readPersist_loop_spec [OF loop]
  have heap: "px_heap px' r = (if r \<in> set (px_instances px) then px_heap px r else new_instance)" for r
    using sp nth [of "nat (r - ?st)"] by (subst win) (auto simp: px0_def)
  have mem: "r \<in> set (px_instances px) \<longleftrightarrow> ?st \<le> r \<and> r < ?st + int ?n" for r
    by (subst win) auto
  have st: "px_startIndex px' = ?st" using sp by (simp add: px0_def)
  have inst: "px_instances px' = px_instances px" using sp win by (simp add: px0_def)
  have wf: "px_wf px'"
    using assms sp heap win inst by (auto simp: px_wf_def px_next_def px0_def)
  have "px_Status seq px' = px_Status seq px" for seq
    using heap [of seq] inst st mem [of seq]
    by (auto simp: px_Status_def getInstanceL_wf [OF wf] getInstanceL_wf [OF assms])
  moreover have "tasks = map (\<lambda>i. GoProposer i None i)
      (filter (\<lambda>i. inst_status (px_heap px i) \<noteq> Decided) (px_instances px))"
  proof -
    have win2: "px_instances px = map (\<lambda>k. ?st + int k) [0..<?n]"
      using nth by (intro nth_equalityI) auto
    have "tasks = map (\<lambda>k. GoProposer (?st + int k) None (?st + int k))
        (filter (\<lambda>k. inst_status (px_heap px (?st + int k)) \<noteq> Decided) [0..<?n])"
      using sp nth by (auto intro!: arg_cong [where f = "map _"] filter_cong)
    then show ?thesis by (subst win2) (simp add: filter_map o_def)
  qed
  ultimately show ?thesis using run wf inst heap by auto
qed


theorem paxos_persist_restart_witness:
  "\<exists>px' tasks. px_Make 3 0 (px_persister (px_Persist (cl_px (demo_state demo_decide) 0))) =
      Some (px', tasks) \<and> px_Status 0 px' = Some (Decided, Some 7)"
proof -
  let ?px = "cl_px (demo_state demo_decide) 0"
  have "px_wf ?px" and "px_me ?px = 0" using demo_wf [OF demo_runs(1)] by simp_all
  moreover have "px_peers ?px = 3" by code_simp
  ultimately show ?thesis using paxos_persist_restart [of ?px] demo_status(1) by auto
qed

section \<open>Forgetting\<close>

lemma foldl_min_Min: "foldl min d xs = Min (insert (d::int) (set xs))"
proof (induction xs arbitrary: d)
  case (Cons x xs)
  have "Min (insert (min d x) (set xs)) = Min (insert d (insert x (set xs)))"
    by (cases "xs = []") (simp_all add: min.assoc)
  with Cons.IH show ?case by simp
qed simp

text \<open>
  C25. One tick of a well-formed peer, whatever replies arrive, moves Min to the least entry
  of the merged done vector, but to at most Max + 1 and never back. When some instances that
  every peer is done with have not been allocated here, Min therefore stays below that least
  entry, against the comment of Min (paxos.go), which promises one more than the minimum of
  the done numbers. Min never passes what this peer's own application has declared done;
  entries of the done vector never decrease and no instance object changes.
\<close>

theorem paxos_tick_min:
  assumes "px_wf px" and "\<forall>r \<in> set replies. dr_SrvId r \<noteq> int (px_me px)"
    and "px_tick replies px = Some (px', tasks)" and "0 \<le> px_done px ! px_me px"
  shows "px_wf px' \<and> px_heap px' = px_heap px \<and> px_Min px \<le> px_Min px' \<and>
    px_Min px' = max (px_Min px) (min (Min (set (px_done px'))) (px_Max px + 1)) \<and>
    px_Min px' \<le> max (px_Min px) (px_done px ! px_me px) \<and>
    px_done px' ! px_me px = px_done px ! px_me px \<and>
    (\<forall>q < px_peers px. px_done px ! q \<le> px_done px' ! q)"
proof -
  note eff = px_tick_effect [OF assms(1,2,4,3)]
  from px_tick_spec [OF assms(1,3)] obtain rd dec where
    rd: "ticker_collect replies (replicate (px_peers px) 0) (-1) = Some (rd, dec)"
    and upd: "px_done px' = map2 max (px_done px) rd"
    and start: "px_startIndex px' = max (px_startIndex px)
      (min (foldl min (px_done px ! px_me px) (px_done px')) (px_next px))" by metis
  have len: "length rd = length (px_done px)" "px_peers px = length (px_done px)"
    "px_me px < length (px_done px)"
    using ticker_collect_Some [OF rd] assms(1) by (auto simp: px_wf_def)
  have "px_done px ! px_me px \<in> set (px_done px')"
    using eff(7) len upd by (metis length_map length_zip min.idem nth_mem)
  then have "foldl min (px_done px ! px_me px) (px_done px') = Min (set (px_done px'))"
    by (simp add: foldl_min_Min insert_absorb)
  then show ?thesis
    using eff start len upd by (simp add: px_Min_def px_Max_def px_next_def)
qed

definition demo_done :: "nat Paxos" where
  "demo_done = cl_px (demo_state (demo_decide @ [ActDone 0 0])) 0"

definition demo_replies :: "DoneReply list" where
  "demo_replies = [\<lparr>dr_Done = 1, dr_Decided = 0, dr_SrvId = 1\<rparr>,
     \<lparr>dr_Done = 1, dr_Decided = 0, dr_SrvId = 2\<rparr>]"

theorem paxos_tick_min_witness:
  "\<exists>px' tasks. px_tick demo_replies demo_done = Some (px', tasks) \<and> px_Min px' = 1 \<and>
     px_Min px' \<le> max (px_Min demo_done) (px_done demo_done ! 0)"
proof -
  have "cl_run (demo_decide @ [ActDone 0 0]) (cl_init 3 True) \<noteq> None" by code_simp
  then have wf: "px_wf demo_done" "px_me demo_done = 0"
    using demo_wf by (simp_all add: demo_done_def)
  have "px_tick demo_replies demo_done \<noteq> None" "0 \<le> px_done demo_done ! 0"
    "px_Min (fst (the (px_tick demo_replies demo_done))) = 1" by code_simp+
  then show ?thesis
    using paxos_tick_min [OF wf(1), of demo_replies] wf(2) by (auto simp: demo_replies_def)
qed

end
