(* ===== verification/Paxos_Faults.thy ===== *)
theory Paxos_Faults
  imports Paxos_Properties
begin

text \<open>
  The limits of the Paxos package: what goes wrong when a nil value is accepted and when
  Done is called before an instance is decided, which state a crash loses, what a failed
  GetDone call does to the ticker, and why a group of one peer never decides.
\<close>

section \<open>Nil values\<close>

text \<open>
  Peer 0 runs a nil proposer (the kind getInstanceL starts) and decides nil with peer 1.
  Peer 2 then proposes 9: the promise of peer 1 reports the accepted nil, which line 84 of
  proposer.go takes for the absence of a value.
\<close>

definition nil_run :: "nat action list" where
  "nil_run =
     [ActAlloc 0 0 True, ActSpawn 0 0 0 None, ActBegin 0, ActAlloc 1 0 True, ActPrepare 0 0 1 1,
      ActPrepareDone 0 [(1, \<lparr>pr_Code = RpcOk, pr_AcPr = 0, pr_Value = None\<rparr>)],
      ActAccept 0 0 1 None 1, ActAcceptDone 0 [(1, \<lparr>ar_Reply = RpcOk\<rparr>)], ActDecide 0 None 0,
      ActAlloc 2 0 False, ActSpawn 1 2 0 (Some 9), ActBegin 1, ActPrepare 2 0 1 1,
      ActPrepareDone 1 [(1, \<lparr>pr_Code = LowPrepare, pr_AcPr = 1, pr_Value = None\<rparr>)],
      ActBegin 1, ActPrepare 2 0 2 1,
      ActPrepareDone 1 [(1, \<lparr>pr_Code = RpcOk, pr_AcPr = 1, pr_Value = None\<rparr>)],
      ActAccept 2 0 2 (Some 9) 1, ActAcceptDone 1 [(1, \<lparr>ar_Reply = RpcOk\<rparr>)],
      ActDecide 0 (Some 9) 2]"

lemma nil_run_ok:
  "cl_run nil_run (cl_init 3 True) \<noteq> None"
  "px_Status 0 (cl_px (demo_state nil_run) 0) = Some (Decided, None)"
  "px_Status 0 (cl_px (demo_state nil_run) 2) = Some (Decided, Some 9)"
  by code_simp+

text \<open>
  C40. The condition of the agreement theorem is needed: there is a run of three peers in
  which no message is lost to a crash and Status reports the decision nil at one peer and
  another value at a second peer for the same sequence number.
\<close>

theorem paxos_nil_disagreement:
  "\<exists>s :: nat cluster. px_reachable 3 True s \<and>
     px_Status 0 (cl_px s 0) = Some (Decided, None) \<and>
     px_Status 0 (cl_px s 2) = Some (Decided, Some 9)"
  using demo_reachable [OF nil_run_ok(1)] nil_run_ok(2,3) by blast

section \<open>Early Done\<close>

text \<open>
  Peer 0 gets as far as accepting its own 5, peer 1 decides 7 with peer 2. All three
  applications call Done(0), which at peers 0 and 2 is before the decision is known there.
  The ticker of peer 0 forgets the instance and decides it with nil, which turns the accepted
  5 into a decision; the Prepare handler of peer 0, which had looked up the instance before
  the ticker ran, reports it to peer 2.
\<close>

definition early_run :: "nat action list" where
  "early_run =
     [ActAlloc 0 0 False, ActSpawn 0 0 0 (Some 5), ActBegin 0, ActAlloc 2 0 True, ActPrepare 0 0 1 2,
      ActPrepareDone 0 [(2, \<lparr>pr_Code = RpcOk, pr_AcPr = 0, pr_Value = None\<rparr>)],
      ActAlloc 1 0 False, ActSpawn 1 1 0 (Some 7), ActBegin 1, ActPrepare 1 0 1 2,
      ActPrepareDone 1 [(2, \<lparr>pr_Code = LowPrepare, pr_AcPr = 1, pr_Value = None\<rparr>)],
      ActBegin 1, ActPrepare 1 0 2 2,
      ActPrepareDone 1 [(2, \<lparr>pr_Code = RpcOk, pr_AcPr = 0, pr_Value = None\<rparr>)],
      ActAccept 1 0 2 (Some 7) 2, ActAcceptDone 1 [(2, \<lparr>ar_Reply = RpcOk\<rparr>)], ActDecide 0 (Some 7) 1,
      ActDone 0 0, ActDone 1 0, ActDone 2 0,
      ActTick 0 [\<lparr>dr_Done = 1, dr_Decided = 0, dr_SrvId = 1\<rparr>, \<lparr>dr_Done = 1, dr_Decided = -1, dr_SrvId = 2\<rparr>],
      ActForgotten 0 0, ActSpawn 2 2 0 None, ActBegin 2, ActPrepare 2 0 3 0,
      ActPrepareDone 2 [(0, \<lparr>pr_Code = HasDecided, pr_AcPr = 0, pr_Value = Some 5\<rparr>)],
      ActDecide 0 (Some 5) 2]"

lemma early_run_ok:
  "cl_run early_run (cl_init 3 True) \<noteq> None"
  "nil_free (demo_state early_run) 0"
  "px_Status 0 (cl_px (demo_state early_run) 1) = Some (Decided, Some 7)"
  "px_Status 0 (cl_px (demo_state early_run) 2) = Some (Decided, Some 5)"
  by code_simp+

text \<open>
  C39. The contract of Done is needed as well: there is a run of three peers in which no nil
  value enters an accept phase, no peer is restarted, and Status reports 7 at one peer and 5
  at another for the same sequence number, because Done was called for it at peers that had
  not decided it yet.
\<close>

theorem paxos_early_done_disagreement:
  "\<exists>s :: nat cluster. px_reachable 3 True s \<and> nil_free s 0 \<and>
     px_Status 0 (cl_px s 1) = Some (Decided, Some 7) \<and>
     px_Status 0 (cl_px s 2) = Some (Decided, Some 5)"
  using demo_reachable [OF early_run_ok(1)] early_run_ok(2-4) by blast

section \<open>Crashes\<close>

lemma px_Prepare_persister:
  "px_Prepare args px = Some (px1, reply, tasks) \<Longrightarrow> px_persister px1 = px_persister px"
  by (auto simp: px_Prepare_def getInstanceL_def getInstanceL_loop_eq
      split: if_splits bind_splits option.splits prod.splits)

text \<open>
  A promise does not survive a crash, even with persistence enabled: a peer that has
  promised ballot 5 and restarts from its persister accepts ballot 1.
\<close>

lemma paxos_promise_lost_in_crash:
  "\<exists>px1 reply tasks px2 tasks2 px3 tasks3.
     px_Prepare \<lparr>pa_Seq = 0, pa_Prepare = 5\<rparr> (px_peer0 3 True 1 :: nat Paxos) =
       Some (px1, reply, tasks) \<and> pr_Code reply = RpcOk \<and>
     px_Make 3 1 (px_persister px1) = Some (px2, tasks2) \<and>
     px_Accept \<lparr>aa_Seq = 0, aa_Accept = 1, aa_Value = Some 4\<rparr> px2 =
       Some (px3, \<lparr>ar_Reply = RpcOk\<rparr>, tasks3)"
proof -
  have wf: "px_wf (px_peer0 3 True 1 :: nat Paxos)"
    by (simp add: px_wf_def px_peer0_def px_next_def)
  obtain px1 reply tasks where run:
    "px_Prepare \<lparr>pa_Seq = 0, pa_Prepare = 5\<rparr> (px_peer0 3 True 1 :: nat Paxos) = Some (px1, reply, tasks)"
    "pr_Code reply = RpcOk"
    using px_Prepare_wf [OF wf, of 0 5]
    by (auto simp: px_peer0_def px_next_def prepare_inst_def new_instance_def)
  have "px_Make 3 1 (px_persister px1) = Some (px_peer0 3 True 1, [])"
    using px_Prepare_persister [OF run(1)] px_Make_fresh [of 1 3 True] by (simp add: px_peer0_def)
  moreover have "\<exists>px3 tasks3. px_Accept \<lparr>aa_Seq = 0, aa_Accept = 1, aa_Value = Some 4\<rparr>
      (px_peer0 3 True 1 :: nat Paxos) = Some (px3, \<lparr>ar_Reply = RpcOk\<rparr>, tasks3)"
    using getInstanceL_wf [OF wf, of 0 True]
    by (simp add: px_Accept_def px_peer0_def px_next_def accept_inst_def new_instance_def)
  ultimately show ?thesis using run by blast
qed

text \<open>
  When every GetDone call of a tick fails, the zero replies still claim that instance
  0 is decided: a fresh peer allocates instance 0 and starts a nil proposer for it,
  although nobody has proposed anything.
\<close>

theorem paxos_failed_tick_proposes_nil:
  "\<exists>px'. px_tick [failed_DoneReply, failed_DoneReply] (px_peer0 3 True 0 :: nat Paxos) =
     Some (px', [GoProposer 0 None 0]) \<and> px_Max px' = 0"
proof -
  let ?run = "px_tick [failed_DoneReply, failed_DoneReply] (px_peer0 3 True 0 :: nat Paxos)"
  have "?run \<noteq> None" "snd (the ?run) = [GoProposer 0 None 0]" "px_Max (fst (the ?run)) = 0"
    by code_simp+
  then show ?thesis by auto
qed

section \<open>A group of one peer\<close>

lemma single_no_accept:
  assumes "px_step s t" and "cl_inv s" and "cl_size s = 1" and "cl_acceptReq s = {}"
  shows "cl_acceptReq t = {}"
  using assms(1)
proof cases
  case (enter_accept g p seq v n val acpt rs a w inst w')
  have "p < 1" using assms(2,3) enter_accept(2) proc_invD [of s g] by (simp add: cl_inv_def proc_ok_def)
  then have "rs = []" using enter_accept(3) assms(3) by (cases rs) (auto simp: prepare_channel_def)
  with enter_accept(4) show ?thesis by (simp add: run_prepare_loop_def)
qed (use assms(4) in \<open>simp_all add: put_defs\<close>)

lemma single_reachable: "px_reachable 1 enable s \<Longrightarrow> cl_acceptReq s = {}"
proof (induction rule: px_reachable.induct)
  case (step s t)
  then show ?case using single_no_accept reachable_cl_inv by blast
qed (simp add: cl_init_def)

text \<open>
  A group of one peer never decides anything: the majority is only tested when a
  reply arrives, and there is nobody to reply.
\<close>

lemma paxos_single_peer_never_decides:
  assumes "px_reachable 1 enable s" and "done_ok s seq"
  shows "px_Status seq (cl_px s 0) \<noteq> Some (Decided, v)"
proof
  assume st: "px_Status seq (cl_px s 0) = Some (Decided, v)"
  have none: "cl_acceptReq s = {}" using single_reachable [OF assms(1)] .
  have inv: "cl_inv s" "cl_size s = 1" using reachable_cl_inv [OF assms(1)] by auto
  then have "chosen s seq v"
    using status_chosen(1) [OF inv(1) _ assms(2) _ st] none by (simp add: nil_free_def)
  then obtain q n where "(q, seq, n, v) \<in> cl_voted s" using chosen_voted by blast
  with inv(1) none show False by (auto simp: cl_inv_def request_inv_def)
qed

lemma paxos_single_peer_never_decides_witness:
  "px_Status 0 (cl_px (cl_init 1 True :: nat cluster) 0) \<noteq> Some (Decided, Some 7)"
  using paxos_single_peer_never_decides [OF px_reachable.init] by (simp add: done_ok_def cl_init_def)

end
