(* ===== verification/Paxos_Types.thy ===== *)
theory Paxos_Types
  imports Paxos_Properties
begin

text \<open>
  The type of a Paxos peer beyond its Go type: the well-formedness of its window of
  instances, of its objects and of its done vector, which every operation of the package
  keeps, and under which none of them panics.
\<close>

section \<open>Operation by operation\<close>

lemma getInstanceL_keeps:
  assumes "px_wf px"
  obtains px' r tasks where "getInstanceL seq propose px = Some (px', r, tasks)" "px_wf px'"
    "r = None \<or> r = Some seq \<and> allocated px' seq"
proof (cases "seq < px_startIndex px")
  case True
  then show thesis using that [of px None "[]"] assms getInstanceL_wf [OF assms, of seq propose] by simp
next
  case False
  then have le: "px_startIndex px \<le> seq" by simp
  have "allocated (px_grow seq px) seq"
    using assms le by (simp add: allocated_next px_next_grow px_wf_def)
  then show thesis
    using that [of "px_grow seq px" "Some seq"] False getInstanceL_wf [OF assms, of seq propose] px_wf_grow [OF assms le]
    by simp
qed

lemma px_Start_keeps: "px_wf px \<Longrightarrow> \<exists>px' tasks. px_Start seq v px = Some (px', tasks) \<and> px_wf px'"
  by (erule getInstanceL_keeps [of px seq False]) (simp add: px_Start_def)

lemma px_Decide_keeps: "px_wf px \<Longrightarrow> \<exists>px' tasks. px_Decide args px = Some (px', tasks) \<and> px_wf px'"
  by (erule getInstanceL_keeps [of px "da_Seq args" False]) (simp add: px_Decide_def)

lemma px_Prepare_keeps: "px_wf px \<Longrightarrow> \<exists>px' reply tasks. px_Prepare args px = Some (px', reply, tasks) \<and> px_wf px'"
  by (erule getInstanceL_keeps [of px "pa_Seq args" True])
     (auto simp: px_Prepare_def case_prod_beta px_wf_heap)

lemma px_wf_persister: "px_wf (px\<lparr>px_persister := ps\<rparr>) = px_wf px"
  by (simp add: px_wf_def px_next_def)

lemma px_Accept_keeps: "px_wf px \<Longrightarrow> \<exists>px' reply tasks. px_Accept args px = Some (px', reply, tasks) \<and> px_wf px'"
  by (erule getInstanceL_keeps [of px "aa_Seq args" True])
     (auto simp: px_Accept_def case_prod_beta Let_def px_wf_heap px_wf_persister)

lemma px_decide_keeps: "px_wf px \<Longrightarrow> allocated px seq \<Longrightarrow> px_wf (px_decide seq seq v px)"
  by (rule px_wf_frame [where px = px and seq = seq and inst = "decide_inst v (px_heap px seq)"])
     (simp_all add: px_decide_effect)

lemma px_Done_keeps: "px_wf px \<Longrightarrow> \<exists>px'. px_Done seq px = Some px' \<and> px_wf px'"
  by (auto simp: px_Done_def px_wf_def px_next_def go_store_def)

lemma ticker_collect_total:
  "\<forall>r \<in> set replies. dr_SrvId r < int (length rd) \<Longrightarrow> \<exists>rd' d'. ticker_collect replies rd d = Some (rd', d')"
proof (induction replies arbitrary: rd d)
  case (Cons reply replies)
  then show ?case by (auto simp: Let_def go_store_def)
qed simp

lemma px_tick_keeps:
  assumes wf: "px_wf px" and replies: "\<forall>r \<in> set replies. dr_SrvId r < int (px_peers px)"
  shows "\<exists>px' tasks. px_tick replies px = Some (px', tasks) \<and> px_wf px'"
proof -
  obtain rd dec where rd: "ticker_collect replies (replicate (px_peers px) 0) (-1) = Some (rd, dec)"
    using ticker_collect_total [of replies "replicate (px_peers px) 0" "-1"] replies by auto
  have me: "px_me px < length (px_done px)" and len: "length rd = length (px_done px)"
    using wf ticker_collect_Some [OF rd] by (auto simp: px_wf_def)
  let ?done = "map2 max (px_done px) rd" and ?e = "foldl min (px_done px ! px_me px) (map2 max (px_done px) rd)"
  have wf0: "px_wf (px\<lparr>px_done := ?done\<rparr>)" using wf len by (simp add: px_wf_def px_next_def)
  obtain px1 tasks1 where adv: "ticker_advance ?e (px\<lparr>px_done := ?done\<rparr>) = Some (px1, tasks1)"
    using ticker_advance_eq [OF wf0, of ?e] by (cases "?e > px_startIndex px") (auto simp: ticker_advance_def)
  obtain px2 r tasks2 where "getInstanceL dec True px1 = Some (px2, r, tasks2)"
    using getInstanceL_total by blast
  then have "\<exists>px' tasks. px_tick replies px = Some (px', tasks)"
    using rd me len adv by (simp add: px_tick_def ticker_merge_eq)
  then show ?thesis using px_tick_spec [OF wf] by metis
qed

section \<open>The property\<close>

text \<open>
  C26. Well-formedness is a type of the Paxos peer: the instances form one contiguous window
  from startIndex on, objects above it are fresh, and the done vector has one entry per
  peer. Every operation of the package keeps it, and none of them panics on such a peer:
  Start, Done, Status and the three handlers for any arguments, a tick for replies of peers
  of the group, and the decide goroutine for an instance that exists.
\<close>

theorem paxos_peer_type:
  assumes "px_wf px" and "\<forall>r \<in> set replies. dr_SrvId r < int (px_peers px)" and "0 \<le> i" "i < px_next px"
  shows "(\<exists>px' tasks. px_Start seq v px = Some (px', tasks) \<and> px_wf px') \<and>
    (\<exists>px'. px_Done seq px = Some px' \<and> px_wf px') \<and>
    (\<exists>fate w. px_Status seq px = Some (fate, w)) \<and>
    (\<exists>px' reply tasks. px_Prepare pargs px = Some (px', reply, tasks) \<and> px_wf px') \<and>
    (\<exists>px' reply tasks. px_Accept aargs px = Some (px', reply, tasks) \<and> px_wf px') \<and>
    (\<exists>px' tasks. px_Decide dargs px = Some (px', tasks) \<and> px_wf px') \<and>
    (\<exists>reply. px_GetDone px = Some reply \<and> dr_SrvId reply < int (px_peers px)) \<and>
    (\<exists>px' tasks. px_tick replies px = Some (px', tasks) \<and> px_wf px') \<and>
    px_wf (px_decide i i v px) \<and> px_wf (px_Persist px) \<and> px_wf (px_Kill px)"
proof (intro conjI)
  show "\<exists>fate w. px_Status seq px = Some (fate, w)"
    using getInstanceL_total [of seq False px] by (auto simp: px_Status_def split: option.splits)
  show "\<exists>reply. px_GetDone px = Some reply \<and> dr_SrvId reply < int (px_peers px)"
    using assms(1) by (simp add: px_GetDone_def px_wf_def)
  show "px_wf (px_decide i i v px)"
    using assms by (intro px_decide_keeps) (simp_all add: allocated_next)
  show "px_wf (px_Persist px)" "px_wf (px_Kill px)"
    using assms(1) by (simp_all add: px_Persist_def px_wf_def px_Kill_def px_next_def)
qed (use assms px_Start_keeps px_Done_keeps px_Prepare_keeps px_Accept_keeps px_Decide_keeps px_tick_keeps in auto)

theorem paxos_peer_type_witness:
  "\<exists>px' tasks. px_tick demo_replies (cl_px (demo_state demo_decide) 0) = Some (px', tasks) \<and> px_wf px'"
proof -
  let ?px = "cl_px (demo_state demo_decide) 0"
  have "px_wf ?px" using demo_wf [OF demo_runs(1)] by simp
  moreover have "px_peers ?px = 3" "0 < px_next ?px" by code_simp+
  ultimately show ?thesis
    using paxos_peer_type [of ?px demo_replies 0] by (simp add: demo_replies_def)
qed

end
