(* ===== verification/Paxos_Progress.thy ===== *)
theory Paxos_Progress
  imports Paxos_Properties
begin

text \<open>
  Progress of the Paxos package: no reachable state of a group is stuck.
\<close>

section \<open>Runs that leave the other peers alone\<close>

definition runs_in ::
  "nat set \<Rightarrow> int \<Rightarrow> (int \<times> 'v option) set \<Rightarrow> 'v cluster \<Rightarrow> 'v cluster \<Rightarrow> bool" where
  "runs_in A seq P s t \<longleftrightarrow> px_step\<^sup>*\<^sup>* s t \<and> cl_size t = cl_size s \<and>
     cl_proposed t \<subseteq> cl_proposed s \<union> P \<and> (nil_free s seq \<longrightarrow> nil_free t seq) \<and>
     cl_early t = cl_early s \<and>
     (\<forall>q. px_startIndex (cl_px t q) = px_startIndex (cl_px s q)) \<and>
     (\<forall>q. q \<notin> A \<longrightarrow> cl_px t q = cl_px s q)"

lemma runs_in_refl [simp, intro]: "runs_in A seq P s s"
  by (simp add: runs_in_def)

lemma runs_in_trans [trans]:
  "runs_in A seq P s t \<Longrightarrow> runs_in B seq P t u \<Longrightarrow> A \<union> B \<subseteq> C \<Longrightarrow> runs_in C seq P s u"
  unfolding runs_in_def by (auto dest: rtranclp_trans) (metis subsetD)+

lemma runs_in_step:
  assumes "px_step s t" and "cl_size t = cl_size s" and "cl_proposed t \<subseteq> cl_proposed s \<union> P"
    and "nil_free s seq \<Longrightarrow> nil_free t seq" and "cl_early t = cl_early s"
    and "\<And>q. px_startIndex (cl_px t q) = px_startIndex (cl_px s q)"
    and "\<And>q. q \<notin> A \<Longrightarrow> cl_px t q = cl_px s q"
  shows "runs_in A seq P s t"
  using assms by (auto simp: runs_in_def)

section \<open>The reply loops succeed on enough Ok replies\<close>

lemma prepare_loop_all_ok:
  assumes "\<forall>r \<in> set rs. pr_Code r = RpcOk" and "0 < N" and "votes * 2 \<le> N"
    and "N < (votes + int (length rs)) * 2"
  shows "\<exists>a w. prepare_loop N votes votes accept value rs = PrepareOk a w"
  using assms
proof (induction rs arbitrary: votes accept "value")
  case (Cons r rs)
  show ?case
  proof (cases "(votes + 1) * 2 > N")
    case False
    then show ?thesis using Cons by (simp add: Let_def)
  qed (use Cons.prems in \<open>simp add: Let_def\<close>)
qed simp

lemma accept_loop_all_ok:
  assumes "\<forall>r \<in> set rs. ar_Reply r = RpcOk" and "votes * 2 \<le> N"
    and "N < (votes + int (length rs)) * 2"
  shows "accept_loop N i votes n rs = AcceptOk"
  using assms
proof (induction rs arbitrary: i votes)
  case (Cons r rs)
  show ?case
  proof (cases "(votes + 1) * 2 > N")
    case False
    then show ?thesis using Cons by (simp add: Let_def)
  qed (use Cons.prems in \<open>simp add: Let_def\<close>)
qed simp

section \<open>A proposer can be started\<close>

lemma step_procs:
  "px_step s t \<Longrightarrow> cl_proc t = cl_proc s \<or> (\<exists>g c. cl_proc t = (cl_proc s)(g := c))"
  by (erule px_step.cases) (auto simp: put_defs)

lemma reachable_finite_procs:
  "px_reachable N enable s \<Longrightarrow> finite {g. cl_proc s g \<noteq> ProcNone}"
proof (induction rule: px_reachable.induct)
  case (step s t)
  from step_procs [OF step.hyps(2)] show ?case
  proof
    assume "\<exists>g c. cl_proc t = (cl_proc s)(g := c)"
    then obtain g c where "cl_proc t = (cl_proc s)(g := c)" by blast
    then have "{g. cl_proc t g \<noteq> ProcNone} \<subseteq> insert g {g. cl_proc s g \<noteq> ProcNone}" by auto
    then show ?thesis using step.IH finite_subset by blast
  qed (use step.IH in simp)
qed (simp add: cl_init_def)

lemma free_proc: "px_reachable N enable s \<Longrightarrow> \<exists>g. cl_proc s g = ProcNone"
  using reachable_finite_procs [of N enable s] infinite_UNIV_nat
  by (metis (mono_tags, lifting) mem_Collect_eq ex_new_if_finite)

abbreviation pending :: "'v cluster \<Rightarrow> nat \<Rightarrow> int \<Rightarrow> bool" where
  "pending s q seq \<equiv> inst_status (cl_inst s q seq) \<noteq> Decided"

section \<open>One peer after the other\<close>

text \<open>
  A step that serves one peer and disturbs no other can be repeated for a list of peers.
\<close>

lemma runs_each:
  assumes step: "\<And>u q. I u \<Longrightarrow> q \<in> set qs \<Longrightarrow> Pre u q \<Longrightarrow> runs_in {q} seq P u (f q u)"
      "\<And>u q. I u \<Longrightarrow> q \<in> set qs \<Longrightarrow> Pre u q \<Longrightarrow> I (f q u)"
      "\<And>u q. I u \<Longrightarrow> q \<in> set qs \<Longrightarrow> Pre u q \<Longrightarrow> Post (f q u) q"
    and frame: "\<And>u q r. r \<noteq> q \<Longrightarrow> Pre u r \<Longrightarrow> Pre (f q u) r"
      "\<And>u q r. r \<noteq> q \<Longrightarrow> Post u r \<Longrightarrow> Post (f q u) r"
    and start: "I s" "distinct qs" "\<forall>q \<in> set qs. Pre s q"
  shows "\<exists>t. runs_in (set qs) seq P s t \<and> I t \<and> (\<forall>q \<in> set qs. Post t q)"
proof -
  have "runs_in (set rs) seq P s (fold f rs s) \<and> I (fold f rs s) \<and>
      (\<forall>q \<in> set rs. Post (fold f rs s) q) \<and> (\<forall>q. q \<notin> set rs \<longrightarrow> Post s q \<longrightarrow> Post (fold f rs s) q)"
    if "set rs \<subseteq> set qs" "I s" "distinct rs" "\<forall>q \<in> set rs. Pre s q" for rs s
    using that
  proof (induction rs arbitrary: s)
    case (Cons q rs)
    have IH: "runs_in (set rs) seq P (f q s) (fold f rs (f q s)) \<and> I (fold f rs (f q s)) \<and>
      (\<forall>r \<in> set rs. Post (fold f rs (f q s)) r) \<and>
      (\<forall>r. r \<notin> set rs \<longrightarrow> Post (f q s) r \<longrightarrow> Post (fold f rs (f q s)) r)"
      using Cons.prems by (intro Cons.IH) (auto intro!: step(2) frame(1))
    have "runs_in (set (q # rs)) seq P s (fold f rs (f q s))"
      by (rule runs_in_trans [OF step(1)]) (use IH Cons.prems in auto)
    moreover have "Post (fold f rs (f q s)) q" using IH step(3) [of s q] Cons.prems by auto
    ultimately show ?case using IH frame(2) by auto
  qed auto
  then show ?thesis using start by blast
qed

text \<open>The peers allocate the object of an instance they have not forgotten.\<close>

lemma run_allocated:
  assumes "px_step\<^sup>*\<^sup>* s t" and "px_reachable N enable s" and "allocated (cl_px s q) seq"
  shows "allocated (cl_px t q) seq"
proof (rule px_trans.steps_invariant [OF assms(1,2)])
  fix u v
  assume "px_reachable N enable u" "px_step u v" "allocated (cl_px u q) seq"
  then show "allocated (cl_px v q) seq"
    using step_extends [of u v] reachable_cl_inv [of N enable u] by (simp add: cl_inv_def extends_def)
qed (fact assms(3))

lemma all_allocate:
  assumes "px_reachable N enable s" and "distinct qs" and "set qs \<subseteq> {..<N}"
    and "\<forall>q \<in> set qs. px_startIndex (cl_px s q) \<le> seq"
  shows "\<exists>t. runs_in (set qs) seq P s t \<and> px_reachable N enable t \<and>
    (\<forall>q \<in> set qs. allocated (cl_px t q) seq)"
proof (rule runs_each [where Pre = "\<lambda>u q. px_startIndex (cl_px u q) \<le> seq"
      and f = "\<lambda>q u. put_px q (px_grow seq (cl_px u q)) u"])
  fix u :: "'a cluster" and q
  assume u: "px_reachable N enable u" and q: "q \<in> set qs"
    and window: "px_startIndex (cl_px u q) \<le> seq"
  let ?t = "put_px q (px_grow seq (cl_px u q)) u"
  have step: "px_step u ?t" and alloc: "allocated (px_grow seq (cl_px u q)) seq"
    using getInstanceL_step [of u q seq] reachable_cl_inv [OF u] q assms(3) window by auto
  show "runs_in {q} seq P u ?t"
    by (rule runs_in_step [OF step]) (auto simp: put_defs nil_free_def)
  show "px_reachable N enable ?t" using px_reachable.step [OF u step] .
  show "allocated (cl_px ?t q) seq" using alloc by (simp add: put_defs)
qed (use assms in \<open>auto simp: put_defs\<close>)

section \<open>A round of the proposer\<close>

lemma begin_round_runs:
  assumes "cl_proc s g = Looping p seq v" and "pending s p seq"
  shows "\<exists>t value accept. runs_in {p} seq P s t \<and>
    cl_proc t g = Preparing p seq v (prep s p seq + 1) value accept \<and>
    (p, seq, prep s p seq + 1) \<in> cl_prepareReq t \<and> prep t p seq = prep s p seq + 1 \<and> pending t p seq"
proof -
  let ?inst = "cl_inst s p seq" and ?n = "prep s p seq + 1"
  let ?t = "put_proc g (Preparing p seq v ?n (inst_value ?inst) (inst_accept ?inst))
      (put_inst p seq (?inst\<lparr>inst_prepare := ?n\<rparr>) s)
      \<lparr>cl_prepareReq := insert (p, seq, ?n) (cl_prepareReq s),
       cl_promised := insert (p, seq, ?n, p) (cl_promised s)\<rparr>"
  have step: "px_step s ?t"
    by (rule px_step.begin_round [OF assms(1)]) (simp add: assms(2) proposer_begin_def)
  have "runs_in {p} seq P s ?t"
    by (rule runs_in_step [OF step]) (auto simp: put_defs nil_free_def)
  then show ?thesis using assms(2)
    by (intro exI [of _ ?t] exI [of _ "inst_value ?inst"] exI [of _ "inst_accept ?inst"])
      (simp add: put_defs)
qed

text \<open>A round in which every call fails.\<close>

lemma prepare_loop_no_reply:
  "\<forall>r \<in> set rs. r = zero_PrepareReply \<Longrightarrow>
   prepare_loop N i votes accept value rs \<in> {BadNetwork, PrepareExhausted}"
  by (induction N i votes accept "value" rs rule: prepare_loop.induct)
    (auto simp: zero_PrepareReply_def rpc_codes)

lemma retry_runs:
  assumes "cl_proc s g = Preparing p seq v n value accept" and "p < cl_size s"
  shows "\<exists>t. runs_in {} seq P s t \<and> cl_proc t g = Looping p seq v"
proof -
  let ?rs = "map (\<lambda>q. (q, zero_PrepareReply)) (filter (\<lambda>q. q \<noteq> p) [0..<cl_size s])"
  have "length (filter (\<lambda>q. q \<noteq> p) [0..<cl_size s]) = card ({..<cl_size s} - {p})"
    by (subst distinct_card [symmetric]) (auto intro: arg_cong [where f = card])
  then have "Suc (length ?rs) = cl_size s" using assms(2) by simp
  moreover have "run_prepare_loop (cl_size s) accept value (map snd ?rs) \<in> {BadNetwork, PrepareExhausted}"
    unfolding run_prepare_loop_def by (rule prepare_loop_no_reply) auto
  ultimately have step: "px_step s (put_proc g (Looping p seq v) s)"
    by (intro px_step.prepare_retry [OF assms(1), of ?rs]) (auto simp: prepare_channel_def comp_def)
  have "runs_in {} seq P s (put_proc g (Looping p seq v) s)"
    by (rule runs_in_step [OF step]) (auto simp: put_defs nil_free_def)
  then show ?thesis by (intro exI conjI) (auto simp: put_defs)
qed

text \<open>Rounds whose replies are all lost raise the ballot of the proposer as far as needed.\<close>

lemma raise_ballot:
  assumes "cl_proc s g = Looping p seq v" and "pending s p seq" and "p < cl_size s"
  shows "\<exists>t. runs_in {p} seq P s t \<and> cl_proc t g = Looping p seq v \<and> b \<le> prep t p seq \<and> pending t p seq"
  using assms
proof (induction "nat (b - prep s p seq)" arbitrary: s rule: less_induct)
  case less
  show ?case
  proof (cases "b \<le> prep s p seq")
    case False
    from begin_round_runs [OF less.prems(1,2)] obtain u n "value" accept where
      u: "runs_in {p} seq P s u" "cl_proc u g = Preparing p seq v n value accept"
        "prep u p seq = prep s p seq + 1" "pending u p seq" by blast
    have size: "cl_size u = cl_size s" using u(1) by (simp add: runs_in_def)
    from retry_runs [where P = P, OF u(2)] less.prems(3) size obtain u' where
      u': "runs_in {} seq P u u'" "cl_proc u' g = Looping p seq v"
      by metis
    then have same: "cl_px u' = cl_px u" "cl_size u' = cl_size u" by (auto simp: runs_in_def)
    have "nat (b - prep u' p seq) < nat (b - prep s p seq)" using False u(3) same by simp
    with less.hyps [of u'] u' u(4) same size less.prems(3) obtain t where
      t: "runs_in {p} seq P u' t" "cl_proc t g = Looping p seq v" "b \<le> prep t p seq" "pending t p seq"
      by auto
    have "runs_in {p} seq P s t"
      using runs_in_trans [OF runs_in_trans [OF u(1) u'(1), of "{p}"] t(1), of "{p}"] by simp
    with t show ?thesis by blast
  qed (use less.prems in blast)
qed

section \<open>Promises, votes and decisions\<close>

text \<open>The effect on the group of one handler that serves a call.\<close>

definition give_promise :: "nat \<Rightarrow> int \<Rightarrow> int \<Rightarrow> nat \<Rightarrow> 'v cluster \<Rightarrow> 'v cluster" where
  "give_promise p seq n q s = put_inst q seq (fst (prepare_inst n (cl_inst s q seq))) s
     \<lparr>cl_prepareRep := insert (q, p, seq, n, snd (prepare_inst n (cl_inst s q seq))) (cl_prepareRep s),
      cl_promised := (if pr_Code (snd (prepare_inst n (cl_inst s q seq))) = RpcOk
        then {(q, seq, n, p)} else {}) \<union> cl_promised s\<rparr>"

definition give_vote :: "nat \<Rightarrow> int \<Rightarrow> int \<Rightarrow> 'v option \<Rightarrow> nat \<Rightarrow> 'v cluster \<Rightarrow> 'v cluster" where
  "give_vote p seq n w q s = put_persist q seq (fst (accept_inst n w (cl_inst s q seq)))
     (put_inst q seq (fst (accept_inst n w (cl_inst s q seq))) s)
     \<lparr>cl_acceptRep := insert (q, p, seq, n, \<lparr>ar_Reply = RpcOk\<rparr>) (cl_acceptRep s),
      cl_voted := insert (q, seq, n, w) (cl_voted s)\<rparr>"

lemma all_promise:
  assumes "px_reachable N enable s" and "cl_proc s g = Preparing p seq v n value accept"
    and "(p, seq, n) \<in> cl_prepareReq s" and "distinct qs" and "set qs \<subseteq> {..<N} - {p}"
    and "\<forall>q \<in> set qs. allocated (cl_px s q) seq \<and> pending s q seq \<and> prep s q seq < n"
  shows "\<exists>t. runs_in (set qs) seq P s t \<and>
    (px_reachable N enable t \<and> cl_proc t g = Preparing p seq v n value accept \<and>
     (p, seq, n) \<in> cl_prepareReq t) \<and>
    (\<forall>q \<in> set qs. (\<exists>r. (q, p, seq, n, r) \<in> cl_prepareRep t \<and> pr_Code r = RpcOk) \<and>
       allocated (cl_px t q) seq \<and> pending t q seq \<and> prep t q seq = n)"
proof (rule runs_each [where f = "give_promise p seq n"
      and Pre = "\<lambda>u q. allocated (cl_px u q) seq \<and> pending u q seq \<and> prep u q seq < n"])
  fix u :: "'a cluster" and q
  assume u: "px_reachable N enable u \<and> cl_proc u g = Preparing p seq v n value accept \<and>
      (p, seq, n) \<in> cl_prepareReq u" and q: "q \<in> set qs"
    and pre: "allocated (cl_px u q) seq \<and> pending u q seq \<and> prep u q seq < n"
  let ?t = "give_promise p seq n q u"
  have step: "px_step u ?t"
    using u pre q assms(5) reachable_cl_inv [of N enable u] unfolding give_promise_def
    by (intro px_step.prepare) auto
  show "runs_in {q} seq P u ?t"
    by (rule runs_in_step [OF step]) (auto simp: give_promise_def put_defs nil_free_def)
  show "px_reachable N enable ?t \<and> cl_proc ?t g = Preparing p seq v n value accept \<and>
      (p, seq, n) \<in> cl_prepareReq ?t"
    using u px_reachable.step [OF _ step, of N enable] by (simp add: give_promise_def put_defs)
  show "(\<exists>r. (q, p, seq, n, r) \<in> cl_prepareRep ?t \<and> pr_Code r = RpcOk) \<and>
      allocated (cl_px ?t q) seq \<and> pending ?t q seq \<and> prep ?t q seq = n"
    using pre by (auto simp: give_promise_def prepare_inst_def put_defs allocated_def)
qed (use assms in \<open>auto simp: give_promise_def put_defs\<close>)

lemma all_accept:
  assumes "px_reachable N enable s" and "cl_proc s g = Accepting p seq v n w"
    and "(p, seq, n, w) \<in> cl_acceptReq s" and "distinct qs" and "set qs \<subseteq> {..<N} - {p}"
    and "\<forall>q \<in> set qs. allocated (cl_px s q) seq \<and> pending s q seq \<and> prep s q seq \<le> n"
  shows "\<exists>t. runs_in (set qs) seq P s t \<and>
    (px_reachable N enable t \<and> cl_proc t g = Accepting p seq v n w \<and> (p, seq, n, w) \<in> cl_acceptReq t) \<and>
    (\<forall>q \<in> set qs. (q, p, seq, n, \<lparr>ar_Reply = RpcOk\<rparr>) \<in> cl_acceptRep t)"
proof (rule runs_each [where f = "give_vote p seq n w"
      and Pre = "\<lambda>u q. allocated (cl_px u q) seq \<and> pending u q seq \<and> prep u q seq \<le> n"])
  fix u :: "'a cluster" and q
  assume u: "px_reachable N enable u \<and> cl_proc u g = Accepting p seq v n w \<and>
      (p, seq, n, w) \<in> cl_acceptReq u" and q: "q \<in> set qs"
    and pre: "allocated (cl_px u q) seq \<and> pending u q seq \<and> prep u q seq \<le> n"
  let ?t = "give_vote p seq n w q u"
  have step: "px_step u ?t"
    using u pre q assms(5) reachable_cl_inv [of N enable u] unfolding give_vote_def
    by (intro px_step.accept) (auto simp: accept_inst_def)
  show "runs_in {q} seq P u ?t"
    by (rule runs_in_step [OF step]) (auto simp: give_vote_def put_defs nil_free_def)
  show "px_reachable N enable ?t \<and> cl_proc ?t g = Accepting p seq v n w \<and>
      (p, seq, n, w) \<in> cl_acceptReq ?t"
    using u px_reachable.step [OF _ step, of N enable] by (simp add: give_vote_def put_defs)
  show "(q, p, seq, n, \<lparr>ar_Reply = RpcOk\<rparr>) \<in> cl_acceptRep ?t"
    by (simp add: give_vote_def put_defs)
qed (use assms in \<open>auto simp: give_vote_def put_defs\<close>)

lemma all_decide:
  assumes "px_reachable N enable s" and "\<forall>q \<in> set qs. (q, seq, w) \<in> cl_decide s" and "distinct qs"
    and "set qs \<subseteq> {..<N}" and "\<forall>q \<in> set qs. allocated (cl_px s q) seq"
  shows "\<exists>t. runs_in (set qs) seq P s t \<and>
    (px_reachable N enable t \<and> (\<forall>q \<in> set qs. (q, seq, w) \<in> cl_decide t)) \<and>
    (\<forall>q \<in> set qs. \<not> pending t q seq \<and> allocated (cl_px t q) seq)"
proof (rule runs_each [where f = "\<lambda>q u. put_px q (px_decide seq seq w (cl_px u q)) u"
      and Pre = "\<lambda>u q. allocated (cl_px u q) seq"])
  fix u :: "'a cluster" and q
  assume u: "px_reachable N enable u \<and> (\<forall>q \<in> set qs. (q, seq, w) \<in> cl_decide u)" and q: "q \<in> set qs"
    and pre: "allocated (cl_px u q) seq"
  let ?t = "put_px q (px_decide seq seq w (cl_px u q)) u"
  have step: "px_step u ?t"
    using u pre q assms(4) reachable_cl_inv [of N enable u] by (intro px_step.decide) auto
  show "runs_in {q} seq P u ?t"
    by (rule runs_in_step [OF step]) (auto simp: put_defs nil_free_def px_decide_effect)
  show "px_reachable N enable ?t \<and> (\<forall>q \<in> set qs. (q, seq, w) \<in> cl_decide ?t)"
    using u px_reachable.step [OF _ step, of N enable] by (simp add: put_defs)
  show "\<not> pending ?t q seq \<and> allocated (cl_px ?t q) seq"
    using pre by (simp add: put_defs allocated_def px_decide_effect decide_inst_effect)
qed (use assms in \<open>auto simp: put_defs\<close>)

section \<open>A majority decides\<close>

lemma runs_in_reachable: "runs_in A seq P s t \<Longrightarrow> px_reachable N enable s \<Longrightarrow> px_reachable N enable t"
  by (auto simp: runs_in_def intro: run_reachable)

lemma runs_in_allocated:
  "runs_in A seq P s t \<Longrightarrow> px_reachable N enable s \<Longrightarrow> allocated (cl_px s q) seq' \<Longrightarrow> allocated (cl_px t q) seq'"
  unfolding runs_in_def using run_allocated by blast

lemma runs_in_others: "runs_in A seq P s t \<Longrightarrow> q \<notin> A \<Longrightarrow> cl_px t q = cl_px s q"
  by (simp add: runs_in_def)

lemma enter_accept_runs:
  assumes "cl_proc s g = Preparing p seq (Some v) n value accept" and "prep s p seq = n"
    and "pending s p seq" and "prepare_channel s p seq n rs"
    and "\<forall>r \<in> set rs. pr_Code (snd r) = RpcOk" and "2 \<le> cl_size s"
    and "cl_size s < (1 + length rs) * 2"
  shows "\<exists>t w. runs_in {p} seq P s t \<and> cl_proc t g = Accepting p seq (Some v) n w \<and>
    (p, seq, n, w) \<in> cl_acceptReq t"
proof -
  have "\<exists>a w. prepare_loop (int (cl_size s)) 1 1 accept value (map snd rs) = PrepareOk a w"
    by (rule prepare_loop_all_ok) (use assms(5-7) in auto)
  then obtain a w where loop: "run_prepare_loop (cl_size s) accept value (map snd rs) = PrepareOk a w"
    unfolding run_prepare_loop_def by blast
  let ?w = "chosen_value w (Some v)"
  let ?inst = "(cl_inst s p seq)\<lparr>inst_accept := n, inst_value := ?w\<rparr>"
  let ?t = "put_proc g (Accepting p seq (Some v) n ?w) (put_persist p seq ?inst (put_inst p seq ?inst s))
      \<lparr>cl_acceptReq := insert (p, seq, n, ?w) (cl_acceptReq s),
       cl_voted := insert (p, seq, n, ?w) (cl_voted s)\<rparr>"
  have step: "px_step s ?t"
    using assms(2,3) by (intro px_step.enter_accept [OF assms(1,4) loop]) (simp add: proposer_accept_def)
  have "runs_in {p} seq P s ?t"
    by (rule runs_in_step [OF step]) (auto simp: put_defs nil_free_def chosen_value_def)
  then show ?thesis by (intro exI [of _ ?t] exI [of _ ?w]) (simp add: put_defs)
qed

lemma accept_ok_runs:
  assumes "cl_proc s g = Accepting p seq v n w" and "accept_channel s p seq n rs"
    and "\<forall>r \<in> set rs. ar_Reply (snd r) = RpcOk" and "2 \<le> cl_size s"
    and "cl_size s < (1 + length rs) * 2"
  shows "\<exists>t. runs_in {} seq P s t \<and> (\<forall>q < cl_size s. (q, seq, w) \<in> cl_decide t)"
proof -
  let ?t = "put_proc g ProcDone s
    \<lparr>cl_decide := (\<lambda>q. (q, seq, w)) ` set [0..<cl_size s] \<union> cl_decide s\<rparr>"
  have "accept_loop (int (cl_size s)) 1 1 n (map snd rs) = AcceptOk"
    by (rule accept_loop_all_ok) (use assms(3-5) in auto)
  then have step: "px_step s ?t"
    by (intro px_step.accept_ok [OF assms(1,2)]) (simp add: run_accept_loop_def)
  have "runs_in {} seq P s ?t" by (rule runs_in_step [OF step]) (auto simp: put_defs nil_free_def)
  then show ?thesis by (intro exI [of _ ?t]) (auto simp: put_defs)
qed

text \<open>The allies of a proposer, in a list: with the proposer they are the majority.\<close>

lemma majority_allies:
  assumes "majority N A" and "p \<in> A"
  obtains qs where "distinct qs" "set qs = A - {p}" "N < (1 + length qs) * 2"
proof -
  have A: "finite A" using majority_finite [OF assms(1)] .
  then obtain qs where qs: "set qs = A - {p}" "distinct qs"
    using finite_distinct_list [of "A - {p}"] by blast
  then have "length qs = card (A - {p})" by (metis distinct_card)
  then have "1 + length qs = card A" using A assms(2) card_Suc_Diff1 [of A p] by simp
  then show ?thesis using that qs assms(1) by (simp add: majority_def)
qed

lemma round_of_promises:
  assumes "px_reachable N enable s" and "majority N A" and "p \<in> A" and "2 \<le> N"
    and "\<forall>q \<in> A. allocated (cl_px s q) seq \<and> pending s q seq"
    and "cl_proc s g = Looping p seq (Some v)"
  shows "\<exists>t n w. runs_in A seq P s t \<and> cl_proc t g = Accepting p seq (Some v) n w \<and>
    (p, seq, n, w) \<in> cl_acceptReq t \<and>
    (\<forall>q \<in> A - {p}. allocated (cl_px t q) seq \<and> pending t q seq \<and> prep t q seq = n)"
proof -
  obtain qs where qs: "distinct qs" "set qs = A - {p}" "N < (1 + length qs) * 2"
    using majority_allies [OF assms(2,3)] .
  define b where "b = Max ((\<lambda>q. prep s q seq) ` A)"
  have b: "prep s q seq \<le> b" if "q \<in> A" for q
    unfolding b_def using majority_finite [OF assms(2)] that by (intro Max_ge) auto
  obtain s1 where s1: "runs_in {p} seq P s s1" "cl_proc s1 g = Looping p seq (Some v)"
      "b \<le> prep s1 p seq" "pending s1 p seq"
    using raise_ballot [OF assms(6), of P b] assms(2,3,5) reachable_cl_inv [OF assms(1)] by (auto simp: majority_def)
  obtain s2 n "value" accept where s2: "runs_in {p} seq P s1 s2"
      "cl_proc s2 g = Preparing p seq (Some v) n value accept" "(p, seq, n) \<in> cl_prepareReq s2"
      "n = prep s1 p seq + 1" "prep s2 p seq = n" "pending s2 p seq"
    using begin_round_runs [OF s1(2,4)] by blast
  have to2: "runs_in {p} seq P s s2" by (rule runs_in_trans [OF s1(1) s2(1)]) simp
  have same2: "cl_px s2 q = cl_px s q" if "q \<noteq> p" for q
    using runs_in_others [OF to2] that by simp
  have A: "A \<subseteq> {..<N}" using assms(2) by (simp add: majority_def)
  have reach2: "px_reachable N enable s2" by (rule runs_in_reachable [OF to2 assms(1)])
  have "\<forall>q \<in> set qs. allocated (cl_px s2 q) seq \<and> pending s2 q seq \<and> prep s2 q seq < n"
    using qs(2) same2 assms(5) b s1(3) s2(4) by fastforce
  from all_promise [where P = P, OF reach2 s2(2,3) qs(1) _ this] A qs(2) obtain s3 where
    s3: "runs_in (set qs) seq P s2 s3" "px_reachable N enable s3"
      "cl_proc s3 g = Preparing p seq (Some v) n value accept"
      "\<forall>q \<in> set qs. (\<exists>r. (q, p, seq, n, r) \<in> cl_prepareRep s3 \<and> pr_Code r = RpcOk) \<and>
         allocated (cl_px s3 q) seq \<and> pending s3 q seq \<and> prep s3 q seq = n" by auto
  then obtain r where r: "\<And>q. q \<in> set qs \<Longrightarrow> (q, p, seq, n, r q) \<in> cl_prepareRep s3 \<and> pr_Code (r q) = RpcOk"
    by metis
  have p3: "cl_px s3 p = cl_px s2 p" using runs_in_others [OF s3(1)] qs(2) by simp
  have size: "cl_size s3 = N" using reachable_cl_inv [OF s3(2)] by simp
  have "prepare_channel s3 p seq n (map (\<lambda>q. (q, r q)) qs)"
    using qs(1,2) r A size by (auto simp: prepare_channel_def comp_def)
  from enter_accept_runs [where P = P, OF s3(3) _ _ this] obtain s4 w where
    s4: "runs_in {p} seq P s3 s4" "cl_proc s4 g = Accepting p seq (Some v) n w"
      "(p, seq, n, w) \<in> cl_acceptReq s4"
    using p3 s2(5,6) r size assms(4) qs(3) by auto
  have "runs_in A seq P s s3" by (rule runs_in_trans [OF to2 s3(1)]) (use qs(2) assms(3) in auto)
  then have "runs_in A seq P s s4" by (rule runs_in_trans [OF _ s4(1)]) (use assms(3) in auto)
  moreover have "cl_px s4 q = cl_px s3 q" if "q \<noteq> p" for q
    using runs_in_others [OF s4(1)] that by simp
  ultimately show ?thesis using s4 s3(4) qs(2) by (intro exI [of _ s4] exI [of _ n] exI [of _ w]) auto
qed

lemma ballot_decides:
  assumes "px_reachable N enable s" and "majority N A" and "p \<in> A" and "2 \<le> N"
    and "\<forall>q \<in> A. allocated (cl_px s q) seq \<and> pending s q seq"
    and "cl_proc s g = Looping p seq (Some v)"
  shows "\<exists>t w. runs_in A seq P s t \<and> (\<forall>q \<in> A. (q, seq, w) \<in> cl_decide t)"
proof -
  obtain qs where qs: "distinct qs" "set qs = A - {p}" "N < (1 + length qs) * 2"
    using majority_allies [OF assms(2,3)] .
  have A: "A \<subseteq> {..<N}" using assms(2) by (simp add: majority_def)
  obtain s1 n w where s1: "runs_in A seq P s s1" "cl_proc s1 g = Accepting p seq (Some v) n w"
      "(p, seq, n, w) \<in> cl_acceptReq s1"
      "\<forall>q \<in> A - {p}. allocated (cl_px s1 q) seq \<and> pending s1 q seq \<and> prep s1 q seq = n"
    using round_of_promises [where P = P, OF assms] by blast
  have reach1: "px_reachable N enable s1" by (rule runs_in_reachable [OF s1(1) assms(1)])
  obtain s2 where s2: "runs_in (set qs) seq P s1 s2" "px_reachable N enable s2"
      "cl_proc s2 g = Accepting p seq (Some v) n w"
      "\<forall>q \<in> set qs. (q, p, seq, n, \<lparr>ar_Reply = RpcOk\<rparr>) \<in> cl_acceptRep s2"
    using all_accept [where P = P, OF reach1 s1(2,3) qs(1)] s1(4) qs(2) A by auto
  have size: "cl_size s2 = N" using reachable_cl_inv [OF s2(2)] by simp
  have "accept_channel s2 p seq n (map (\<lambda>q. (q, \<lparr>ar_Reply = RpcOk\<rparr>)) qs)"
    using qs(1,2) s2(4) A size by (auto simp: accept_channel_def comp_def)
  from accept_ok_runs [where P = P, OF s2(3) this] obtain t where
    t: "runs_in {} seq P s2 t" "\<forall>q < N. (q, seq, w) \<in> cl_decide t"
    using size assms(4) qs(3) by auto
  have "runs_in A seq P s s2" by (rule runs_in_trans [OF s1(1) s2(1)]) (use qs(2) in auto)
  then have "runs_in A seq P s t" by (rule runs_in_trans [OF _ t(1)]) simp
  with t(2) A show ?thesis by blast
qed

text \<open>A proposer is started by a call of Start.\<close>

lemma spawn_runs:
  assumes "px_reachable N enable s" and "p < N" and "allocated (cl_px s p) seq" and "(seq, v) \<in> P"
  shows "\<exists>t g. runs_in {} seq P s t \<and> cl_proc t g = Looping p seq v"
proof -
  obtain g where g: "cl_proc s g = ProcNone" using free_proc [OF assms(1)] by blast
  let ?t = "put_proc g (Looping p seq v) s\<lparr>cl_proposed := insert (seq, v) (cl_proposed s)\<rparr>"
  have step: "px_step s ?t"
    using assms(2,3) g reachable_cl_inv [OF assms(1)] by (intro px_step.spawn) auto
  have "runs_in {} seq P s ?t"
    by (rule runs_in_step [OF step]) (use assms(4) in \<open>auto simp: put_defs nil_free_def\<close>)
  then show ?thesis by (intro exI [of _ ?t] exI [of _ g]) (simp add: put_defs)
qed

text \<open>Nobody has decided yet: one proposer of the majority brings all of them to a decision.\<close>

lemma ballot_runs:
  assumes "px_reachable N enable s" and "majority N A" and "2 \<le> N" and "(seq, Some v) \<in> P"
    and "\<forall>q \<in> A. allocated (cl_px s q) seq \<and> pending s q seq"
  shows "\<exists>t. runs_in A seq P s t \<and> (\<forall>q \<in> A. \<not> pending t q seq)"
proof -
  have A: "A \<subseteq> {..<N}" using assms(2) by (simp add: majority_def)
  obtain p where p: "p \<in> A" using maj.quorum_nonempty [OF assms(2)] by blast
  obtain qs where qs: "set qs = A" "distinct qs"
    using finite_distinct_list majority_finite [OF assms(2)] by blast
  obtain s1 g where s1: "runs_in {} seq P s s1" "cl_proc s1 g = Looping p seq (Some v)"
    using spawn_runs [where P = P, OF assms(1) _ _ assms(4)] p A assms(5) by blast
  have reach1: "px_reachable N enable s1" using runs_in_reachable [OF s1(1) assms(1)] .
  have "\<forall>q \<in> A. allocated (cl_px s1 q) seq \<and> pending s1 q seq"
    using runs_in_others [OF s1(1)] assms(5) by simp
  then obtain s2 w where s2: "runs_in A seq P s1 s2" "\<forall>q \<in> A. (q, seq, w) \<in> cl_decide s2"
    using ballot_decides [where P = P, OF reach1 assms(2) p assms(3) _ s1(2)] by blast
  have to2: "runs_in A seq P s s2" by (rule runs_in_trans [OF s1(1) s2(1)]) simp
  have reach2: "px_reachable N enable s2" using runs_in_reachable [OF to2 assms(1)] .
  have "\<forall>q \<in> A. allocated (cl_px s2 q) seq"
    using runs_in_allocated [OF to2 assms(1)] assms(5) by blast
  then obtain t where t: "runs_in A seq P s2 t" "\<forall>q \<in> A. \<not> pending t q seq"
    using all_decide [OF reach2 _ qs(2), of seq w P] s2(2) A unfolding qs(1) by blast
  have "runs_in A seq P s t" by (rule runs_in_trans [OF to2 t(1)]) simp
  with t(2) show ?thesis by blast
qed

text \<open>
  A peer that has not decided starts a proposer, asks a peer that has, and takes its word.
\<close>

lemma learner_runs:
  assumes "px_reachable N enable s" and "p < N" and "q < N"
    and "allocated (cl_px s p) seq" and "allocated (cl_px s q) seq"
    and "\<not> pending s q seq" and "pending s p seq" and "(seq, v) \<in> P"
  shows "\<exists>t. runs_in {p} seq P s t \<and> \<not> pending t p seq"
proof -
  have neq: "q \<noteq> p" using assms(6,7) by auto
  obtain s0 g where s0: "runs_in {} seq P s s0" "cl_proc s0 g = Looping p seq v"
    using spawn_runs [where P = P, OF assms(1,2,4,8)] by blast
  have same0: "cl_px s0 = cl_px s" using runs_in_others [OF s0(1)] by auto
  obtain s1 n "value" accept where s1: "runs_in {p} seq P s0 s1"
      "cl_proc s1 g = Preparing p seq v n value accept" "(p, seq, n) \<in> cl_prepareReq s1"
    using begin_round_runs [OF s0(2)] assms(7) same0 by metis
  have to1: "runs_in {p} seq P s s1" by (rule runs_in_trans [OF s0(1) s1(1)]) simp
  have q1: "cl_px s1 q = cl_px s q" using runs_in_others [OF to1] neq by simp
  have size: "cl_size s1 = N" using reachable_cl_inv [OF runs_in_reachable [OF to1 assms(1)]] by simp
  let ?w = "inst_value (cl_inst s q seq)"
  let ?r = "\<lparr>pr_Code = HasDecided, pr_AcPr = 0, pr_Value = ?w\<rparr>"
  let ?s2 = "give_promise p seq n q s1"
  have reply: "prepare_inst n (cl_inst s1 q seq) = (cl_inst s1 q seq, ?r)"
    using assms(6) q1 by (simp add: prepare_inst_def)
  have step2: "px_step s1 ?s2"
    using s1(3) size assms(3,5) neq q1 unfolding give_promise_def by (intro px_step.prepare) auto
  have s2: "cl_proc ?s2 g = Preparing p seq v n value accept" "cl_size ?s2 = N" "cl_px ?s2 = cl_px s1"
      "(q, p, seq, n, ?r) \<in> cl_prepareRep ?s2"
    using s1(2) size by (auto simp: give_promise_def reply put_defs)
  have to2: "runs_in {} seq P s1 ?s2"
    by (rule runs_in_step [OF step2]) (auto simp: s2(3), auto simp: give_promise_def put_defs nil_free_def)
  have chan: "prepare_channel ?s2 p seq n [(q, ?r)]"
    using s2 assms(3) neq by (simp add: prepare_channel_def)
  have loop: "run_prepare_loop (cl_size ?s2) accept value (map snd [(q, ?r)]) = PrepareDecided ?w"
    by (simp add: run_prepare_loop_def rpc_codes)
  let ?s3 = "put_proc g ProcDone ?s2\<lparr>cl_decide := insert (p, seq, ?w) (cl_decide ?s2)\<rparr>"
  have step3: "px_step ?s2 ?s3" by (rule px_step.learn_decided [OF s2(1) chan loop])
  have to3: "runs_in {} seq P ?s2 ?s3"
    by (rule runs_in_step [OF step3]) (auto simp: put_defs nil_free_def)
  have "runs_in {p} seq P s ?s2" by (rule runs_in_trans [OF to1 to2]) simp
  then have run3: "runs_in {p} seq P s ?s3" by (rule runs_in_trans [OF _ to3]) simp
  have alloc3: "\<forall>q \<in> set [p]. allocated (cl_px ?s3 q) seq"
    using runs_in_allocated [OF run3 assms(1,4)] by (simp only: list.set) blast
  have dec3: "\<forall>q \<in> set [p]. (q, seq, ?w) \<in> cl_decide ?s3" by (simp add: put_defs)
  obtain t where t: "runs_in (set [p]) seq P ?s3 t" "\<forall>q \<in> set [p]. \<not> pending t q seq"
    using all_decide [OF runs_in_reachable [OF run3 assms(1)] dec3 _ _ alloc3, of P] assms(2) by auto
  have "runs_in {p} seq P s t" by (rule runs_in_trans [OF run3 t(1)]) simp
  with t(2) show ?thesis by (intro exI [of _ t]) simp
qed

lemma run_decided:
  "runs_in A seq P s t \<Longrightarrow> px_reachable N enable s \<Longrightarrow> \<not> pending s q seq \<Longrightarrow> \<not> pending t q seq"
  unfolding runs_in_def using run_decided_stable by blast

lemma all_learn:
  assumes "px_reachable N enable s" and "q < N" and "allocated (cl_px s q) seq" and "\<not> pending s q seq"
    and "set ps \<subseteq> {..<N}" and "\<forall>p \<in> set ps. allocated (cl_px s p) seq" and "(seq, v) \<in> P"
  shows "\<exists>t. runs_in (set ps) seq P s t \<and> (\<forall>p \<in> set ps. \<not> pending t p seq)"
  using assms(1,3-6)
proof (induction ps arbitrary: s)
  case (Cons p ps)
  have "\<exists>u. runs_in {p} seq P s u \<and> \<not> pending u p seq"
  proof (cases "pending s p seq")
    case True
    show ?thesis
      by (rule learner_runs [OF Cons.prems(1) _ assms(2) _ Cons.prems(2,3) True assms(7)])
        (use Cons.prems(4,5) in auto)
  qed blast
  then obtain u where u: "runs_in {p} seq P s u" "\<not> pending u p seq" by blast
  have reach: "px_reachable N enable u" using runs_in_reachable [OF u(1) Cons.prems(1)] .
  have alloc: "allocated (cl_px s r) seq \<Longrightarrow> allocated (cl_px u r) seq" for r
    using runs_in_allocated [OF u(1) Cons.prems(1)] .
  obtain t where t: "runs_in (set ps) seq P u t" "\<forall>p \<in> set ps. \<not> pending t p seq"
    using Cons.IH [OF reach alloc [OF Cons.prems(2)] run_decided [OF u(1) Cons.prems(1,3)]] alloc Cons.prems(4,5)
    by auto
  have "runs_in (set (p # ps)) seq P s t" by (rule runs_in_trans [OF u(1) t(1)]) simp
  moreover have "\<not> pending t p seq" by (rule run_decided [OF t(1) reach u(2)])
  ultimately show ?case using t(2) by auto
qed auto

text \<open>Either way, all peers of a majority come to a decision.\<close>

lemma majority_decides:
  assumes "px_reachable N enable s" and "majority N A" and "2 \<le> N" and "(seq, Some v) \<in> P"
    and "\<forall>q \<in> A. allocated (cl_px s q) seq"
  shows "\<exists>t. runs_in A seq P s t \<and> (\<forall>q \<in> A. \<not> pending t q seq)"
proof (cases "\<forall>q \<in> A. pending s q seq")
  case True
  then show ?thesis using ballot_runs [OF assms(1-4)] assms(5) by blast
next
  case False
  then obtain q where q: "q \<in> A" "\<not> pending s q seq" by blast
  have A: "A \<subseteq> {..<N}" using assms(2) by (simp add: majority_def)
  obtain qs where qs: "set qs = A" using finite_distinct_list majority_finite [OF assms(2)] by blast
  show ?thesis
    using all_learn [OF assms(1) _ _ q(2), of qs "Some v" P] assms(4,5) A q(1) unfolding qs by blast
qed

lemma px_Status_known:
  assumes "px_wf px" and "px_startIndex px \<le> seq" and "allocated px seq"
    and "inst_status (px_heap px seq) = Decided"
  shows "px_Status seq px = Some (Decided, inst_value (px_heap px seq))"
  using assms by (auto simp: px_Status_def getInstanceL_wf allocated_def)

text \<open>
  A peer that has decided reports a proposed value, and peers of a majority that have all
  decided report one value.
\<close>

lemma all_report:
  assumes "px_reachable N enable t" and "majority N A"
    and "\<forall>q \<in> A. \<not> pending t q seq \<and> allocated (cl_px t q) seq \<and> px_startIndex (cl_px t q) \<le> seq"
  defines "f \<equiv> \<lambda>q. inst_value (cl_inst t q seq)"
  shows "\<forall>q \<in> A. px_Status seq (cl_px t q) = Some (Decided, f q)"
    and "done_ok t seq \<Longrightarrow> \<forall>q \<in> A. (seq, f q) \<in> cl_proposed t"
    and "nil_free t seq \<Longrightarrow> done_ok t seq \<Longrightarrow> \<forall>p \<in> A. \<forall>q \<in> A. f p = f q"
proof -
  have t: "cl_inv t" "cl_size t = N" using reachable_cl_inv [OF assms(1)] by auto
  have known: "learned t seq (f q)" if "q \<in> A" for q
    using assms(3) that learned_heap by (auto simp: f_def)
  have "px_wf (cl_px t q)" if "q \<in> A" for q
    using t that assms(2) by (auto simp: cl_inv_def node_inv_def majority_def)
  then show "\<forall>q \<in> A. px_Status seq (cl_px t q) = Some (Decided, f q)"
    using assms(3) by (simp add: px_Status_known f_def)
  show "done_ok t seq \<Longrightarrow> \<forall>q \<in> A. (seq, f q) \<in> cl_proposed t"
    using t(1) known by (simp add: cl_inv_def learn_inv_def)
  show "\<forall>p \<in> A. \<forall>q \<in> A. f p = f q" if "nil_free t seq" "done_ok t seq"
    using t(1) known that chosen_unique [OF t(1) that(1)] by (simp add: cl_inv_def decide_inv_def)
qed

text \<open>
  C13. Progress: from every reachable state of a group of at least two peers, whatever
  proposers, ballots and messages are under way, any majority that has not forgotten an
  instance can bring it to a decision on its own: there is a run in which no other peer
  takes part, after which Status reports the instance decided at every peer of the majority.
  If Done has not been called early for the instance (done_ok), every value so reported is
  the one a proposer of the majority is started with or had been proposed before; if
  moreover no nil value had entered its accept phase (nil_free), all of them report one and
  the same value.
\<close>

theorem paxos_progress:
  assumes "px_reachable N enable s" and "2 \<le> N" and "majority N A"
    and "\<forall>q \<in> A. px_startIndex (cl_px s q) \<le> seq"
  shows "\<exists>t f. px_step\<^sup>*\<^sup>* s t \<and> (\<forall>q. q \<notin> A \<longrightarrow> cl_px t q = cl_px s q) \<and>
    (\<forall>q \<in> A. px_Status seq (cl_px t q) = Some (Decided, f q)) \<and>
    (done_ok s seq \<longrightarrow> (\<forall>q \<in> A. (seq, f q) \<in> insert (seq, Some v) (cl_proposed s))) \<and>
    (nil_free s seq \<and> done_ok s seq \<longrightarrow> (\<forall>p \<in> A. \<forall>q \<in> A. f p = f q))"
proof -
  let ?P = "{(seq, Some v)}"
  have A: "A \<subseteq> {..<N}" using assms(3) by (simp add: majority_def)
  obtain qs where qs: "set qs = A" "distinct qs"
    using finite_distinct_list majority_finite [OF assms(3)] by blast
  obtain s1 where s1: "runs_in A seq ?P s s1" "px_reachable N enable s1"
      "\<forall>q \<in> A. allocated (cl_px s1 q) seq"
    using all_allocate [OF assms(1) qs(2) _, of seq ?P] unfolding qs(1) using A assms(4) by blast
  obtain t where t: "runs_in A seq ?P s1 t" "\<forall>q \<in> A. \<not> pending t q seq"
    using majority_decides [OF s1(2) assms(3,2) _ s1(3)] by blast
  have run: "runs_in A seq ?P s t" by (rule runs_in_trans [OF s1(1) t(1)]) simp
  note run' = run [unfolded runs_in_def]
  have dec: "\<forall>q \<in> A. \<not> pending t q seq \<and> allocated (cl_px t q) seq \<and> px_startIndex (cl_px t q) \<le> seq"
    using runs_in_allocated [OF t(1) s1(2)] s1(3) t(2) run' assms(4) by metis
  have early: "done_ok t seq \<longleftrightarrow> done_ok s seq" using run' by (simp add: done_ok_def)
  note rep = all_report [OF runs_in_reachable [OF run assms(1)] assms(3) dec]
  show ?thesis
  proof (intro exI [of _ t] exI [of _ "\<lambda>q. inst_value (cl_inst t q seq)"] conjI)
    show "done_ok s seq \<longrightarrow> (\<forall>q \<in> A. (seq, inst_value (cl_inst t q seq)) \<in> insert (seq, Some v) (cl_proposed s))"
      using rep(2) run' early by blast
    show "nil_free s seq \<and> done_ok s seq \<longrightarrow>
        (\<forall>p \<in> A. \<forall>q \<in> A. inst_value (cl_inst t p seq) = inst_value (cl_inst t q seq))"
      using rep(3) run' early by blast
  qed (use rep(1) run' in blast)+
qed

text \<open>
  Peer 0 is cut off after its first round; peers 1 and 2 have voted for nothing yet and
  decide without it.
\<close>

definition demo_cut :: "nat action list" where
  "demo_cut = take 3 demo_decide"

lemma demo_cut_run:
  "cl_run demo_cut (cl_init 3 True) \<noteq> None"
  "nil_free (demo_state demo_cut) 0" "done_ok (demo_state demo_cut) 0"
  "px_startIndex (cl_px (demo_state demo_cut) 1) \<le> 0"
  "px_startIndex (cl_px (demo_state demo_cut) 2) \<le> 0"
  "px_Status 0 (cl_px (demo_state demo_cut) 0) = Some (Pending, None)"
  unfolding not_None_eq [symmetric] by code_simp+

theorem paxos_progress_witness:
  "\<exists>t w. px_step\<^sup>*\<^sup>* (demo_state demo_cut) t \<and>
     px_Status 0 (cl_px t 0) = Some (Pending, None) \<and>
     px_Status 0 (cl_px t 1) = Some (Decided, w) \<and> px_Status 0 (cl_px t 2) = Some (Decided, w)"
proof -
  let ?s = "demo_state demo_cut"
  have maj: "majority 3 {1, 2}" and two: "(2::nat) \<le> 3" by (auto simp: majority_def)
  have start: "\<forall>q \<in> {1, 2}. px_startIndex (cl_px ?s q) \<le> 0" using demo_cut_run(4,5) by simp
  obtain t f where t: "px_step\<^sup>*\<^sup>* ?s t" and out: "\<forall>q. q \<notin> {1, 2} \<longrightarrow> cl_px t q = cl_px ?s q"
      and dec: "\<forall>q \<in> {1, 2}. px_Status 0 (cl_px t q) = Some (Decided, f q)"
      and one: "nil_free ?s 0 \<and> done_ok ?s 0 \<longrightarrow> (\<forall>p \<in> {1, 2}. \<forall>q \<in> {1, 2}. f p = f q)"
    using paxos_progress [OF demo_reachable [OF demo_cut_run(1)] two maj start, of 9]
    by (elim exE conjE) (rule that)
  have "f 2 = f 1" using one demo_cut_run(2,3) by blast
  moreover have "cl_px t 0 = cl_px ?s 0" using out by simp
  ultimately show ?thesis
    using t dec demo_cut_run(6) by (intro exI [of _ t] exI [of _ "f 1"]) simp
qed

end
