(* ===== verification/Raft_Node.thy ===== *)
theory Raft_Node
  imports Go_Prelude
begin

text \<open>
  One Raft peer: raft.go, election.go, log_transmission.go, snapshot.go, persisting.go and
  persister.go of the package raft. Every section that runs under rf.mu is one definition;
  a goroutine that gives up the lock while it waits for a reply is split there. Goroutines
  an operation starts are returned as tasks; condition variables only wake goroutines up
  and have no state. Log positions are absolute: the entry at position i is
  logs[i - startIndex], and commitIndex and lastApplied are exclusive bounds.
\<close>

section \<open>Data (raft.go, election.go, log_transmission.go, snapshot.go)\<close>

record 'c ApplyMsg =
  am_CommandValid :: bool
  am_Command :: "'c option"
  am_CommandIndex :: int
  am_SnapshotValid :: bool
  am_Snapshot :: "byte list"
  am_SnapshotTerm :: int
  am_SnapshotIndex :: int

datatype role = Follower | Candidate | Leader

definition ElectionThreshold :: int where "ElectionThreshold = 5"
definition HeartbeatRate :: int where "HeartbeatRate = 300"

record 'c Log =
  lg_Term :: int
  lg_Command :: "'c option"

text \<open>
  Bytes written by an encoder are the sequence of the values encoded; a decoder takes
  them back one at a time and fails on a value of another type or at the end.
\<close>

datatype 'c gob = GobInt int | GobLogs "'c Log list"

record 'c RfPersister =
  rp_raftstate :: "'c gob list"
  rp_snapshot :: "byte list"
  rp_enable :: bool

record 'c Raft =
  rf_peers :: nat
  rf_persister :: "'c RfPersister"
  rf_me :: nat
  rf_dead :: bool
  rf_currentTerm :: int
  rf_votedFor :: int
  rf_commitIndex :: int
  rf_lastApplied :: int
  rf_nextIndex :: "int list"
  rf_matchIndex :: "int list"
  rf_state :: role
  rf_logs :: "'c Log list"
  rf_missedHeartbeat :: int
  rf_lastMsg :: int
  rf_snapshotApplying :: bool
  rf_newOp :: int
  rf_startIndex :: int
  rf_snapshot :: "byte list"

record RequestVoteArgs =
  rv_Term :: int
  rv_CandidateId :: int
  rv_LastLogTerm :: int
  rv_LastLogIndex :: int

record RequestVoteReply =
  rr_Term :: int
  rr_Granted :: bool

record 'c AppendEntriesArgs =
  ae_Term :: int
  ae_PrevLogTerm :: int
  ae_PrevLogIndex :: int
  ae_Entries :: "'c Log list"
  ae_LeaderCommit :: int

record AppendEntriesReply =
  ar_Term :: int
  ar_Success :: bool
  ar_XTerm :: int
  ar_XIndex :: int
  ar_XLen :: int

record InstallSnapshotArgs =
  is_Term :: int
  is_LastIndex :: int
  is_LastTerm :: int
  is_Data :: "byte list"

record InstallSnapshotReply =
  ir_Term :: int

datatype rf_task =
    GoSendLog nat int
  | GoCommitter int
  | GoHeartbeat int
  | GoSendSnapshot nat int int InstallSnapshotArgs
  | GoSnapshot int "byte list"
  | GoStartElection

section \<open>Persister (persister.go)\<close>

definition rp_MakePersister :: "bool \<Rightarrow> 'c RfPersister" where
  "rp_MakePersister enable = \<lparr>rp_raftstate = [], rp_snapshot = [], rp_enable = enable\<rparr>"

definition rp_Copy :: "'c RfPersister \<Rightarrow> 'c RfPersister" where
  "rp_Copy ps = (rp_MakePersister (rp_enable ps))
     \<lparr>rp_raftstate := rp_raftstate ps, rp_snapshot := rp_snapshot ps\<rparr>"

definition rp_ReadRaftState :: "'c RfPersister \<Rightarrow> 'c gob list" where
  "rp_ReadRaftState ps = rp_raftstate ps"

definition rp_Save :: "'c gob list \<Rightarrow> byte list \<Rightarrow> 'c RfPersister \<Rightarrow> 'c RfPersister" where
  "rp_Save raftstate snapshot ps = ps\<lparr>rp_raftstate := raftstate, rp_snapshot := snapshot\<rparr>"

definition rp_ReadSnapshot :: "'c RfPersister \<Rightarrow> byte list" where
  "rp_ReadSnapshot ps = rp_snapshot ps"

definition rp_SnapshotSize :: "'c RfPersister \<Rightarrow> int" where
  "rp_SnapshotSize ps = int (length (rp_snapshot ps))"

section \<open>Persisting (persisting.go)\<close>

definition rf_persistL :: "bool \<Rightarrow> 'c Raft \<Rightarrow> 'c Raft" where
  "rf_persistL force rf =
     (if rp_enable (rf_persister rf) \<or> force then
        let raftstate = [GobInt (rf_currentTerm rf), GobInt (rf_votedFor rf), GobLogs (rf_logs rf),
                         GobInt (rf_startIndex rf)]
        in rf\<lparr>rf_persister := rp_Save raftstate
               (if rf_startIndex rf > 0 then rf_snapshot rf else []) (rf_persister rf)\<rparr>
      else rf)"

definition rf_Persist :: "'c Raft \<Rightarrow> 'c Raft" where
  "rf_Persist rf = rf_persistL True rf"

fun gob_int :: "'c gob list \<Rightarrow> (int \<times> 'c gob list) option" where
  "gob_int (GobInt i # r) = Some (i, r)"
| "gob_int _ = None"

fun gob_logs :: "'c gob list \<Rightarrow> ('c Log list \<times> 'c gob list) option" where
  "gob_logs (GobLogs l # r) = Some (l, r)"
| "gob_logs _ = None"

text \<open>The flag says whether a state was read; a failed read leaves the peer as it was.\<close>

definition rf_readPersist :: "'c gob list \<Rightarrow> 'c Raft \<Rightarrow> 'c Raft \<times> bool" where
  "rf_readPersist data rf =
     (case do {
        (currentTerm, r1) \<leftarrow> gob_int data;
        (votedFor, r2) \<leftarrow> gob_int r1;
        (logs, r3) \<leftarrow> gob_logs r2;
        (startIndex, r4) \<leftarrow> gob_int r3;
        Some (currentTerm, votedFor, logs, startIndex)
      } of
        None \<Rightarrow> (rf, False)
      | Some (currentTerm, votedFor, logs, startIndex) \<Rightarrow>
          let rf1 = rf\<lparr>rf_currentTerm := currentTerm, rf_votedFor := votedFor, rf_logs := logs,
                       rf_startIndex := startIndex\<rparr>
          in (if startIndex > 0
              then rf1\<lparr>rf_snapshot := rp_ReadSnapshot (rf_persister rf1),
                       rf_commitIndex := startIndex + 1, rf_lastApplied := startIndex + 1\<rparr>
              else rf1, True))"

section \<open>The peer (raft.go)\<close>

definition rf_GetState :: "'c Raft \<Rightarrow> int \<times> bool" where
  "rf_GetState rf = (rf_currentTerm rf, rf_state rf = Leader)"

definition other_peers :: "'c Raft \<Rightarrow> nat list" where
  "other_peers rf = filter (\<lambda>i. i \<noteq> rf_me rf) [0..<rf_peers rf]"

text \<open>Start returns the peer, the index, the term, whether it is the leader, and the tasks.\<close>

definition rf_Start ::
  "int \<Rightarrow> 'c option \<Rightarrow> 'c Raft \<Rightarrow> 'c Raft \<times> int \<times> int \<times> bool \<times> rf_task list" where
  "rf_Start now command rf =
     (let term = rf_currentTerm rf in
      if rf_state rf \<noteq> Leader then (rf, -1, term, False, [])
      else
        let index = rf_startIndex rf + int (length (rf_logs rf));
            rf1 = rf_persistL False
                    (rf\<lparr>rf_logs := rf_logs rf @ [\<lparr>lg_Term = term, lg_Command = command\<rparr>]\<rparr>);
            rf2 = (if rf_newOp rf1 = 0 then rf1\<lparr>rf_newOp := index\<rparr> else rf1);
            tasks = (if rf_newOp rf1 = 0 then [GoCommitter (rf_currentTerm rf1)] else [])
        in (rf2\<lparr>rf_lastMsg := now\<rparr>, index, term, True,
            tasks @ map (\<lambda>i. GoSendLog i term) (other_peers rf2)))"

text \<open>One round of the applier loop: what is sent to the service, in order.\<close>

datatype 'c apply_round = ApplyMsgs "'c ApplyMsg list" | ApplyWait

function applier_batch ::
  "'c Raft \<Rightarrow> int \<Rightarrow> 'c ApplyMsg list panics" where
  "applier_batch rf lastApplied =
     (if lastApplied < rf_commitIndex rf then do {
        entry \<leftarrow> go_index (rf_logs rf) (lastApplied - rf_startIndex rf);
        batch \<leftarrow> applier_batch rf (lastApplied + 1);
        Some (\<lparr>am_CommandValid = True, am_Command = lg_Command entry, am_CommandIndex = lastApplied,
               am_SnapshotValid = False, am_Snapshot = [], am_SnapshotTerm = 0,
               am_SnapshotIndex = 0\<rparr> # batch)
      } else Some [])"
  by pat_completeness auto
termination
  by (relation "measure (\<lambda>(rf, lastApplied). nat (rf_commitIndex rf - lastApplied))") auto

declare applier_batch.simps [simp del]

definition applier_round :: "'c Raft \<Rightarrow> ('c Raft \<times> 'c apply_round) panics" where
  "applier_round rf =
     (if rf_snapshotApplying rf then do {
        first \<leftarrow> go_index (rf_logs rf) 0;
        Some (rf\<lparr>rf_snapshotApplying := False\<rparr>,
          ApplyMsgs [\<lparr>am_CommandValid = False, am_Command = None, am_CommandIndex = 0,
            am_SnapshotValid = True, am_Snapshot = rf_snapshot rf, am_SnapshotTerm = lg_Term first,
            am_SnapshotIndex = rf_startIndex rf\<rparr>])
      } else if rf_lastApplied rf < rf_commitIndex rf then do {
        batch \<leftarrow> applier_batch rf (rf_lastApplied rf);
        Some (rf\<lparr>rf_lastApplied := rf_commitIndex rf\<rparr>, ApplyMsgs batch)
      } else Some (rf, ApplyWait))"

text \<open>testIndexL counts the other peers that have the entry, and this one.\<close>

fun testIndexL_loop :: "'c Raft \<Rightarrow> int \<Rightarrow> int \<Rightarrow> nat list \<Rightarrow> bool panics" where
  "testIndexL_loop rf index matched [] = Some False"
| "testIndexL_loop rf index matched (i # is) = do {
     m \<leftarrow> go_index (rf_matchIndex rf) (int i);
     if m > index \<and> i \<noteq> rf_me rf then
       if (matched + 1) * 2 > int (rf_peers rf) then Some True
       else testIndexL_loop rf index (matched + 1) is
     else testIndexL_loop rf index matched is
   }"

definition testIndexL :: "int \<Rightarrow> 'c Raft \<Rightarrow> bool panics" where
  "testIndexL index rf = testIndexL_loop rf index 1 [0..<rf_peers rf]"

function commit_search :: "'c Raft \<Rightarrow> int \<Rightarrow> int \<Rightarrow> int panics" where
  "commit_search rf lBound rBound =
     (if rBound > lBound then
        let mid = (lBound + rBound) div 2
        in case testIndexL mid rf of
             None \<Rightarrow> None
           | Some True \<Rightarrow> commit_search rf (mid + 1) rBound
           | Some False \<Rightarrow> commit_search rf lBound mid
      else Some lBound)"
  by pat_completeness auto
termination
  by (relation "measure (\<lambda>(rf, l, r). nat (r - l))") auto

declare commit_search.simps [simp del]

text \<open>
  One round of the committer loop: None when it returns because the term has changed,
  otherwise the peer, its flag newCommit, and whether the goroutine waits next.
\<close>

definition committer_round ::
  "int \<Rightarrow> bool \<Rightarrow> 'c Raft \<Rightarrow> ('c Raft \<times> bool \<times> bool) option panics" where
  "committer_round term newCommit rf =
     (if rf_currentTerm rf \<noteq> term then Some None
      else if newCommit then do {
        b \<leftarrow> testIndexL (rf_commitIndex rf) rf;
        if b then do {
          c \<leftarrow> commit_search rf (rf_commitIndex rf + 1) (rf_startIndex rf + int (length (rf_logs rf)));
          Some (Some (rf\<lparr>rf_commitIndex := c\<rparr>, True, True))
        } else Some (Some (rf, True, True))
      } else do {
        b \<leftarrow> testIndexL (rf_newOp rf) rf;
        if b then Some (Some (rf\<lparr>rf_commitIndex := rf_newOp rf + 1\<rparr>, True, False))
        else Some (Some (rf, False, True))
      })"

definition rf_Kill :: "'c Raft \<Rightarrow> 'c Raft" where
  "rf_Kill rf = rf\<lparr>rf_dead := True\<rparr>"

definition rf_killed :: "'c Raft \<Rightarrow> bool" where
  "rf_killed rf = rf_dead rf"

definition rf_Make :: "nat \<Rightarrow> nat \<Rightarrow> 'c RfPersister \<Rightarrow> 'c Raft" where
  "rf_Make peers me persister =
     (let rf = \<lparr>rf_peers = peers, rf_persister = persister, rf_me = me, rf_dead = False,
                rf_currentTerm = 0, rf_votedFor = 0, rf_commitIndex = 1, rf_lastApplied = 1,
                rf_nextIndex = replicate peers 0, rf_matchIndex = replicate peers 0,
                rf_state = Follower, rf_logs = [], rf_missedHeartbeat = 0, rf_lastMsg = 0,
                rf_snapshotApplying = False, rf_newOp = 0, rf_startIndex = 0, rf_snapshot = []\<rparr>;
          (rf1, ok) = rf_readPersist (rp_ReadRaftState persister) rf
      in if ok then rf1
         else rf1\<lparr>rf_currentTerm := 0, rf_logs := [\<lparr>lg_Term = 0, lg_Command = None\<rparr>],
                  rf_votedFor := -1\<rparr>)"

end
