(* ===== verification/Raft_Election.thy ===== *)
theory Raft_Election
  imports Raft_Node
begin

text \<open>
  Elections (election.go): the vote handler, the candidate goroutine startElection as its
  three locked sections and its reply loop, and the ticker. A failed call and an
  uninformative refusal both read as Fail, which is 0; a refusal from a higher term reads
  as that term.
\<close>

section \<open>Voting\<close>

definition getLastLogL :: "'c Raft \<Rightarrow> (int \<times> int) panics" where
  "getLastLogL rf = do {
     let logLen = int (length (rf_logs rf)) - 1;
     entry \<leftarrow> go_index (rf_logs rf) logLen;
     Some (lg_Term entry, rf_startIndex rf + logLen)
   }"

definition RequestVote ::
  "RequestVoteArgs \<Rightarrow> 'c Raft \<Rightarrow> ('c Raft \<times> RequestVoteReply) panics" where
  "RequestVote args rf =
     (if rf_currentTerm rf > rv_Term args then
        Some (rf, \<lparr>rr_Term = rf_currentTerm rf, rr_Granted = False\<rparr>)
      else if rf_currentTerm rf = rv_Term args \<and> rf_votedFor rf \<noteq> rv_CandidateId args \<and>
              rf_votedFor rf \<noteq> -1 then
        Some (rf, \<lparr>rr_Term = rf_currentTerm rf, rr_Granted = False\<rparr>)
      else do {
        let rf1 = (if rf_currentTerm rf < rv_Term args
                   then rf\<lparr>rf_currentTerm := rv_Term args, rf_votedFor := -1, rf_state := Follower\<rparr>
                   else rf);
        (lastLogTerm, lastLogIndex) \<leftarrow> getLastLogL rf1;
        if rv_LastLogTerm args < lastLogTerm \<or>
           rv_LastLogTerm args = lastLogTerm \<and> rv_LastLogIndex args < lastLogIndex
        then Some (rf1, \<lparr>rr_Term = rf_currentTerm rf1, rr_Granted = False\<rparr>)
        else Some (rf_persistL False
                (rf1\<lparr>rf_votedFor := rv_CandidateId args, rf_missedHeartbeat := 0\<rparr>),
              \<lparr>rr_Term = rf_currentTerm rf1, rr_Granted = True\<rparr>)
      })"

section \<open>The candidate\<close>

text \<open>The first section: None when this peer is the leader already.\<close>

definition election_begin :: "'c Raft \<Rightarrow> ('c Raft \<times> RequestVoteArgs) option panics" where
  "election_begin rf =
     (if rf_state rf = Leader then Some None
      else do {
        let rf1 = rf\<lparr>rf_currentTerm := rf_currentTerm rf + 1, rf_votedFor := int (rf_me rf),
                     rf_state := Candidate\<rparr>;
        (lastLogTerm, lastLogIndex) \<leftarrow> getLastLogL rf1;
        Some (Some (rf1, \<lparr>rv_Term = rf_currentTerm rf1, rv_CandidateId = int (rf_me rf1),
                          rv_LastLogTerm = lastLogTerm, rv_LastLogIndex = lastLogIndex\<rparr>))
      })"

definition ElSuccess :: int where "ElSuccess = -1"
definition ElFail :: int where "ElFail = 0"

text \<open>What the call goroutine puts into the channel; None is a failed call.\<close>

definition election_result :: "RequestVoteArgs \<Rightarrow> RequestVoteReply option \<Rightarrow> int" where
  "election_result args ok_reply =
     (case ok_reply of
        None \<Rightarrow> ElFail
      | Some reply \<Rightarrow>
          if rr_Granted reply then ElSuccess
          else if rr_Term reply > rv_Term args then rr_Term reply
          else ElFail)"

datatype election_outcome = Elected | NotElected | StepDown int

fun election_loop :: "int \<Rightarrow> int \<Rightarrow> int list \<Rightarrow> election_outcome" where
  "election_loop numServers votes [] = NotElected"
| "election_loop numServers votes (res # results) =
     (if res = ElSuccess then
        if (votes + 1) * 2 > numServers then Elected
        else election_loop numServers (votes + 1) results
      else if res \<noteq> ElFail then StepDown res
      else election_loop numServers votes results)"

definition stepdown :: "int \<Rightarrow> 'c Raft \<Rightarrow> 'c Raft" where
  "stepdown res rf =
     (if res > rf_currentTerm rf
      then rf\<lparr>rf_currentTerm := res, rf_votedFor := -1, rf_state := Follower\<rparr> else rf)"

fun reset_peers :: "int \<Rightarrow> nat list \<Rightarrow> 'c Raft \<Rightarrow> 'c Raft panics" where
  "reset_peers lastLogIndex [] rf = Some rf"
| "reset_peers lastLogIndex (i # is) rf = do {
     nextIndex \<leftarrow> go_store (rf_nextIndex rf) (int i) (lastLogIndex + 1);
     matchIndex \<leftarrow> go_store (rf_matchIndex rf) (int i) 1;
     reset_peers lastLogIndex is (rf\<lparr>rf_nextIndex := nextIndex, rf_matchIndex := matchIndex\<rparr>)
   }"

definition election_win ::
  "RequestVoteArgs \<Rightarrow> 'c Raft \<Rightarrow> ('c Raft \<times> rf_task list) panics" where
  "election_win args rf =
     (if rf_currentTerm rf = rv_Term args \<and> rf_state rf = Candidate then do {
        rf1 \<leftarrow> reset_peers (rv_LastLogIndex args) [0..<rf_peers rf] (rf\<lparr>rf_state := Leader\<rparr>);
        Some (rf1\<lparr>rf_newOp := 0\<rparr>, [GoHeartbeat (rf_currentTerm rf1)])
      } else Some (rf, []))"

text \<open>What the candidate does with the results that have arrived.\<close>

definition election_finish ::
  "RequestVoteArgs \<Rightarrow> int list \<Rightarrow> 'c Raft \<Rightarrow> ('c Raft \<times> rf_task list) panics" where
  "election_finish args results rf =
     (case election_loop (int (rf_peers rf)) 1 results of
        Elected \<Rightarrow> election_win args rf
      | StepDown res \<Rightarrow> Some (stepdown res rf, [])
      | NotElected \<Rightarrow> Some (rf, []))"

section \<open>The ticker\<close>

definition rf_tick :: "'c Raft \<Rightarrow> 'c Raft \<times> rf_task list" where
  "rf_tick rf =
     (if rf_missedHeartbeat rf > ElectionThreshold
      then (rf\<lparr>rf_missedHeartbeat := 0\<rparr>, [GoStartElection])
      else (rf\<lparr>rf_missedHeartbeat := rf_missedHeartbeat rf + 1\<rparr>, []))"

end
