(* ===== verification/Raft_Log.thy ===== *)
theory Raft_Log
  imports Raft_Node
begin

text \<open>
  Log replication (log_transmission.go) and snapshots (snapshot.go): the handlers
  AppendEntries and InstallSnapshot, the sender sendLog as the section that builds a
  request and the section that reads the reply, the heartbeat, and Snapshot.
\<close>

section \<open>AppendEntries\<close>

text \<open>Both loops that look for the first entry of a term walk back while the term is the same.\<close>

fun term_start :: "'c Log list \<Rightarrow> nat \<Rightarrow> nat" where
  "term_start logs 0 = 0"
| "term_start logs (Suc i) =
     (if lg_Term (logs ! Suc i) = lg_Term (logs ! i) then term_start logs i else Suc i)"

text \<open>The merge loop: the log after it and whether it was modified.\<close>

fun ae_merge :: "'c Log list \<Rightarrow> nat \<Rightarrow> 'c Log list \<Rightarrow> 'c Log list \<times> bool" where
  "ae_merge logs myIndex [] = (logs, False)"
| "ae_merge logs myIndex (e # es) =
     (if myIndex \<ge> length logs \<or> lg_Term (logs ! myIndex) \<noteq> lg_Term e
      then (take myIndex logs @ e # es, True)
      else ae_merge logs (Suc myIndex) es)"

definition ae_reject :: "int \<Rightarrow> nat \<Rightarrow> int \<Rightarrow> 'c Raft \<Rightarrow> AppendEntriesReply" where
  "ae_reject replyTerm i xlen rf =
     \<lparr>ar_Term = replyTerm, ar_Success = False,
      ar_XTerm = lg_Term (rf_logs rf ! term_start (rf_logs rf) i),
      ar_XIndex = int (term_start (rf_logs rf) i) + rf_startIndex rf, ar_XLen = xlen\<rparr>"

definition ae_accept :: "int \<Rightarrow> AppendEntriesReply" where
  "ae_accept replyTerm =
     \<lparr>ar_Term = replyTerm, ar_Success = True, ar_XTerm = 0, ar_XIndex = 0, ar_XLen = 0\<rparr>"

text \<open>Lines 46-87: the consistency check and the merge, after the entries were trimmed.\<close>

definition ae_append ::
  "int \<Rightarrow> int \<Rightarrow> 'c Log list \<Rightarrow> int \<Rightarrow> 'c Raft \<Rightarrow> ('c Raft \<times> AppendEntriesReply) panics" where
  "ae_append PrevLogTerm PrevLogIndex Entries LeaderCommit rf =
     (if PrevLogIndex \<ge> rf_startIndex rf + int (length (rf_logs rf)) then do {
        last \<leftarrow> go_index (rf_logs rf) (int (length (rf_logs rf)) - 1);
        Some (rf, ae_reject (rf_currentTerm rf) (length (rf_logs rf) - 1)
               (int (length (rf_logs rf)) + rf_startIndex rf) rf)
      } else do {
        prev \<leftarrow> go_index (rf_logs rf) (PrevLogIndex - rf_startIndex rf);
        if lg_Term prev \<noteq> PrevLogTerm then
          Some (rf, ae_reject (rf_currentTerm rf) (nat (PrevLogIndex - rf_startIndex rf))
                 PrevLogIndex rf)
        else
          let (logs, modified) =
                ae_merge (rf_logs rf) (nat (PrevLogIndex - rf_startIndex rf + 1)) Entries;
              rf1 = rf\<lparr>rf_logs := logs\<rparr>;
              rf2 = (if modified then rf_persistL False rf1 else rf1);
              rf3 = (if LeaderCommit > rf_commitIndex rf2
                     then rf2\<lparr>rf_commitIndex := LeaderCommit\<rparr> else rf2)
          in Some (rf3, ae_accept (rf_currentTerm rf3))
      })"

definition AppendEntries ::
  "'c AppendEntriesArgs \<Rightarrow> 'c Raft \<Rightarrow> ('c Raft \<times> AppendEntriesReply) panics" where
  "AppendEntries args rf =
     (if ae_Term args < rf_currentTerm rf then
        Some (rf, \<lparr>ar_Term = rf_currentTerm rf, ar_Success = False, ar_XTerm = 0, ar_XIndex = 0,
                   ar_XLen = 0\<rparr>)
      else
        let rf1 = (if ae_Term args > rf_currentTerm rf
                   then rf\<lparr>rf_currentTerm := ae_Term args, rf_votedFor := -1\<rparr> else rf);
            rf2 = rf1\<lparr>rf_state := Follower, rf_missedHeartbeat := 0\<rparr>
        in if ae_PrevLogIndex args < rf_startIndex rf2 then
             let discardIndex = rf_startIndex rf2 - ae_PrevLogIndex args
             in if discardIndex \<ge> int (length (ae_Entries args))
                then Some (rf2, ae_accept (rf_currentTerm rf2))
                else do {
                  entry \<leftarrow> go_index (ae_Entries args) (discardIndex - 1);
                  entries \<leftarrow> go_from (ae_Entries args) discardIndex;
                  ae_append (lg_Term entry) (rf_startIndex rf2) entries (ae_LeaderCommit args) rf2
                }
           else ae_append (ae_PrevLogTerm args) (ae_PrevLogIndex args) (ae_Entries args)
                  (ae_LeaderCommit args) rf2)"

section \<open>sendLog\<close>

datatype 'c send_action =
    SendSnapshot rf_task
  | SendEntries "'c AppendEntriesArgs" int

text \<open>The body of the sender loop up to the call, lines 97-111.\<close>

definition sendLog_build ::
  "nat \<Rightarrow> int \<Rightarrow> 'c Raft \<Rightarrow> ('c Raft \<times> 'c send_action) panics" where
  "sendLog_build peer term rf = do {
     next \<leftarrow> go_index (rf_nextIndex rf) (int peer);
     if next \<le> rf_startIndex rf then do {
       nextIndex \<leftarrow> go_store (rf_nextIndex rf) (int peer) (rf_startIndex rf + 1);
       first \<leftarrow> go_index (rf_logs rf) 0;
       Some (rf\<lparr>rf_nextIndex := nextIndex\<rparr>,
         SendSnapshot (GoSendSnapshot peer term (rf_startIndex rf + 1)
           \<lparr>is_Term = rf_currentTerm rf, is_LastIndex = rf_startIndex rf,
            is_LastTerm = lg_Term first, is_Data = rf_snapshot rf\<rparr>))
     } else do {
       toSend \<leftarrow> go_from (rf_logs rf) (next - rf_startIndex rf);
       prev \<leftarrow> go_index (rf_logs rf) (next - 1 - rf_startIndex rf);
       Some (rf, SendEntries
         \<lparr>ae_Term = rf_currentTerm rf, ae_PrevLogTerm = lg_Term prev, ae_PrevLogIndex = next - 1,
          ae_Entries = toSend, ae_LeaderCommit = rf_commitIndex rf\<rparr> next)
     }
   }"

text \<open>The start of the goroutine: None when the term has passed.\<close>

definition sendLog_begin ::
  "nat \<Rightarrow> int \<Rightarrow> 'c Raft \<Rightarrow> ('c Raft \<times> 'c send_action) option panics" where
  "sendLog_begin peer term rf =
     (if rf_currentTerm rf \<noteq> term then Some None
      else do { r \<leftarrow> sendLog_build peer term rf; Some (Some r) })"

fun back_loop :: "'c Raft \<Rightarrow> int \<Rightarrow> nat \<Rightarrow> nat panics" where
  "back_loop rf xterm 0 = Some 0"
| "back_loop rf xterm (Suc n) = do {
     entry \<leftarrow> go_index (rf_logs rf) (int n);
     if lg_Term entry \<ge> xterm then back_loop rf xterm n else Some (Suc n)
   }"

text \<open>Lines 137-142: back to the first position whose predecessor has a smaller term.\<close>

definition sendLog_back :: "'c Raft \<Rightarrow> int \<Rightarrow> int \<Rightarrow> int panics" where
  "sendLog_back rf xterm nIndex =
     (if nIndex > rf_startIndex rf then do {
        n \<leftarrow> back_loop rf xterm (nat (nIndex - rf_startIndex rf));
        Some (rf_startIndex rf + int n)
      } else Some (rf_startIndex rf))"

text \<open>Lines 143-145: forward over the entries of the conflicting term.\<close>

function sendLog_forward :: "'c Raft \<Rightarrow> int \<Rightarrow> int \<Rightarrow> int \<Rightarrow> int" where
  "sendLog_forward rf xterm xlen nIndex =
     (if nIndex - rf_startIndex rf < int (length (rf_logs rf)) \<and> nIndex < xlen \<and>
         lg_Term (rf_logs rf ! nat (nIndex - rf_startIndex rf)) = xterm
      then sendLog_forward rf xterm xlen (nIndex + 1) else nIndex)"
  by pat_completeness auto
termination
  by (relation "measure (\<lambda>(rf, xterm, xlen, n). nat (xlen - n))") auto

declare sendLog_forward.simps [simp del]

text \<open>
  The section that reads a reply, lines 115-146. The flag says whether the loop goes on
  (with sendLog_build, still under the lock) or the goroutine returns.
\<close>

definition sendLog_reply ::
  "nat \<Rightarrow> int \<Rightarrow> 'c AppendEntriesArgs \<Rightarrow> int \<Rightarrow> AppendEntriesReply \<Rightarrow> 'c Raft \<Rightarrow>
   ('c Raft \<times> bool) panics" where
  "sendLog_reply peer term args tempSave reply rf = do {
     next \<leftarrow> go_index (rf_nextIndex rf) (int peer);
     if rf_currentTerm rf \<noteq> term \<or> next \<noteq> tempSave then Some (rf, False)
     else if ar_Success reply then do {
       match \<leftarrow> go_index (rf_matchIndex rf) (int peer);
       let next1 = next + int (length (ae_Entries args));
       let rf1 = rf\<lparr>rf_nextIndex := (rf_nextIndex rf)[peer := next1]\<rparr>;
       Some (if next1 > match then rf1\<lparr>rf_matchIndex := (rf_matchIndex rf)[peer := next1]\<rparr> else rf1,
             False)
     }
     else if ar_Term reply > ae_Term args then
       Some (rf\<lparr>rf_currentTerm := ar_Term reply, rf_votedFor := -1, rf_state := Follower\<rparr>, False)
     else do {
       nIndex \<leftarrow> sendLog_back rf (ar_XTerm reply) (ar_XIndex reply);
       let nIndex1 = sendLog_forward rf (ar_XTerm reply) (ar_XLen reply) nIndex;
       Some (rf\<lparr>rf_nextIndex := (rf_nextIndex rf)[peer := nIndex1]\<rparr>, True)
     }
   }"

text \<open>One round of the heartbeat: None when it returns because the term has passed.\<close>

definition heartbeat_round ::
  "int \<Rightarrow> int \<Rightarrow> 'c Raft \<Rightarrow> ('c Raft \<times> rf_task list) option" where
  "heartbeat_round now term rf =
     (if rf_currentTerm rf \<noteq> term then None
      else Some (rf\<lparr>rf_missedHeartbeat := 0\<rparr>,
        if (now - rf_lastMsg rf) * 2 > HeartbeatRate
        then map (\<lambda>i. GoSendLog i term) (other_peers rf) else []))"

section \<open>Snapshots\<close>

definition rf_Snapshot :: "int \<Rightarrow> byte list \<Rightarrow> 'c Raft \<Rightarrow> 'c Raft panics" where
  "rf_Snapshot index snapshot rf =
     (let discardIndex = index - rf_startIndex rf in
      if discardIndex \<le> 0 then Some rf
      else do {
        entry \<leftarrow> go_index (rf_logs rf) discardIndex;
        rest \<leftarrow> go_from (rf_logs rf) (discardIndex + 1);
        Some (rf_persistL False (rf\<lparr>rf_startIndex := index,
          rf_logs := \<lparr>lg_Term = lg_Term entry, lg_Command = None\<rparr> # rest,
          rf_snapshot := snapshot\<rparr>))
      })"

text \<open>What sendSnapshot does with a reply; a failed call does nothing.\<close>

definition sendSnapshot_reply ::
  "nat \<Rightarrow> int \<Rightarrow> int \<Rightarrow> InstallSnapshotReply \<Rightarrow> 'c Raft \<Rightarrow> ('c Raft \<times> rf_task list) panics" where
  "sendSnapshot_reply peer term mIndex reply rf =
     (if rf_currentTerm rf \<noteq> term then Some (rf, [])
      else if ir_Term reply > term then
        Some (rf\<lparr>rf_currentTerm := ir_Term reply, rf_votedFor := -1, rf_state := Follower\<rparr>, [])
      else do {
        match \<leftarrow> go_index (rf_matchIndex rf) (int peer);
        Some (if mIndex > match
              then rf\<lparr>rf_matchIndex := (rf_matchIndex rf)[peer := mIndex]\<rparr> else rf,
              [GoSendLog peer term])
      })"

definition InstallSnapshot ::
  "InstallSnapshotArgs \<Rightarrow> 'c Raft \<Rightarrow> ('c Raft \<times> InstallSnapshotReply \<times> rf_task list) panics" where
  "InstallSnapshot args rf =
     (if rf_currentTerm rf > is_Term args then Some (rf, \<lparr>ir_Term = rf_currentTerm rf\<rparr>, [])
      else do {
        let rf1 = (if rf_currentTerm rf < is_Term args
                   then rf\<lparr>rf_currentTerm := is_Term args, rf_votedFor := -1\<rparr> else rf);
        let rf2 = rf1\<lparr>rf_state := Follower, rf_missedHeartbeat := 0\<rparr>;
        let reply = \<lparr>ir_Term = rf_currentTerm rf2\<rparr>;
        let discardIndex = is_LastIndex args - rf_startIndex rf2;
        if rf_lastApplied rf2 > is_LastIndex args then
          Some (rf2, reply,
            if discardIndex > 0 then [GoSnapshot (is_LastIndex args) (is_Data args)] else [])
        else do {
          let first = \<lparr>lg_Term = is_LastTerm args, lg_Command = None\<rparr>;
          logs \<leftarrow> (if discardIndex < int (length (rf_logs rf2)) then do {
              entry \<leftarrow> go_index (rf_logs rf2) discardIndex;
              if lg_Term entry = is_LastTerm args
              then do { rest \<leftarrow> go_from (rf_logs rf2) (discardIndex + 1); Some (first # rest) }
              else Some [first]
            } else Some [first]);
          Some (rf_persistL False (rf2\<lparr>rf_snapshot := is_Data args,
              rf_startIndex := is_LastIndex args, rf_logs := logs,
              rf_commitIndex := (if rf_commitIndex rf2 \<le> is_LastIndex args
                                 then is_LastIndex args + 1 else rf_commitIndex rf2),
              rf_lastApplied := is_LastIndex args + 1, rf_snapshotApplying := True\<rparr>),
            reply, [])
        }
      })"

section \<open>Debugging output (util.go)\<close>

text \<open>
  The lines that are logged; the formatting of a line is an argument. Debug is a constant, so
  the calls of DPrintf and Assert in the package log nothing and change nothing.
\<close>

definition Debug :: bool where "Debug = False"

definition DPrintf :: "(string \<Rightarrow> 'a list \<Rightarrow> string) \<Rightarrow> string \<Rightarrow> 'a list \<Rightarrow> string list" where
  "DPrintf Printf format a = (if Debug then [Printf format a] else [])"

definition Assert :: "(string \<Rightarrow> 'a list \<Rightarrow> string) \<Rightarrow> bool \<Rightarrow> string \<Rightarrow> 'a list \<Rightarrow> string list" where
  "Assert Printf condition message a = (if Debug \<and> \<not> condition then DPrintf Printf message a else [])"

text \<open>
  The one assertion of the package, in Snapshot: the index has been applied. The calls that
  InstallSnapshot starts keep it.
\<close>

lemma InstallSnapshot_asserts:
  assumes "InstallSnapshot args rf = Some (rf', reply, tasks)" and "GoSnapshot index data \<in> set tasks"
  shows "index < rf_lastApplied rf' \<and> rf_lastApplied rf' = rf_lastApplied rf"
  using assms by (auto simp: InstallSnapshot_def Let_def split: if_splits bind_splits)

end
