(* ===== verification/Raft_Cluster.thy ===== *)
theory Raft_Cluster
  imports Raft_Election Raft_Log
begin

text \<open>
  A group of Raft peers and the network between them, as an interleaving of the locked
  sections of Raft_Node, Raft_Election and Raft_Log. Requests and replies stay in the
  network and may be delivered at any later time, in any order, more than once or never.

  rn_tasks holds the goroutines that were started, by peer; rn_sending those that wait for
  the reply to an AppendEntries call; rn_committer the committer goroutines with their
  flag newCommit. rn_taken holds the messages the applier goroutine of a peer has taken from
  the log since the peer was started, and rn_sent how many of them it has sent: it takes a
  batch under the lock of the peer, and sends the messages of the batch one at a time after
  it has released the lock, while everything else goes on. rn_applied, what the service has
  received, grows message by message. A peer restarts the way the group of servers does it: its state is
  persisted, its goroutines end, and Make reads the state back.

  The service above does not take snapshots, so the log of a peer starts at position 0.

  rn_ll, rn_lead, rn_cand, rn_votes and rn_acked are history variables that no rule reads:
  the log of the leader of a term, who it is, the log with which a candidate campaigned,
  who voted for whom in which term, and who acknowledged which length of the log of the
  leader of a term.
\<close>

section \<open>State\<close>

record 'c rnet =
  rn_size :: nat
  rn_rf :: "nat \<Rightarrow> 'c Raft"
  rn_tasks :: "(nat \<times> rf_task) set"
  rn_sending :: "(nat \<times> nat \<times> 'c AppendEntriesArgs \<times> int) set"
  rn_committer :: "nat \<times> int \<Rightarrow> bool option"
  rn_taken :: "nat \<Rightarrow> 'c ApplyMsg list"
  rn_sent :: "nat \<Rightarrow> nat"
  rn_voteReq :: "RequestVoteArgs set"
  rn_voteRep :: "(nat \<times> RequestVoteArgs \<times> RequestVoteReply) set"
  rn_appReq :: "(nat \<times> nat \<times> 'c AppendEntriesArgs \<times> int) set"
  rn_appRep :: "(nat \<times> nat \<times> 'c AppendEntriesArgs \<times> int \<times> AppendEntriesReply) set"
  rn_snapRep :: "(nat \<times> nat \<times> int \<times> int \<times> InstallSnapshotReply) set"
  rn_ll :: "int \<Rightarrow> 'c Log list option"
  rn_lead :: "int \<Rightarrow> nat"
  rn_cand :: "int \<times> nat \<Rightarrow> 'c Log list"
  rn_votes :: "(nat \<times> int \<times> nat) set"
  rn_acked :: "(nat \<times> int \<times> nat) set"

text \<open>The messages the service of peer q has received from its apply channel.\<close>

definition rn_applied :: "'c rnet \<Rightarrow> nat \<Rightarrow> 'c ApplyMsg list" where
  "rn_applied s q = take (rn_sent s q) (rn_taken s q)"

definition rn_put :: "nat \<Rightarrow> 'c Raft \<Rightarrow> 'c rnet \<Rightarrow> 'c rnet" where
  "rn_put q rf s = s\<lparr>rn_rf := (rn_rf s)(q := rf)\<rparr>"

definition rn_spawn :: "nat \<Rightarrow> rf_task list \<Rightarrow> 'c rnet \<Rightarrow> 'c rnet" where
  "rn_spawn q ts s = s\<lparr>rn_tasks := (\<lambda>t. (q, t)) ` set ts \<union> rn_tasks s,
     rn_committer := (\<lambda>(p, t). if p = q \<and> GoCommitter t \<in> set ts then Some False
                               else rn_committer s (p, t))\<rparr>"

definition rn_emit :: "nat \<Rightarrow> nat \<Rightarrow> 'c send_action \<Rightarrow> 'c rnet \<Rightarrow> 'c rnet" where
  "rn_emit q p act s =
     (case act of
        SendSnapshot t \<Rightarrow> rn_spawn q [t] s
      | SendEntries args next \<Rightarrow>
          s\<lparr>rn_sending := insert (q, p, args, next) (rn_sending s),
            rn_appReq := insert (q, p, args, next) (rn_appReq s)\<rparr>)"

text \<open>The leader's log of a term is recorded, and acknowledged by the leader itself.\<close>

definition rn_lead_log :: "nat \<Rightarrow> int \<Rightarrow> 'c Log list \<Rightarrow> 'c rnet \<Rightarrow> 'c rnet" where
  "rn_lead_log q t logs s = s\<lparr>rn_ll := (rn_ll s)(t \<mapsto> logs), rn_lead := (rn_lead s)(t := q),
     rn_acked := insert (q, t, length logs) (rn_acked s)\<rparr>"

definition rn_restart :: "nat \<Rightarrow> 'c rnet \<Rightarrow> 'c rnet" where
  "rn_restart q s =
     (rn_put q (rf_Make (rn_size s) q (rf_persister (rf_Persist (rn_rf s q)))) s)
       \<lparr>rn_tasks := {x \<in> rn_tasks s. fst x \<noteq> q}, rn_sending := {x \<in> rn_sending s. fst x \<noteq> q},
        rn_committer := (\<lambda>(p, t). if p = q then None else rn_committer s (p, t)),
        rn_taken := (rn_taken s)(q := []), rn_sent := (rn_sent s)(q := 0),
        rn_snapRep := {x \<in> rn_snapRep s. fst x \<noteq> q}\<rparr>"

definition rn_init :: "nat \<Rightarrow> bool \<Rightarrow> 'c rnet" where
  "rn_init N enable =
     \<lparr>rn_size = N, rn_rf = (\<lambda>q. rf_Make N q (rp_MakePersister enable)), rn_tasks = {},
      rn_sending = {}, rn_committer = (\<lambda>_. None), rn_taken = (\<lambda>_. []), rn_sent = (\<lambda>_. 0),
      rn_voteReq = {}, rn_voteRep = {}, rn_appReq = {}, rn_appRep = {}, rn_snapRep = {}, rn_ll = (\<lambda>_. None),
      rn_lead = (\<lambda>_. 0), rn_cand = (\<lambda>_. []), rn_votes = {}, rn_acked = {}\<rparr>"

section \<open>Steps\<close>

text \<open>Results in the channel of a candidate: one per peer, each real or a failed call.\<close>

definition vote_channel ::
  "'c rnet \<Rightarrow> nat \<Rightarrow> RequestVoteArgs \<Rightarrow> (nat \<times> int) list \<Rightarrow> bool" where
  "vote_channel s q args rs \<longleftrightarrow> distinct (map fst rs) \<and>
     (\<forall>(r, res) \<in> set rs. r < rn_size s \<and> r \<noteq> q \<and>
        (res = ElFail \<or>
         (\<exists>reply. (r, args, reply) \<in> rn_voteRep s \<and> res = election_result args (Some reply))))"

inductive rf_step :: "'c rnet \<Rightarrow> 'c rnet \<Rightarrow> bool" where
  tick: "q < rn_size s \<Longrightarrow> rf_tick (rn_rf s q) = (rf, ts) \<Longrightarrow>
    rf_step s (rn_spawn q ts (rn_put q rf s))"
| campaign: "(q, GoStartElection) \<in> rn_tasks s \<Longrightarrow> q < rn_size s \<Longrightarrow>
    election_begin (rn_rf s q) = Some (Some (rf, args)) \<Longrightarrow>
    rf_step s (rn_put q rf s\<lparr>rn_voteReq := insert args (rn_voteReq s),
      rn_votes := insert (q, rv_Term args, q) (rn_votes s),
      rn_cand := (rn_cand s)((rv_Term args, q) := rf_logs rf)\<rparr>)"
| vote: "args \<in> rn_voteReq s \<Longrightarrow> r < rn_size s \<Longrightarrow> int r \<noteq> rv_CandidateId args \<Longrightarrow>
    RequestVote args (rn_rf s r) = Some (rf, reply) \<Longrightarrow>
    rf_step s (rn_put r rf s\<lparr>rn_voteRep := insert (r, args, reply) (rn_voteRep s),
      rn_votes := (if rr_Granted reply then {(r, rv_Term args, nat (rv_CandidateId args))} else {})
        \<union> rn_votes s\<rparr>)"
| elect: "args \<in> rn_voteReq s \<Longrightarrow> rv_CandidateId args = int q \<Longrightarrow> vote_channel s q args rs \<Longrightarrow>
    election_finish args (map snd rs) (rn_rf s q) = Some (rf, ts) \<Longrightarrow>
    rf_step s ((if rf_state rf = Leader \<and> rf_state (rn_rf s q) \<noteq> Leader
                then rn_lead_log q (rf_currentTerm rf) (rf_logs rf) else (\<lambda>s. s))
      (rn_spawn q ts (rn_put q rf s)))"
| start: "q < rn_size s \<Longrightarrow> rf_Start now cmd (rn_rf s q) = (rf, idx, t, True, ts) \<Longrightarrow>
    rf_step s (rn_lead_log q t (rf_logs rf) (rn_spawn q ts (rn_put q rf s)))"
| heartbeat: "(q, GoHeartbeat t) \<in> rn_tasks s \<Longrightarrow> q < rn_size s \<Longrightarrow>
    heartbeat_round now t (rn_rf s q) = Some (rf, ts) \<Longrightarrow>
    rf_step s (rn_spawn q ts (rn_put q rf s))"
| send: "(q, GoSendLog p t) \<in> rn_tasks s \<Longrightarrow> q < rn_size s \<Longrightarrow>
    sendLog_begin p t (rn_rf s q) = Some (Some (rf, act)) \<Longrightarrow>
    rf_step s (rn_emit q p act (rn_put q rf s))"
| append: "(q, p, args, next) \<in> rn_appReq s \<Longrightarrow> p < rn_size s \<Longrightarrow>
    AppendEntries args (rn_rf s p) = Some (rf, reply) \<Longrightarrow>
    rf_step s (rn_put p rf s\<lparr>rn_appRep := insert (q, p, args, next, reply) (rn_appRep s),
      rn_acked := (if ar_Success reply
                   then {(p, ae_Term args, nat (next + int (length (ae_Entries args))))} else {})
        \<union> rn_acked s\<rparr>)"
| append_reply: "(q, p, args, next) \<in> rn_sending s \<Longrightarrow> (q, p, args, next, reply) \<in> rn_appRep s \<Longrightarrow>
    q < rn_size s \<Longrightarrow>
    sendLog_reply p (ae_Term args) args next reply (rn_rf s q) = Some (rf, False) \<Longrightarrow>
    rf_step s (rn_put q rf s)"
| append_retry: "(q, p, args, next) \<in> rn_sending s \<Longrightarrow> (q, p, args, next, reply) \<in> rn_appRep s \<Longrightarrow>
    q < rn_size s \<Longrightarrow>
    sendLog_reply p (ae_Term args) args next reply (rn_rf s q) = Some (rf, True) \<Longrightarrow>
    sendLog_build p (ae_Term args) rf = Some (rf', act) \<Longrightarrow>
    rf_step s (rn_emit q p act (rn_put q rf' s))"
| install: "(q, GoSendSnapshot p t m args) \<in> rn_tasks s \<Longrightarrow> p < rn_size s \<Longrightarrow>
    InstallSnapshot args (rn_rf s p) = Some (rf, reply, ts) \<Longrightarrow>
    rf_step s (rn_spawn p ts (rn_put p rf s\<lparr>rn_snapRep := insert (q, p, t, m, reply) (rn_snapRep s)\<rparr>))"
| install_reply: "(q, p, t, m, reply) \<in> rn_snapRep s \<Longrightarrow> q < rn_size s \<Longrightarrow>
    sendSnapshot_reply p t m reply (rn_rf s q) = Some (rf, ts) \<Longrightarrow>
    rf_step s (rn_spawn q ts (rn_put q rf s))"
| commit: "rn_committer s (q, t) = Some b \<Longrightarrow> q < rn_size s \<Longrightarrow>
    committer_round t b (rn_rf s q) = Some (Some (rf, b', w)) \<Longrightarrow>
    rf_step s (rn_put q rf s\<lparr>rn_committer := (rn_committer s)((q, t) \<mapsto> b')\<rparr>)"
| commit_exit: "rn_committer s (q, t) = Some b \<Longrightarrow> q < rn_size s \<Longrightarrow>
    committer_round t b (rn_rf s q) = Some None \<Longrightarrow>
    rf_step s (s\<lparr>rn_committer := (rn_committer s)((q, t) := None)\<rparr>)"
| apply_msgs: "q < rn_size s \<Longrightarrow> rn_sent s q = length (rn_taken s q) \<Longrightarrow>
    applier_round (rn_rf s q) = Some (rf, ApplyMsgs msgs) \<Longrightarrow>
    rf_step s (rn_put q rf s\<lparr>rn_taken := (rn_taken s)(q := rn_taken s q @ msgs)\<rparr>)"
| deliver: "q < rn_size s \<Longrightarrow> rn_sent s q < length (rn_taken s q) \<Longrightarrow>
    rf_step s (s\<lparr>rn_sent := (rn_sent s)(q := Suc (rn_sent s q))\<rparr>)"
| restart: "q < rn_size s \<Longrightarrow> rf_step s (rn_restart q s)"

inductive rf_reachable :: "nat \<Rightarrow> bool \<Rightarrow> 'c rnet \<Rightarrow> bool" for N enable where
  init: "rf_reachable N enable (rn_init N enable)"
| step: "rf_reachable N enable s \<Longrightarrow> rf_step s t \<Longrightarrow> rf_reachable N enable t"

end
