(* ===== verification/Raft_Facts.thy ===== *)
theory Raft_Facts
  imports Raft_Cluster
begin

text \<open>
  What each section of a Raft peer does to its fields, for a log that starts at position
  0, and the facts on logs that the safety proof uses. The lemmas of this theory are the
  only place where the definitions of the sections are unfolded.
\<close>

section \<open>Logs\<close>

definition dummy :: "'c Log" where
  "dummy = \<lparr>lg_Term = 0, lg_Command = None\<rparr>"

text \<open>Two logs agree on their first n entries.\<close>

definition agree :: "nat \<Rightarrow> 'a list \<Rightarrow> 'a list \<Rightarrow> bool" where
  "agree n xs ys \<longleftrightarrow> n \<le> length xs \<and> n \<le> length ys \<and> take n xs = take n ys"

lemma agree_refl: "n \<le> length xs \<Longrightarrow> agree n xs xs"
  by (simp add: agree_def)

lemma agree_sym: "agree n xs ys \<Longrightarrow> agree n ys xs"
  by (simp add: agree_def)

lemma agree_trans: "agree n xs ys \<Longrightarrow> agree n ys zs \<Longrightarrow> agree n xs zs"
  by (simp add: agree_def)

lemma agree_less: "agree n xs ys \<Longrightarrow> m \<le> n \<Longrightarrow> agree m xs ys"
  unfolding agree_def by (metis min.absorb1 order_trans take_take)

lemma agree_nth: "agree n xs ys \<Longrightarrow> i < n \<Longrightarrow> xs ! i = ys ! i"
  by (metis agree_def nth_take)

lemma agreeI:
  "n \<le> length xs \<Longrightarrow> n \<le> length ys \<Longrightarrow> (\<And>i. i < n \<Longrightarrow> xs ! i = ys ! i) \<Longrightarrow> agree n xs ys"
  by (auto simp: agree_def intro: nth_take_lemma)

lemma agree_append: "agree n xs ys \<Longrightarrow> agree n xs (ys @ zs)"
  by (simp add: agree_def)

lemma agree_take: "n \<le> k \<Longrightarrow> k \<le> length xs \<Longrightarrow> agree n (take k xs) xs"
  by (auto simp: agree_def min_def)

definition terms :: "'c Log list \<Rightarrow> int list" where
  "terms logs = map lg_Term logs"

abbreviation tm :: "'c Log list \<Rightarrow> nat \<Rightarrow> int" where
  "tm logs i \<equiv> lg_Term (logs ! i)"

section \<open>Persisting changes no other field\<close>

lemma rf_persistL_sel [simp]:
  "rf_peers (rf_persistL f rf) = rf_peers rf" "rf_me (rf_persistL f rf) = rf_me rf"
  "rf_currentTerm (rf_persistL f rf) = rf_currentTerm rf"
  "rf_votedFor (rf_persistL f rf) = rf_votedFor rf"
  "rf_commitIndex (rf_persistL f rf) = rf_commitIndex rf"
  "rf_lastApplied (rf_persistL f rf) = rf_lastApplied rf"
  "rf_nextIndex (rf_persistL f rf) = rf_nextIndex rf"
  "rf_matchIndex (rf_persistL f rf) = rf_matchIndex rf"
  "rf_state (rf_persistL f rf) = rf_state rf" "rf_logs (rf_persistL f rf) = rf_logs rf"
  "rf_snapshotApplying (rf_persistL f rf) = rf_snapshotApplying rf"
  "rf_newOp (rf_persistL f rf) = rf_newOp rf" "rf_startIndex (rf_persistL f rf) = rf_startIndex rf"
  by (simp_all add: rf_persistL_def Let_def)

text \<open>
  The fields that sections about terms and indices leave alone, and the ones that only
  the leader's bookkeeping touches.
\<close>

definition same_log :: "'c Raft \<Rightarrow> 'c Raft \<Rightarrow> bool" where
  "same_log rf rf' \<longleftrightarrow> rf_peers rf' = rf_peers rf \<and> rf_me rf' = rf_me rf \<and>
     rf_commitIndex rf' = rf_commitIndex rf \<and> rf_lastApplied rf' = rf_lastApplied rf \<and>
     rf_logs rf' = rf_logs rf \<and> rf_snapshotApplying rf' = rf_snapshotApplying rf \<and>
     rf_startIndex rf' = rf_startIndex rf"

definition same_index :: "'c Raft \<Rightarrow> 'c Raft \<Rightarrow> bool" where
  "same_index rf rf' \<longleftrightarrow> rf_nextIndex rf' = rf_nextIndex rf \<and>
     rf_matchIndex rf' = rf_matchIndex rf \<and> rf_newOp rf' = rf_newOp rf"

definition same_term :: "'c Raft \<Rightarrow> 'c Raft \<Rightarrow> bool" where
  "same_term rf rf' \<longleftrightarrow> rf_currentTerm rf' = rf_currentTerm rf \<and>
     rf_votedFor rf' = rf_votedFor rf \<and> rf_state rf' = rf_state rf"

text \<open>A section that moves to a later term forgets its vote and becomes a follower.\<close>

definition new_term :: "'c Raft \<Rightarrow> 'c Raft \<Rightarrow> bool" where
  "new_term rf rf' \<longleftrightarrow> rf_currentTerm rf < rf_currentTerm rf' \<and> rf_votedFor rf' = - 1 \<and>
     rf_state rf' = Follower"

lemmas same_defs = same_log_def same_index_def same_term_def new_term_def

section \<open>Elections\<close>

lemma tick_effect:
  "rf_tick rf = (rf', ts) \<Longrightarrow> same_log rf rf' \<and> same_index rf rf' \<and> same_term rf rf' \<and>
     set ts \<subseteq> {GoStartElection}"
  by (auto simp: rf_tick_def same_defs split: if_splits)

lemma nat_pred [simp]: "nat (int n - 1) = n - 1"
  by linarith

lemma getLastLogL_Some:
  "rf_startIndex rf = 0 \<Longrightarrow> getLastLogL rf = Some (t, i) \<Longrightarrow>
   rf_logs rf \<noteq> [] \<and> t = lg_Term (last (rf_logs rf)) \<and> i = int (length (rf_logs rf)) - 1"
  by (auto simp: getLastLogL_def Let_def go_index_def last_conv_nth nat_diff_distrib split: if_splits)

lemma campaign_effect:
  assumes "election_begin rf = Some (Some (rf', args))" and "rf_startIndex rf = 0"
  shows "same_log rf rf' \<and> same_index rf rf' \<and> rf_currentTerm rf' = rf_currentTerm rf + 1 \<and>
    rf_votedFor rf' = int (rf_me rf) \<and> rf_state rf' = Candidate \<and> rf_state rf \<noteq> Leader \<and>
    rv_Term args = rf_currentTerm rf + 1 \<and> rv_CandidateId args = int (rf_me rf) \<and>
    rf_logs rf \<noteq> [] \<and> rv_LastLogTerm args = lg_Term (last (rf_logs rf)) \<and>
    rv_LastLogIndex args = int (length (rf_logs rf)) - 1"
  using assms
  by (auto simp: election_begin_def same_defs Let_def split: if_splits bind_splits
      dest!: getLastLogL_Some [rotated])

text \<open>The comparison that RequestVote makes: the candidate's log is at least as up to date.\<close>

definition uptodate :: "RequestVoteArgs \<Rightarrow> 'c Log list \<Rightarrow> bool" where
  "uptodate args logs \<longleftrightarrow> lg_Term (last logs) < rv_LastLogTerm args \<or>
     rv_LastLogTerm args = lg_Term (last logs) \<and> int (length logs) - 1 \<le> rv_LastLogIndex args"

lemma vote_effect:
  assumes "RequestVote args rf = Some (rf', reply)" and "rf_startIndex rf = 0"
  shows "same_log rf rf' \<and> same_index rf rf' \<and>
    (if rr_Granted reply then
       rf_currentTerm rf' = rv_Term args \<and> rf_votedFor rf' = rv_CandidateId args \<and>
       uptodate args (rf_logs rf) \<and>
       (rf_currentTerm rf < rv_Term args \<and> rf_state rf' = Follower \<or>
        rf_currentTerm rf = rv_Term args \<and> rf_state rf' = rf_state rf \<and>
        rf_votedFor rf \<in> {- 1, rv_CandidateId args})
     else same_term rf rf' \<or> new_term rf rf')"
proof -
  consider (old) "rf' = rf" "\<not> rr_Granted reply"
    | (fresh) "rf_currentTerm rf < rv_Term args \<or>
        rf_currentTerm rf = rv_Term args \<and> rf_votedFor rf \<in> {- 1, rv_CandidateId args}"
    using assms(1) by (fastforce simp: RequestVote_def split: if_splits)
  then show ?thesis
  proof cases
    case old
    then show ?thesis by (simp add: same_defs)
  next
    case fresh
    define rf1 where "rf1 = (if rf_currentTerm rf < rv_Term args
      then rf\<lparr>rf_currentTerm := rv_Term args, rf_votedFor := - 1, rf_state := Follower\<rparr> else rf)"
    obtain lt li where last: "getLastLogL rf1 = Some (lt, li)"
      and res: "(if rv_LastLogTerm args < lt \<or> rv_LastLogTerm args = lt \<and> rv_LastLogIndex args < li
        then (rf1, \<lparr>rr_Term = rf_currentTerm rf1, rr_Granted = False\<rparr>)
        else (rf_persistL False (rf1\<lparr>rf_votedFor := rv_CandidateId args, rf_missedHeartbeat := 0\<rparr>),
              \<lparr>rr_Term = rf_currentTerm rf1, rr_Granted = True\<rparr>)) = (rf', reply)"
      using assms(1) fresh unfolding RequestVote_def rf1_def [symmetric]
      by (auto simp: Let_def split: bind_splits if_splits)
    have "rf_startIndex rf1 = 0" "rf_logs rf1 = rf_logs rf" using assms(2) by (simp_all add: rf1_def)
    with getLastLogL_Some [OF _ last] have "lt = lg_Term (last (rf_logs rf))"
      "li = int (length (rf_logs rf)) - 1" by simp_all
    with res fresh show ?thesis
      by (auto simp: rf1_def same_defs uptodate_def split: if_splits)
  qed
qed


lemma reset_peers_Some:
  assumes "reset_peers l is rf = Some rf'"
  shows "same_log rf rf' \<and> same_term rf rf' \<and> rf_newOp rf' = rf_newOp rf \<and>
    length (rf_nextIndex rf') = length (rf_nextIndex rf) \<and>
    length (rf_matchIndex rf') = length (rf_matchIndex rf) \<and>
    (\<forall>i < length (rf_matchIndex rf). rf_matchIndex rf' ! i =
       (if i \<in> set is then 1 else rf_matchIndex rf ! i)) \<and>
    (\<forall>i < length (rf_nextIndex rf). rf_nextIndex rf' ! i =
       (if i \<in> set is then l + 1 else rf_nextIndex rf ! i))"
  using assms
proof (induction l "is" rf rule: reset_peers.induct)
  case (2 l i "is" rf)
  from "2.prems" obtain ni mi where st: "go_store (rf_nextIndex rf) (int i) (l + 1) = Some ni"
    "go_store (rf_matchIndex rf) (int i) 1 = Some mi"
    and rec: "reset_peers l is (rf\<lparr>rf_nextIndex := ni, rf_matchIndex := mi\<rparr>) = Some rf'"
    by (auto split: bind_splits)
  show ?case
    using "2.IH" [OF st rec] st by (auto simp: same_defs go_store_Some nth_list_update)
qed (auto simp: same_defs)

lemma election_loop_Elected:
  "election_loop n votes rs = Elected \<Longrightarrow>
   n < (votes + int (length (filter (\<lambda>r. r = ElSuccess) rs))) * 2"
  by (induction n votes rs rule: election_loop.induct) (auto simp: algebra_simps split: if_splits)

text \<open>
  The end of an election: nothing but the term changes, or the candidate has a majority
  of successful results and becomes the leader.
\<close>

lemma elect_effect:
  assumes "election_finish args results rf = Some (rf', ts)"
  shows "same_log rf rf' \<and> same_index rf rf' \<and> (same_term rf rf' \<or> new_term rf rf') \<and> ts = [] \<or>
    same_log rf rf' \<and> rf_currentTerm rf' = rf_currentTerm rf \<and> rf_votedFor rf' = rf_votedFor rf \<and>
    rf_state rf = Candidate \<and> rf_state rf' = Leader \<and> rv_Term args = rf_currentTerm rf \<and>
    rf_newOp rf' = 0 \<and> length (rf_nextIndex rf') = length (rf_nextIndex rf) \<and>
    length (rf_matchIndex rf') = length (rf_matchIndex rf) \<and>
    (\<forall>i < length (rf_matchIndex rf). i < rf_peers rf \<longrightarrow> rf_matchIndex rf' ! i = 1) \<and>
    ts = [GoHeartbeat (rf_currentTerm rf)] \<and> results \<noteq> [] \<and>
    int (rf_peers rf) < (1 + int (length (filter (\<lambda>r. r = ElSuccess) results))) * 2"
proof (cases "election_loop (int (rf_peers rf)) 1 results")
  case Elected
  show ?thesis
  proof (cases "rf_currentTerm rf = rv_Term args \<and> rf_state rf = Candidate")
    case True
    with assms Elected obtain rf1 where
      r: "reset_peers (rv_LastLogIndex args) [0..<rf_peers rf] (rf\<lparr>rf_state := Leader\<rparr>) = Some rf1"
      and eq: "rf' = rf1\<lparr>rf_newOp := 0\<rparr>" "ts = [GoHeartbeat (rf_currentTerm rf1)]"
      by (auto simp: election_finish_def election_win_def split: bind_splits)
    have "results \<noteq> []" using Elected by auto
    then show ?thesis
      using reset_peers_Some [OF r] True eq election_loop_Elected [OF Elected]
      by (auto simp: same_defs)
  next
    case False
    with assms Elected have "rf' = rf" "ts = []"
      by (auto simp: election_finish_def election_win_def)
    then show ?thesis by (intro disjI1) (simp add: same_defs)
  qed
next
  case NotElected
  with assms show ?thesis by (intro disjI1) (simp add: election_finish_def same_defs)
next
  case (StepDown res)
  with assms have "rf' = stepdown res rf" "ts = []" by (simp_all add: election_finish_def)
  then show ?thesis by (intro disjI1) (simp add: stepdown_def same_defs)
qed

section \<open>Replication\<close>

lemma set_other_peers: "set (other_peers rf) = {i. i < rf_peers rf \<and> i \<noteq> rf_me rf}"
  by (auto simp: other_peers_def)

lemma start_effect:
  assumes "rf_Start now cmd rf = (rf', idx, t, True, ts)" and "rf_startIndex rf = 0"
  shows "rf_state rf = Leader \<and> t = rf_currentTerm rf \<and> same_term rf rf' \<and>
    rf_logs rf' = rf_logs rf @ [\<lparr>lg_Term = t, lg_Command = cmd\<rparr>] \<and> rf_peers rf' = rf_peers rf \<and>
    rf_me rf' = rf_me rf \<and> rf_commitIndex rf' = rf_commitIndex rf \<and>
    rf_lastApplied rf' = rf_lastApplied rf \<and> rf_startIndex rf' = 0 \<and>
    rf_snapshotApplying rf' = rf_snapshotApplying rf \<and> rf_nextIndex rf' = rf_nextIndex rf \<and>
    rf_matchIndex rf' = rf_matchIndex rf \<and> idx = int (length (rf_logs rf)) \<and>
    rf_newOp rf' = (if rf_newOp rf = 0 then idx else rf_newOp rf) \<and>
    set ts = (if rf_newOp rf = 0 then {GoCommitter t} else {}) \<union>
      (\<lambda>p. GoSendLog p t) ` {p. p < rf_peers rf \<and> p \<noteq> rf_me rf}"
  using assms
  by (auto simp: rf_Start_def same_defs Let_def set_other_peers split: if_splits)

lemma heartbeat_effect:
  "heartbeat_round now t rf = Some (rf', ts) \<Longrightarrow> same_log rf rf' \<and> same_index rf rf' \<and>
   same_term rf rf' \<and> rf_currentTerm rf = t \<and>
   set ts \<subseteq> (\<lambda>p. GoSendLog p t) ` {p. p < rf_peers rf \<and> p \<noteq> rf_me rf}"
  by (auto simp: heartbeat_round_def same_defs set_other_peers split: if_splits)

text \<open>A request of the sender: an interval of its log, or the empty snapshot at position 0.\<close>

definition built :: "'c Raft \<Rightarrow> nat \<Rightarrow> int \<Rightarrow> 'c send_action \<Rightarrow> bool" where
  "built rf p t act = (case act of
     SendSnapshot ts \<Rightarrow> \<exists>args. ts = GoSendSnapshot p t 1 args \<and> is_Term args = rf_currentTerm rf \<and>
       is_LastIndex args = 0
   | SendEntries args n \<Rightarrow> 1 \<le> n \<and> nat n \<le> length (rf_logs rf) \<and> ae_Term args = rf_currentTerm rf \<and>
       ae_PrevLogIndex args = n - 1 \<and> ae_PrevLogTerm args = tm (rf_logs rf) (nat n - 1) \<and>
       ae_Entries args = drop (nat n) (rf_logs rf) \<and> ae_LeaderCommit args = rf_commitIndex rf)"

lemma build_effect:
  assumes "sendLog_build p t rf = Some (rf', act)" and "rf_startIndex rf = 0"
  shows "same_log rf rf' \<and> same_term rf rf' \<and> rf_matchIndex rf' = rf_matchIndex rf \<and>
    rf_newOp rf' = rf_newOp rf \<and> length (rf_nextIndex rf') = length (rf_nextIndex rf) \<and>
    built rf p t act"
  using assms
  by (auto simp: sendLog_build_def same_defs built_def go_slices nat_diff_distrib
      split: bind_splits if_splits)

lemma send_effect:
  assumes "sendLog_begin p t rf = Some (Some (rf', act))" and "rf_startIndex rf = 0"
  shows "same_log rf rf' \<and> same_term rf rf' \<and> rf_matchIndex rf' = rf_matchIndex rf \<and>
    rf_newOp rf' = rf_newOp rf \<and> length (rf_nextIndex rf') = length (rf_nextIndex rf) \<and>
    built rf p t act \<and> rf_currentTerm rf = t"
  using assms build_effect [of p t rf rf' act]
  by (auto simp: sendLog_begin_def split: if_splits bind_splits)

lemma reply_effect:
  assumes "sendLog_reply p t args n reply rf = Some (rf', again)"
  shows "same_log rf rf' \<and> rf_newOp rf' = rf_newOp rf \<and>
    length (rf_nextIndex rf') = length (rf_nextIndex rf) \<and>
    length (rf_matchIndex rf') = length (rf_matchIndex rf) \<and>
    (same_term rf rf' \<and> rf_matchIndex rf' = rf_matchIndex rf \<or>
     same_term rf rf' \<and> rf_currentTerm rf = t \<and> ar_Success reply \<and> rf_matchIndex rf' =
       (rf_matchIndex rf)[p := n + int (length (ae_Entries args))] \<or>
     \<not> again \<and> rf_currentTerm rf = t \<and> ar_Term reply > ae_Term args \<and> rf_matchIndex rf' = rf_matchIndex rf \<and>
     rf_currentTerm rf' = ar_Term reply \<and> rf_votedFor rf' = - 1 \<and> rf_state rf' = Follower) \<and>
    (again \<longrightarrow> rf_currentTerm rf = t \<and> same_term rf rf')"
  using assms
  by (auto simp: sendLog_reply_def same_defs Let_def go_slices split: bind_splits if_splits)


text \<open>
  The merge loop against the leader's log G, of which the entries are the interval from n:
  the result agrees with G through the interval, loses nothing on which it agreed before,
  and is the old log or the leader's log up to the end of the interval.
\<close>

lemma merge_spec:
  assumes "agree n L G" and "n + k \<le> length G" and "E = take k (drop n G)"
    and "\<And>i. n \<le> i \<Longrightarrow> i < n + k \<Longrightarrow> i < length L \<Longrightarrow> tm L i = tm G i \<Longrightarrow> agree (Suc i) L G"
    and "L' = fst (ae_merge L n E)"
  shows "agree (n + k) L' G \<and> (\<forall>c. agree c L G \<longrightarrow> agree c L' G) \<and> (L' = L \<or> L' = take (n + k) G)"
  using assms
proof (induction E arbitrary: n k)
  case Nil
  then have "k = 0" by auto
  with Nil show ?case by simp
next
  case (Cons e es)
  from Cons.prems(2,3) obtain k' where k: "k = Suc k'" "n < length G"
    by (cases k) auto
  then have e: "e = G ! n" "es = take k' (drop (Suc n) G)"
    using Cons.prems(3) by (auto simp: Cons_nth_drop_Suc [symmetric])
  show ?case
  proof (cases "n \<ge> length L \<or> tm L n \<noteq> lg_Term e")
    case True
    have "L' = take n L @ e # es" using Cons.prems(5) True by auto
    then have L': "L' = take (n + k) G"
      using Cons.prems(1) unfolding Cons.prems(3) by (simp add: agree_def take_add)
    have "agree c L' G" if "agree c L G" for c
    proof -
      have "c \<le> n"
      proof (rule ccontr)
        assume "\<not> c \<le> n"
        then have "n < c" by simp
        then show False using True that agree_nth [OF that] e(1) by (auto simp: agree_def)
      qed
      then show ?thesis using that Cons.prems(2) unfolding L' by (auto simp: agree_def min_def)
    qed
    then show ?thesis using L' Cons.prems(2) by (simp add: agree_def)
  next
    case False
    then have "agree (Suc n) L G" using Cons.prems(4) [of n] k e(1) by auto
    moreover have "L' = fst (ae_merge L (Suc n) es)" using Cons.prems(5) False by simp
    ultimately show ?thesis
      using Cons.IH [of "Suc n" k'] Cons.prems(2,4) k e(2) by simp
  qed
qed

lemma ae_append_effect:
  assumes "ae_append pt (int n - 1) E lc rf = Some (rf', reply)" and "rf_startIndex rf = 0" and "1 \<le> n"
  shows "rf' = rf \<and> \<not> ar_Success reply \<or>
    ar_Success reply \<and> n \<le> length (rf_logs rf) \<and> tm (rf_logs rf) (n - 1) = pt \<and>
    rf_logs rf' = fst (ae_merge (rf_logs rf) n E) \<and> rf_commitIndex rf' = max (rf_commitIndex rf) lc \<and>
    rf_peers rf' = rf_peers rf \<and> rf_me rf' = rf_me rf \<and> rf_lastApplied rf' = rf_lastApplied rf \<and>
    rf_startIndex rf' = 0 \<and> rf_snapshotApplying rf' = rf_snapshotApplying rf \<and>
    same_index rf rf' \<and> same_term rf rf'"
proof (cases "int n - 1 \<ge> int (length (rf_logs rf))")
  case True
  with assms show ?thesis by (auto simp: ae_append_def ae_reject_def split: bind_splits)
next
  case False
  obtain L md where mg: "ae_merge (rf_logs rf) n E = (L, md)" by fastforce
  define rf2 where "rf2 = (if md then rf_persistL False (rf\<lparr>rf_logs := L\<rparr>) else rf\<lparr>rf_logs := L\<rparr>)"
  have rf2: "rf_logs rf2 = L" "rf_commitIndex rf2 = rf_commitIndex rf" "rf_peers rf2 = rf_peers rf"
    "rf_me rf2 = rf_me rf" "rf_lastApplied rf2 = rf_lastApplied rf" "rf_startIndex rf2 = 0"
    "rf_snapshotApplying rf2 = rf_snapshotApplying rf" "same_index rf rf2" "same_term rf rf2"
    using assms(2) by (simp_all add: rf2_def same_defs)
  have prev: "go_index (rf_logs rf) (int n - 1) = Some (rf_logs rf ! (n - 1))"
    using False assms(3) by (simp add: go_index_def)
  show ?thesis
  proof (cases "tm (rf_logs rf) (n - 1) = pt")
    case True
    have "rf' = (if lc > rf_commitIndex rf2 then rf2\<lparr>rf_commitIndex := lc\<rparr> else rf2) \<and> ar_Success reply"
      using assms(1,2) False True prev mg
      by (auto simp: ae_append_def ae_accept_def Let_def rf2_def)
    with True False rf2 mg show ?thesis by (auto simp: same_defs max_def)
  next
    case False
    with assms(1,2) prev show ?thesis
      by (auto simp: ae_append_def ae_reject_def split: if_splits bind_splits)
  qed
qed

lemma append_effect:
  assumes "AppendEntries args rf = Some (rf', reply)" and "rf_startIndex rf = 0"
    and "ae_PrevLogIndex args = int n - 1" and "1 \<le> n"
  shows "rf_peers rf' = rf_peers rf \<and> rf_me rf' = rf_me rf \<and> rf_lastApplied rf' = rf_lastApplied rf \<and>
    rf_startIndex rf' = 0 \<and> rf_snapshotApplying rf' = rf_snapshotApplying rf \<and> same_index rf rf' \<and>
    (rf' = rf \<and> \<not> ar_Success reply \<and> ae_Term args < rf_currentTerm rf \<or>
     rf_currentTerm rf \<le> ae_Term args \<and> rf_currentTerm rf' = ae_Term args \<and> rf_state rf' = Follower \<and>
     rf_votedFor rf' = (if rf_currentTerm rf = ae_Term args then rf_votedFor rf else - 1) \<and>
     (\<not> ar_Success reply \<and> rf_logs rf' = rf_logs rf \<and> rf_commitIndex rf' = rf_commitIndex rf \<or>
      ar_Success reply \<and> n \<le> length (rf_logs rf) \<and> tm (rf_logs rf) (n - 1) = ae_PrevLogTerm args \<and>
      rf_logs rf' = fst (ae_merge (rf_logs rf) n (ae_Entries args)) \<and>
      rf_commitIndex rf' = max (rf_commitIndex rf) (ae_LeaderCommit args)))"
proof (cases "ae_Term args < rf_currentTerm rf")
  case True
  with assms show ?thesis by (auto simp: AppendEntries_def same_defs)
next
  case False
  define rf2 where "rf2 = (if ae_Term args > rf_currentTerm rf
      then rf\<lparr>rf_currentTerm := ae_Term args, rf_votedFor := - 1\<rparr> else rf)
    \<lparr>rf_state := Follower, rf_missedHeartbeat := 0\<rparr>"
  have rf2: "rf_logs rf2 = rf_logs rf" "rf_commitIndex rf2 = rf_commitIndex rf"
    "rf_startIndex rf2 = 0" "rf_peers rf2 = rf_peers rf" "rf_me rf2 = rf_me rf"
    "rf_lastApplied rf2 = rf_lastApplied rf" "rf_snapshotApplying rf2 = rf_snapshotApplying rf"
    "same_index rf rf2" "rf_currentTerm rf2 = ae_Term args" "rf_state rf2 = Follower"
    "rf_votedFor rf2 = (if rf_currentTerm rf = ae_Term args then rf_votedFor rf else - 1)"
    using False assms(2) by (auto simp: rf2_def same_defs)
  have "ae_append (ae_PrevLogTerm args) (int n - 1) (ae_Entries args) (ae_LeaderCommit args) rf2 =
      Some (rf', reply)"
    using assms(1,3,4) False rf2(3) unfolding AppendEntries_def Let_def rf2_def [symmetric] by simp
  from ae_append_effect [OF this rf2(3) assms(4)] rf2 False show ?thesis by (auto simp: same_defs)
qed

lemma install_effect:
  assumes "InstallSnapshot args rf = Some (rf', reply, ts)" and "rf_startIndex rf = 0"
    and "is_LastIndex args = 0" and "1 \<le> rf_lastApplied rf"
  shows "same_log rf rf' \<and> same_index rf rf' \<and> ts = [] \<and>
    (rf_currentTerm rf > is_Term args \<and> same_term rf rf' \<or>
     rf_currentTerm rf \<le> is_Term args \<and> rf_currentTerm rf' = is_Term args \<and> rf_state rf' = Follower \<and>
     rf_votedFor rf' = (if rf_currentTerm rf = is_Term args then rf_votedFor rf else - 1))"
  using assms by (auto simp: InstallSnapshot_def same_defs Let_def split: if_splits)

lemma install_reply_effect:
  assumes "sendSnapshot_reply p t m reply rf = Some (rf', ts)"
  shows "same_log rf rf' \<and> rf_nextIndex rf' = rf_nextIndex rf \<and> rf_newOp rf' = rf_newOp rf \<and>
    length (rf_matchIndex rf') = length (rf_matchIndex rf) \<and>
    (same_term rf rf' \<and> rf_matchIndex rf' = rf_matchIndex rf \<and> ts = [] \<or>
     rf_currentTerm rf = t \<and> new_term rf rf' \<and> rf_matchIndex rf' = rf_matchIndex rf \<and> ts = [] \<or>
     rf_currentTerm rf = t \<and> same_term rf rf' \<and> ts = [GoSendLog p t] \<and>
     rf_matchIndex rf' \<in> {rf_matchIndex rf, (rf_matchIndex rf)[p := m]})"
  using assms
  by (auto simp: sendSnapshot_reply_def same_defs split: bind_splits if_splits)


section \<open>Committing and applying\<close>

text \<open>testIndexL tells whether the peers that have the entry, with this one, are a majority.\<close>

definition matched :: "'c Raft \<Rightarrow> int \<Rightarrow> nat set" where
  "matched rf i = {p. p < rf_peers rf \<and> p \<noteq> rf_me rf \<and> rf_matchIndex rf ! p > i}"

lemma testIndexL_loop_eq:
  assumes "\<forall>i \<in> set is. i < length (rf_matchIndex rf)" and "m * 2 \<le> int (rf_peers rf)"
  shows "testIndexL_loop rf index m is = Some (int (rf_peers rf) <
    (m + int (length (filter (\<lambda>i. rf_matchIndex rf ! i > index \<and> i \<noteq> rf_me rf) is))) * 2)"
  using assms
proof (induction "is" arbitrary: m)
  case (Cons i "is")
  show ?case
  proof (cases "rf_matchIndex rf ! i > index \<and> i \<noteq> rf_me rf")
    case True
    show ?thesis
    proof (cases "(m + 1) * 2 > int (rf_peers rf)")
      case False
      with True Cons show ?thesis by (simp add: add.assoc)
    qed (use True Cons.prems in \<open>simp add: algebra_simps\<close>)
  qed (use Cons in auto)
qed simp

lemma testIndexL_eq:
  assumes "length (rf_matchIndex rf) = rf_peers rf" and "2 \<le> rf_peers rf"
  shows "testIndexL i rf = Some (rf_peers rf < (1 + card (matched rf i)) * 2)"
proof -
  let ?P = "\<lambda>p. rf_matchIndex rf ! p > i \<and> p \<noteq> rf_me rf"
  have "length (filter ?P [0..<rf_peers rf]) = card (set (filter ?P [0..<rf_peers rf]))"
    by (intro distinct_card [symmetric]) simp
  moreover have "set (filter ?P [0..<rf_peers rf]) = matched rf i"
    by (auto simp: matched_def)
  ultimately show ?thesis
    using assms testIndexL_loop_eq [of "[0..<rf_peers rf]" rf 1 i]
    by (simp add: testIndexL_def) linarith
qed

lemma matched_antimono: "i \<le> j \<Longrightarrow> matched rf j \<subseteq> matched rf i"
  by (auto simp: matched_def)

definition quorum_has :: "'c Raft \<Rightarrow> int \<Rightarrow> bool" where
  "quorum_has rf i \<longleftrightarrow> rf_peers rf < (1 + card (matched rf i)) * 2"

lemma quorum_has_antimono: "i \<le> j \<Longrightarrow> quorum_has rf j \<Longrightarrow> quorum_has rf i"
proof -
  assume "i \<le> j" "quorum_has rf j"
  moreover have "finite (matched rf i)" by (simp add: matched_def)
  ultimately have "card (matched rf j) \<le> card (matched rf i)"
    by (intro card_mono matched_antimono)
  with \<open>quorum_has rf j\<close> show ?thesis by (auto simp: quorum_has_def)
qed

text \<open>The binary search finds the least position that a majority does not have.\<close>

lemma commit_search_eq:
  assumes "length (rf_matchIndex rf) = rf_peers rf" and "2 \<le> rf_peers rf" and "l \<le> r"
    and "quorum_has rf (l - 1)"
  shows "\<exists>c. commit_search rf l r = Some c \<and> l \<le> c \<and> c \<le> r \<and> quorum_has rf (c - 1) \<and>
    (c < r \<longrightarrow> \<not> quorum_has rf c)"
  using assms(3,4)
proof (induction "nat (r - l)" arbitrary: l r rule: less_induct)
  case less
  show ?case
  proof (cases "r > l")
    case True
    let ?m = "(l + r) div 2"
    have m: "l \<le> ?m" "?m < r" using True by auto
    have test: "testIndexL ?m rf = Some (quorum_has rf ?m)"
      using testIndexL_eq [OF assms(1,2)] by (simp add: quorum_has_def)
    show ?thesis
    proof (cases "quorum_has rf ?m")
      case True
      then have "commit_search rf l r = commit_search rf (?m + 1) r"
        using m test by (subst commit_search.simps) (simp add: Let_def)
      moreover have "nat (r - (?m + 1)) < nat (r - l)" using m by linarith
      ultimately show ?thesis using less.hyps [of r "?m + 1"] True m by fastforce
    next
      case False
      then have "commit_search rf l r = commit_search rf l ?m"
        using m test by (subst commit_search.simps) (simp add: Let_def)
      moreover have "nat (?m - l) < nat (r - l)" using m by linarith
      ultimately show ?thesis using less.hyps [of ?m l] False m less.prems(2) by fastforce
    qed
  next
    case False
    then show ?thesis using less.prems by (subst commit_search.simps) simp
  qed
qed

text \<open>
  One round of the committer. The commit index moves only up to a position that a
  majority has: the first time to the first entry of the term, then as far as possible.
\<close>

lemma commit_effect:
  assumes "committer_round t b rf = Some (Some (rf', b', w))"
    and "length (rf_matchIndex rf) = rf_peers rf" and "2 \<le> rf_peers rf" and "rf_startIndex rf = 0"
    and "rf_commitIndex rf \<le> int (length (rf_logs rf))"
    and "\<forall>p < rf_peers rf. p \<noteq> rf_me rf \<longrightarrow> rf_matchIndex rf ! p \<le> int (length (rf_logs rf))"
  shows "rf_currentTerm rf = t \<and> rf' = rf\<lparr>rf_commitIndex := rf_commitIndex rf'\<rparr> \<and>
    (b' = b \<and> rf_commitIndex rf' = rf_commitIndex rf \<or>
     b \<and> b' \<and> rf_commitIndex rf < rf_commitIndex rf' \<and> quorum_has rf (rf_commitIndex rf' - 1) \<and>
       rf_commitIndex rf' \<le> int (length (rf_logs rf)) \<or>
     \<not> b \<and> b' \<and> rf_commitIndex rf' = rf_newOp rf + 1 \<and> quorum_has rf (rf_newOp rf))"
proof -
  have t: "rf_currentTerm rf = t" using assms(1) by (auto simp: committer_round_def split: if_splits)
  note test = testIndexL_eq [OF assms(2,3), folded quorum_has_def]
  show ?thesis
  proof (cases "b \<and> quorum_has rf (rf_commitIndex rf)")
    case True
    then have "matched rf (rf_commitIndex rf) \<noteq> {}" using assms(3) by (auto simp: quorum_has_def)
    then have "rf_commitIndex rf < int (length (rf_logs rf))"
      using assms(6) by (force simp: matched_def)
    then obtain c where "commit_search rf (rf_commitIndex rf + 1) (int (length (rf_logs rf))) = Some c"
      "rf_commitIndex rf + 1 \<le> c" "c \<le> int (length (rf_logs rf))" "quorum_has rf (c - 1)"
      using commit_search_eq [OF assms(2,3), of "rf_commitIndex rf + 1" "int (length (rf_logs rf))"] True
      by auto
    with assms(1,4) t True test show ?thesis by (auto simp: committer_round_def)
  next
    case False
    with assms(1) t test show ?thesis by (auto simp: committer_round_def split: if_splits)
  qed
qed

definition command_msg :: "'c Log list \<Rightarrow> nat \<Rightarrow> 'c ApplyMsg" where
  "command_msg logs i = \<lparr>am_CommandValid = True, am_Command = lg_Command (logs ! i),
     am_CommandIndex = int i, am_SnapshotValid = False, am_Snapshot = [], am_SnapshotTerm = 0,
     am_SnapshotIndex = 0\<rparr>"

text \<open>The applier never panics on entries within the log, and delivers them in order.\<close>

lemma applier_batch_eq:
  assumes "rf_startIndex rf = 0" and "rf_commitIndex rf = int c" and "c \<le> length (rf_logs rf)"
  shows "k \<le> c \<Longrightarrow> applier_batch rf (int k) = Some (map (command_msg (rf_logs rf)) [k..<c])"
proof (induction "c - k" arbitrary: k)
  case 0
  then show ?case using assms by (subst applier_batch.simps) simp
next
  case (Suc d)
  then have k: "k < c" by simp
  have "applier_batch rf (int (Suc k)) = Some (map (command_msg (rf_logs rf)) [Suc k..<c])"
    using Suc by (intro Suc.hyps) auto
  then show ?case
    using k assms by (subst applier_batch.simps)
      (simp add: go_index_def command_msg_def upt_conv_Cons add.commute del: upt_Suc)
qed

lemma applier_effect:
  assumes "rf_startIndex rf = 0" and "\<not> rf_snapshotApplying rf" and "rf_commitIndex rf = int c"
    and "rf_lastApplied rf = int k" and "k \<le> c" and "c \<le> length (rf_logs rf)"
  shows "applier_round rf = Some (if k < c
    then (rf\<lparr>rf_lastApplied := int c\<rparr>, ApplyMsgs (map (command_msg (rf_logs rf)) [k..<c]))
    else (rf, ApplyWait))"
  using assms applier_batch_eq [OF assms(1,3,6,5)] by (simp add: applier_round_def)

section \<open>Starting and restarting\<close>

lemma make_effect:
  "rf_Make N q (rp_MakePersister enable) =
     \<lparr>rf_peers = N, rf_persister = rp_MakePersister enable, rf_me = q, rf_dead = False,
      rf_currentTerm = 0, rf_votedFor = - 1, rf_commitIndex = 1, rf_lastApplied = 1,
      rf_nextIndex = replicate N 0, rf_matchIndex = replicate N 0, rf_state = Follower,
      rf_logs = [dummy], rf_missedHeartbeat = 0, rf_lastMsg = 0, rf_snapshotApplying = False,
      rf_newOp = 0, rf_startIndex = 0, rf_snapshot = []\<rparr>"
  by (simp add: rf_Make_def rf_readPersist_def rp_ReadRaftState_def rp_MakePersister_def Let_def
      dummy_def)

lemma restart_effect:
  assumes "rf_startIndex rf = 0" and "rf' = rf_Make N q (rf_persister (rf_Persist rf))"
  shows "rf_peers rf' = N \<and> rf_me rf' = q \<and> rf_currentTerm rf' = rf_currentTerm rf \<and>
    rf_votedFor rf' = rf_votedFor rf \<and> rf_commitIndex rf' = 1 \<and> rf_lastApplied rf' = 1 \<and>
    rf_nextIndex rf' = replicate N 0 \<and> rf_matchIndex rf' = replicate N 0 \<and>
    rf_state rf' = Follower \<and> rf_logs rf' = rf_logs rf \<and> \<not> rf_snapshotApplying rf' \<and>
    rf_newOp rf' = 0 \<and> rf_startIndex rf' = 0"
  using assms
  by (simp add: rf_Make_def rf_readPersist_def rp_ReadRaftState_def rf_Persist_def rf_persistL_def
      rp_Save_def Let_def)

end
