(* ===== verification/Raft_Invariant.thy ===== *)
theory Raft_Invariant
  imports Raft_Facts
begin

text \<open>
  The invariant of a group of Raft peers. rn_ll gives for every term the log of its
  leader; every log is, up to each of its entries, a prefix of the log of the leader of
  that entry's term, which is the log matching property. The rest says what
  acknowledgements and votes promise about later leaders, and what it means for a prefix
  to be committed.
\<close>

abbreviation cur :: "'c rnet \<Rightarrow> nat \<Rightarrow> int" where
  "cur s q \<equiv> rf_currentTerm (rn_rf s q)"

abbreviation lg :: "'c rnet \<Rightarrow> nat \<Rightarrow> 'c Log list" where
  "lg s q \<equiv> rf_logs (rn_rf s q)"

abbreviation st :: "'c rnet \<Rightarrow> nat \<Rightarrow> role" where
  "st s q \<equiv> rf_state (rn_rf s q)"

section \<open>Peers\<close>

definition peer_ok :: "nat \<Rightarrow> nat \<Rightarrow> 'c Raft \<Rightarrow> bool" where
  "peer_ok N q rf \<longleftrightarrow> rf_peers rf = N \<and> rf_me rf = q \<and> rf_startIndex rf = 0 \<and>
     \<not> rf_snapshotApplying rf \<and> length (rf_nextIndex rf) = N \<and> length (rf_matchIndex rf) = N \<and>
     0 \<le> rf_currentTerm rf \<and> 1 \<le> rf_lastApplied rf \<and> rf_lastApplied rf \<le> rf_commitIndex rf"

definition peer_inv :: "'c rnet \<Rightarrow> bool" where
  "peer_inv s \<longleftrightarrow> (\<forall>q < rn_size s. peer_ok (rn_size s) q (rn_rf s q))"

section \<open>Logs\<close>

definition log_ok :: "(int \<Rightarrow> 'c Log list option) \<Rightarrow> 'c Log list \<Rightarrow> bool" where
  "log_ok ll L \<longleftrightarrow> L \<noteq> [] \<and> L ! 0 = dummy \<and> sorted (map lg_Term L) \<and>
     (\<forall>i. 1 \<le> i \<and> i < length L \<longrightarrow>
        1 \<le> tm L i \<and> (\<exists>G. ll (tm L i) = Some G \<and> agree (Suc i) L G))"

definition log_inv :: "'c rnet \<Rightarrow> bool" where
  "log_inv s \<longleftrightarrow>
     (\<forall>q < rn_size s. log_ok (rn_ll s) (lg s q) \<and> (\<forall>i < length (lg s q). tm (lg s q) i \<le> cur s q)) \<and>
     (\<forall>T G. rn_ll s T = Some G \<longrightarrow> log_ok (rn_ll s) G \<and> (\<forall>i < length G. tm G i \<le> T))"

section \<open>Elections\<close>

definition cand_ok :: "'c rnet \<Rightarrow> RequestVoteArgs \<Rightarrow> nat \<Rightarrow> bool" where
  "cand_ok s args c \<longleftrightarrow> c < rn_size s \<and> rv_CandidateId args = int c \<and> (c, rv_Term args, c) \<in> rn_votes s \<and>
     log_ok (rn_ll s) (rn_cand s (rv_Term args, c)) \<and>
     rv_LastLogTerm args = lg_Term (last (rn_cand s (rv_Term args, c))) \<and>
     rv_LastLogIndex args = int (length (rn_cand s (rv_Term args, c))) - 1 \<and>
     (\<forall>i < length (rn_cand s (rv_Term args, c)). tm (rn_cand s (rv_Term args, c)) i < rv_Term args)"

definition vote_inv :: "'c rnet \<Rightarrow> bool" where
  "vote_inv s \<longleftrightarrow>
     (\<forall>r T c. (r, T, c) \<in> rn_votes s \<longrightarrow> r < rn_size s \<and> c < rn_size s \<and> 1 \<le> T \<and> T \<le> cur s r \<and>
        T \<le> cur s c \<and> (T = cur s r \<longrightarrow> rf_votedFor (rn_rf s r) = int c)) \<and>
     (\<forall>r T c c'. (r, T, c) \<in> rn_votes s \<longrightarrow> (r, T, c') \<in> rn_votes s \<longrightarrow> c = c') \<and>
     (\<forall>r args reply. (r, args, reply) \<in> rn_voteRep s \<longrightarrow> rr_Granted reply \<longrightarrow>
        (r, rv_Term args, nat (rv_CandidateId args)) \<in> rn_votes s) \<and>
     (\<forall>args \<in> rn_voteReq s. \<exists>c. cand_ok s args c)"

definition lead_inv :: "'c rnet \<Rightarrow> bool" where
  "lead_inv s \<longleftrightarrow>
     (\<forall>T G. rn_ll s T = Some G \<longrightarrow> 1 \<le> T \<and> 2 \<le> rn_size s \<and> rn_lead s T < rn_size s \<and>
        T \<le> cur s (rn_lead s T) \<and> majority (rn_size s) {r. (r, T, rn_lead s T) \<in> rn_votes s}) \<and>
     (\<forall>q < rn_size s. st s q = Leader \<longrightarrow>
        rn_ll s (cur s q) = Some (lg s q) \<and> rn_lead s (cur s q) = q) \<and>
     (\<forall>q < rn_size s. st s q = Candidate \<longrightarrow> rn_cand s (cur s q, q) = lg s q \<and>
        \<not> (rn_ll s (cur s q) \<noteq> None \<and> rn_lead s (cur s q) = q))"

section \<open>Goroutines and messages\<close>

text \<open>A goroutine that peer q started as the leader of term T still finds it leading.\<close>

definition active :: "'c rnet \<Rightarrow> nat \<Rightarrow> int \<Rightarrow> bool" where
  "active s q T \<longleftrightarrow> q < rn_size s \<and> rn_ll s T \<noteq> None \<and> rn_lead s T = q \<and>
     (cur s q = T \<longrightarrow> st s q = Leader)"

fun task_ok :: "'c rnet \<Rightarrow> nat \<Rightarrow> rf_task \<Rightarrow> bool" where
  "task_ok s q (GoSendLog p T) = (p < rn_size s \<and> p \<noteq> q \<and> active s q T)"
| "task_ok s q (GoHeartbeat T) = active s q T"
| "task_ok s q (GoSendSnapshot p T m args) = (p < rn_size s \<and> p \<noteq> q \<and> m = 1 \<and> is_Term args = T \<and>
     is_LastIndex args = 0 \<and> active s q T)"
| "task_ok s q (GoSnapshot i d) = False"
| "task_ok s q (GoCommitter T) = True"
| "task_ok s q GoStartElection = True"

definition acked_ge :: "'c rnet \<Rightarrow> nat \<Rightarrow> int \<Rightarrow> nat \<Rightarrow> bool" where
  "acked_ge s p T n \<longleftrightarrow> (\<exists>m \<ge> n. (p, T, m) \<in> rn_acked s)"

definition committed :: "'c rnet \<Rightarrow> int \<Rightarrow> nat \<Rightarrow> bool" where
  "committed s T n \<longleftrightarrow> (\<exists>G. rn_ll s T = Some G \<and> 2 \<le> n \<and> n \<le> length G \<and> tm G (n - 1) = T \<and>
     majority (rn_size s) {p. p < rn_size s \<and> acked_ge s p T n})"

text \<open>The first c entries of the log L, seen in term U, are committed.\<close>

definition commit_ok :: "'c rnet \<Rightarrow> int \<Rightarrow> 'c Log list \<Rightarrow> int \<Rightarrow> bool" where
  "commit_ok s U L c \<longleftrightarrow> 1 \<le> c \<and> nat c \<le> length L \<and>
     (c = 1 \<or> (\<exists>T n G. T \<le> U \<and> nat c \<le> n \<and> committed s T n \<and> rn_ll s T = Some G \<and> agree (nat c) L G))"

definition sent_ok :: "'c rnet \<Rightarrow> nat \<times> nat \<times> 'c AppendEntriesArgs \<times> int \<Rightarrow> bool" where
  "sent_ok s = (\<lambda>(q, p, args, n). p < rn_size s \<and> p \<noteq> q \<and> 1 \<le> n \<and>
     ae_PrevLogIndex args = n - 1 \<and>
     (\<exists>G. rn_ll s (ae_Term args) = Some G \<and> rn_lead s (ae_Term args) = q \<and>
        nat n + length (ae_Entries args) \<le> length G \<and> ae_PrevLogTerm args = tm G (nat n - 1) \<and>
        take (length (ae_Entries args)) (drop (nat n) G) = ae_Entries args \<and>
        ae_LeaderCommit args \<le> n + int (length (ae_Entries args)) \<and>
        commit_ok s (ae_Term args) G (ae_LeaderCommit args)))"

definition msg_inv :: "'c rnet \<Rightarrow> bool" where
  "msg_inv s \<longleftrightarrow>
     (\<forall>q t. (q, t) \<in> rn_tasks s \<longrightarrow> task_ok s q t) \<and>
     (\<forall>x \<in> rn_appReq s. sent_ok s x) \<and>
     (\<forall>q p args n. (q, p, args, n) \<in> rn_sending s \<longrightarrow>
        (q, p, args, n) \<in> rn_appReq s \<and> active s q (ae_Term args)) \<and>
     (\<forall>q p args n reply. (q, p, args, n, reply) \<in> rn_appRep s \<longrightarrow> ar_Success reply \<longrightarrow>
        (p, ae_Term args, nat (n + int (length (ae_Entries args)))) \<in> rn_acked s) \<and>
     (\<forall>q p T m reply. (q, p, T, m, reply) \<in> rn_snapRep s \<longrightarrow>
        p < rn_size s \<and> p \<noteq> q \<and> m = 1 \<and> active s q T)"

text \<open>The committer of a term has moved the commit index beyond the term's first entry, or not yet.\<close>

definition committer_ok :: "'c Raft \<Rightarrow> int \<Rightarrow> bool \<Rightarrow> bool" where
  "committer_ok rf T b \<longleftrightarrow> (rf_currentTerm rf = T \<longrightarrow> rf_newOp rf \<noteq> 0 \<and>
     (if b then rf_newOp rf < rf_commitIndex rf else rf_commitIndex rf \<le> rf_newOp rf))"

definition leader_ok :: "'c rnet \<Rightarrow> nat \<Rightarrow> bool" where
  "leader_ok s q \<longleftrightarrow> (st s q = Leader \<longrightarrow>
     (rf_newOp (rn_rf s q) \<noteq> 0 \<longrightarrow> 1 \<le> rf_newOp (rn_rf s q) \<and>
        rf_newOp (rn_rf s q) < int (length (lg s q)) \<and>
        tm (lg s q) (nat (rf_newOp (rn_rf s q))) = cur s q) \<and>
     acked_ge s q (cur s q) (length (lg s q)) \<and>
     (\<forall>p < rn_size s. p \<noteq> q \<longrightarrow> rf_matchIndex (rn_rf s q) ! p \<le> int (length (lg s q)) \<and>
        (1 < rf_matchIndex (rn_rf s q) ! p \<longrightarrow>
           acked_ge s p (cur s q) (nat (rf_matchIndex (rn_rf s q) ! p)))))"

definition leader_inv :: "'c rnet \<Rightarrow> bool" where
  "leader_inv s \<longleftrightarrow>
     (\<forall>q T b. rn_committer s (q, T) = Some b \<longrightarrow> active s q T \<and> committer_ok (rn_rf s q) T b) \<and>
     (\<forall>q < rn_size s. leader_ok s q)"

section \<open>Acknowledgements and later leaders\<close>

text \<open>Every leader of a term between T and U has the first n entries of G.\<close>

definition kept :: "'c rnet \<Rightarrow> int \<Rightarrow> int \<Rightarrow> nat \<Rightarrow> 'c Log list \<Rightarrow> bool" where
  "kept s T U n G \<longleftrightarrow> (\<forall>V H. T < V \<longrightarrow> V < U \<longrightarrow> rn_ll s V = Some H \<longrightarrow> agree n H G)"

definition ack_inv :: "'c rnet \<Rightarrow> bool" where
  "ack_inv s \<longleftrightarrow> (\<forall>p T m. (p, T, m) \<in> rn_acked s \<longrightarrow> p < rn_size s \<and> T \<le> cur s p \<and>
     (\<exists>G. rn_ll s T = Some G \<and> m \<le> length G \<and>
       (\<forall>n \<le> m. kept s T (cur s p + 1) n G \<longrightarrow> agree n (lg s p) G)))"

text \<open>A voter of term U has made sure that the log C keeps what it has acknowledged.\<close>

definition covers :: "'c rnet \<Rightarrow> nat \<Rightarrow> int \<Rightarrow> 'c Log list \<Rightarrow> bool" where
  "covers s r U C \<longleftrightarrow> (\<forall>T n G. T < U \<longrightarrow> acked_ge s r T n \<longrightarrow> rn_ll s T = Some G \<longrightarrow> 1 \<le> n \<longrightarrow>
     tm G (n - 1) = T \<longrightarrow> kept s T U n G \<longrightarrow> agree n C G)"

definition poll_inv :: "'c rnet \<Rightarrow> bool" where
  "poll_inv s \<longleftrightarrow>
     (\<forall>r U c. (r, U, c) \<in> rn_votes s \<longrightarrow> rn_ll s U = None \<longrightarrow> covers s r U (rn_cand s (U, c))) \<and>
     (\<forall>U H. rn_ll s U = Some H \<longrightarrow> (\<exists>V. majority (rn_size s) V \<and>
        (\<forall>r \<in> V. U \<le> cur s r \<and> covers s r U H)))"

section \<open>Commitment\<close>

definition commit_inv :: "'c rnet \<Rightarrow> bool" where
  "commit_inv s \<longleftrightarrow> (\<forall>q < rn_size s.
     commit_ok s (cur s q) (lg s q) (rf_commitIndex (rn_rf s q)) \<and>
     rn_taken s q = map (command_msg (lg s q)) [1..<nat (rf_lastApplied (rn_rf s q))])"

definition rn_inv :: "'c rnet \<Rightarrow> bool" where
  "rn_inv s \<longleftrightarrow> peer_inv s \<and> log_inv s \<and> vote_inv s \<and> lead_inv s \<and> msg_inv s \<and> leader_inv s \<and>
     ack_inv s \<and> poll_inv s \<and> commit_inv s"

end
