(* ===== verification/Raft_Safety.thy ===== *)
theory Raft_Safety
  imports Raft_Invariant
begin

text \<open>
  What the invariant of Raft_Invariant says about committed entries, and how its parts
  carry over a step: the steps are sorted into the few kinds of effect they have (moves),
  and each part rests on what a step can only add (grows).
\<close>

section \<open>Consequences of the invariant\<close>

lemma log_matching:
  assumes "log_ok ll L" and "log_ok ll M" and "i < length L" and "i < length M" and "tm L i = tm M i"
  shows "agree (Suc i) L M"
proof (cases "i = 0")
  case True
  with assms show ?thesis by (intro agreeI) (auto simp: log_ok_def Suc_le_eq)
next
  case False
  then have i: "1 \<le> i" by simp
  from assms(1,3) i obtain G where "ll (tm L i) = Some G" "agree (Suc i) L G"
    unfolding log_ok_def by blast
  moreover from assms(2,4) i obtain H where "ll (tm M i) = Some H" "agree (Suc i) M H"
    unfolding log_ok_def by blast
  ultimately show ?thesis using assms(5) agree_trans agree_sym by (metis option.inject)
qed

lemma log_ok_mono:
  assumes "log_ok ll L" and "i \<le> j" and "j < length L"
  shows "tm L i \<le> tm L j"
  using assms sorted_nth_mono [of "map lg_Term L" i j] by (simp add: log_ok_def)

text \<open>Leader completeness: a committed prefix is in the log of every later leader.\<close>

lemma leader_complete:
  assumes "poll_inv s" and "committed s T n" and "rn_ll s T = Some G"
    and "rn_ll s U = Some H" and "T < U"
  shows "agree n H G"
  using assms(4,5)
proof (induction "nat (U - T)" arbitrary: U H rule: less_induct)
  case less
  have "kept s T U n G"
    unfolding kept_def
  proof (intro allI impI)
    fix V K
    assume "T < V" "V < U" "rn_ll s V = Some K"
    then show "agree n K G" using less.hyps [of V K] by simp
  qed
  moreover obtain V where V: "majority (rn_size s) V" "\<forall>r \<in> V. covers s r U H"
    using assms(1) less.prems(1) unfolding poll_inv_def by blast
  moreover from assms(2,3) have Q: "majority (rn_size s) {p. p < rn_size s \<and> acked_ge s p T n}"
    "2 \<le> n" "tm G (n - 1) = T" by (auto simp: committed_def)
  moreover from maj.quorum_common [OF V(1) Q(1)] obtain r where "r \<in> V" "acked_ge s r T n" by blast
  ultimately show ?case using less.prems(2) assms(3) unfolding covers_def by force
qed

lemma committed_agree:
  assumes "poll_inv s" and "committed s T n" and "rn_ll s T = Some G"
    and "committed s U m" and "rn_ll s U = Some H" and "c \<le> n" and "c \<le> m"
  shows "agree c G H"
proof (cases T U rule: linorder_cases)
  case less
  then show ?thesis
    using leader_complete [OF assms(1-3,5)] assms(6) agree_less agree_sym by blast
next
  case equal
  with assms(2,3,5,6) show ?thesis by (auto simp: committed_def intro: agree_refl)
next
  case greater
  then show ?thesis
    using leader_complete [OF assms(1,4,5,3)] assms(7) agree_less by blast
qed

text \<open>Two committed prefixes agree wherever both are defined.\<close>

lemma commit_ok_agree:
  assumes "poll_inv s" and "commit_ok s U L c" and "commit_ok s U' L' c'"
    and "log_ok ll L" and "log_ok ll' L'" and "i < nat c" and "i < nat c'"
  shows "L ! i = L' ! i"
proof (cases "i = 0")
  case True
  then show ?thesis using assms(4,5) by (simp add: log_ok_def)
next
  case False
  from assms(2,6) False obtain T n G where 1: "nat c \<le> n" "committed s T n" "rn_ll s T = Some G"
    "agree (nat c) L G" by (auto simp: commit_ok_def)
  from assms(3,7) False obtain T' n' G' where 2: "nat c' \<le> n'" "committed s T' n'"
    "rn_ll s T' = Some G'" "agree (nat c') L' G'" by (auto simp: commit_ok_def)
  have "agree (Suc i) G G'"
    using committed_agree [OF assms(1) 1(2,3) 2(2,3)] 1(1) 2(1) assms(6,7) by simp
  then show ?thesis
    using 1(4) 2(4) assms(6,7) agree_nth by (metis lessI)
qed

section \<open>What steps only add\<close>

definition grows :: "'c rnet \<Rightarrow> 'c rnet \<Rightarrow> bool" where
  "grows s t \<longleftrightarrow> rn_size t = rn_size s \<and> (\<forall>q. cur s q \<le> cur t q) \<and> rn_votes s \<subseteq> rn_votes t \<and>
     rn_acked s \<subseteq> rn_acked t \<and> rn_appReq s \<subseteq> rn_appReq t \<and>
     (\<forall>p T m. (p, T, m) \<in> rn_acked t \<longrightarrow> (p, T, m) \<in> rn_acked s \<or> cur s p \<le> T) \<and>
     (\<forall>T c. T \<le> cur s c \<longrightarrow> rn_cand t (T, c) = rn_cand s (T, c)) \<and>
     (\<forall>T G. rn_ll s T = Some G \<longrightarrow> rn_lead t T = rn_lead s T \<and>
        (\<exists>X. rn_ll t T = Some (G @ X) \<and> (\<forall>e \<in> set X. lg_Term e = T)))"

lemma growsE:
  assumes "grows s t" and "rn_ll s T = Some G"
  obtains X where "rn_ll t T = Some (G @ X)" "\<forall>e \<in> set X. lg_Term e = T" "rn_lead t T = rn_lead s T"
  using assms unfolding grows_def by blast

lemma growsD:
  assumes "grows s t"
  shows "x \<in> rn_votes s \<Longrightarrow> x \<in> rn_votes t" "rn_size t = rn_size s" "cur s q \<le> cur t q"
    "y \<in> rn_acked s \<Longrightarrow> y \<in> rn_acked t" "z \<in> rn_appReq s \<Longrightarrow> z \<in> rn_appReq t"
  using assms by (auto simp: grows_def)

lemma vote_invD:
  assumes "vote_inv s"
  shows "(r, T, c) \<in> rn_votes s \<Longrightarrow> r < rn_size s" "(r, T, c) \<in> rn_votes s \<Longrightarrow> c < rn_size s"
    "(r, T, c) \<in> rn_votes s \<Longrightarrow> 1 \<le> T" "(r, T, c) \<in> rn_votes s \<Longrightarrow> T \<le> cur s r"
    "(r, T, c) \<in> rn_votes s \<Longrightarrow> T \<le> cur s c"
    "(r, T, c) \<in> rn_votes s \<Longrightarrow> T = cur s r \<Longrightarrow> rf_votedFor (rn_rf s r) = int c"
    "(r, T, c) \<in> rn_votes s \<Longrightarrow> (r, T, c') \<in> rn_votes s \<Longrightarrow> c = c'"
    "(r, args, reply) \<in> rn_voteRep s \<Longrightarrow> rr_Granted reply \<Longrightarrow>
       (r, rv_Term args, nat (rv_CandidateId args)) \<in> rn_votes s"
    "args \<in> rn_voteReq s \<Longrightarrow> \<exists>c. cand_ok s args c"
  using assms unfolding vote_inv_def by blast+

lemma log_ok_grows: "grows s t \<Longrightarrow> log_ok (rn_ll s) L \<Longrightarrow> log_ok (rn_ll t) L"
  unfolding log_ok_def by (metis growsE agree_append)

lemma acked_ge_grows: "grows s t \<Longrightarrow> acked_ge s p T n \<Longrightarrow> acked_ge t p T n"
  unfolding acked_ge_def grows_def by blast

lemma majority_mono: "majority N A \<Longrightarrow> A \<subseteq> B \<Longrightarrow> B \<subseteq> {..<N} \<Longrightarrow> majority N B"
  unfolding majority_def
  by (meson card_mono finite_lessThan finite_subset less_le_trans mult_le_mono1)

lemma committed_grows:
  assumes "grows s t" and "committed s T n"
  shows "committed t T n"
proof -
  from assms(2) obtain G where G: "rn_ll s T = Some G" "2 \<le> n" "n \<le> length G" "tm G (n - 1) = T"
    "majority (rn_size s) {p. p < rn_size s \<and> acked_ge s p T n}" by (auto simp: committed_def)
  from growsE [OF assms(1) G(1)] obtain X where X: "rn_ll t T = Some (G @ X)" by blast
  have "majority (rn_size t) {p. p < rn_size t \<and> acked_ge t p T n}"
    using assms(1) acked_ge_grows [OF assms(1)]
    by (intro majority_mono [OF G(5) [folded assms(1) [unfolded grows_def, THEN conjunct1]]])
       (auto simp: grows_def)
  with G X show ?thesis by (auto simp: committed_def nth_append)
qed

lemma commit_ok_grows:
  assumes "grows s t" and "commit_ok s U L c" and "U \<le> U'" and "agree (nat c) L L'"
  shows "commit_ok t U' L' c"
proof -
  have "\<exists>T n G. T \<le> U' \<and> nat c \<le> n \<and> committed t T n \<and> rn_ll t T = Some G \<and> agree (nat c) L' G"
    if "\<exists>T n G. T \<le> U \<and> nat c \<le> n \<and> committed s T n \<and> rn_ll s T = Some G \<and> agree (nat c) L G"
  proof -
    from that obtain T n G where a: "T \<le> U" "nat c \<le> n" "committed s T n" "rn_ll s T = Some G"
      "agree (nat c) L G" by blast
    from growsE [OF assms(1) a(4)] obtain X where "rn_ll t T = Some (G @ X)" by blast
    with a committed_grows [OF assms(1) a(3)] assms(3,4) agree_append agree_trans agree_sym
    show ?thesis by (metis order_trans)
  qed
  then show ?thesis using assms(2,4) by (auto simp: commit_ok_def agree_def)
qed

lemma sent_ok_grows:
  assumes "grows s t" and "sent_ok s x"
  shows "sent_ok t x"
proof -
  obtain q p args n where x: "x = (q, p, args, n)" by (metis prod_cases4)
  from assms(2) obtain G where G: "rn_ll s (ae_Term args) = Some G" "rn_lead s (ae_Term args) = q"
    "nat n + length (ae_Entries args) \<le> length G" "ae_PrevLogTerm args = tm G (nat n - 1)" "1 \<le> n"
    "take (length (ae_Entries args)) (drop (nat n) G) = ae_Entries args"
    "commit_ok s (ae_Term args) G (ae_LeaderCommit args)"
    by (auto simp: sent_ok_def x)
  from growsE [OF assms(1) G(1)] obtain X where X: "rn_ll t (ae_Term args) = Some (G @ X)"
    "rn_lead t (ae_Term args) = rn_lead s (ae_Term args)" by blast
  have "commit_ok t (ae_Term args) (G @ X) (ae_LeaderCommit args)"
    using commit_ok_grows [OF assms(1) G(7) order_refl] G(7)
    by (auto simp: commit_ok_def intro: agree_append agree_refl)
  moreover have "nat n - 1 < length G" using G(3,5) by linarith
  moreover have "take (length (ae_Entries args)) (drop (nat n) (G @ X)) = ae_Entries args"
    using G(3,6) by simp
  moreover have "p < rn_size t \<and> p \<noteq> q \<and> ae_PrevLogIndex args = n - 1 \<and>
      ae_LeaderCommit args \<le> n + int (length (ae_Entries args))"
    using assms by (auto simp: sent_ok_def x grows_def)
  ultimately show ?thesis
    unfolding sent_ok_def x prod.case
    by (intro conjI exI [of _ "G @ X"]) (use G(1-5,7) X in \<open>simp_all add: nth_append\<close>)
qed

text \<open>
  Entries that a leader adds have its own term, so they cannot turn a log that differs from
  an older leader's into one that agrees with it.
\<close>

lemma kept_grows:
  assumes gr: "grows s t" and inv: "log_inv s" and G: "rn_ll s T = Some G" "n \<le> length G"
    and t: "kept t T U' n G'" "rn_ll t T = Some G'" and "U \<le> U'"
  shows "kept s T U n G"
  unfolding kept_def
proof (intro allI impI)
  fix V H
  assume V: "T < V" "V < U" "rn_ll s V = Some H"
  from growsE [OF gr G(1)] t(2) obtain Y where Y: "G' = G @ Y" by auto
  obtain X where X: "rn_ll t V = Some (H @ X)" "\<forall>e \<in> set X. lg_Term e = V"
      "rn_lead t V = rn_lead s V"
    by (rule growsE [OF gr V(3)])
  have "V < U'" using V(2) assms(7) by simp
  with t(1) V(1) X(1) have ag: "agree n (H @ X) (G @ Y)" unfolding kept_def Y by blast
  have "n \<le> length H"
  proof (rule ccontr)
    assume n: "\<not> n \<le> length H"
    then have i: "length H < n" by simp
    then have "length H < length (H @ X)" using ag by (auto simp: agree_def)
    then have "lg_Term ((H @ X) ! length H) = V" using X(2) by (auto simp: nth_append)
    moreover have "(H @ X) ! length H = (G @ Y) ! length H" using agree_nth [OF ag i] .
    moreover have "(G @ Y) ! length H = G ! length H" using i G(2) by (simp add: nth_append)
    moreover have "tm G (length H) \<le> T" using inv G i by (auto simp: log_inv_def)
    ultimately show False using V(1) by simp
  qed
  then show "agree n H G" using ag G(2) by (simp add: agree_def)
qed

lemma covers_grows:
  assumes gr: "grows s t" and "log_inv s" and "ack_inv s" and "covers s r U C" and "U \<le> cur s r"
  shows "covers t r U C"
  unfolding covers_def
proof (intro allI impI)
  fix T n G'
  assume T: "T < U" "acked_ge t r T n" "rn_ll t T = Some G'" "1 \<le> n" "tm G' (n - 1) = T" "kept t T U n G'"
  from T(2) obtain m where m: "n \<le> m" "(r, T, m) \<in> rn_acked t" by (auto simp: acked_ge_def)
  have "\<not> cur s r \<le> T" using T(1) assms(5) by simp
  then have ms: "(r, T, m) \<in> rn_acked s" using gr m(2) unfolding grows_def by blast
  then obtain G where "rn_ll s T = Some G" "m \<le> length G"
    using assms(3) unfolding ack_inv_def by blast
  then have G: "rn_ll s T = Some G" "n \<le> length G" "acked_ge s r T n"
    using m(1) ms by (auto simp: acked_ge_def)
  obtain X where X: "rn_ll t T = Some (G @ X)" by (rule growsE [OF gr G(1)])
  have "G' = G @ X" using X T(3) by simp
  then have "tm G (n - 1) = T" using T(4,5) G(2) by (simp add: nth_append split: if_splits)
  moreover have "kept s T U n G" using kept_grows [OF gr assms(2) G(1,2) T(6,3)] by simp
  ultimately have "agree n C G" using assms(4) T(1,4) G(1,3) unfolding covers_def by blast
  then show "agree n C G'" using X T(3) agree_append by auto
qed

section \<open>A step of one peer\<close>

text \<open>
  A step changes the peer q only. It takes a vote back only by moving to a later term, and
  the only leader's log that it changes is that of q in its term.
\<close>

definition moves :: "'c rnet \<Rightarrow> 'c rnet \<Rightarrow> nat \<Rightarrow> bool" where
  "moves s t q \<longleftrightarrow> q < rn_size s \<and> grows s t \<and>
     (\<forall>p. p \<noteq> q \<longrightarrow> rn_rf t p = rn_rf s p \<and> rn_taken t p = rn_taken s p \<and>
        (\<forall>T. rn_cand t (T, p) = rn_cand s (T, p) \<and> rn_committer t (p, T) = rn_committer s (p, T))) \<and>
     (cur t q = cur s q \<longrightarrow> rf_votedFor (rn_rf s q) \<in> {- 1, rf_votedFor (rn_rf t q)}) \<and>
     (\<forall>T. rn_ll t T \<noteq> rn_ll s T \<longrightarrow> T = cur t q \<and> rn_ll t T = Some (lg t q) \<and> rn_lead t T = q)"

lemma movesD:
  assumes "moves s t q"
  shows "q < rn_size s" "grows s t" "rn_size t = rn_size s" "p \<noteq> q \<Longrightarrow> rn_rf t p = rn_rf s p"
    "p \<noteq> q \<Longrightarrow> rn_taken t p = rn_taken s p" "p \<noteq> q \<Longrightarrow> rn_cand t (T, p) = rn_cand s (T, p)"
    "p \<noteq> q \<Longrightarrow> rn_committer t (p, T) = rn_committer s (p, T)"
    "cur t q = cur s q \<Longrightarrow> rf_votedFor (rn_rf s q) \<in> {- 1, rf_votedFor (rn_rf t q)}"
    "rn_ll t T \<noteq> rn_ll s T \<Longrightarrow> T = cur t q \<and> rn_ll t T = Some (lg t q) \<and> rn_lead t T = q"
    "cur s p \<le> cur t p"
  using assms by (auto simp: moves_def grows_def)

lemma peer_step:
  "moves s t q \<Longrightarrow> peer_inv s \<Longrightarrow> peer_ok (rn_size s) q (rn_rf t q) \<Longrightarrow> peer_inv t"
  by (auto simp: peer_inv_def moves_def grows_def)

lemma log_step:
  assumes m: "moves s t q" and "log_inv s"
    and "log_ok (rn_ll t) (lg t q)" and "\<forall>i < length (lg t q). tm (lg t q) i \<le> cur t q"
  shows "log_inv t"
  unfolding log_inv_def
proof (intro conjI allI impI)
  fix p assume p: "p < rn_size t"
  then show "log_ok (rn_ll t) (lg t p)"
    using assms(2,3) movesD(3) [OF m] movesD(4) [OF m, of p] log_ok_grows [OF movesD(2) [OF m]]
    by (cases "p = q") (auto simp: log_inv_def)
  fix i assume "i < length (lg t p)"
  then show "tm (lg t p) i \<le> cur t p"
    using p assms(2,4) movesD(3) [OF m] movesD(4) [OF m, of p] by (cases "p = q") (auto simp: log_inv_def)
next
  fix T G assume G: "rn_ll t T = Some G"
  show "log_ok (rn_ll t) G"
    using assms(2,3) G movesD(9) [OF m, of T] log_ok_grows [OF movesD(2) [OF m]]
    by (cases "rn_ll t T = rn_ll s T") (auto simp: log_inv_def)
  fix i assume "i < length G"
  then show "tm G i \<le> T"
    using assms(2,4) G movesD(9) [OF m, of T]
    by (cases "rn_ll t T = rn_ll s T") (auto simp: log_inv_def)
qed

text \<open>A vote of this step is for the current term, and keeps what the voter has acknowledged.\<close>

definition new_vote :: "'c rnet \<Rightarrow> nat \<Rightarrow> nat \<Rightarrow> int \<Rightarrow> nat \<Rightarrow> bool" where
  "new_vote t q r T c \<longleftrightarrow> r = q \<and> T = cur t q \<and> rf_votedFor (rn_rf t q) = int c \<and> c < rn_size t \<and>
     1 \<le> T \<and> T \<le> cur t c \<and> (rn_ll t T = None \<longrightarrow> covers t q T (rn_cand t (T, c)))"

lemma cand_ok_step:
  assumes m: "moves s t q" and "vote_inv s" and "cand_ok s args c"
  shows "cand_ok t args c"
proof -
  have "(c, rv_Term args, c) \<in> rn_votes s" using assms(3) by (simp add: cand_ok_def)
  then have "rv_Term args \<le> cur s c" using assms(2) unfolding vote_inv_def by blast
  then have "rn_cand t (rv_Term args, c) = rn_cand s (rv_Term args, c)"
    using movesD(2) [OF m] unfolding grows_def by blast
  then show ?thesis
    using assms(3) log_ok_grows [OF movesD(2) [OF m]] movesD(2) [OF m]
    by (auto simp: cand_ok_def grows_def)
qed

lemma vote_step:
  assumes m: "moves s t q" and inv: "vote_inv s"
    and new: "\<And>r T c. (r, T, c) \<in> rn_votes t \<Longrightarrow> (r, T, c) \<in> rn_votes s \<or> new_vote t q r T c"
    and "\<And>r args reply. (r, args, reply) \<in> rn_voteRep t \<Longrightarrow> rr_Granted reply \<Longrightarrow>
      (r, args, reply) \<in> rn_voteRep s \<or> (r, rv_Term args, nat (rv_CandidateId args)) \<in> rn_votes t"
    and "\<And>args. args \<in> rn_voteReq t \<Longrightarrow> args \<in> rn_voteReq s \<or> cand_ok t args q"
  shows "vote_inv t"
proof -
  have old: "r < rn_size t \<and> c < rn_size t \<and> 1 \<le> T \<and> T \<le> cur t r \<and> T \<le> cur t c \<and>
      (T = cur t r \<longrightarrow> rf_votedFor (rn_rf t r) = int c)" if v: "(r, T, c) \<in> rn_votes s" for r T c
  proof -
    have s: "r < rn_size s" "c < rn_size s" "1 \<le> T" "T \<le> cur s r" "T \<le> cur s c"
      "T = cur s r \<Longrightarrow> rf_votedFor (rn_rf s r) = int c"
      using inv v unfolding vote_inv_def by blast+
    have "rf_votedFor (rn_rf t r) = int c" if "T = cur t r"
    proof -
      have "cur t r = cur s r" using that s(4) movesD(10) [OF m, of r] by simp
      then show ?thesis using s(6) that movesD(4) [OF m, of r] movesD(8) [OF m] by (cases "r = q") auto
    qed
    then show ?thesis using s movesD(3) [OF m] movesD(10) [OF m, of r] movesD(10) [OF m, of c] by auto
  qed
  have all: "r < rn_size t \<and> c < rn_size t \<and> 1 \<le> T \<and> T \<le> cur t r \<and> T \<le> cur t c \<and>
      (T = cur t r \<longrightarrow> rf_votedFor (rn_rf t r) = int c)" if "(r, T, c) \<in> rn_votes t" for r T c
    using new [OF that] old [of r T c] movesD(1,3) [OF m] by (auto simp: new_vote_def)
  have "c = c'" if "(r, T, c) \<in> rn_votes t" "(r, T, c') \<in> rn_votes t" for r T c c'
  proof (cases "(r, T, c) \<in> rn_votes s \<and> (r, T, c') \<in> rn_votes s")
    case True
    then show ?thesis using inv unfolding vote_inv_def by blast
  next
    case False
    then have "T = cur t r" using new that by (auto simp: new_vote_def)
    then show ?thesis using all [OF that(1)] all [OF that(2)] by simp
  qed
  moreover have "(r, rv_Term args, nat (rv_CandidateId args)) \<in> rn_votes t"
    if "(r, args, reply) \<in> rn_voteRep t" "rr_Granted reply" for r args reply
    using assms(4) [OF that] growsD(1) [OF movesD(2) [OF m]] vote_invD(8) [OF inv _ that(2)] by blast
  moreover have "\<exists>c. cand_ok t args c" if "args \<in> rn_voteReq t" for args
    using assms(5) [OF that] cand_ok_step [OF m inv] inv unfolding vote_inv_def by blast
  ultimately show ?thesis using all unfolding vote_inv_def by blast
qed

lemma lead_step:
  assumes m: "moves s t q" and inv: "lead_inv s"
    and new: "\<And>T G. rn_ll s T = None \<Longrightarrow> rn_ll t T = Some G \<Longrightarrow> 1 \<le> T \<and> 2 \<le> rn_size s \<and>
      majority (rn_size s) {r. (r, T, q) \<in> rn_votes t}"
    and "vote_inv t"
    and "st t q = Leader \<Longrightarrow> rn_ll t (cur t q) = Some (lg t q) \<and> rn_lead t (cur t q) = q"
    and "st t q = Candidate \<Longrightarrow> rn_cand t (cur t q, q) = lg t q \<and>
      \<not> (rn_ll t (cur t q) \<noteq> None \<and> rn_lead t (cur t q) = q)"
  shows "lead_inv t"
proof -
  note gr = movesD(2) [OF m]
  have "1 \<le> T \<and> 2 \<le> rn_size t \<and> rn_lead t T < rn_size t \<and> T \<le> cur t (rn_lead t T) \<and>
      majority (rn_size t) {r. (r, T, rn_lead t T) \<in> rn_votes t}" if G: "rn_ll t T = Some G" for T G
  proof (cases "rn_ll s T")
    case None
    then show ?thesis using new [OF None G] movesD(1,3) [OF m] movesD(9) [OF m, of T] G by auto
  next
    case (Some H)
    obtain X where X: "rn_lead t T = rn_lead s T" by (rule growsE [OF gr Some])
    have s: "1 \<le> T" "2 \<le> rn_size s" "rn_lead s T < rn_size s" "T \<le> cur s (rn_lead s T)"
      "majority (rn_size s) {r. (r, T, rn_lead s T) \<in> rn_votes s}"
      using inv Some unfolding lead_inv_def by blast+
    have "majority (rn_size s) {r. (r, T, rn_lead s T) \<in> rn_votes t}"
    proof (rule majority_mono [OF s(5)])
      show "{r. (r, T, rn_lead s T) \<in> rn_votes s} \<subseteq> {r. (r, T, rn_lead s T) \<in> rn_votes t}"
        using gr by (auto simp: grows_def)
      show "{r. (r, T, rn_lead s T) \<in> rn_votes t} \<subseteq> {..<rn_size s}"
        using \<open>vote_inv t\<close> movesD(3) [OF m] by (auto simp: vote_inv_def)
    qed
    then show ?thesis using s X movesD(3) [OF m] movesD(10) [OF m, of "rn_lead s T"] by simp
  qed
  moreover have "rn_ll t (cur t p) = Some (lg t p) \<and> rn_lead t (cur t p) = p"
    if "p < rn_size t" "st t p = Leader" for p
  proof (cases "p = q")
    case False
    then have "rn_ll s (cur s p) = Some (lg s p)" "rn_lead s (cur s p) = p"
      using that movesD(3) [OF m] movesD(4) [OF m, of p] inv by (auto simp: lead_inv_def)
    then show ?thesis
      using False movesD(4) [OF m False] movesD(9) [OF m, of "cur s p"] gr unfolding grows_def by metis
  qed (use assms(5) that in simp)
  moreover have "rn_cand t (cur t p, p) = lg t p \<and> \<not> (rn_ll t (cur t p) \<noteq> None \<and> rn_lead t (cur t p) = p)"
    if "p < rn_size t" "st t p = Candidate" for p
  proof (cases "p = q")
    case False
    then have "rn_cand s (cur s p, p) = lg s p" "\<not> (rn_ll s (cur s p) \<noteq> None \<and> rn_lead s (cur s p) = p)"
      using that movesD(3) [OF m] movesD(4) [OF m, of p] inv by (auto simp: lead_inv_def)
    then show ?thesis
      using False movesD(4,6) [OF m False] movesD(9) [OF m, of "cur s p"] gr
      unfolding grows_def by (metis option.exhaust)
  qed (use assms(6) that in simp)
  ultimately show ?thesis unfolding lead_inv_def by blast
qed


text \<open>
  A peer that led its term and has not left it still leads; then its goroutines stay
  active. New goroutines and messages have to be in order by themselves.
\<close>

definition leads :: "'c rnet \<Rightarrow> 'c rnet \<Rightarrow> nat \<Rightarrow> bool" where
  "leads s t p \<longleftrightarrow> (cur t p = cur s p \<longrightarrow> st s p = Leader \<longrightarrow> st t p = Leader)"

lemma active_grows:
  assumes "grows s t" and "leads s t p" and "lead_inv s" and "active s p T"
  shows "active t p T"
proof -
  from assms(4) obtain G where G: "rn_ll s T = Some G" "rn_lead s T = p" "p < rn_size s"
    "cur s p = T \<Longrightarrow> st s p = Leader" by (auto simp: active_def)
  have "T \<le> cur s p" using assms(3) G(1,2) unfolding lead_inv_def by blast
  moreover have "cur s p \<le> cur t p" "rn_size t = rn_size s" using growsD [OF assms(1)] by auto
  moreover obtain X where "rn_ll t T = Some (G @ X)" "rn_lead t T = rn_lead s T"
    by (rule growsE [OF assms(1) G(1)])
  ultimately show ?thesis using G assms(2) by (auto simp: active_def leads_def)
qed

lemma task_ok_grows:
  assumes "grows s t" and "leads s t p" and "lead_inv s" and "task_ok s p x"
  shows "task_ok t p x"
  using assms(4) active_grows [OF assms(1-3)] growsD(2) [OF assms(1)] by (cases x) auto

definition net_ok :: "'c rnet \<Rightarrow> 'c rnet \<Rightarrow> bool" where
  "net_ok s t \<longleftrightarrow>
     (\<forall>p x. (p, x) \<in> rn_tasks t \<longrightarrow> (p, x) \<in> rn_tasks s \<and> leads s t p \<or> task_ok t p x) \<and>
     (\<forall>x. x \<in> rn_appReq t \<longrightarrow> x \<in> rn_appReq s \<or> sent_ok s x) \<and>
     (\<forall>q p args n. (q, p, args, n) \<in> rn_sending t \<longrightarrow> (q, p, args, n) \<in> rn_sending s \<and> leads s t q \<or>
        (q, p, args, n) \<in> rn_appReq t \<and> active t q (ae_Term args)) \<and>
     (\<forall>q p args n reply. (q, p, args, n, reply) \<in> rn_appRep t \<longrightarrow> ar_Success reply \<longrightarrow>
        (q, p, args, n, reply) \<in> rn_appRep s \<or>
        (p, ae_Term args, nat (n + int (length (ae_Entries args)))) \<in> rn_acked t) \<and>
     (\<forall>q p T m reply. (q, p, T, m, reply) \<in> rn_snapRep t \<longrightarrow>
        (q, p, T, m, reply) \<in> rn_snapRep s \<and> leads s t q \<or>
        p < rn_size t \<and> p \<noteq> q \<and> m = 1 \<and> active t q T)"

lemma msg_invD:
  assumes "msg_inv s"
  shows "(q, x) \<in> rn_tasks s \<Longrightarrow> task_ok s q x" "y \<in> rn_appReq s \<Longrightarrow> sent_ok s y"
    "(q, p, args, n) \<in> rn_sending s \<Longrightarrow> (q, p, args, n) \<in> rn_appReq s"
    "(q, p, args, n) \<in> rn_sending s \<Longrightarrow> active s q (ae_Term args)"
    "(q, p, args, n, reply) \<in> rn_appRep s \<Longrightarrow> ar_Success reply \<Longrightarrow>
       (p, ae_Term args, nat (n + int (length (ae_Entries args)))) \<in> rn_acked s"
    "(q, p, T, m, ireply) \<in> rn_snapRep s \<Longrightarrow> p < rn_size s \<and> p \<noteq> q \<and> m = 1 \<and> active s q T"
  using assms unfolding msg_inv_def by blast+

lemma msg_step:
  assumes gr: "grows s t" and lead: "lead_inv s" and inv: "msg_inv s" and net: "net_ok s t"
  shows "msg_inv t"
  unfolding msg_inv_def
proof (intro conjI allI impI ballI)
  fix p x assume "(p, x) \<in> rn_tasks t"
  then show "task_ok t p x"
    using net task_ok_grows [OF gr _ lead msg_invD(1) [OF inv]] unfolding net_ok_def by blast
next
  fix x assume "x \<in> rn_appReq t"
  then show "sent_ok t x"
    using net sent_ok_grows [OF gr] msg_invD(2) [OF inv] unfolding net_ok_def by blast
next
  fix q p args n assume x: "(q, p, args, n) \<in> rn_sending t"
  then have "(q, p, args, n) \<in> rn_sending s \<and> leads s t q \<or>
      (q, p, args, n) \<in> rn_appReq t \<and> active t q (ae_Term args)"
    using net unfolding net_ok_def by blast
  then show "(q, p, args, n) \<in> rn_appReq t" "active t q (ae_Term args)"
    using msg_invD(3,4) [OF inv] active_grows [OF gr _ lead] growsD(5) [OF gr] by blast+
next
  fix q p args n reply assume "(q, p, args, n, reply) \<in> rn_appRep t" "ar_Success reply"
  then have "(q, p, args, n, reply) \<in> rn_appRep s \<or>
      (p, ae_Term args, nat (n + int (length (ae_Entries args)))) \<in> rn_acked t"
    using net unfolding net_ok_def by blast
  then show "(p, ae_Term args, nat (n + int (length (ae_Entries args)))) \<in> rn_acked t"
    using msg_invD(5) [OF inv _ \<open>ar_Success reply\<close>] growsD(4) [OF gr] by blast
next
  fix q p T m reply assume "(q, p, T, m, reply) \<in> rn_snapRep t"
  then have "(q, p, T, m, reply) \<in> rn_snapRep s \<and> leads s t q \<or>
      p < rn_size t \<and> p \<noteq> q \<and> m = 1 \<and> active t q T"
    using net unfolding net_ok_def by blast
  then have "p < rn_size t \<and> p \<noteq> q \<and> m = 1 \<and> active t q T"
    using msg_invD(6) [OF inv] active_grows [OF gr _ lead] growsD(2) [OF gr] by fastforce
  then show "p < rn_size t" "p \<noteq> q" "m = 1" "active t q T" by auto
qed

lemma leader_ok_other:
  assumes "grows s t" and "rn_rf t p = rn_rf s p" and "leader_ok s p"
  shows "leader_ok t p"
  using assms acked_ge_grows [OF assms(1)] growsD(2) [OF assms(1)] by (auto simp: leader_ok_def)

lemma leader_step:
  assumes m: "moves s t q" and lead: "lead_inv s" and inv: "leader_inv s"
    and new: "\<And>T b. rn_committer t (q, T) = Some b \<Longrightarrow> active t q T \<and> committer_ok (rn_rf t q) T b"
    and "leader_ok t q"
  shows "leader_inv t"
  unfolding leader_inv_def
proof (intro conjI allI impI)
  fix p T b assume c: "rn_committer t (p, T) = Some b"
  have "active t p T \<and> committer_ok (rn_rf t p) T b"
  proof (cases "p = q")
    case False
    then have "active s p T" "committer_ok (rn_rf s p) T b"
      using c movesD(7) [OF m False] inv by (auto simp: leader_inv_def)
    then show ?thesis
      using active_grows [OF movesD(2) [OF m] _ lead] movesD(4) [OF m False] by (simp add: leads_def)
  qed (use c new in blast)
  then show "active t p T" "committer_ok (rn_rf t p) T b" by auto
next
  fix p assume "p < rn_size t"
  then show "leader_ok t p"
    using inv movesD(3) [OF m] movesD(4) [OF m, of p] leader_ok_other [OF movesD(2) [OF m], of p] assms(5)
    by (cases "p = q") (auto simp: leader_inv_def)
qed

text \<open>An acknowledgement stays good as long as the log keeps what later leaders keep.\<close>

lemma ack_step:
  assumes m: "moves s t q" and log: "log_inv s" and inv: "ack_inv s"
    and new: "\<And>p T k. (p, T, k) \<in> rn_acked t \<Longrightarrow> (p, T, k) \<in> rn_acked s \<or>
      p = q \<and> T = cur t q \<and> (\<exists>G. rn_ll t T = Some G \<and> agree k (lg t q) G)"
    and keep: "\<And>T n G. T \<le> cur t q \<Longrightarrow> rn_ll t T = Some G \<Longrightarrow> kept t T (cur t q + 1) n G \<Longrightarrow>
      agree n (lg s q) G \<Longrightarrow> agree n (lg t q) G"
  shows "ack_inv t"
  unfolding ack_inv_def
proof (intro allI impI)
  note gr = movesD(2) [OF m]
  fix p T k assume "(p, T, k) \<in> rn_acked t"
  from new [OF this] show "p < rn_size t \<and> T \<le> cur t p \<and> (\<exists>G. rn_ll t T = Some G \<and> k \<le> length G \<and>
      (\<forall>n \<le> k. kept t T (cur t p + 1) n G \<longrightarrow> agree n (lg t p) G))"
  proof
    assume "(p, T, k) \<in> rn_acked s"
    then obtain G where G: "p < rn_size s" "T \<le> cur s p" "rn_ll s T = Some G" "k \<le> length G"
      "\<forall>n \<le> k. kept s T (cur s p + 1) n G \<longrightarrow> agree n (lg s p) G"
      using inv unfolding ack_inv_def by blast
    obtain X where X: "rn_ll t T = Some (G @ X)" by (rule growsE [OF gr G(3)])
    have "T \<le> cur t p" using G(2) movesD(10) [OF m, of p] by simp
    moreover have "agree n (lg t p) (G @ X)" if n: "n \<le> k" "kept t T (cur t p + 1) n (G @ X)" for n
    proof -
      have "kept s T (cur s p + 1) n G"
        using kept_grows [OF gr log G(3) _ n(2) X] n(1) G(4) movesD(10) [OF m, of p] by simp
      then have "agree n (lg s p) (G @ X)" using G(5) n(1) agree_append by blast
      then show ?thesis
        using keep [OF _ X] n(2) movesD(4) [OF m, of p] \<open>T \<le> cur t p\<close> by (cases "p = q") auto
    qed
    ultimately show ?thesis using G(1,4) X movesD(3) [OF m] by auto
  next
    assume "p = q \<and> T = cur t q \<and> (\<exists>G. rn_ll t T = Some G \<and> agree k (lg t q) G)"
    then obtain G where "p = q" "T = cur t q" "rn_ll t T = Some G" "agree k (lg t q) G" by blast
    moreover have "k \<le> length G" using calculation(4) by (simp add: agree_def)
    ultimately show ?thesis using movesD(1,3) [OF m] agree_less by auto
  qed
qed

lemma poll_step:
  assumes m: "moves s t q" and log: "log_inv s" and ack: "ack_inv s" and vote: "vote_inv s"
    and inv: "poll_inv s"
    and new: "\<And>r T c. (r, T, c) \<in> rn_votes t \<Longrightarrow> (r, T, c) \<in> rn_votes s \<or> new_vote t q r T c"
    and win: "\<And>T G. rn_ll s T = None \<Longrightarrow> rn_ll t T = Some G \<Longrightarrow> G = rn_cand s (T, q) \<and>
      majority (rn_size s) {r. (r, T, q) \<in> rn_votes s}"
  shows "poll_inv t"
  unfolding poll_inv_def
proof (intro conjI allI impI)
  note gr = movesD(2) [OF m]
  fix r U c assume v: "(r, U, c) \<in> rn_votes t" "rn_ll t U = None"
  from new [OF v(1)] show "covers t r U (rn_cand t (U, c))"
  proof
    assume "(r, U, c) \<in> rn_votes s"
    moreover have "rn_ll s U = None" using v(2) growsE [OF gr, of U] by (cases "rn_ll s U") auto
    moreover have "rn_cand t (U, c) = rn_cand s (U, c)"
      using gr vote_invD(5) [OF vote] calculation(1) unfolding grows_def by blast
    ultimately show ?thesis
      using inv covers_grows [OF gr log ack] vote_invD(4) [OF vote] unfolding poll_inv_def by auto
  qed (use v(2) in \<open>auto simp: new_vote_def\<close>)
next
  note gr = movesD(2) [OF m]
  fix U H' assume H': "rn_ll t U = Some H'"
  show "\<exists>V. majority (rn_size t) V \<and> (\<forall>r\<in>V. U \<le> cur t r \<and> covers t r U H')"
  proof (cases "rn_ll s U")
    case None
    let ?V = "{r. (r, U, q) \<in> rn_votes s}"
    have "U \<le> cur t r \<and> covers t r U H'" if r: "(r, U, q) \<in> rn_votes s" for r
    proof -
      have "covers s r U H'" using inv r None win [OF None H'] unfolding poll_inv_def by blast
      then show ?thesis
        using covers_grows [OF gr log ack] vote_invD(4) [OF vote r] movesD(10) [OF m, of r] by auto
    qed
    then show ?thesis using win [OF None H'] movesD(3) [OF m] by (intro exI [of _ ?V]) auto
  next
    case (Some H)
    then obtain V where V: "majority (rn_size s) V" "\<forall>r \<in> V. U \<le> cur s r \<and> covers s r U H"
      using inv unfolding poll_inv_def by blast
    obtain X where "rn_ll t U = Some (H @ X)" by (rule growsE [OF gr Some])
    then have X: "H' = H @ X" using H' by simp
    have "U \<le> cur t r \<and> covers t r U H'" if r: "r \<in> V" for r
    proof -
      have "covers t r U H" using covers_grows [OF gr log ack] V(2) r by blast
      then have "covers t r U H'"
        unfolding covers_def X using agree_append agree_sym by metis
      then show ?thesis using V(2) r movesD(10) [OF m, of r] by force
    qed
    then show ?thesis using V(1) movesD(3) [OF m] by (intro exI [of _ V]) auto
  qed
qed

lemma commit_step:
  assumes m: "moves s t q" and inv: "commit_inv s"
    and "commit_ok t (cur t q) (lg t q) (rf_commitIndex (rn_rf t q))"
    and "rn_taken t q = map (command_msg (lg t q)) [1..<nat (rf_lastApplied (rn_rf t q))]"
  shows "commit_inv t"
  unfolding commit_inv_def
proof (intro allI impI)
  fix p assume p: "p < rn_size t"
  show "commit_ok t (cur t p) (lg t p) (rf_commitIndex (rn_rf t p)) \<and>
    rn_taken t p = map (command_msg (lg t p)) [1..<nat (rf_lastApplied (rn_rf t p))]"
  proof (cases "p = q")
    case False
    have "commit_ok s (cur s p) (lg s p) (rf_commitIndex (rn_rf s p))"
      "rn_taken s p = map (command_msg (lg s p)) [1..<nat (rf_lastApplied (rn_rf s p))]"
      using inv p movesD(3) [OF m] by (auto simp: commit_inv_def)
    moreover have "agree (nat (rf_commitIndex (rn_rf s p))) (lg s p) (lg s p)"
      using calculation(1) by (auto simp: commit_ok_def intro: agree_refl)
    ultimately show ?thesis
      using commit_ok_grows [OF movesD(2) [OF m], of "cur s p"] movesD(4,5) [OF m False] by simp
  qed (use assms(3,4) in simp)
qed

end
