(* ===== verification/Raft_Steps.thy ===== *)
theory Raft_Steps
  imports Raft_Safety
begin

text \<open>
  The invariant is kept by the steps that only move terms, indices and messages: ticks,
  refusals, requests that are sent, heartbeats and the replies to them.
\<close>

section \<open>Steps that leave the logs alone\<close>

lemmas rn_defs = rn_put_def rn_spawn_def rn_emit_def rn_lead_log_def

lemma peer_invD:
  assumes "peer_inv s" and "q < rn_size s"
  shows "rf_peers (rn_rf s q) = rn_size s" "rf_me (rn_rf s q) = q" "rf_startIndex (rn_rf s q) = 0"
    "length (rf_matchIndex (rn_rf s q)) = rn_size s" "1 \<le> rf_lastApplied (rn_rf s q)"
    "0 \<le> cur s q" "\<not> rf_snapshotApplying (rn_rf s q)" "rf_lastApplied (rn_rf s q) \<le> rf_commitIndex (rn_rf s q)"
    "length (rf_nextIndex (rn_rf s q)) = rn_size s"
  using assms by (auto simp: peer_inv_def peer_ok_def)

lemma rn_invD:
  assumes "rn_inv s"
  shows "peer_inv s" "log_inv s" "vote_inv s" "lead_inv s" "msg_inv s" "leader_inv s" "ack_inv s"
    "poll_inv s" "commit_inv s"
  using assms by (auto simp: rn_inv_def)

lemma log_invD:
  assumes "log_inv s"
  shows "q < rn_size s \<Longrightarrow> log_ok (rn_ll s) (lg s q)"
    "q < rn_size s \<Longrightarrow> i < length (lg s q) \<Longrightarrow> tm (lg s q) i \<le> cur s q"
    "rn_ll s T = Some G \<Longrightarrow> log_ok (rn_ll s) G" "rn_ll s T = Some G \<Longrightarrow> i < length G \<Longrightarrow> tm G i \<le> T"
  using assms by (auto simp: log_inv_def)

lemma lead_invD:
  assumes "lead_inv s"
  shows "rn_ll s T = Some G \<Longrightarrow> 1 \<le> T" "rn_ll s T = Some G \<Longrightarrow> 2 \<le> rn_size s"
    "rn_ll s T = Some G \<Longrightarrow> rn_lead s T < rn_size s" "rn_ll s T = Some G \<Longrightarrow> T \<le> cur s (rn_lead s T)"
    "rn_ll s T = Some G \<Longrightarrow> majority (rn_size s) {r. (r, T, rn_lead s T) \<in> rn_votes s}"
    "q < rn_size s \<Longrightarrow> st s q = Leader \<Longrightarrow> rn_ll s (cur s q) = Some (lg s q)"
    "q < rn_size s \<Longrightarrow> st s q = Leader \<Longrightarrow> rn_lead s (cur s q) = q"
    "q < rn_size s \<Longrightarrow> st s q = Candidate \<Longrightarrow> rn_cand s (cur s q, q) = lg s q"
    "q < rn_size s \<Longrightarrow> st s q = Candidate \<Longrightarrow> rn_ll s (cur s q) = Some G \<Longrightarrow> rn_lead s (cur s q) \<noteq> q"
  using assms unfolding lead_inv_def by blast+

text \<open>A step keeps the invariant, and adds to what a state promises.\<close>

definition keeps :: "'c rnet \<Rightarrow> 'c rnet \<Rightarrow> bool" where
  "keeps s t \<longleftrightarrow> rn_inv t \<and> grows s t"

text \<open>What a step has to say of its peer when it changes no log and acknowledges nothing.\<close>

lemma inv_same_log:
  assumes inv: "rn_inv s" and m: "moves s t q" and net: "net_ok s t"
    and ghost: "rn_ll t = rn_ll s" "rn_acked t = rn_acked s" "lg t q = lg s q"
    and peer: "peer_ok (rn_size s) q (rn_rf t q)"
    and votes: "\<And>r T c. (r, T, c) \<in> rn_votes t \<Longrightarrow> (r, T, c) \<in> rn_votes s \<or> new_vote t q r T c"
    and reps: "\<And>r args reply. (r, args, reply) \<in> rn_voteRep t \<Longrightarrow> rr_Granted reply \<Longrightarrow>
      (r, args, reply) \<in> rn_voteRep s \<or> (r, rv_Term args, nat (rv_CandidateId args)) \<in> rn_votes t"
    and reqs: "\<And>args. args \<in> rn_voteReq t \<Longrightarrow> args \<in> rn_voteReq s \<or> cand_ok t args q"
    and leader: "st t q = Leader \<Longrightarrow> st s q = Leader \<and> cur t q = cur s q"
    and cand: "st t q = Candidate \<Longrightarrow> rn_cand t (cur t q, q) = lg t q \<and>
      \<not> (rn_ll t (cur t q) \<noteq> None \<and> rn_lead t (cur t q) = q)"
    and comm: "\<And>T b. rn_committer t (q, T) = Some b \<Longrightarrow> active t q T \<and> committer_ok (rn_rf t q) T b"
    and lok: "leader_ok t q"
    and commit: "commit_ok t (cur t q) (lg t q) (rf_commitIndex (rn_rf t q))"
    and appl: "rn_taken t q = map (command_msg (lg t q)) [1..<nat (rf_lastApplied (rn_rf t q))]"
  shows "keeps s t"
proof -
  note I = rn_invD [OF inv] and gr = movesD(2) [OF m] and q = movesD(1) [OF m]
  have vote: "vote_inv t" by (rule vote_step [OF m I(3) votes reps reqs])
  moreover have "log_inv t"
  proof (rule log_step [OF m I(2)])
    show "log_ok (rn_ll t) (lg t q)" using log_invD(1) [OF I(2) q] ghost by simp
    show "\<forall>i<length (lg t q). tm (lg t q) i \<le> cur t q"
      using log_invD(2) [OF I(2) q] growsD(3) [OF gr, of q] ghost(3) by force
  qed
  moreover have "lead_inv t"
  proof (rule lead_step [OF m I(4) _ vote _ cand])
    assume "st t q = Leader"
    with leader have l: "st s q = Leader" "cur t q = cur s q" by auto
    then have ll: "rn_ll s (cur s q) = Some (lg s q)" "rn_lead s (cur s q) = q"
      using lead_invD(6,7) [OF I(4) q] by auto
    obtain X where "rn_lead t (cur s q) = rn_lead s (cur s q)" by (rule growsE [OF gr ll(1)])
    then show "rn_ll t (cur t q) = Some (lg t q) \<and> rn_lead t (cur t q) = q"
      using l ll ghost by simp
  qed (use ghost in auto)
  moreover have "ack_inv t"
    by (rule ack_step [OF m I(2,7)]) (use ghost in auto)
  moreover have "poll_inv t"
    by (rule poll_step [OF m I(2,7,3,8) votes]) (use ghost in auto)
  ultimately show ?thesis
    using peer_step [OF m I(1) peer] msg_step [OF gr I(4,5) net] leader_step [OF m I(4,6) comm lok]
      commit_step [OF m I(9) commit appl] gr
    by (simp add: rn_inv_def keeps_def)
qed

text \<open>
  How a quiet step changes term, vote and role: it stays in the term and keeps the vote, and
  a leader stays leader; or it moves to a later term as a follower without a vote.
\<close>

definition term_ok :: "'c Raft \<Rightarrow> 'c Raft \<Rightarrow> bool" where
  "term_ok rf rf' \<longleftrightarrow>
     rf_currentTerm rf' = rf_currentTerm rf \<and> rf_votedFor rf' = rf_votedFor rf \<and>
       (rf_state rf' = rf_state rf \<or> rf_state rf' = Follower \<and> rf_state rf \<noteq> Leader) \<or>
     new_term rf rf'"

definition same_ghost :: "'c rnet \<Rightarrow> 'c rnet \<Rightarrow> bool" where
  "same_ghost s t \<longleftrightarrow> rn_size t = rn_size s \<and> rn_ll t = rn_ll s \<and> rn_lead t = rn_lead s \<and>
     rn_cand t = rn_cand s \<and> rn_votes t = rn_votes s \<and> rn_acked t = rn_acked s \<and>
     rn_voteReq t = rn_voteReq s \<and> rn_taken t = rn_taken s"

definition match_ok :: "'c rnet \<Rightarrow> nat \<Rightarrow> 'c Raft \<Rightarrow> bool" where
  "match_ok s q rf \<longleftrightarrow> (\<forall>p < rn_size s. p \<noteq> q \<longrightarrow> rf_state rf = Leader \<longrightarrow>
     rf_matchIndex rf ! p = rf_matchIndex (rn_rf s q) ! p \<or> rf_matchIndex rf ! p = 1 \<or>
     rf_matchIndex rf ! p \<le> int (length (rf_logs rf)) \<and>
     acked_ge s p (rf_currentTerm rf) (nat (rf_matchIndex rf ! p)))"

definition quiet :: "'c rnet \<Rightarrow> 'c rnet \<Rightarrow> nat \<Rightarrow> 'c Raft \<Rightarrow> bool" where
  "quiet s t q rf \<longleftrightarrow> q < rn_size s \<and> rn_rf t = (rn_rf s)(q := rf) \<and>
     same_log (rn_rf s q) rf \<and> term_ok (rn_rf s q) rf \<and> rf_newOp rf = rf_newOp (rn_rf s q) \<and>
     length (rf_nextIndex rf) = length (rf_nextIndex (rn_rf s q)) \<and>
     length (rf_matchIndex rf) = length (rf_matchIndex (rn_rf s q)) \<and> match_ok s q rf \<and>
     same_ghost s t \<and> rn_appReq s \<subseteq> rn_appReq t \<and>
     (\<forall>p T. rn_committer t (p, T) = rn_committer s (p, T) \<or> p = q \<and> rn_committer t (p, T) = None) \<and>
     (\<forall>r args reply. (r, args, reply) \<in> rn_voteRep t \<longrightarrow> rr_Granted reply \<longrightarrow>
        (r, args, reply) \<in> rn_voteRep s)"

lemma term_ok_same: "same_term rf rf' \<Longrightarrow> term_ok rf rf'"
  by (simp add: term_ok_def same_term_def)

lemma term_ok_new: "new_term rf rf' \<Longrightarrow> term_ok rf rf'"
  by (simp add: term_ok_def)

lemma term_ok_refl: "term_ok rf rf"
  by (simp add: term_ok_def)

lemma match_ok_same: "rf_matchIndex rf = rf_matchIndex (rn_rf s q) \<Longrightarrow> match_ok s q rf"
  by (simp add: match_ok_def)

lemma quiet_moves:
  assumes "quiet s t q rf"
  shows "moves s t q"
proof -
  have gr: "grows s t"
    using assms by (auto simp: quiet_def grows_def same_ghost_def term_ok_def new_term_def)
  then show ?thesis
    using assms by (fastforce simp: quiet_def moves_def same_ghost_def term_ok_def new_term_def)
qed

lemma quiet_leads: "quiet s t q rf \<Longrightarrow> leads s t p"
  by (auto simp: quiet_def leads_def term_ok_def new_term_def)

lemma quiet_leader_ok:
  assumes "quiet s t q rf" and "leader_ok s q" and "log_ok ll (lg s q)"
  shows "leader_ok t q"
proof (cases "rf_state rf = Leader")
  case True
  have gr: "grows s t" using quiet_moves [OF assms(1)] movesD(2) by blast
  have s: "st s q = Leader" "rf_currentTerm rf = cur s q" "rf_logs rf = lg s q" "rn_rf t q = rf"
    "rf_newOp rf = rf_newOp (rn_rf s q)" "match_ok s q rf" "rn_size t = rn_size s"
    using assms(1) True by (auto simp: quiet_def term_ok_def new_term_def same_log_def same_ghost_def)
  have "rf_matchIndex rf ! p \<le> int (length (lg s q)) \<and>
      (1 < rf_matchIndex rf ! p \<longrightarrow> acked_ge t p (cur s q) (nat (rf_matchIndex rf ! p)))"
    if p: "p < rn_size s" "p \<noteq> q" for p
  proof -
    consider "rf_matchIndex rf ! p = rf_matchIndex (rn_rf s q) ! p" | "rf_matchIndex rf ! p = 1"
      | "rf_matchIndex rf ! p \<le> int (length (lg s q))" "acked_ge s p (cur s q) (nat (rf_matchIndex rf ! p))"
      using s(2,3,6) p True unfolding match_ok_def by auto
    then show ?thesis
    proof cases
      case 2
      have "lg s q \<noteq> []" using assms(3) by (simp add: log_ok_def)
      then show ?thesis using 2 by (cases "lg s q") auto
    qed (use assms(2) s(1) p acked_ge_grows [OF gr] in \<open>auto simp: leader_ok_def\<close>)
  qed
  then show ?thesis
    using assms(2) s acked_ge_grows [OF gr] by (auto simp: leader_ok_def)
qed (use assms(1) in \<open>auto simp: leader_ok_def quiet_def\<close>)

lemma quiet_inv:
  assumes inv: "rn_inv s" and qu: "quiet s t q rf" and net: "net_ok s t"
  shows "keeps s t"
proof (rule inv_same_log [OF inv quiet_moves [OF qu] net])
  note I = rn_invD [OF inv] and m = quiet_moves [OF qu]
  note gr = movesD(2) [OF m] and q = movesD(1) [OF m]
  have rf: "rn_rf t q = rf" "same_log (rn_rf s q) rf" "term_ok (rn_rf s q) rf" "same_ghost s t"
    using qu by (auto simp: quiet_def)
  show "rn_ll t = rn_ll s" "rn_acked t = rn_acked s" "lg t q = lg s q"
    using rf by (auto simp: same_ghost_def same_log_def)
  show "peer_ok (rn_size s) q (rn_rf t q)"
    using qu I(1) q by (auto simp: quiet_def peer_inv_def peer_ok_def same_log_def term_ok_def new_term_def)
  show "(r, T, c) \<in> rn_votes s \<or> new_vote t q r T c" if "(r, T, c) \<in> rn_votes t" for r T c
    using rf(4) that by (auto simp: same_ghost_def)
  show "(r, args, reply) \<in> rn_voteRep s \<or> (r, rv_Term args, nat (rv_CandidateId args)) \<in> rn_votes t"
    if "(r, args, reply) \<in> rn_voteRep t" "rr_Granted reply" for r args reply
    using qu that unfolding quiet_def by blast
  show "args \<in> rn_voteReq s \<or> cand_ok t args q" if "args \<in> rn_voteReq t" for args
    using rf(4) that by (auto simp: same_ghost_def)
  show "st s q = Leader \<and> cur t q = cur s q" if "st t q = Leader"
    using rf that by (auto simp: term_ok_def new_term_def)
  show "rn_cand t (cur t q, q) = lg t q \<and> \<not> (rn_ll t (cur t q) \<noteq> None \<and> rn_lead t (cur t q) = q)"
    if "st t q = Candidate"
    using rf that lead_invD(8,9) [OF I(4) q]
    by (auto simp: term_ok_def new_term_def same_ghost_def same_log_def)
  show "active t q T \<and> committer_ok (rn_rf t q) T b" if "rn_committer t (q, T) = Some b" for T b
  proof -
    have "rn_committer t (q, T) = rn_committer s (q, T)"
      using qu that unfolding quiet_def by (metis option.distinct(1))
    then have c: "active s q T" "committer_ok (rn_rf s q) T b"
      using I(6) that unfolding leader_inv_def by metis+
    then have "T \<le> cur s q" using lead_invD(4) [OF I(4)] by (auto simp: active_def)
    then show ?thesis
      using c active_grows [OF gr quiet_leads [OF qu] I(4)] rf qu
      by (auto simp: committer_ok_def term_ok_def new_term_def same_log_def quiet_def)
  qed
  show "leader_ok t q"
    using quiet_leader_ok [OF qu] I(6) q log_invD(1) [OF I(2) q] by (auto simp: leader_inv_def)
  show "commit_ok t (cur t q) (lg t q) (rf_commitIndex (rn_rf t q))"
  proof -
    have c: "commit_ok s (cur s q) (lg s q) (rf_commitIndex (rn_rf s q))"
      using I(9) q by (auto simp: commit_inv_def)
    then have "commit_ok t (cur t q) (lg s q) (rf_commitIndex (rn_rf s q))"
      using commit_ok_grows [OF gr c growsD(3) [OF gr]] agree_refl by (auto simp: commit_ok_def)
    then show ?thesis using rf by (simp add: same_log_def)
  qed
  show "rn_taken t q = map (command_msg (lg t q)) [1..<nat (rf_lastApplied (rn_rf t q))]"
    using I(9) q rf by (auto simp: commit_inv_def same_ghost_def same_log_def)
qed


section \<open>Quiet steps\<close>

lemma quietI:
  assumes "q < rn_size s" and "same_log (rn_rf s q) rf" and "term_ok (rn_rf s q) rf"
    and "rf_newOp rf = rf_newOp (rn_rf s q)"
    and "length (rf_nextIndex rf) = length (rf_nextIndex (rn_rf s q))"
    and "length (rf_matchIndex rf) = length (rf_matchIndex (rn_rf s q))" and "match_ok s q rf"
    and "rn_rf t = (rn_rf s)(q := rf)" and "same_ghost s t" and "rn_appReq s \<subseteq> rn_appReq t"
    and "\<And>p T. rn_committer t (p, T) = rn_committer s (p, T) \<or> p = q \<and> rn_committer t (p, T) = None"
    and "\<And>r args reply. (r, args, reply) \<in> rn_voteRep t \<Longrightarrow> rr_Granted reply \<Longrightarrow>
      (r, args, reply) \<in> rn_voteRep s"
  shows "quiet s t q rf"
  using assms unfolding quiet_def by blast

lemma inv_tick:
  assumes inv: "rn_inv s" and q: "q < rn_size s" and tick: "rf_tick (rn_rf s q) = (rf, ts)"
  shows "keeps s (rn_spawn q ts (rn_put q rf s))" (is "keeps s ?t")
proof -
  have ts: "set ts \<subseteq> {GoStartElection}" using tick_effect [OF tick] by blast
  have qu: "quiet s ?t q rf"
    using tick_effect [OF tick] q
    by (intro quietI) (auto simp: rn_defs same_ghost_def same_index_def intro: term_ok_same match_ok_same)
  then show ?thesis
    using quiet_leads [OF qu] ts by (intro quiet_inv [OF inv qu]) (auto simp: net_ok_def rn_defs)
qed

lemma inv_reject:
  assumes inv: "rn_inv s" and q: "r < rn_size s" and vote: "RequestVote args (rn_rf s r) = Some (rf, reply)"
    and "\<not> rr_Granted reply"
  shows "keeps s (rn_put r rf s\<lparr>rn_voteRep := insert (r, args, reply) (rn_voteRep s),
    rn_votes := {} \<union> rn_votes s\<rparr>)" (is "keeps s ?t")
proof -
  have "same_log (rn_rf s r) rf" "same_index (rn_rf s r) rf"
    "same_term (rn_rf s r) rf \<or> new_term (rn_rf s r) rf"
    using vote_effect [OF vote] peer_invD(3) [OF rn_invD(1) [OF inv] q] assms(4) by auto
  then have qu: "quiet s ?t r rf"
    using q assms(4)
    by (intro quietI) (auto simp: rn_defs same_ghost_def same_index_def
        intro: term_ok_same term_ok_new match_ok_same)
  then show ?thesis
    using quiet_leads [OF qu] by (intro quiet_inv [OF inv qu]) (auto simp: net_ok_def rn_defs)
qed

lemma inv_lost:
  assumes inv: "rn_inv s" and q: "q < rn_size s" and "same_log (rn_rf s q) rf"
    and "same_index (rn_rf s q) rf" and "same_term (rn_rf s q) rf \<or> new_term (rn_rf s q) rf"
  shows "keeps s (rn_spawn q [] (rn_put q rf s))" (is "keeps s ?t")
proof -
  have qu: "quiet s ?t q rf"
    using assms
    by (intro quietI) (auto simp: rn_defs same_ghost_def same_index_def
        intro: term_ok_same term_ok_new match_ok_same)
  then show ?thesis
    using quiet_leads [OF qu] by (intro quiet_inv [OF inv qu]) (auto simp: net_ok_def rn_defs)
qed

lemma inv_heartbeat:
  assumes inv: "rn_inv s" and task: "(q, GoHeartbeat T) \<in> rn_tasks s" and q: "q < rn_size s"
    and beat: "heartbeat_round now T (rn_rf s q) = Some (rf, ts)"
  shows "keeps s (rn_spawn q ts (rn_put q rf s))" (is "keeps s ?t")
proof -
  note I = rn_invD [OF inv] and eff = heartbeat_effect [OF beat]
  have ts: "set ts \<subseteq> (\<lambda>p. GoSendLog p T) ` {p. p < rn_size s \<and> p \<noteq> q}"
    using eff peer_invD(1,2) [OF I(1) q] by simp
  have qu: "quiet s ?t q rf"
    using eff q ts
    by (intro quietI) (auto simp: rn_defs same_ghost_def same_index_def intro: term_ok_same match_ok_same)
  have "active s q T" using msg_invD(1) [OF I(5) task] by simp
  then have "active ?t q T"
    using active_grows [OF movesD(2) [OF quiet_moves [OF qu]] quiet_leads [OF qu] I(4)] by blast
  then have "\<forall>x \<in> set ts. task_ok ?t q x" using ts by (auto simp: rn_defs)
  then have "net_ok s ?t" using quiet_leads [OF qu] by (auto simp: net_ok_def rn_defs)
  then show ?thesis by (rule quiet_inv [OF inv qu])
qed

text \<open>The leader's request is an interval of the log of its term.\<close>

lemma built_sent_ok:
  assumes "built (rn_rf s q) p T (SendEntries args n)" and "q < rn_size s" and "st s q = Leader"
    and "cur s q = T" and "p < rn_size s" and "p \<noteq> q" and "lead_inv s" and "commit_inv s"
  shows "sent_ok s (q, p, args, n)"
proof -
  have ll: "rn_ll s T = Some (lg s q)" "rn_lead s T = q"
    using lead_invD(6,7) [OF assms(7,2,3)] assms(4) by auto
  have "commit_ok s T (lg s q) (rf_commitIndex (rn_rf s q))"
    using assms(2,4,8) by (auto simp: commit_inv_def)
  moreover have "rf_commitIndex (rn_rf s q) \<le> n + int (length (ae_Entries args))"
    using calculation assms(1) by (auto simp: commit_ok_def built_def)
  ultimately show ?thesis
    using assms ll by (auto simp: sent_ok_def built_def)
qed

lemma inv_emit:
  assumes inv: "rn_inv s" and q: "q < rn_size s" and act: "active s q T" and T: "cur s q = T"
    and p: "p < rn_size s" "p \<noteq> q" and rf: "same_log (rn_rf s q) rf" "same_term (rn_rf s q) rf"
      "rf_newOp rf = rf_newOp (rn_rf s q)"
      "length (rf_nextIndex rf) = length (rf_nextIndex (rn_rf s q))"
      "length (rf_matchIndex rf) = length (rf_matchIndex (rn_rf s q))" "match_ok s q rf"
    and built: "built (rn_rf s q) p T act"
  shows "keeps s (rn_emit q p act (rn_put q rf s))" (is "keeps s ?t")
proof -
  note I = rn_invD [OF inv]
  have lead: "st s q = Leader" using act T by (auto simp: active_def)
  have nc: "act = SendSnapshot x \<Longrightarrow> x \<noteq> GoCommitter U" for x U
    using built by (auto simp: built_def)
  have qu: "quiet s ?t q rf"
    using q rf nc by (intro quietI) (auto simp: rn_defs same_ghost_def term_ok_same split: send_action.splits)
  have act': "active ?t q T"
    using active_grows [OF movesD(2) [OF quiet_moves [OF qu]] quiet_leads [OF qu] I(4) act] .
  have "net_ok s ?t"
  proof (cases act)
    case (SendSnapshot x)
    with built obtain args where x: "x = GoSendSnapshot p T 1 args" "is_Term args = T" "is_LastIndex args = 0"
      using T by (auto simp: built_def)
    have "task_ok ?t q x" using x act' p SendSnapshot by (simp add: rn_defs)
    then show ?thesis using SendSnapshot quiet_leads [OF qu] by (auto simp: net_ok_def rn_defs)
  next
    case (SendEntries args n)
    have "sent_ok s (q, p, args, n)"
      using built_sent_ok [OF _ q lead T p I(4,9)] built SendEntries by simp
    moreover have "ae_Term args = T" using T built SendEntries by (simp add: built_def)
    ultimately show ?thesis
      using act' SendEntries quiet_leads [OF qu] by (auto simp: net_ok_def rn_emit_def rn_put_def)
  qed
  then show ?thesis by (rule quiet_inv [OF inv qu])
qed

lemma inv_send:
  assumes inv: "rn_inv s" and task: "(q, GoSendLog p T) \<in> rn_tasks s" and q: "q < rn_size s"
    and send: "sendLog_begin p T (rn_rf s q) = Some (Some (rf, act))"
  shows "keeps s (rn_emit q p act (rn_put q rf s))"
proof -
  note I = rn_invD [OF inv]
  have "active s q T" "p < rn_size s" "p \<noteq> q" using msg_invD(1) [OF I(5) task] by auto
  then show ?thesis
    using send_effect [OF send peer_invD(3) [OF I(1) q]] q
    by (intro inv_emit [OF inv]) (auto intro: match_ok_same)
qed


text \<open>A peer that follows the leader of a term did not lead that term itself.\<close>

lemma follow_term_ok:
  assumes "lead_inv s" and "p < rn_size s" and "rn_ll s T \<noteq> None" and "rn_lead s T \<noteq> p"
    and "cur s p \<le> T" and "rf_currentTerm rf = T" and "rf_state rf = Follower"
    and "rf_votedFor rf = (if cur s p = T then rf_votedFor (rn_rf s p) else - 1)"
  shows "term_ok (rn_rf s p) rf"
proof (cases "cur s p = T")
  case True
  then have "st s p \<noteq> Leader" using lead_invD(7) [OF assms(1,2)] assms(4) by blast
  with True show ?thesis using assms by (simp add: term_ok_def)
qed (use assms in \<open>simp add: term_ok_def new_term_def\<close>)

lemma inv_refused:
  assumes inv: "rn_inv s" and req: "(q, p, args, n) \<in> rn_appReq s" and p: "p < rn_size s"
    and app: "AppendEntries args (rn_rf s p) = Some (rf, reply)" and "\<not> ar_Success reply"
  shows "keeps s (rn_put p rf s\<lparr>rn_appRep := insert (q, p, args, n, reply) (rn_appRep s),
    rn_acked := {} \<union> rn_acked s\<rparr>)" (is "keeps s ?t")
proof -
  note I = rn_invD [OF inv]
  have sent: "1 \<le> n" "ae_PrevLogIndex args = n - 1" "rn_ll s (ae_Term args) \<noteq> None"
    "rn_lead s (ae_Term args) \<noteq> p"
    using msg_invD(2) [OF I(5) req] by (auto simp: sent_ok_def)
  then have n: "ae_PrevLogIndex args = int (nat n) - 1" "1 \<le> nat n" by auto
  have eff: "same_log (rn_rf s p) rf \<and> same_index (rn_rf s p) rf \<and> (rf = rn_rf s p \<or>
      cur s p \<le> ae_Term args \<and> rf_currentTerm rf = ae_Term args \<and> rf_state rf = Follower \<and>
      rf_votedFor rf = (if cur s p = ae_Term args then rf_votedFor (rn_rf s p) else - 1))"
    using append_effect [OF app peer_invD(3) [OF I(1) p] n] assms(5) peer_invD(3) [OF I(1) p]
    by (auto simp: same_log_def)
  then have "term_ok (rn_rf s p) rf"
    using follow_term_ok [OF I(4) p sent(3,4)] term_ok_refl by blast
  then have qu: "quiet s ?t p rf"
    using eff p by (intro quietI) (auto simp: rn_defs same_ghost_def same_index_def intro: match_ok_same)
  then show ?thesis
    using quiet_leads [OF qu] assms(5) by (intro quiet_inv [OF inv qu]) (auto simp: net_ok_def rn_defs)
qed

lemma inv_install:
  assumes inv: "rn_inv s" and task: "(q, GoSendSnapshot p T m args) \<in> rn_tasks s" and p: "p < rn_size s"
    and install: "InstallSnapshot args (rn_rf s p) = Some (rf, reply, ts)"
  shows "keeps s (rn_spawn p ts (rn_put p rf s\<lparr>rn_snapRep := insert (q, p, T, m, reply) (rn_snapRep s)\<rparr>))"
    (is "keeps s ?t")
proof -
  note I = rn_invD [OF inv]
  have task: "p \<noteq> q" "m = 1" "is_Term args = T" "is_LastIndex args = 0" "active s q T"
    using msg_invD(1) [OF I(5) task] by auto
  then have lead: "rn_ll s T \<noteq> None" "rn_lead s T \<noteq> p" by (auto simp: active_def)
  note eff = install_effect [OF install peer_invD(3) [OF I(1) p] task(4) peer_invD(5) [OF I(1) p]]
  have "term_ok (rn_rf s p) rf"
    using eff follow_term_ok [OF I(4) p lead] task(3) by (auto intro: term_ok_same)
  then have qu: "quiet s ?t p rf"
    using eff p by (intro quietI) (auto simp: rn_defs same_ghost_def same_index_def intro: match_ok_same)
  have "active ?t q T"
    using active_grows [OF movesD(2) [OF quiet_moves [OF qu]] quiet_leads [OF qu] I(4) task(5)] .
  then show ?thesis
    using quiet_leads [OF qu] eff p task by (intro quiet_inv [OF inv qu]) (auto simp: net_ok_def rn_defs)
qed

lemma inv_install_reply:
  assumes inv: "rn_inv s" and rep: "(q, p, T, m, reply) \<in> rn_snapRep s" and q: "q < rn_size s"
    and step: "sendSnapshot_reply p T m reply (rn_rf s q) = Some (rf, ts)"
  shows "keeps s (rn_spawn q ts (rn_put q rf s))" (is "keeps s ?t")
proof -
  note I = rn_invD [OF inv] and eff = install_reply_effect [OF step]
  have rep: "p < rn_size s" "p \<noteq> q" "m = 1" "active s q T" using msg_invD(6) [OF I(5) rep] by auto
  have ts: "ts = [] \<or> ts = [GoSendLog p T]" using eff by auto
  have "match_ok s q rf"
  proof (cases "rf_matchIndex rf = rf_matchIndex (rn_rf s q)")
    case False
    then have "rf_matchIndex rf = (rf_matchIndex (rn_rf s q))[p := 1]" using eff rep(3) by auto
    then show ?thesis
      using rep(1) peer_invD(4) [OF I(1) q] by (auto simp: match_ok_def nth_list_update)
  qed (rule match_ok_same)
  moreover have "term_ok (rn_rf s q) rf" using eff by (auto intro: term_ok_same term_ok_new)
  ultimately have qu: "quiet s ?t q rf"
    using eff q ts by (intro quietI) (auto simp: rn_defs same_ghost_def)
  have "active ?t q T"
    using active_grows [OF movesD(2) [OF quiet_moves [OF qu]] quiet_leads [OF qu] I(4) rep(4)] .
  then have "\<forall>x \<in> set ts. task_ok ?t q x" using ts rep by (auto simp: rn_defs)
  then show ?thesis
    using quiet_leads [OF qu] by (intro quiet_inv [OF inv qu]) (auto simp: net_ok_def rn_defs)
qed

text \<open>The leader reads the reply to a request: a success is an acknowledgement.\<close>

lemma reply_quiet:
  assumes inv: "rn_inv s" and snd: "(q, p, args, n) \<in> rn_sending s"
    and rep: "(q, p, args, n, reply) \<in> rn_appRep s"
    and step: "sendLog_reply p (ae_Term args) args n reply (rn_rf s q) = Some (rf, again)"
  shows "same_log (rn_rf s q) rf \<and> rf_newOp rf = rf_newOp (rn_rf s q) \<and>
    length (rf_nextIndex rf) = length (rf_nextIndex (rn_rf s q)) \<and>
    length (rf_matchIndex rf) = length (rf_matchIndex (rn_rf s q)) \<and> term_ok (rn_rf s q) rf \<and>
    match_ok s q rf \<and> (again \<longrightarrow> same_term (rn_rf s q) rf \<and> cur s q = ae_Term args) \<and>
    active s q (ae_Term args) \<and> p < rn_size s \<and> p \<noteq> q"
proof -
  note I = rn_invD [OF inv] and eff = reply_effect [OF step]
  have sent: "sent_ok s (q, p, args, n)" and act: "active s q (ae_Term args)"
    using msg_invD(2-4) [OF I(5)] snd by auto
  then have q: "q < rn_size s" and p: "p < rn_size s" "p \<noteq> q" by (auto simp: active_def sent_ok_def)
  let ?e = "n + int (length (ae_Entries args))"
  have "match_ok s q rf"
  proof (cases "rf_matchIndex rf = rf_matchIndex (rn_rf s q)")
    case False
    then have m: "rf_matchIndex rf = (rf_matchIndex (rn_rf s q))[p := ?e]" "ar_Success reply"
      "cur s q = ae_Term args" "rf_currentTerm rf = cur s q" "rf_logs rf = lg s q"
      using eff by (auto simp: same_term_def same_log_def)
    then have "rn_ll s (ae_Term args) = Some (lg s q)"
      using lead_invD(6) [OF I(4) q] act by (auto simp: active_def)
    then have "?e \<le> int (length (lg s q))" using sent by (auto simp: sent_ok_def)
    moreover have "acked_ge s p (cur s q) (nat ?e)"
      using msg_invD(5) [OF I(5) rep m(2)] m(3) by (auto simp: acked_ge_def)
    ultimately show ?thesis
      using m p peer_invD(4) [OF I(1) q] by (auto simp: match_ok_def nth_list_update)
  qed (rule match_ok_same)
  moreover have "term_ok (rn_rf s q) rf"
    using eff by (auto intro: term_ok_same term_ok_new simp: new_term_def)
  ultimately show ?thesis using eff act p by auto
qed

lemma inv_append_reply:
  assumes inv: "rn_inv s" and "(q, p, args, n) \<in> rn_sending s" and "(q, p, args, n, reply) \<in> rn_appRep s"
    and q: "q < rn_size s"
    and "sendLog_reply p (ae_Term args) args n reply (rn_rf s q) = Some (rf, again)"
  shows "keeps s (rn_put q rf s)" (is "keeps s ?t")
proof -
  have qu: "quiet s ?t q rf"
    using reply_quiet [OF inv assms(2,3,5)] q by (intro quietI) (auto simp: rn_defs same_ghost_def)
  then show ?thesis
    using quiet_leads [OF qu] by (intro quiet_inv [OF inv qu]) (auto simp: net_ok_def rn_defs)
qed

lemma inv_append_retry:
  assumes inv: "rn_inv s" and "(q, p, args, n) \<in> rn_sending s" and "(q, p, args, n, reply) \<in> rn_appRep s"
    and q: "q < rn_size s"
    and rep: "sendLog_reply p (ae_Term args) args n reply (rn_rf s q) = Some (rf, True)"
    and build: "sendLog_build p (ae_Term args) rf = Some (rf', act)"
  shows "keeps s (rn_emit q p act (rn_put q rf' s))"
proof -
  note I = rn_invD [OF inv] and eff = reply_quiet [OF inv assms(2,3) rep]
  have "rf_startIndex rf = 0" using eff peer_invD(3) [OF I(1) q] by (simp add: same_log_def)
  note eff' = build_effect [OF build this]
  have "same_log (rn_rf s q) rf'" "same_term (rn_rf s q) rf'"
    using eff eff' by (auto simp: same_log_def same_term_def)
  moreover have "match_ok s q rf'"
    using eff eff' unfolding match_ok_def by (auto simp: same_log_def same_term_def)
  moreover have "built (rn_rf s q) p (ae_Term args) act"
    using eff eff' by (auto simp: built_def same_log_def same_term_def split: send_action.splits)
  ultimately show ?thesis
    using eff eff' q by (intro inv_emit [OF inv]) auto
qed

lemma inv_commit_exit:
  assumes inv: "rn_inv s" and q: "q < rn_size s"
  shows "keeps s (s\<lparr>rn_committer := (rn_committer s)((q, T) := None)\<rparr>)" (is "keeps s ?t")
proof -
  have qu: "quiet s ?t q (rn_rf s q)"
    using q by (intro quietI) (auto simp: same_ghost_def same_log_def term_ok_def match_ok_same)
  then show ?thesis
    using quiet_leads [OF qu] by (intro quiet_inv [OF inv qu]) (auto simp: net_ok_def)
qed

end
