(* ===== verification/Raft_Preserve.thy ===== *)
theory Raft_Preserve
  imports Raft_Steps
begin

text \<open>
  The steps that vote, campaign, commit, apply, restart or win an election keep the
  invariant.
\<close>

section \<open>Votes\<close>

text \<open>
  RequestVote grants its vote only to a candidate whose log keeps what the voter has
  acknowledged.
\<close>

lemma uptodate_covers:
  assumes log: "log_inv s" and lead: "lead_inv s" and C: "log_ok (rn_ll s) C"
    "\<forall>i < length C. tm C i < U"
    and L: "log_ok (rn_ll s) L" and upto: "uptodate args L" "rv_LastLogTerm args = lg_Term (last C)"
    "rv_LastLogIndex args = int (length C) - 1"
    and G: "rn_ll s T = Some G" "agree n L G" "1 \<le> n" "tm G (n - 1) = T" "kept s T U n G"
  shows "agree n C G"
proof -
  let ?i = "length C - 1"
  have ne: "C \<noteq> []" "L \<noteq> []" using C L by (auto simp: log_ok_def)
  then have last: "lg_Term (last C) = tm C ?i" "lg_Term (last L) = tm L (length L - 1)"
    by (simp_all add: last_conv_nth)
  have "tm L (n - 1) = T" using G(2-4) agree_nth [OF G(2), of "n - 1"] by simp
  moreover have "n \<le> length L" using G(2) by (simp add: agree_def)
  moreover have "n - 1 \<le> length L - 1" "length L - 1 < length L" using calculation(2) ne by (auto simp: Suc_le_eq)
  ultimately have LT: "T \<le> tm L (length L - 1)" using log_ok_mono [OF L] by metis
  have T1: "1 \<le> T" using lead_invD(1) [OF lead G(1)] .
  have le: "tm L (length L - 1) \<le> tm C ?i" using upto last by (auto simp: uptodate_def)
  have "?i \<noteq> 0"
  proof
    assume "?i = 0"
    then have "tm C ?i = 0" using C by (simp add: log_ok_def dummy_def)
    then show False using LT le T1 by simp
  qed
  then have i: "1 \<le> ?i" "?i < length C" by auto
  then obtain H where H: "rn_ll s (tm C ?i) = Some H" "agree (Suc ?i) C H"
    using C(1) unfolding log_ok_def by blast
  show ?thesis
  proof (cases "tm C ?i = T")
    case True
    then have "length L \<le> length C" using upto last LT le by (auto simp: uptodate_def)
    then have "n \<le> Suc ?i" using \<open>n \<le> length L\<close> by simp
    then show ?thesis using H True G(1) agree_less by (metis option.inject)
  next
    case False
    then have "T < tm C ?i" "tm C ?i < U" using LT le C(2) i by auto
    then have HG: "agree n H G" using G(5) H(1) unfolding kept_def by blast
    have "n \<le> Suc ?i"
    proof (rule ccontr)
      assume n: "\<not> n \<le> Suc ?i"
      have "tm G ?i = tm C ?i" using agree_nth [OF HG, of ?i] agree_nth [OF H(2), of ?i] n by simp
      moreover have "tm G ?i \<le> T" using log_invD(4) [OF log G(1)] n HG by (auto simp: agree_def)
      ultimately show False using \<open>T < tm C ?i\<close> by simp
    qed
    then show ?thesis using agree_trans [OF agree_less [OF H(2)] HG] by blast
  qed
qed

lemma ack_invD:
  assumes "ack_inv s" and "acked_ge s p T n" and "rn_ll s T = Some G" and "kept s T (cur s p + 1) n G"
  shows "agree n (lg s p) G"
proof -
  obtain m where m: "n \<le> m" "(p, T, m) \<in> rn_acked s" using assms(2) by (auto simp: acked_ge_def)
  then obtain G' where "rn_ll s T = Some G'" "\<forall>n \<le> m. kept s T (cur s p + 1) n G' \<longrightarrow> agree n (lg s p) G'"
    using assms(1) unfolding ack_inv_def by blast
  then show ?thesis using m(1) assms(3,4) by simp
qed

lemma voter_covers:
  assumes I: "ack_inv s" "log_inv s" "lead_inv s" and r: "r < rn_size s" and cand: "cand_ok s args c"
    and upto: "uptodate args (lg s r)" and U: "cur s r \<le> rv_Term args" and none: "rn_ll s (rv_Term args) = None"
  shows "covers s r (rv_Term args) (rn_cand s (rv_Term args, c))"
  unfolding covers_def
proof (intro allI impI)
  fix T n G
  assume a: "T < rv_Term args" "acked_ge s r T n" "rn_ll s T = Some G" "1 \<le> n" "tm G (n - 1) = T"
    "kept s T (rv_Term args) n G"
  have "kept s T (cur s r + 1) n G"
    unfolding kept_def
  proof (intro allI impI)
    fix V H assume V: "T < V" "V < cur s r + 1" "rn_ll s V = Some H"
    then have "V \<noteq> rv_Term args" using none by auto
    then have "V < rv_Term args" using V(2) U by linarith
    from a(6) [unfolded kept_def, rule_format, OF V(1) this V(3)] show "agree n H G" .
  qed
  then have L: "agree n (lg s r) G" by (rule ack_invD [OF I(1) a(2,3)])
  show "agree n (rn_cand s (rv_Term args, c)) G"
    using cand
    by (intro uptodate_covers [OF I(2,3) _ _ log_invD(1) [OF I(2) r] upto _ _ a(3) L a(4-6)])
       (simp_all add: cand_ok_def)
qed

lemma covers_same:
  "rn_ll t = rn_ll s \<Longrightarrow> rn_acked t = rn_acked s \<Longrightarrow> covers t r U C = covers s r U C"
  by (simp add: covers_def acked_ge_def kept_def)

lemma commit_ok_same:
  assumes "grows s t" and "commit_inv s" and "q < rn_size s" and "lg t q = lg s q"
    and "rf_commitIndex (rn_rf t q) = rf_commitIndex (rn_rf s q)"
  shows "commit_ok t (cur t q) (lg t q) (rf_commitIndex (rn_rf t q))"
proof -
  have c: "commit_ok s (cur s q) (lg s q) (rf_commitIndex (rn_rf s q))"
    using assms(2,3) by (auto simp: commit_inv_def)
  then have "agree (nat (rf_commitIndex (rn_rf s q))) (lg s q) (lg s q)"
    by (auto simp: commit_ok_def intro: agree_refl)
  then show ?thesis using commit_ok_grows [OF assms(1) c growsD(3) [OF assms(1)]] assms(4,5) by simp
qed


text \<open>The committers and the bookkeeping of a leader, when the step does not touch them.\<close>

lemma committer_kept:
  assumes "leader_inv s" and "lead_inv s" and gr: "grows s t" and "leads s t q"
    and "rn_committer t (q, T) = Some b" and "rn_committer t (q, T) = rn_committer s (q, T)"
    and "cur t q = cur s q \<Longrightarrow> rf_newOp (rn_rf t q) = rf_newOp (rn_rf s q) \<and>
      rf_commitIndex (rn_rf t q) = rf_commitIndex (rn_rf s q)"
  shows "active t q T \<and> committer_ok (rn_rf t q) T b"
proof -
  have c: "active s q T" "committer_ok (rn_rf s q) T b"
    using assms(1,5,6) unfolding leader_inv_def by metis+
  then have "T \<le> cur s q" using lead_invD(4) [OF assms(2)] by (auto simp: active_def)
  then show ?thesis
    using c active_grows [OF gr assms(4,2) c(1)] growsD(3) [OF gr, of q] assms(7)
    by (cases "cur t q = cur s q") (auto simp: committer_ok_def)
qed

lemma leader_kept:
  assumes "leader_inv s" and "q < rn_size s" and gr: "grows s t"
    and "st t q = Leader \<Longrightarrow> st s q = Leader \<and> cur t q = cur s q \<and> lg t q = lg s q \<and>
      rf_newOp (rn_rf t q) = rf_newOp (rn_rf s q) \<and> rf_matchIndex (rn_rf t q) = rf_matchIndex (rn_rf s q)"
  shows "leader_ok t q"
  using assms acked_ge_grows [OF gr] growsD(2) [OF gr]
  by (auto simp: leader_ok_def leader_inv_def)

lemma inv_granted:
  assumes inv: "rn_inv s" and req: "args \<in> rn_voteReq s" and r: "r < rn_size s"
    and other: "int r \<noteq> rv_CandidateId args"
    and vote: "RequestVote args (rn_rf s r) = Some (rf, reply)" and "rr_Granted reply"
  shows "keeps s (rn_put r rf s\<lparr>rn_voteRep := insert (r, args, reply) (rn_voteRep s),
    rn_votes := {(r, rv_Term args, nat (rv_CandidateId args))} \<union> rn_votes s\<rparr>)" (is "keeps s ?t")
proof -
  note I = rn_invD [OF inv]
  have eff: "same_log (rn_rf s r) rf" "same_index (rn_rf s r) rf" "rf_currentTerm rf = rv_Term args"
    "rf_votedFor rf = rv_CandidateId args" "uptodate args (lg s r)" "cur s r \<le> rv_Term args"
    "cur s r = rv_Term args \<Longrightarrow> rf_votedFor (rn_rf s r) \<in> {- 1, rv_CandidateId args} \<and> rf_state rf = st s r"
    "cur s r \<noteq> rv_Term args \<Longrightarrow> rf_state rf = Follower"
    using vote_effect [OF vote peer_invD(3) [OF I(1) r]] assms(6) by auto
  obtain c where c: "cand_ok s args c" using vote_invD(9) [OF I(3) req] by blast
  then have c': "c < rn_size s" "rv_CandidateId args = int c" "(c, rv_Term args, c) \<in> rn_votes s" "c \<noteq> r"
    using other by (auto simp: cand_ok_def)
  have t: "rn_rf ?t r = rf" "\<And>p. p \<noteq> r \<Longrightarrow> rn_rf ?t p = rn_rf s p" by (simp_all add: rn_put_def)
  have gr: "grows s ?t" using eff(3,6) by (auto simp: grows_def rn_put_def)
  have m: "moves s ?t r" unfolding moves_def using r gr eff by (auto simp: rn_put_def)
  have lead: "leads s ?t p" for p using eff(3,7) by (auto simp: leads_def rn_put_def)
  show ?thesis
  proof (rule inv_same_log [OF inv m])
    show "net_ok s ?t" using lead by (auto simp: net_ok_def rn_put_def)
    show "lg ?t r = lg s r" using eff(1) t by (simp add: same_log_def)
    show "peer_ok (rn_size s) r (rn_rf ?t r)"
      using eff I(1) r t vote_invD(3) [OF I(3) c'(3)]
      by (auto simp: peer_inv_def peer_ok_def same_log_def same_index_def)
    have "covers ?t r (rv_Term args) (rn_cand s (rv_Term args, c))" if "rn_ll s (rv_Term args) = None"
      using voter_covers [OF I(7,2,4) r c eff(5,6) that] covers_same [of ?t s] by (simp add: rn_put_def)
    moreover have "rv_Term args \<le> cur ?t c" using vote_invD(5) [OF I(3) c'(3)] t(2) c'(4) by simp
    ultimately have "new_vote ?t r r (rv_Term args) c"
      using eff c' vote_invD(3) [OF I(3) c'(3)] t by (simp add: new_vote_def rn_put_def)
    then show "(p, T, k) \<in> rn_votes s \<or> new_vote ?t r p T k" if "(p, T, k) \<in> rn_votes ?t" for p T k
      using that c'(2) by auto
    show "st s r = Leader \<and> cur ?t r = cur s r" if "st ?t r = Leader"
      using that eff(3,7,8) t by (cases "cur s r = rv_Term args") auto
    show "rn_cand ?t (cur ?t r, r) = lg ?t r \<and> \<not> (rn_ll ?t (cur ?t r) \<noteq> None \<and> rn_lead ?t (cur ?t r) = r)"
      if "st ?t r = Candidate"
    proof -
      have "cur s r = rv_Term args" "st s r = Candidate"
        using that eff(7,8) t by (cases "cur s r = rv_Term args"; auto)+
      then show ?thesis
        using lead_invD(8,9) [OF I(4) r] eff(1,3) t by (auto simp: same_log_def rn_put_def)
    qed
    show "active ?t r T \<and> committer_ok (rn_rf ?t r) T b" if "rn_committer ?t (r, T) = Some b" for T b
      using eff(1,2) t that by (intro committer_kept [OF I(6,4) gr lead]) (auto simp: rn_put_def same_defs)
    show "leader_ok ?t r"
    proof (rule leader_kept [OF I(6) r gr])
      assume "st ?t r = Leader"
      then show "st s r = Leader \<and> cur ?t r = cur s r \<and> lg ?t r = lg s r \<and>
          rf_newOp (rn_rf ?t r) = rf_newOp (rn_rf s r) \<and>
          rf_matchIndex (rn_rf ?t r) = rf_matchIndex (rn_rf s r)"
        using eff t by (cases "cur s r = rv_Term args") (auto simp: same_defs)
    qed
    show "commit_ok ?t (cur ?t r) (lg ?t r) (rf_commitIndex (rn_rf ?t r))"
      using eff(1) t by (intro commit_ok_same [OF gr I(9) r]) (auto simp: same_log_def)
    show "rn_taken ?t r = map (command_msg (lg ?t r)) [1..<nat (rf_lastApplied (rn_rf ?t r))]"
      using I(9) r eff(1) t by (auto simp: commit_inv_def same_log_def rn_put_def)
  qed (use c'(2) in \<open>auto simp: rn_put_def\<close>)
qed

lemma inv_campaign:
  assumes inv: "rn_inv s" and q: "q < rn_size s" and beg: "election_begin (rn_rf s q) = Some (Some (rf, args))"
  shows "keeps s (rn_put q rf s\<lparr>rn_voteReq := insert args (rn_voteReq s),
      rn_votes := insert (q, rv_Term args, q) (rn_votes s),
      rn_cand := (rn_cand s)((rv_Term args, q) := rf_logs rf)\<rparr>)" (is "keeps s ?t")
proof -
  note I = rn_invD [OF inv]
  have me: "rf_me (rn_rf s q) = q" using peer_invD(2) [OF I(1) q] .
  have eff: "same_log (rn_rf s q) rf" "same_index (rn_rf s q) rf" "rf_currentTerm rf = cur s q + 1"
    "rf_votedFor rf = int q" "rf_state rf = Candidate" "st s q \<noteq> Leader" "rv_Term args = cur s q + 1"
    "rv_CandidateId args = int q" "lg s q \<noteq> []" "rv_LastLogTerm args = lg_Term (last (lg s q))"
    "rv_LastLogIndex args = int (length (lg s q)) - 1"
    using campaign_effect [OF beg peer_invD(3) [OF I(1) q]] me by auto
  have t: "rn_rf ?t q = rf" "\<And>p. p \<noteq> q \<Longrightarrow> rn_rf ?t p = rn_rf s p" by (simp_all add: rn_put_def)
  have gr: "grows s ?t" using eff(3,7) by (auto simp: grows_def rn_put_def)
  have m: "moves s ?t q" unfolding moves_def using q gr eff(3) by (auto simp: rn_put_def)
  have lead: "leads s ?t p" for p using eff(3) by (auto simp: leads_def rn_put_def)
  have logs: "rf_logs rf = lg s q" using eff(1) by (simp add: same_log_def)
  show ?thesis
  proof (rule inv_same_log [OF inv m])
    show "net_ok s ?t" using lead by (auto simp: net_ok_def rn_put_def)
    show "lg ?t q = lg s q" using logs t by simp
    show "peer_ok (rn_size s) q (rn_rf ?t q)"
      using eff I(1) q t by (auto simp: peer_inv_def peer_ok_def same_log_def same_index_def)
    have "covers s q (cur s q + 1) (lg s q)"
      unfolding covers_def using ack_invD [OF I(7)] by blast
    then have "new_vote ?t q q (rv_Term args) q"
      using eff peer_invD(6) [OF I(1) q] t logs q covers_same [of ?t s] by (simp add: new_vote_def rn_put_def)
    then show "(p, T, k) \<in> rn_votes s \<or> new_vote ?t q p T k" if "(p, T, k) \<in> rn_votes ?t" for p T k
      using that by auto
    have "cand_ok ?t args q"
      using q eff logs log_invD(1,2) [OF I(2) q] by (fastforce simp: cand_ok_def rn_put_def)
    then show "x \<in> rn_voteReq s \<or> cand_ok ?t x q" if "x \<in> rn_voteReq ?t" for x
      using that by (auto simp: rn_put_def)
    have "rn_lead s (cur s q + 1) \<noteq> q" if "rn_ll s (cur s q + 1) \<noteq> None"
      using lead_invD(4) [OF I(4)] that by force
    then show "rn_cand ?t (cur ?t q, q) = lg ?t q \<and>
        \<not> (rn_ll ?t (cur ?t q) \<noteq> None \<and> rn_lead ?t (cur ?t q) = q)"
      using eff(3,7) t by (cases "rn_ll s (cur s q + 1)") (auto simp: rn_put_def)
    show "active ?t q T \<and> committer_ok (rn_rf ?t q) T b" if "rn_committer ?t (q, T) = Some b" for T b
      using eff(1,2) t that by (intro committer_kept [OF I(6,4) gr lead]) (auto simp: rn_put_def same_defs)
    show "leader_ok ?t q" using eff(5) t by (simp add: leader_ok_def)
    show "commit_ok ?t (cur ?t q) (lg ?t q) (rf_commitIndex (rn_rf ?t q))"
      using eff(1) t by (intro commit_ok_same [OF gr I(9) q]) (auto simp: same_log_def)
    show "rn_taken ?t q = map (command_msg (lg ?t q)) [1..<nat (rf_lastApplied (rn_rf ?t q))]"
      using I(9) q eff(1) t by (auto simp: commit_inv_def same_log_def rn_put_def)
  qed (use eff(5) in \<open>auto simp: rn_put_def\<close>)
qed


section \<open>Committing, applying, restarting\<close>

lemma leader_commits:
  assumes inv: "rn_inv s" and q: "q < rn_size s" and lead: "st s q = Leader"
    and c: "rf_newOp (rn_rf s q) < c" "rf_newOp (rn_rf s q) \<noteq> 0" "c \<le> int (length (lg s q))"
    and quorum: "quorum_has (rn_rf s q) (c - 1)"
  shows "committed s (cur s q) (nat c)"
proof -
  note I = rn_invD [OF inv]
  let ?rf = "rn_rf s q" and ?L = "lg s q" and ?T = "cur s q"
  have ok: "1 \<le> rf_newOp ?rf" "tm ?L (nat (rf_newOp ?rf)) = ?T" "acked_ge s q ?T (length ?L)"
    "\<And>p. p < rn_size s \<Longrightarrow> p \<noteq> q \<Longrightarrow> 1 < rf_matchIndex ?rf ! p \<Longrightarrow>
      acked_ge s p ?T (nat (rf_matchIndex ?rf ! p))"
    using I(6) q lead c(2) by (auto simp: leader_inv_def leader_ok_def)
  have ge: "acked_ge s p ?T (nat c)" if "acked_ge s p ?T m" "nat c \<le> m" for p m
    using that unfolding acked_ge_def by (meson order_trans)
  have Q: "insert q (matched ?rf (c - 1)) \<subseteq> {p. p < rn_size s \<and> acked_ge s p ?T (nat c)}"
  proof (intro subsetI CollectI)
    fix p assume p: "p \<in> insert q (matched ?rf (c - 1))"
    show "p < rn_size s \<and> acked_ge s p ?T (nat c)"
    proof (cases "p = q")
      case True
      then show ?thesis using q ge [OF ok(3)] c(3) by simp
    next
      case False
      then have "p < rn_size s" "c \<le> rf_matchIndex ?rf ! p"
        using p peer_invD(1) [OF I(1) q] by (auto simp: matched_def)
      then show ?thesis using ge [OF ok(4) [OF _ False]] c(1) ok(1) by simp
    qed
  qed
  have "card (insert q (matched ?rf (c - 1))) = 1 + card (matched ?rf (c - 1))"
    using peer_invD(2) [OF I(1) q] by (subst card_insert_disjoint) (auto simp: matched_def)
  then have "majority (rn_size s) (insert q (matched ?rf (c - 1)))"
    using quorum peer_invD(1) [OF I(1) q] q by (auto simp: majority_def quorum_has_def matched_def)
  then have "majority (rn_size s) {p. p < rn_size s \<and> acked_ge s p ?T (nat c)}"
    using Q by (rule majority_mono) auto
  moreover have "tm ?L (nat c - 1) = ?T"
  proof (rule antisym)
    have i: "nat (rf_newOp ?rf) \<le> nat c - 1" "nat c - 1 < length ?L" using c ok(1) by linarith+
    show "tm ?L (nat c - 1) \<le> ?T" using log_invD(2) [OF I(2) q i(2)] .
    show "?T \<le> tm ?L (nat c - 1)" using log_ok_mono [OF log_invD(1) [OF I(2) q] i] ok(2) by simp
  qed
  moreover have "2 \<le> nat c" "nat c \<le> length ?L" using c ok(1) by auto
  ultimately show ?thesis
    using lead_invD(6) [OF I(4) q lead] unfolding committed_def by blast
qed

lemma inv_commit:
  assumes inv: "rn_inv s" and comm: "rn_committer s (q, T) = Some b" and q: "q < rn_size s"
    and round: "committer_round T b (rn_rf s q) = Some (Some (rf, b', w))"
  shows "keeps s (rn_put q rf s\<lparr>rn_committer := (rn_committer s)((q, T) \<mapsto> b')\<rparr>)" (is "keeps s ?t")
proof -
  note I = rn_invD [OF inv]
  let ?r = "rn_rf s q"
  have T: "cur s q = T" using round by (auto simp: committer_round_def split: if_splits)
  have act: "active s q T" and cok: "committer_ok ?r T b"
    using I(6) comm unfolding leader_inv_def by blast+
  then have lead: "st s q = Leader" using T by (simp add: active_def)
  have ll: "rn_ll s T = Some (lg s q)" using lead_invD(6) [OF I(4) q lead] T by simp
  have cm: "commit_ok s T (lg s q) (rf_commitIndex ?r)" using I(9) q T by (auto simp: commit_inv_def)
  have lok: "leader_ok s q" using I(6) q by (simp add: leader_inv_def)
  have no: "rf_newOp ?r \<noteq> 0" "rf_newOp ?r < int (length (lg s q))"
    using cok lok lead T by (auto simp: committer_ok_def leader_ok_def)
  have c0: "1 \<le> rf_commitIndex ?r" "rf_commitIndex ?r \<le> int (length (lg s q))"
    using cm by (auto simp: commit_ok_def)
  have mt: "\<forall>p < rf_peers ?r. p \<noteq> rf_me ?r \<longrightarrow> rf_matchIndex ?r ! p \<le> int (length (lg s q))"
    using lok lead peer_invD(1,2) [OF I(1) q] by (simp add: leader_ok_def)
  have eff: "rf = ?r\<lparr>rf_commitIndex := rf_commitIndex rf\<rparr>"
    "b' = b \<and> rf_commitIndex rf = rf_commitIndex ?r \<or>
     b \<and> b' \<and> rf_commitIndex ?r < rf_commitIndex rf \<and> quorum_has ?r (rf_commitIndex rf - 1) \<and>
       rf_commitIndex rf \<le> int (length (lg s q)) \<or>
     \<not> b \<and> b' \<and> rf_commitIndex rf = rf_newOp ?r + 1 \<and> quorum_has ?r (rf_newOp ?r)"
    using commit_effect [OF round _ _ peer_invD(3) [OF I(1) q] c0(2) mt] peer_invD(1,4) [OF I(1) q]
      lead_invD(2) [OF I(4) ll] by auto
  define c where "c = rf_commitIndex rf"
  have rf: "rf = ?r\<lparr>rf_commitIndex := c\<rparr>" using eff(1) by (simp add: c_def)
  have ge: "rf_commitIndex ?r \<le> c"
    using eff(2) cok T unfolding c_def [symmetric] by (auto simp: committer_ok_def)
  have new: "commit_ok s T (lg s q) c"
  proof (cases "c = rf_commitIndex ?r")
    case False
    then have x: "rf_newOp ?r < c" "c \<le> int (length (lg s q))" "quorum_has ?r (c - 1)"
      using eff(2) cok T no unfolding c_def [symmetric] by (auto simp: committer_ok_def)
    have "committed s T (nat c)" using leader_commits [OF inv q lead x(1) no(1) x(2,3)] T by simp
    then show ?thesis
      using ll x(2) ge c0(1) unfolding commit_ok_def by (force intro: agree_refl)
  qed (use cm in simp)
  have t: "rn_rf ?t q = rf" by (simp add: rn_put_def)
  have gr: "grows s ?t" using rf by (auto simp: grows_def rn_put_def)
  have m: "moves s ?t q" unfolding moves_def using q gr rf by (auto simp: rn_put_def)
  have leads: "leads s ?t p" for p using rf by (auto simp: leads_def rn_put_def)
  show ?thesis
  proof (rule inv_same_log [OF inv m])
    show "net_ok s ?t" using leads by (auto simp: net_ok_def rn_put_def)
    show "lg ?t q = lg s q" using rf t by simp
    show "peer_ok (rn_size s) q (rn_rf ?t q)" using I(1) q rf t ge by (auto simp: peer_inv_def peer_ok_def)
    show "active ?t q U \<and> committer_ok (rn_rf ?t q) U b''" if "rn_committer ?t (q, U) = Some b''" for U b''
    proof (cases "U = T")
      case True
      have "active ?t q T" using active_grows [OF gr leads I(4) act] .
      moreover have "committer_ok rf T b'"
        using eff(2) cok T no(1) unfolding c_def [symmetric] rf by (auto simp: committer_ok_def)
      ultimately show ?thesis using True that t by simp
    next
      case False
      then have "rn_committer s (q, U) = Some b''" using that by (simp add: rn_put_def)
      then have "active s q U" using I(6) unfolding leader_inv_def by blast
      then show ?thesis
        using active_grows [OF gr leads I(4)] False T rf t by (auto simp: committer_ok_def)
    qed
    show "leader_ok ?t q" by (rule leader_kept [OF I(6) q gr]) (use rf t in auto)
    have "agree (nat c) (lg s q) (lg s q)" using new by (auto simp: commit_ok_def intro: agree_refl)
    then show "commit_ok ?t (cur ?t q) (lg ?t q) (rf_commitIndex (rn_rf ?t q))"
      using commit_ok_grows [OF gr new order_refl] rf t T by simp
    show "rn_taken ?t q = map (command_msg (lg ?t q)) [1..<nat (rf_lastApplied (rn_rf ?t q))]"
      using I(9) q rf t by (auto simp: commit_inv_def rn_put_def)
    show "rn_cand ?t (cur ?t q, q) = lg ?t q \<and> \<not> (rn_ll ?t (cur ?t q) \<noteq> None \<and> rn_lead ?t (cur ?t q) = q)"
      if "st ?t q = Candidate"
      using that lead rf t by simp
  qed (use rf in \<open>auto simp: rn_put_def\<close>)
qed


lemma applier_delivers:
  assumes inv: "rn_inv s" and q: "q < rn_size s"
  shows "applier_round (rn_rf s q) = Some (if rf_lastApplied (rn_rf s q) < rf_commitIndex (rn_rf s q)
    then ((rn_rf s q)\<lparr>rf_lastApplied := rf_commitIndex (rn_rf s q)\<rparr>, ApplyMsgs (map (command_msg (lg s q))
       [nat (rf_lastApplied (rn_rf s q))..<nat (rf_commitIndex (rn_rf s q))]))
    else (rn_rf s q, ApplyWait))"
proof -
  note I = rn_invD [OF inv]
  let ?r = "rn_rf s q"
  have "commit_ok s (cur s q) (lg s q) (rf_commitIndex ?r)" using I(9) q by (auto simp: commit_inv_def)
  then show ?thesis
    using applier_effect [of ?r "nat (rf_commitIndex ?r)" "nat (rf_lastApplied ?r)"]
      peer_invD(3,5,7,8) [OF I(1) q] by (auto simp: commit_ok_def)
qed

text \<open>Nothing but the service depends on how much of the last batch has been sent.\<close>

lemma task_ok_sent: "task_ok (s\<lparr>rn_sent := f\<rparr>) q x = task_ok s q x"
  by (cases x) (simp_all add: active_def)

lemma inv_deliver:
  assumes "rn_inv s"
  shows "keeps s (s\<lparr>rn_sent := f\<rparr>)"
proof -
  let ?t = "s\<lparr>rn_sent := f\<rparr>"
  have parts: "active ?t = active s" "acked_ge ?t = acked_ge s" "committed ?t = committed s"
    "kept ?t = kept s" "cand_ok ?t = cand_ok s"
    by (auto simp: fun_eq_iff active_def acked_ge_def committed_def kept_def cand_ok_def)
  have more: "commit_ok ?t = commit_ok s" "covers ?t = covers s" "leader_ok ?t = leader_ok s"
    by (auto simp: fun_eq_iff commit_ok_def covers_def leader_ok_def parts)
  have sent: "sent_ok ?t = sent_ok s" by (auto simp: fun_eq_iff sent_ok_def more)
  have "rn_inv ?t = rn_inv s"
    by (simp add: rn_inv_def peer_inv_def log_inv_def vote_inv_def lead_inv_def msg_inv_def leader_inv_def
        ack_inv_def poll_inv_def commit_inv_def task_ok_sent parts more sent)
  with assms show ?thesis by (simp add: keeps_def grows_def)
qed

lemma inv_apply:
  assumes inv: "rn_inv s" and q: "q < rn_size s"
    and round: "applier_round (rn_rf s q) = Some (rf, ApplyMsgs msgs)"
  shows "keeps s (rn_put q rf s\<lparr>rn_taken := (rn_taken s)(q := rn_taken s q @ msgs)\<rparr>)" (is "keeps s ?t")
proof -
  note I = rn_invD [OF inv]
  let ?r = "rn_rf s q"
  have eff: "rf = ?r\<lparr>rf_lastApplied := rf_commitIndex ?r\<rparr>"
    "msgs = map (command_msg (lg s q)) [nat (rf_lastApplied ?r)..<nat (rf_commitIndex ?r)]"
    using round applier_delivers [OF inv q] by (auto split: if_splits)
  have t: "rn_rf ?t q = rf" by (simp add: rn_put_def)
  have gr: "grows s ?t" using eff(1) by (auto simp: grows_def rn_put_def)
  have m: "moves s ?t q" unfolding moves_def using q gr eff(1) by (auto simp: rn_put_def)
  have leads: "leads s ?t p" for p using eff(1) by (auto simp: leads_def rn_put_def)
  show ?thesis
  proof (rule inv_same_log [OF inv m])
    show "net_ok s ?t" using leads by (auto simp: net_ok_def rn_put_def)
    show "lg ?t q = lg s q" using eff(1) t by simp
    show "peer_ok (rn_size s) q (rn_rf ?t q)"
      using I(1) q eff(1) t by (auto simp: peer_inv_def peer_ok_def)
    show "active ?t q T \<and> committer_ok (rn_rf ?t q) T b" if "rn_committer ?t (q, T) = Some b" for T b
      using eff(1) t that by (intro committer_kept [OF I(6,4) gr leads]) (auto simp: rn_put_def)
    show "leader_ok ?t q" by (rule leader_kept [OF I(6) q gr]) (use eff(1) t in auto)
    show "commit_ok ?t (cur ?t q) (lg ?t q) (rf_commitIndex (rn_rf ?t q))"
      using eff(1) t by (intro commit_ok_same [OF gr I(9) q]) auto
    have "rn_taken s q = map (command_msg (lg s q)) [1..<nat (rf_lastApplied ?r)]"
      using I(9) q by (auto simp: commit_inv_def)
    moreover have "[1..<nat (rf_lastApplied ?r)] @ [nat (rf_lastApplied ?r)..<nat (rf_commitIndex ?r)] =
        [1..<nat (rf_commitIndex ?r)]"
      using upt_add_eq_append [of 1 "nat (rf_lastApplied ?r)" "nat (rf_commitIndex ?r) - nat (rf_lastApplied ?r)"]
        peer_invD(5,8) [OF I(1) q] by simp
    ultimately have "rn_taken s q @ msgs = map (command_msg (lg s q)) [1..<nat (rf_commitIndex ?r)]"
      unfolding eff(2) by (metis map_append)
    then show "rn_taken ?t q = map (command_msg (lg ?t q)) [1..<nat (rf_lastApplied (rn_rf ?t q))]"
      using eff(1) t by simp
    show "rn_cand ?t (cur ?t q, q) = lg ?t q \<and> \<not> (rn_ll ?t (cur ?t q) \<noteq> None \<and> rn_lead ?t (cur ?t q) = q)"
      if "st ?t q = Candidate"
      using that lead_invD(8,9) [OF I(4) q] eff(1) t by (auto simp: rn_put_def)
  qed (use eff(1) in \<open>auto simp: rn_put_def\<close>)
qed

lemma inv_restart:
  assumes inv: "rn_inv s" and q: "q < rn_size s"
  shows "keeps s (rn_restart q s)" (is "keeps s ?t")
proof -
  note I = rn_invD [OF inv]
  let ?r = "rn_rf s q"
  define rf where "rf = rf_Make (rn_size s) q (rf_persister (rf_Persist ?r))"
  note eff = restart_effect [OF peer_invD(3) [OF I(1) q] rf_def]
  have t: "rn_rf ?t q = rf" by (simp add: rn_restart_def rn_put_def rf_def)
  have gr: "grows s ?t" using eff by (auto simp: grows_def rn_restart_def rn_put_def rf_def [symmetric])
  have m: "moves s ?t q"
    unfolding moves_def using q gr eff by (auto simp: rn_restart_def rn_put_def rf_def [symmetric])
  have leads: "leads s ?t p" if "p \<noteq> q" for p
    using that by (auto simp: leads_def rn_restart_def rn_put_def)
  have c1: "commit_ok s (cur s q) (lg s q) 1"
    using log_invD(1) [OF I(2) q] by (auto simp: commit_ok_def log_ok_def Suc_le_eq)
  show ?thesis
  proof (rule inv_same_log [OF inv m])
    show "net_ok s ?t"
      using leads msg_invD(3,4) [OF I(5)] by (auto simp: net_ok_def rn_restart_def rn_put_def)
    show "lg ?t q = lg s q" using eff t by simp
    show "peer_ok (rn_size s) q (rn_rf ?t q)"
      using I(1) q eff t by (auto simp: peer_inv_def peer_ok_def)
    show "leader_ok ?t q" using eff t by (simp add: leader_ok_def)
    show "commit_ok ?t (cur ?t q) (lg ?t q) (rf_commitIndex (rn_rf ?t q))"
      using commit_ok_grows [OF gr c1 order_refl, of "lg s q"] c1 eff t
      by (auto simp: commit_ok_def intro: agree_refl)
    show "rn_taken ?t q = map (command_msg (lg ?t q)) [1..<nat (rf_lastApplied (rn_rf ?t q))]"
      using eff t by (simp add: rn_restart_def)
  qed (use eff t in \<open>auto simp: rn_restart_def rn_put_def\<close>)
qed


section \<open>Winning an election\<close>

lemma granted_votes:
  assumes vote: "vote_inv s" and chan: "vote_channel s q args rs" and cand: "cand_ok s args q"
    and num: "int (rn_size s) < (1 + int (length (filter (\<lambda>r. r = ElSuccess) (map snd rs)))) * 2"
  shows "majority (rn_size s) {r. (r, rv_Term args, q) \<in> rn_votes s}"
proof -
  let ?V = "{r. (r, rv_Term args, q) \<in> rn_votes s}" and ?S = "filter (\<lambda>x. snd x = ElSuccess) rs"
  have q: "rv_CandidateId args = int q" "q \<in> ?V" using cand by (auto simp: cand_ok_def)
  then have T: "1 \<le> rv_Term args" using vote_invD(3) [OF vote] by blast
  have "r \<in> ?V - {q}" if r: "r \<in> fst ` set ?S" for r
  proof -
    from r have "(r, ElSuccess) \<in> set rs" by force
    then obtain reply where "r \<noteq> q" "(r, args, reply) \<in> rn_voteRep s"
      "election_result args (Some reply) = ElSuccess"
      using chan by (fastforce simp: vote_channel_def ElSuccess_def ElFail_def)
    moreover have "rr_Granted reply"
      using calculation(3) T by (auto simp: election_result_def ElSuccess_def ElFail_def split: if_splits)
    ultimately show ?thesis using vote_invD(8) [OF vote] q(1) by fastforce
  qed
  then have sub: "insert q (fst ` set ?S) \<subseteq> ?V" "q \<notin> fst ` set ?S" using q(2) by blast+
  have "distinct (map fst ?S)" using chan by (simp add: vote_channel_def distinct_map_filter)
  then have "card (fst ` set ?S) = length ?S" by (metis distinct_card length_map set_map)
  then have "card (insert q (fst ` set ?S)) = 1 + length ?S" using sub(2) by simp
  moreover have "length (filter (\<lambda>r. r = ElSuccess) (map snd rs)) = length ?S"
    by (simp add: filter_map comp_def)
  moreover have V: "?V \<subseteq> {..<rn_size s}" using vote_invD(1) [OF vote] by blast
  ultimately have "majority (rn_size s) (insert q (fst ` set ?S))"
    using num sub(1) by (auto simp: majority_def)
  then show ?thesis by (rule majority_mono [OF _ sub(1) V])
qed

lemma one_winner:
  assumes "vote_inv s" and "lead_inv s" and "majority (rn_size s) {r. (r, T, q) \<in> rn_votes s}"
    and "rn_ll s T = Some G"
  shows "rn_lead s T = q"
proof -
  obtain r where "(r, T, q) \<in> rn_votes s" "(r, T, rn_lead s T) \<in> rn_votes s"
    using maj.quorum_common [OF assms(3) lead_invD(5) [OF assms(2,4)]] by blast
  then show ?thesis using vote_invD(7) [OF assms(1)] by blast
qed

lemma inv_win:
  assumes inv: "rn_inv s" and req: "args \<in> rn_voteReq s" and id: "rv_CandidateId args = int q"
    and chan: "vote_channel s q args rs"
    and fin: "election_finish args (map snd rs) (rn_rf s q) = Some (rf, ts)"
    and lead: "rf_state rf = Leader" "st s q \<noteq> Leader"
  shows "keeps s (rn_lead_log q (rf_currentTerm rf) (rf_logs rf) (rn_spawn q ts (rn_put q rf s)))"
proof -
  note I = rn_invD [OF inv]
  let ?r = "rn_rf s q" and ?T = "cur s q"
  have cand: "cand_ok s args q" using vote_invD(9) [OF I(3) req] id by (auto simp: cand_ok_def)
  then have q: "q < rn_size s" by (simp add: cand_ok_def)
  have eff: "same_log ?r rf" "rf_currentTerm rf = ?T" "rf_votedFor rf = rf_votedFor ?r" "st s q = Candidate"
    "rv_Term args = ?T" "rf_newOp rf = 0" "length (rf_nextIndex rf) = rn_size s"
    "length (rf_matchIndex rf) = rn_size s" "\<And>p. p < rn_size s \<Longrightarrow> rf_matchIndex rf ! p = 1"
    "ts = [GoHeartbeat ?T]" "rs \<noteq> []"
    "int (rn_size s) < (1 + int (length (filter (\<lambda>r. r = ElSuccess) (map snd rs)))) * 2"
    using elect_effect [OF fin] lead peer_invD(1,4,9) [OF I(1) q] by (auto simp: same_term_def new_term_def)
  have logs: "rf_logs rf = lg s q" using eff(1) by (simp add: same_log_def)
  have maj: "majority (rn_size s) {r. (r, ?T, q) \<in> rn_votes s}"
    using granted_votes [OF I(3) chan cand eff(12)] eff(5) by simp
  have none: "rn_ll s ?T = None"
    using one_winner [OF I(3,4) maj] lead_invD(9) [OF I(4) q eff(4)] by (cases "rn_ll s ?T") auto
  have C: "rn_cand s (?T, q) = lg s q" using lead_invD(8) [OF I(4) q eff(4)] .
  obtain r where "r < rn_size s" "r \<noteq> q"
    using eff(11) chan by (cases rs) (auto simp: vote_channel_def)
  then have two: "2 \<le> rn_size s" using q by linarith
  have T1: "1 \<le> ?T" using cand vote_invD(3) [OF I(3)] eff(5) by (auto simp: cand_ok_def)
  define t where "t = rn_lead_log q ?T (lg s q) (rn_spawn q [GoHeartbeat ?T] (rn_put q rf s))"
  have t: "rn_rf t = (rn_rf s)(q := rf)" "rn_ll t = (rn_ll s)(?T \<mapsto> lg s q)" "rn_lead t = (rn_lead s)(?T := q)"
    "rn_acked t = insert (q, ?T, length (lg s q)) (rn_acked s)" "rn_votes t = rn_votes s"
    "rn_size t = rn_size s" "rn_cand t = rn_cand s" "rn_taken t = rn_taken s"
    by (simp_all add: t_def rn_defs)
  have com: "rn_committer t (p, U) = rn_committer s (p, U)" for p U
    by (simp add: t_def rn_defs)
  have gr: "grows s t" using eff(2) none t by (auto simp: grows_def t_def rn_defs)
  have m: "moves s t q"
    unfolding moves_def using q gr eff(2,3) com logs t by auto
  have leads: "leads s t p" for p using eff(4) t(1) by (auto simp: leads_def)
  have act: "active t q ?T" using q t lead by (simp add: active_def)
  have "net_ok s t" using leads act eff(10) unfolding net_ok_def by (auto simp: t_def rn_defs)
  then have msg: "msg_inv t" by (rule msg_step [OF gr I(4,5)])
  have vote: "vote_inv t" by (rule vote_step [OF m I(3)]) (auto simp: t_def rn_defs)
  have "log_inv t"
    using log_ok_grows [OF gr log_invD(1) [OF I(2) q]] log_invD(2) [OF I(2) q] logs eff(2) t(1)
    by (intro log_step [OF m I(2)]) auto
  moreover have "peer_inv t"
    using I(1) q eff t by (intro peer_step [OF m I(1)]) (auto simp: peer_inv_def peer_ok_def same_log_def)
  moreover have "lead_inv t"
    by (rule lead_step [OF m I(4) _ vote])
       (use T1 two maj t eff(2) lead(1) logs in \<open>auto split: if_splits\<close>)
  moreover have "leader_inv t"
  proof (rule leader_step [OF m I(4,6)])
    fix U b assume c: "rn_committer t (q, U) = Some b"
    then have a: "active s q U" using com [of q U] I(6) unfolding leader_inv_def by metis
    then have "U \<noteq> ?T" using none by (auto simp: active_def)
    then show "active t q U \<and> committer_ok (rn_rf t q) U b"
      using active_grows [OF gr leads I(4) a] t(1) eff(2) by (simp add: committer_ok_def)
  next
    have "lg s q \<noteq> []" using log_invD(1) [OF I(2) q] by (simp add: log_ok_def)
    then show "leader_ok t q"
      using t eff(2,6,9) logs by (auto simp: leader_ok_def acked_ge_def Suc_le_eq)
  qed
  moreover have "ack_inv t"
    using t eff(2) logs by (intro ack_step [OF m I(2,7)]) (auto intro: agree_refl)
  moreover have "poll_inv t"
    by (rule poll_step [OF m I(2,7,3,8)]) (use t maj C none in \<open>auto split: if_splits\<close>)
  moreover have "commit_inv t"
    using commit_ok_same [OF gr I(9) q] t eff(1) I(9) q
    by (intro commit_step [OF m I(9)]) (auto simp: same_log_def commit_inv_def)
  ultimately have "keeps s t" using vote msg gr by (simp add: rn_inv_def keeps_def)
  then show ?thesis using eff(2,10) logs by (simp add: t_def)
qed

end
