(* ===== verification/Raft_Replicate.thy ===== *)
theory Raft_Replicate
  imports Raft_Preserve
begin

text \<open>
  The steps that change a log keep the invariant, and so it holds in every reachable
  state.
\<close>

section \<open>A leader adds an entry\<close>

lemma agree_append_left: "agree n xs ys \<Longrightarrow> agree n (xs @ zs) ys"
  by (simp add: agree_def)

lemma log_ok_snoc:
  assumes "log_ok ll L" and "ll (lg_Term e) = Some (L @ [e])" and "1 \<le> lg_Term e"
    and "\<forall>i < length L. tm L i \<le> lg_Term e"
  shows "log_ok ll (L @ [e])"
  unfolding log_ok_def
proof (intro conjI allI impI)
  show "L @ [e] \<noteq> []" by simp
  show "(L @ [e]) ! 0 = dummy" using assms(1) by (simp add: log_ok_def nth_append)
  show "sorted (map lg_Term (L @ [e]))"
    using assms(1,4) by (auto simp: log_ok_def sorted_append in_set_conv_nth)
next
  fix i assume i: "1 \<le> i \<and> i < length (L @ [e])"
  show "1 \<le> tm (L @ [e]) i"
    using assms(1,3) i by (cases "i = length L") (auto simp: log_ok_def nth_append)
  show "\<exists>G. ll (tm (L @ [e]) i) = Some G \<and> agree (Suc i) (L @ [e]) G"
  proof (cases "i = length L")
    case True
    then show ?thesis using assms(2) by (auto intro: agree_refl)
  next
    case False
    then have "i < length L" using i by simp
    then obtain G where "ll (tm L i) = Some G" "agree (Suc i) L G"
      using assms(1) i unfolding log_ok_def by blast
    then show ?thesis using \<open>i < length L\<close> agree_append agree_sym by (metis nth_append)
  qed
qed

lemma log_ok_take:
  assumes "log_ok ll G" and "1 \<le> m" and "m \<le> length G"
  shows "log_ok ll (take m G)"
  unfolding log_ok_def
proof (intro conjI allI impI)
  show "take m G \<noteq> []" "take m G ! 0 = dummy" using assms by (auto simp: log_ok_def)
  show "sorted (map lg_Term (take m G))" using assms(1) by (simp add: log_ok_def sorted_wrt_take flip: take_map)
next
  fix i assume i: "1 \<le> i \<and> i < length (take m G)"
  then show "1 \<le> tm (take m G) i" using assms(1) by (simp add: log_ok_def)
  from i assms(1) obtain H where "ll (tm G i) = Some H" "agree (Suc i) G H"
    by (auto simp: log_ok_def)
  moreover have "agree (Suc i) (take m G) G" using i assms(3) by (intro agree_take) auto
  ultimately show "\<exists>H. ll (tm (take m G) i) = Some H \<and> agree (Suc i) (take m G) H"
    using i agree_trans by auto
qed

text \<open>What was applied stays what the log says, as the log keeps the prefix.\<close>

lemma applied_kept:
  assumes "agree c L L'" and "k \<le> c"
  shows "map (command_msg L) [1..<k] = map (command_msg L') [1..<k]"
  using agree_nth [OF assms(1)] assms(2) by (auto simp: command_msg_def)

lemma commit_ok_agreed:
  assumes "grows s t" and "commit_inv s" and "q < rn_size s"
    and "agree (nat (rf_commitIndex (rn_rf s q))) (lg s q) (lg t q)"
  shows "commit_ok t (cur t q) (lg t q) (rf_commitIndex (rn_rf s q))"
  using commit_ok_grows [OF assms(1) _ growsD(3) [OF assms(1)] assms(4)] assms(2,3)
  by (auto simp: commit_inv_def)

lemma inv_start:
  assumes inv: "rn_inv s" and q: "q < rn_size s"
    and start: "rf_Start now cmd (rn_rf s q) = (rf, idx, T, True, ts)"
  shows "keeps s (rn_lead_log q T (rf_logs rf) (rn_spawn q ts (rn_put q rf s)))"
proof -
  note I = rn_invD [OF inv]
  let ?r = "rn_rf s q" and ?L = "lg s q"
  define e where "e = \<lparr>lg_Term = T, lg_Command = cmd\<rparr>"
  have eff: "st s q = Leader" "T = cur s q" "same_term ?r rf" "rf_logs rf = ?L @ [e]"
    "rf_peers rf = rf_peers ?r" "rf_me rf = rf_me ?r" "rf_commitIndex rf = rf_commitIndex ?r"
    "rf_lastApplied rf = rf_lastApplied ?r" "rf_startIndex rf = 0"
    "rf_snapshotApplying rf = rf_snapshotApplying ?r" "rf_nextIndex rf = rf_nextIndex ?r"
    "rf_matchIndex rf = rf_matchIndex ?r"
    "rf_newOp rf = (if rf_newOp ?r = 0 then int (length ?L) else rf_newOp ?r)"
    "set ts = (if rf_newOp ?r = 0 then {GoCommitter T} else {}) \<union>
      (\<lambda>p. GoSendLog p T) ` {p. p < rn_size s \<and> p \<noteq> q}"
    using start_effect [OF start peer_invD(3) [OF I(1) q]] peer_invD(1,2) [OF I(1) q]
    by (auto simp: e_def)
  define t where "t = rn_lead_log q T (?L @ [e]) (rn_spawn q ts (rn_put q rf s))"
  have t: "rn_rf t = (rn_rf s)(q := rf)" "rn_ll t = (rn_ll s)(T \<mapsto> ?L @ [e])" "rn_lead t = (rn_lead s)(T := q)"
    "rn_acked t = insert (q, T, length (?L @ [e])) (rn_acked s)" "rn_votes t = rn_votes s"
    "rn_size t = rn_size s" "rn_cand t = rn_cand s" "rn_taken t = rn_taken s"
    by (simp_all add: t_def rn_defs)
  have com: "rn_committer t (p, U) = (if p = q \<and> U = T \<and> rf_newOp ?r = 0 then Some False
      else rn_committer s (p, U))" for p U
    using eff(14) by (auto simp: t_def rn_defs)
  have ll: "rn_ll s T = Some ?L" "rn_lead s T = q" using lead_invD(6,7) [OF I(4) q eff(1)] eff(2) by auto
  have L: "log_ok (rn_ll s) ?L" "\<And>i. i < length ?L \<Longrightarrow> tm ?L i \<le> T" using log_invD(1,2) [OF I(2) q] eff(2) by auto
  have T1: "1 \<le> T" using lead_invD(1) [OF I(4) ll(1)] .
  have e: "lg_Term e = T" by (simp add: e_def)
  have tq: "cur t q = T" "lg t q = ?L @ [e]" "st t q = Leader" "rn_rf t q = rf"
    using eff t by (auto simp: same_term_def)
  have gr: "grows s t" using eff(2,3) ll t e by (auto simp: grows_def same_term_def t_def rn_defs)
  have m: "moves s t q" unfolding moves_def using q gr eff(2,3) t tq com by (auto simp: same_term_def)
  have leads: "leads s t p" for p using eff(3) t(1) by (auto simp: leads_def same_term_def)
  have act: "active t q T" using q t tq by (simp add: active_def)
  then have "net_ok s t"
    using leads eff(14) t(6) unfolding net_ok_def by (auto simp: t_def rn_defs split: if_splits)
  then have "msg_inv t" by (rule msg_step [OF gr I(4,5)])
  moreover have vote: "vote_inv t" by (rule vote_step [OF m I(3)]) (auto simp: t_def rn_defs)
  moreover have "log_inv t"
  proof (rule log_step [OF m I(2)])
    show "log_ok (rn_ll t) (lg t q)"
      using log_ok_snoc [OF log_ok_grows [OF gr L(1)]] L(2) e T1 t(2) tq(2) by simp
    show "\<forall>i<length (lg t q). tm (lg t q) i \<le> cur t q" using L(2) e tq by (auto simp: nth_append less_Suc_eq)
  qed
  moreover have "peer_inv t"
    using I(1) q eff tq(4)
    by (intro peer_step [OF m I(1)]) (auto simp: peer_inv_def peer_ok_def same_term_def)
  moreover have "lead_inv t"
    by (rule lead_step [OF m I(4) _ vote]) (use t tq ll in \<open>auto split: if_splits\<close>)
  moreover have cm: "commit_ok s (cur s q) ?L (rf_commitIndex ?r)" using I(9) q by (auto simp: commit_inv_def)
  moreover have "leader_inv t"
  proof (rule leader_step [OF m I(4,6)])
    fix U b assume c: "rn_committer t (q, U) = Some b"
    show "active t q U \<and> committer_ok (rn_rf t q) U b"
    proof (cases "U = T \<and> rf_newOp ?r = 0")
      case True
      then have "committer_ok rf T False" using cm eff(7,13) L(1) by (auto simp: committer_ok_def commit_ok_def log_ok_def)
      then show ?thesis using True act c com [of q U] tq(4) by auto
    next
      case False
      then have c': "rn_committer s (q, U) = Some b" using c com [of q U] by auto
      then have a: "active s q U" "committer_ok ?r U b" using I(6) unfolding leader_inv_def by blast+
      then show ?thesis
        using active_grows [OF gr leads I(4) a(1)] False eff(2,7,13) tq(1,4)
        by (auto simp: committer_ok_def)
    qed
  next
    have "leader_ok s q" using I(6) q by (simp add: leader_inv_def)
    then show "leader_ok t q"
      using eff t tq e L(1) acked_ge_grows [OF gr]
      by (auto simp: leader_ok_def acked_ge_def nth_append log_ok_def Suc_le_eq nat_less_iff)
  qed
  moreover have "ack_inv t"
    using t tq by (intro ack_step [OF m I(2,7)]) (auto intro: agree_refl agree_append_left)
  moreover have "poll_inv t"
    by (rule poll_step [OF m I(2,7,3,8)]) (use t ll in \<open>auto split: if_splits\<close>)
  moreover have ag: "agree (nat (rf_commitIndex ?r)) ?L (lg t q)"
    using cm tq(2) by (simp add: commit_ok_def agree_def)
  moreover have "commit_inv t"
  proof (rule commit_step [OF m I(9)])
    show "commit_ok t (cur t q) (lg t q) (rf_commitIndex (rn_rf t q))"
      using commit_ok_agreed [OF gr I(9) q ag] eff(7) tq(4) by simp
    show "rn_taken t q = map (command_msg (lg t q)) [1..<nat (rf_lastApplied (rn_rf t q))]"
      using applied_kept [OF ag, of "nat (rf_lastApplied ?r)"] I(9) q t(8) tq(4) eff(8)
        peer_invD(8) [OF I(1) q] by (auto simp: commit_inv_def)
  qed
  ultimately have "keeps s t" using gr by (simp add: rn_inv_def keeps_def)
  then show ?thesis using eff(4) by (simp add: t_def)
qed


section \<open>A peer takes entries over\<close>

text \<open>
  The log after a successful AppendEntries, against the log H of the leader of the term:
  it agrees with H through the entries sent, and keeps all on which it agreed with H.
\<close>

lemma append_merges:
  assumes inv: "rn_inv s" and sent: "sent_ok s (q, p, args, n)" and p: "p < rn_size s"
    and H: "rn_ll s (ae_Term args) = Some H" and n: "nat n \<le> length (lg s p)"
    and prev: "tm (lg s p) (nat n - 1) = ae_PrevLogTerm args"
    and L': "L' = fst (ae_merge (lg s p) (nat n) (ae_Entries args))"
  shows "agree (nat n + length (ae_Entries args)) L' H \<and> (\<forall>c. agree c (lg s p) H \<longrightarrow> agree c L' H) \<and>
    (L' = lg s p \<or> L' = take (nat n + length (ae_Entries args)) H)"
proof -
  note I = rn_invD [OF inv]
  have S: "1 \<le> n" "nat n + length (ae_Entries args) \<le> length H" "ae_PrevLogTerm args = tm H (nat n - 1)"
    "take (length (ae_Entries args)) (drop (nat n) H) = ae_Entries args"
    using sent H by (auto simp: sent_ok_def)
  have ok: "log_ok (rn_ll s) (lg s p)" "log_ok (rn_ll s) H"
    using log_invD(1) [OF I(2) p] log_invD(3) [OF I(2) H] by auto
  have i: "nat n - 1 < length (lg s p)" "nat n - 1 < length H" "Suc (nat n - 1) = nat n"
    using n S(1,2) by linarith+
  have base: "agree (nat n) (lg s p) H"
    using log_matching [OF ok i(1,2)] prev S(3) i(3) by simp
  have ext: "agree (Suc j) (lg s p) H"
    if "j < nat n + length (ae_Entries args)" "j < length (lg s p)" "tm (lg s p) j = tm H j" for j
    using log_matching [OF ok that(2) _ that(3)] that(1) S(2) by simp
  show ?thesis
    by (rule merge_spec [OF base S(2) S(4) [symmetric] _ L']) (use ext in blast)
qed

lemma inv_append:
  assumes inv: "rn_inv s" and req: "(q, p, args, n) \<in> rn_appReq s" and p: "p < rn_size s"
    and app: "AppendEntries args (rn_rf s p) = Some (rf, reply)" and ok: "ar_Success reply"
  shows "keeps s (rn_put p rf s\<lparr>rn_appRep := insert (q, p, args, n, reply) (rn_appRep s),
    rn_acked := {(p, ae_Term args, nat (n + int (length (ae_Entries args))))} \<union> rn_acked s\<rparr>)"
    (is "keeps s ?t")
proof -
  note I = rn_invD [OF inv]
  let ?r = "rn_rf s p" and ?L = "lg s p" and ?L' = "rf_logs rf" and ?e = "nat n + length (ae_Entries args)"
  define T where "T = ae_Term args"
  have sent: "sent_ok s (q, p, args, n)" using msg_invD(2) [OF I(5) req] .
  then obtain H where H: "rn_ll s T = Some H" "rn_lead s T \<noteq> p" "1 \<le> n" "?e \<le> length H"
    "ae_PrevLogIndex args = n - 1" "ae_LeaderCommit args \<le> n + int (length (ae_Entries args))"
    "commit_ok s T H (ae_LeaderCommit args)"
    by (auto simp: sent_ok_def T_def)
  have n: "ae_PrevLogIndex args = int (nat n) - 1" "1 \<le> nat n"
    "nat (n + int (length (ae_Entries args))) = ?e" using H(3,5) by auto
  have eff: "rf_peers rf = rf_peers ?r" "rf_me rf = rf_me ?r" "rf_lastApplied rf = rf_lastApplied ?r"
    "rf_startIndex rf = 0" "rf_snapshotApplying rf = rf_snapshotApplying ?r" "same_index ?r rf"
    "cur s p \<le> T" "rf_currentTerm rf = T" "rf_state rf = Follower"
    "rf_votedFor rf = (if cur s p = T then rf_votedFor ?r else - 1)" "nat n \<le> length ?L"
    "tm ?L (nat n - 1) = ae_PrevLogTerm args" "?L' = fst (ae_merge ?L (nat n) (ae_Entries args))"
    "rf_commitIndex rf = max (rf_commitIndex ?r) (ae_LeaderCommit args)"
    using append_effect [OF app peer_invD(3) [OF I(1) p] n(1,2)] ok by (auto simp: T_def)
  have mg: "agree ?e ?L' H" "\<And>c. agree c ?L H \<Longrightarrow> agree c ?L' H" "?L' = ?L \<or> ?L' = take ?e H"
    using append_merges [OF inv sent p H(1) [unfolded T_def] eff(11-13)] by auto
  define t where "t = ?t"
  have t: "rn_rf t = (rn_rf s)(p := rf)" "rn_ll t = rn_ll s" "rn_lead t = rn_lead s"
    "rn_acked t = insert (p, T, ?e) (rn_acked s)" "rn_votes t = rn_votes s" "rn_size t = rn_size s"
    "rn_cand t = rn_cand s" "rn_taken t = rn_taken s" "rn_committer t = rn_committer s"
    using n(3) by (simp_all add: t_def rn_put_def T_def)
  have tp: "cur t p = T" "lg t p = ?L'" "st t p = Follower" "rn_rf t p = rf" using eff(8,9) t(1) by auto
  have nl: "cur s p = T \<Longrightarrow> st s p \<noteq> Leader" using lead_invD(7) [OF I(4) p] H(2) by blast
  have gr: "grows s t" using eff(7,8) t by (auto simp: grows_def t_def rn_put_def)
  have m: "moves s t p" unfolding moves_def using p gr eff(8,10) t by auto
  have leads: "leads s t k" for k using nl tp(1) t(1) by (auto simp: leads_def)
  have "net_ok s t" using leads ok unfolding net_ok_def by (auto simp: t_def rn_put_def)
  then have "msg_inv t" by (rule msg_step [OF gr I(4,5)])
  moreover have vote: "vote_inv t" by (rule vote_step [OF m I(3)]) (auto simp: t_def rn_put_def)
  moreover have "log_inv t"
  proof (rule log_step [OF m I(2)])
    show "log_ok (rn_ll t) (lg t p)"
      using mg(3) log_invD(1) [OF I(2) p] log_ok_take [OF log_invD(3) [OF I(2) H(1)], of ?e] H(4) n(2) t(2) tp(2)
      by auto
    show "\<forall>i<length (lg t p). tm (lg t p) i \<le> cur t p"
      using mg(3) log_invD(2) [OF I(2) p] log_invD(4) [OF I(2) H(1)] eff(7) tp H(4) by force
  qed
  moreover have "peer_inv t"
    using I(1) p eff tp(4)
    by (intro peer_step [OF m I(1)]) (auto simp: peer_inv_def peer_ok_def same_index_def)
  moreover have "lead_inv t" by (rule lead_step [OF m I(4) _ vote]) (use t tp in auto)
  moreover have "leader_inv t"
  proof (rule leader_step [OF m I(4,6)])
    fix U b assume "rn_committer t (p, U) = Some b"
    then have a: "active s p U" using t(9) I(6) unfolding leader_inv_def by simp
    then have "U \<noteq> T" using H(2) by (auto simp: active_def)
    then show "active t p U \<and> committer_ok (rn_rf t p) U b"
      using active_grows [OF gr leads I(4) a] tp by (simp add: committer_ok_def)
  qed (use tp in \<open>simp add: leader_ok_def\<close>)
  moreover have "ack_inv t"
  proof (rule ack_step [OF m I(2,7)])
    show "(k, U, l) \<in> rn_acked s \<or> k = p \<and> U = cur t p \<and> (\<exists>G. rn_ll t U = Some G \<and> agree l (lg t p) G)"
      if "(k, U, l) \<in> rn_acked t" for k U l
      using that t(2,4) tp mg(1) H(1) by auto
    show "agree k (lg t p) G"
      if "U \<le> cur t p" "rn_ll t U = Some G" "kept t U (cur t p + 1) k G" "agree k (lg s p) G" for U k G
    proof (cases "U = T")
      case True
      then show ?thesis using that(2,4) t(2) H(1) mg(2) tp(2) by simp
    next
      case False
      then have HG: "agree k H G"
        using that(3) [unfolded kept_def, rule_format, of T H] that(1) t(2) tp(1) H(1) by simp
      then have "agree k ?L' H" using mg(2) agree_trans [OF that(4) agree_sym] by blast
      then show ?thesis using agree_trans HG tp(2) by metis
    qed
  qed
  moreover have "poll_inv t" by (rule poll_step [OF m I(2,7,3,8)]) (use t in auto)
  moreover have ag: "agree (nat (rf_commitIndex ?r)) ?L (lg t p)"
  proof -
    have cm: "commit_ok s (cur s p) ?L (rf_commitIndex ?r)" using I(9) p by (auto simp: commit_inv_def)
    have "agree (nat (rf_commitIndex ?r)) ?L H"
    proof (cases "rf_commitIndex ?r = 1")
      case True
      then show ?thesis
        using log_invD(1) [OF I(2) p] log_invD(3) [OF I(2) H(1)] by (intro agreeI) (auto simp: log_ok_def Suc_le_eq)
    next
      case False
      then obtain U k G where U: "U \<le> cur s p" "nat (rf_commitIndex ?r) \<le> k" "committed s U k"
        "rn_ll s U = Some G" "agree (nat (rf_commitIndex ?r)) ?L G"
        using cm by (auto simp: commit_ok_def)
      show ?thesis
      proof (cases "U = T")
        case True
        then show ?thesis using U(4,5) H(1) by simp
      next
        case False
        then have "U < T" using U(1) eff(7) by simp
        then have "agree k H G" using leader_complete [OF I(8) U(3,4) H(1)] by blast
        then show ?thesis using agree_trans [OF U(5) agree_sym [OF agree_less]] U(2) by blast
      qed
    qed
    then show ?thesis using mg(2) agree_trans agree_sym tp(2) by metis
  qed
  moreover have "commit_inv t"
  proof (rule commit_step [OF m I(9)])
    have "agree (nat (ae_LeaderCommit args)) H ?L'"
      using agree_less [OF agree_sym [OF mg(1)], of "nat (ae_LeaderCommit args)"] H(3,6) by simp
    then have "commit_ok t T ?L' (ae_LeaderCommit args)" by (rule commit_ok_grows [OF gr H(7) order_refl])
    then show "commit_ok t (cur t p) (lg t p) (rf_commitIndex (rn_rf t p))"
      using commit_ok_agreed [OF gr I(9) p ag] eff(14) tp by (auto simp: max_def)
    show "rn_taken t p = map (command_msg (lg t p)) [1..<nat (rf_lastApplied (rn_rf t p))]"
      using applied_kept [OF ag, of "nat (rf_lastApplied ?r)"] I(9) p t(8) tp(4) eff(3)
        peer_invD(8) [OF I(1) p] by (auto simp: commit_inv_def)
  qed
  ultimately have "keeps s t" using gr by (simp add: rn_inv_def keeps_def)
  then show ?thesis by (simp add: t_def)
qed

section \<open>Every reachable state\<close>

lemma inv_init: "rn_inv (rn_init N enable)"
proof -
  let ?s = "rn_init N enable :: 'c rnet"
  have rf: "rn_rf ?s q = rf_Make N q (rp_MakePersister enable)" for q by (simp add: rn_init_def)
  have "peer_inv ?s" by (simp add: peer_inv_def peer_ok_def rf make_effect) (simp add: rn_init_def)
  moreover have "log_inv ?s"
    by (auto simp: log_inv_def log_ok_def rf make_effect rn_init_def dummy_def)
  moreover have "lead_inv ?s" by (simp add: lead_inv_def rf make_effect) (simp add: rn_init_def)
  moreover have "leader_inv ?s"
    by (simp add: leader_inv_def leader_ok_def rf make_effect) (simp add: rn_init_def)
  moreover have "commit_inv ?s"
    by (simp add: commit_inv_def commit_ok_def rf make_effect) (simp add: rn_init_def)
  moreover have "vote_inv ?s" "msg_inv ?s" "ack_inv ?s" "poll_inv ?s"
    by (simp_all add: rn_init_def vote_inv_def msg_inv_def ack_inv_def poll_inv_def)
  ultimately show ?thesis by (simp add: rn_inv_def)
qed

lemma step_inv:
  assumes "rf_step s t" and "rn_inv s"
  shows "keeps s t"
  using assms
proof cases
  case (vote args r rf reply)
  then show ?thesis
    using inv_granted [OF assms(2)] inv_reject [OF assms(2)] by (cases "rr_Granted reply") auto
next
  case (elect args q rs rf ts)
  obtain c where "cand_ok s args c" using vote_invD(9) [OF rn_invD(3) [OF assms(2)] elect(2)] by blast
  then have q: "q < rn_size s" using elect(3) by (auto simp: cand_ok_def)
  show ?thesis
  proof (cases "rf_state rf = Leader \<and> st s q \<noteq> Leader")
    case True
    then show ?thesis using inv_win [OF assms(2) elect(2-5)] elect(1) by simp
  next
    case False
    then have "same_log (rn_rf s q) rf \<and> same_index (rn_rf s q) rf \<and>
        (same_term (rn_rf s q) rf \<or> new_term (rn_rf s q) rf) \<and> ts = []"
      using elect_effect [OF elect(5)] by auto
    then show ?thesis using False elect(1) inv_lost [OF assms(2) q] by auto
  qed
next
  case (append q p args n rf reply)
  then show ?thesis
    using inv_append [OF assms(2)] inv_refused [OF assms(2)] by (cases "ar_Success reply") auto
next
  case (tick q rf ts)
  then show ?thesis using inv_tick [OF assms(2) tick(2-)] by simp
next
  case (campaign q rf args)
  then show ?thesis using inv_campaign [OF assms(2) campaign(3-)] by simp
next
  case (start q now cmd rf idx T ts)
  then show ?thesis using inv_start [OF assms(2) start(2-)] by simp
next
  case (heartbeat q T now rf ts)
  then show ?thesis using inv_heartbeat [OF assms(2) heartbeat(2-)] by simp
next
  case (send q p T rf act)
  then show ?thesis using inv_send [OF assms(2) send(2-)] by simp
next
  case (append_reply q p args n reply rf)
  then show ?thesis using inv_append_reply [OF assms(2) append_reply(2-)] by simp
next
  case (append_retry q p args n reply rf rf' act)
  then show ?thesis using inv_append_retry [OF assms(2) append_retry(2-)] by simp
next
  case (install q p T m args rf reply ts)
  then show ?thesis using inv_install [OF assms(2) install(2-)] by simp
next
  case (install_reply q p T m reply rf ts)
  then show ?thesis using inv_install_reply [OF assms(2) install_reply(2-)] by simp
next
  case (commit q T b rf b' w)
  then show ?thesis using inv_commit [OF assms(2) commit(2-)] by simp
next
  case (apply_msgs q rf msgs)
  then show ?thesis using inv_apply [OF assms(2) apply_msgs(2,4)] by simp
next
  case (deliver q)
  then show ?thesis using inv_deliver [OF assms(2)] by simp
next
  case (restart q)
  then show ?thesis using inv_restart [OF assms(2) restart(2-)] by simp
next
  case (commit_exit q T b)
  then show ?thesis using inv_commit_exit [OF assms(2) commit_exit(3)] by simp
qed

lemma reachable_inv: "rf_reachable N enable s \<Longrightarrow> rn_inv s"
  by (induction rule: rf_reachable.induct) (auto intro: inv_init dest: step_inv simp: keeps_def)

end
