(* ===== verification/Raft_Exec.thy ===== *)
theory Raft_Exec
  imports Raft_Cluster
begin

text \<open>
  The step relation of Raft_Cluster as a function: an action names the goroutine or the
  message that moves next, rx_exec checks its guard and performs it. Every run is a run of
  rf_step, so states of concrete runs are reachable.
\<close>

datatype 'c rf_action =
    RTick nat
  | RCampaign nat
  | RVote RequestVoteArgs nat
  | RElect RequestVoteArgs "(nat \<times> int) list"
  | RStart nat int "'c option"
  | RHeartbeat nat int int
  | RSend nat nat int
  | RAppend nat nat "'c AppendEntriesArgs" int
  | RAppendReply nat nat "'c AppendEntriesArgs" int AppendEntriesReply
  | RInstall nat nat int int InstallSnapshotArgs
  | RInstallReply nat nat int int InstallSnapshotReply
  | RCommit nat int
  | RApply nat
  | RDeliver nat
  | RRestart nat

definition rx_elect :: "RequestVoteArgs \<Rightarrow> (nat \<times> int) list \<Rightarrow> 'c rnet \<Rightarrow> 'c rnet option" where
  "rx_elect args rs s =
     (let q = nat (rv_CandidateId args) in
      if args \<in> rn_voteReq s \<and> rv_CandidateId args = int q \<and> vote_channel s q args rs then
        (case election_finish args (map snd rs) (rn_rf s q) of
           None \<Rightarrow> None
         | Some (rf, ts) \<Rightarrow>
             Some ((if rf_state rf = Leader \<and> rf_state (rn_rf s q) \<noteq> Leader
                    then rn_lead_log q (rf_currentTerm rf) (rf_logs rf) else (\<lambda>s. s))
               (rn_spawn q ts (rn_put q rf s))))
      else None)"

definition rx_reply ::
  "nat \<Rightarrow> nat \<Rightarrow> 'c AppendEntriesArgs \<Rightarrow> int \<Rightarrow> AppendEntriesReply \<Rightarrow> 'c rnet \<Rightarrow> 'c rnet option" where
  "rx_reply q p args n reply s =
     (if (q, p, args, n) \<in> rn_sending s \<and> (q, p, args, n, reply) \<in> rn_appRep s \<and> q < rn_size s then
        (case sendLog_reply p (ae_Term args) args n reply (rn_rf s q) of
           None \<Rightarrow> None
         | Some (rf, again) \<Rightarrow>
             if again then
               (case sendLog_build p (ae_Term args) rf of
                  None \<Rightarrow> None | Some (rf', act) \<Rightarrow> Some (rn_emit q p act (rn_put q rf' s)))
             else Some (rn_put q rf s))
      else None)"

definition rx_commit :: "nat \<Rightarrow> int \<Rightarrow> 'c rnet \<Rightarrow> 'c rnet option" where
  "rx_commit q t s =
     (case rn_committer s (q, t) of
        None \<Rightarrow> None
      | Some b \<Rightarrow>
          if q < rn_size s then
            (case committer_round t b (rn_rf s q) of
               None \<Rightarrow> None
             | Some None \<Rightarrow> Some (s\<lparr>rn_committer := (rn_committer s)((q, t) := None)\<rparr>)
             | Some (Some (rf, b', w)) \<Rightarrow>
                 Some (rn_put q rf s\<lparr>rn_committer := (rn_committer s)((q, t) \<mapsto> b')\<rparr>))
          else None)"

fun rx_exec :: "'c rf_action \<Rightarrow> 'c rnet \<Rightarrow> 'c rnet option" where
  "rx_exec (RTick q) s =
     (if q < rn_size s then (let (rf, ts) = rf_tick (rn_rf s q) in Some (rn_spawn q ts (rn_put q rf s)))
      else None)"
| "rx_exec (RCampaign q) s =
     (if (q, GoStartElection) \<in> rn_tasks s \<and> q < rn_size s then
        (case election_begin (rn_rf s q) of
           Some (Some (rf, args)) \<Rightarrow>
             Some (rn_put q rf s\<lparr>rn_voteReq := insert args (rn_voteReq s),
               rn_votes := insert (q, rv_Term args, q) (rn_votes s),
               rn_cand := (rn_cand s)((rv_Term args, q) := rf_logs rf)\<rparr>)
         | _ \<Rightarrow> None)
      else None)"
| "rx_exec (RVote args r) s =
     (if args \<in> rn_voteReq s \<and> r < rn_size s \<and> int r \<noteq> rv_CandidateId args then
        (case RequestVote args (rn_rf s r) of
           None \<Rightarrow> None
         | Some (rf, reply) \<Rightarrow>
             Some (rn_put r rf s\<lparr>rn_voteRep := insert (r, args, reply) (rn_voteRep s),
               rn_votes := (if rr_Granted reply
                 then {(r, rv_Term args, nat (rv_CandidateId args))} else {}) \<union> rn_votes s\<rparr>))
      else None)"
| "rx_exec (RElect args rs) s = rx_elect args rs s"
| "rx_exec (RStart q now cmd) s =
     (if q < rn_size s then
        (let (rf, idx, t, ok, ts) = rf_Start now cmd (rn_rf s q)
         in if ok then Some (rn_lead_log q t (rf_logs rf) (rn_spawn q ts (rn_put q rf s))) else None)
      else None)"
| "rx_exec (RHeartbeat q t now) s =
     (if (q, GoHeartbeat t) \<in> rn_tasks s \<and> q < rn_size s then
        (case heartbeat_round now t (rn_rf s q) of
           None \<Rightarrow> None | Some (rf, ts) \<Rightarrow> Some (rn_spawn q ts (rn_put q rf s)))
      else None)"
| "rx_exec (RSend q p t) s =
     (if (q, GoSendLog p t) \<in> rn_tasks s \<and> q < rn_size s then
        (case sendLog_begin p t (rn_rf s q) of
           Some (Some (rf, act)) \<Rightarrow> Some (rn_emit q p act (rn_put q rf s))
         | _ \<Rightarrow> None)
      else None)"
| "rx_exec (RAppend q p args n) s =
     (if (q, p, args, n) \<in> rn_appReq s \<and> p < rn_size s then
        (case AppendEntries args (rn_rf s p) of
           None \<Rightarrow> None
         | Some (rf, reply) \<Rightarrow>
             Some (rn_put p rf s\<lparr>rn_appRep := insert (q, p, args, n, reply) (rn_appRep s),
               rn_acked := (if ar_Success reply
                 then {(p, ae_Term args, nat (n + int (length (ae_Entries args))))} else {})
                 \<union> rn_acked s\<rparr>))
      else None)"
| "rx_exec (RAppendReply q p args n reply) s = rx_reply q p args n reply s"
| "rx_exec (RInstall q p t m args) s =
     (if (q, GoSendSnapshot p t m args) \<in> rn_tasks s \<and> p < rn_size s then
        (case InstallSnapshot args (rn_rf s p) of
           None \<Rightarrow> None
         | Some (rf, reply, ts) \<Rightarrow>
             Some (rn_spawn p ts
               (rn_put p rf s\<lparr>rn_snapRep := insert (q, p, t, m, reply) (rn_snapRep s)\<rparr>)))
      else None)"
| "rx_exec (RInstallReply q p t m reply) s =
     (if (q, p, t, m, reply) \<in> rn_snapRep s \<and> q < rn_size s then
        (case sendSnapshot_reply p t m reply (rn_rf s q) of
           None \<Rightarrow> None | Some (rf, ts) \<Rightarrow> Some (rn_spawn q ts (rn_put q rf s)))
      else None)"
| "rx_exec (RCommit q t) s = rx_commit q t s"
| "rx_exec (RApply q) s =
     (if q < rn_size s \<and> rn_sent s q = length (rn_taken s q) then
        (case applier_round (rn_rf s q) of
           Some (rf, ApplyMsgs msgs) \<Rightarrow>
             Some (rn_put q rf s\<lparr>rn_taken := (rn_taken s)(q := rn_taken s q @ msgs)\<rparr>)
         | _ \<Rightarrow> None)
      else None)"
| "rx_exec (RDeliver q) s =
     (if q < rn_size s \<and> rn_sent s q < length (rn_taken s q)
      then Some (s\<lparr>rn_sent := (rn_sent s)(q := Suc (rn_sent s q))\<rparr>) else None)"
| "rx_exec (RRestart q) s = (if q < rn_size s then Some (rn_restart q s) else None)"

fun rx_run :: "'c rf_action list \<Rightarrow> 'c rnet \<Rightarrow> 'c rnet option" where
  "rx_run [] s = Some s"
| "rx_run (a # as) s = (case rx_exec a s of None \<Rightarrow> None | Some t \<Rightarrow> rx_run as t)"

section \<open>Soundness\<close>

lemma vote_channel_code [code]:
  "vote_channel s q args rs \<longleftrightarrow> distinct (map fst rs) \<and>
     list_all (\<lambda>(r, res). r < rn_size s \<and> r \<noteq> q \<and> (res = ElFail \<or>
        (\<exists>(r', args', reply) \<in> rn_voteRep s. r' = r \<and> args' = args \<and>
           res = election_result args (Some reply)))) rs"
  unfolding vote_channel_def list_all_iff by fastforce

lemma rx_elect_sound: "rx_elect args rs s = Some t \<Longrightarrow> rf_step s t"
  by (auto simp: rx_elect_def Let_def split: if_splits option.splits intro: rf_step.elect)

lemma rx_reply_sound: "rx_reply q p args n reply s = Some t \<Longrightarrow> rf_step s t"
  by (auto simp: rx_reply_def split: if_splits option.splits
      intro: rf_step.append_reply rf_step.append_retry)

lemma rx_commit_sound: "rx_commit q T s = Some t \<Longrightarrow> rf_step s t"
  by (auto simp: rx_commit_def split: if_splits option.splits intro: rf_step.commit rf_step.commit_exit)

lemma rx_exec_sound:
  assumes "rx_exec a s = Some t"
  shows "rf_step s t"
proof (cases a)
  case (RVote args r)
  with assms obtain rf reply where "args \<in> rn_voteReq s" "r < rn_size s" "int r \<noteq> rv_CandidateId args"
    "RequestVote args (rn_rf s r) = Some (rf, reply)"
    "t = rn_put r rf s\<lparr>rn_voteRep := insert (r, args, reply) (rn_voteRep s),
       rn_votes := (if rr_Granted reply
         then {(r, rv_Term args, nat (rv_CandidateId args))} else {}) \<union> rn_votes s\<rparr>"
    by (auto split: if_splits option.splits)
  then show ?thesis using rf_step.vote by blast
next
  case (RAppend q p args n)
  with assms obtain rf reply where "(q, p, args, n) \<in> rn_appReq s" "p < rn_size s"
    "AppendEntries args (rn_rf s p) = Some (rf, reply)"
    "t = rn_put p rf s\<lparr>rn_appRep := insert (q, p, args, n, reply) (rn_appRep s),
       rn_acked := (if ar_Success reply
         then {(p, ae_Term args, nat (n + int (length (ae_Entries args))))} else {}) \<union> rn_acked s\<rparr>"
    by (auto split: if_splits option.splits)
  then show ?thesis using rf_step.append by blast
next
  case (RStart q now cmd)
  with assms show ?thesis
    by (auto simp: Let_def split: if_splits prod.splits intro: rf_step.start)
qed (use assms rx_elect_sound rx_reply_sound rx_commit_sound in
     \<open>auto split: if_splits option.splits prod.splits apply_round.splits intro: rf_step.intros\<close>)

interpretation rf_runs: runs rf_step "rf_reachable N enable" rx_exec rx_run for N enable
  by unfold_locales (simp_all add: rf_reachable.step rx_exec_sound)

lemmas rx_run_steps = rf_runs.run_steps
lemmas rx_run_append = rf_runs.run_append
lemmas steps_reachable = rf_runs.steps_reach

section \<open>Steps of peers that stay up\<close>

text \<open>The steps other than restarts; every step is one of them or a restart.\<close>

definition up_step :: "'c rnet \<Rightarrow> 'c rnet \<Rightarrow> bool" where
  "up_step s t \<longleftrightarrow> (\<exists>a. rx_exec a s = Some t \<and> (\<forall>q. a \<noteq> RRestart q))"

lemma up_stepI: "rx_exec a s = Some t \<Longrightarrow> (\<And>q. a \<noteq> RRestart q) \<Longrightarrow> up_step s t"
  by (auto simp: up_step_def)

lemma rf_step_up: "rf_step s t \<longleftrightarrow> up_step s t \<or> (\<exists>q < rn_size s. t = rn_restart q s)"
proof
  assume "rf_step s t"
  then show "up_step s t \<or> (\<exists>q < rn_size s. t = rn_restart q s)"
  proof cases
    case (tick q rf ts) then show ?thesis by (intro disjI1 up_stepI [of "RTick q"]) auto
  next
    case (campaign q rf args) then show ?thesis by (intro disjI1 up_stepI [of "RCampaign q"]) auto
  next
    case (vote args r rf reply) then show ?thesis by (intro disjI1 up_stepI [of "RVote args r"]) auto
  next
    case (elect args q rs rf ts)
    then show ?thesis by (intro disjI1 up_stepI [of "RElect args rs"]) (auto simp: rx_elect_def Let_def)
  next
    case (start q now cmd rf idx T ts) then show ?thesis by (intro disjI1 up_stepI [of "RStart q now cmd"]) auto
  next
    case (heartbeat q T now rf ts) then show ?thesis by (intro disjI1 up_stepI [of "RHeartbeat q T now"]) auto
  next
    case (send q p T rf act) then show ?thesis by (intro disjI1 up_stepI [of "RSend q p T"]) auto
  next
    case (append q p args n rf reply) then show ?thesis by (intro disjI1 up_stepI [of "RAppend q p args n"]) auto
  next
    case (append_reply q p args n reply rf)
    then show ?thesis by (intro disjI1 up_stepI [of "RAppendReply q p args n reply"]) (auto simp: rx_reply_def)
  next
    case (append_retry q p args n reply rf rf' act)
    then show ?thesis by (intro disjI1 up_stepI [of "RAppendReply q p args n reply"]) (auto simp: rx_reply_def)
  next
    case (install q p T m args rf reply ts)
    then show ?thesis by (intro disjI1 up_stepI [of "RInstall q p T m args"]) auto
  next
    case (install_reply q p T m reply rf ts)
    then show ?thesis by (intro disjI1 up_stepI [of "RInstallReply q p T m reply"]) auto
  next
    case (commit q T b rf b' w)
    then show ?thesis by (intro disjI1 up_stepI [of "RCommit q T"]) (auto simp: rx_commit_def)
  next
    case (commit_exit q T b)
    then show ?thesis by (intro disjI1 up_stepI [of "RCommit q T"]) (auto simp: rx_commit_def)
  next
    case (apply_msgs q rf msgs) then show ?thesis by (intro disjI1 up_stepI [of "RApply q"]) auto
  next
    case (deliver q) then show ?thesis by (intro disjI1 up_stepI [of "RDeliver q"]) auto
  qed blast
qed (auto simp: up_step_def intro: rx_exec_sound rf_step.restart)

lemma up_steps: "up_step\<^sup>*\<^sup>* s t \<Longrightarrow> rf_step\<^sup>*\<^sup>* s t"
  by (rule rtranclp_mono [THEN predicate2D]) (auto simp: rf_step_up)

text \<open>A run without restarts.\<close>

fun restarts :: "'c rf_action \<Rightarrow> bool" where
  "restarts (RRestart q) = True"
| "restarts _ = False"

lemma rx_run_up: "rx_run as s = Some t \<Longrightarrow> list_all (Not \<circ> restarts) as \<Longrightarrow> up_step\<^sup>*\<^sup>* s t"
proof (induction "as" arbitrary: s)
  case (Cons a "as")
  then obtain u where u: "rx_exec a s = Some u" "rx_run as u = Some t" by (auto split: option.splits)
  have "up_step s u" using u(1) Cons.prems(2) by (intro up_stepI) auto
  with Cons.IH [OF u(2)] Cons.prems(2) show ?case by (auto intro: converse_rtranclp_into_rtranclp)
qed simp

end
