(* ===== verification/Raft_Properties.thy ===== *)
theory Raft_Properties
  imports Raft_Replicate Raft_Exec
begin

text \<open>
  What a group of Raft peers promises to the service above it, whatever messages are lost,
  delayed, repeated or reordered and however peers restart: one leader per term, logs that
  match, committed entries that stay, and the same sequence of commands at every peer.
  Concrete runs of three peers witness the hypotheses.
\<close>

section \<open>Runs\<close>

lemma grows_refl: "grows s s"
  by (simp add: grows_def)

lemma grows_trans:
  assumes "grows s t" and "grows t u"
  shows "grows s u"
proof -
  have "rn_lead u T = rn_lead s T \<and> (\<exists>X. rn_ll u T = Some (G @ X) \<and> (\<forall>e \<in> set X. lg_Term e = T))"
    if G: "rn_ll s T = Some G" for T G
  proof -
    obtain X where X: "rn_ll t T = Some (G @ X)" "\<forall>e \<in> set X. lg_Term e = T" "rn_lead t T = rn_lead s T"
      by (rule growsE [OF assms(1) G])
    obtain Y where "rn_ll u T = Some ((G @ X) @ Y)" "\<forall>e \<in> set Y. lg_Term e = T" "rn_lead u T = rn_lead t T"
      by (rule growsE [OF assms(2) X(1)])
    with X show ?thesis by auto
  qed
  moreover have "(p, T, m) \<in> rn_acked s \<or> cur s p \<le> T" if "(p, T, m) \<in> rn_acked u" for p T m
    using that assms unfolding grows_def by (metis order_trans)
  moreover have "rn_cand u (T, c) = rn_cand s (T, c)" if "T \<le> cur s c" for T c
    using that assms unfolding grows_def by (metis order_trans)
  ultimately show ?thesis using assms unfolding grows_def by (auto intro: order_trans)
qed

lemma run_keeps:
  "rf_step\<^sup>*\<^sup>* s t \<Longrightarrow> rn_inv s \<Longrightarrow> rn_inv t \<and> grows s t"
proof (induction rule: rtranclp_induct)
  case (step t u)
  then show ?case using step_inv [of t u] grows_trans by (auto simp: keeps_def)
qed (simp add: grows_refl)

lemma reachable_size: "rf_reachable N enable s \<Longrightarrow> rn_size s = N"
proof (induction rule: rf_reachable.induct)
  case (step s t)
  then show ?case using step_inv [OF step.hyps(2) reachable_inv] growsD(2) by (auto simp: keeps_def)
qed (simp add: rn_init_def)

text \<open>What is known of two moments of a run.\<close>

lemma run_facts:
  assumes "rf_reachable N enable s" and "rf_step\<^sup>*\<^sup>* s t"
  shows "rn_inv s" "rn_inv t" "grows s t" "rn_size s = N" "rn_size t = N"
proof -
  show s: "rn_inv s" "rn_size s = N" using reachable_inv reachable_size assms(1) by blast+
  then show "rn_inv t" "grows s t" using run_keeps assms(2) by blast+
  then show "rn_size t = N" using s(2) growsD(2) by metis
qed

section \<open>A run of three peers\<close>

definition rdemo_vote :: "int \<Rightarrow> nat \<Rightarrow> int \<Rightarrow> int \<Rightarrow> RequestVoteArgs" where
  "rdemo_vote T c lt li = \<lparr>rv_Term = T, rv_CandidateId = int c, rv_LastLogTerm = lt, rv_LastLogIndex = li\<rparr>"

definition rdemo_send :: "int \<Rightarrow> int \<Rightarrow> (int \<times> nat) list \<Rightarrow> int \<Rightarrow> int \<Rightarrow> nat AppendEntriesArgs" where
  "rdemo_send T n es pt c = \<lparr>ae_Term = T, ae_PrevLogTerm = pt, ae_PrevLogIndex = n - 1,
     ae_Entries = map (\<lambda>(t, x). \<lparr>lg_Term = t, lg_Command = Some x\<rparr>) es, ae_LeaderCommit = c\<rparr>"

text \<open>Peer 0 is elected by peer 1, gets 5 committed there, and applies it.\<close>

definition rdemo_lead :: "nat rf_action list" where
  "rdemo_lead = replicate 7 (RTick 0) @ [RCampaign 0, RVote (rdemo_vote 1 0 0 0) 1,
     RElect (rdemo_vote 1 0 0 0) [(1, ElSuccess)]]"

definition rdemo_commit :: "nat rf_action list" where
  "rdemo_commit = [RStart 0 0 (Some 5), RSend 0 1 1, RAppend 0 1 (rdemo_send 1 1 [(1, 5)] 0 1) 1,
     RAppendReply 0 1 (rdemo_send 1 1 [(1, 5)] 0 1) 1 (ae_accept 1), RCommit 0 1, RApply 0, RDeliver 0]"

text \<open>
  Peer 1 is elected by peer 2, which lacks the entry: it refuses 6, gets both entries in
  the retry, and peer 1 commits and applies them. Then peer 0 restarts.
\<close>

definition rdemo_next :: "nat rf_action list" where
  "rdemo_next = replicate 7 (RTick 1) @ [RCampaign 1, RVote (rdemo_vote 2 1 1 1) 2,
     RElect (rdemo_vote 2 1 1 1) [(2, ElSuccess)], RStart 1 0 (Some 6), RSend 1 2 2,
     RAppend 1 2 (rdemo_send 2 2 [(2, 6)] 1 1) 2,
     RAppendReply 1 2 (rdemo_send 2 2 [(2, 6)] 1 1) 2
       \<lparr>ar_Term = 2, ar_Success = False, ar_XTerm = 0, ar_XIndex = 0, ar_XLen = 1\<rparr>,
     RAppend 1 2 (rdemo_send 2 1 [(1, 5), (2, 6)] 0 1) 1,
     RAppendReply 1 2 (rdemo_send 2 1 [(1, 5), (2, 6)] 0 1) 1 (ae_accept 2), RCommit 1 2, RApply 1,
     RDeliver 1, RDeliver 1, RRestart 0]"

definition rdemo_at :: "nat rf_action list \<Rightarrow> nat rnet" where
  "rdemo_at acts = the (rx_run acts (rn_init 3 True))"

lemma rdemo_runs:
  "rx_run rdemo_lead (rn_init 3 True) \<noteq> None"
  "rx_run rdemo_commit (rdemo_at rdemo_lead) \<noteq> None"
  "rx_run rdemo_next (rdemo_at (rdemo_lead @ rdemo_commit)) \<noteq> None"
  unfolding not_None_eq [symmetric] by code_simp+

lemma rdemo_reach:
  "rf_reachable 3 True (rdemo_at rdemo_lead)"
  "rf_step\<^sup>*\<^sup>* (rdemo_at rdemo_lead) (rdemo_at (rdemo_lead @ rdemo_commit))"
  "rf_step\<^sup>*\<^sup>* (rdemo_at (rdemo_lead @ rdemo_commit)) (rdemo_at (rdemo_lead @ rdemo_commit @ rdemo_next))"
proof -
  obtain s where s: "rx_run rdemo_lead (rn_init 3 True) = Some s" using rdemo_runs(1) by blast
  then have "rdemo_at rdemo_lead = s" by (simp add: rdemo_at_def)
  then show "rf_reachable 3 True (rdemo_at rdemo_lead)"
    using steps_reachable [OF rx_run_steps [OF s] rf_reachable.init] by simp
  obtain t where t: "rx_run rdemo_commit s = Some t" using rdemo_runs(2) \<open>rdemo_at rdemo_lead = s\<close> by auto
  then have at: "rdemo_at (rdemo_lead @ rdemo_commit) = t" using s by (simp add: rdemo_at_def rx_run_append)
  then show "rf_step\<^sup>*\<^sup>* (rdemo_at rdemo_lead) (rdemo_at (rdemo_lead @ rdemo_commit))"
    using rx_run_steps [OF t] \<open>rdemo_at rdemo_lead = s\<close> by simp
  obtain u where u: "rx_run rdemo_next t = Some u" using rdemo_runs(3) at by auto
  then have "rdemo_at (rdemo_lead @ rdemo_commit @ rdemo_next) = u"
    using s t by (simp add: rdemo_at_def rx_run_append)
  then show "rf_step\<^sup>*\<^sup>* (rdemo_at (rdemo_lead @ rdemo_commit)) (rdemo_at (rdemo_lead @ rdemo_commit @ rdemo_next))"
    using rx_run_steps [OF u] at by simp
qed

lemmas rdemo_reach_commit = steps_reachable [OF rdemo_reach(2,1)]
lemmas rdemo_reach_next = steps_reachable [OF rdemo_reach(3) rdemo_reach_commit]

lemma rdemo_facts:
  "st (rdemo_at rdemo_lead) 0 = Leader" "cur (rdemo_at rdemo_lead) 0 = 1"
  "st (rdemo_at (rdemo_lead @ rdemo_commit)) 0 = Leader" "cur (rdemo_at (rdemo_lead @ rdemo_commit)) 0 = 1"
  "rf_commitIndex (rn_rf (rdemo_at (rdemo_lead @ rdemo_commit)) 0) = 2"
  "st (rdemo_at (rdemo_lead @ rdemo_commit @ rdemo_next)) 1 = Leader"
  "cur (rdemo_at (rdemo_lead @ rdemo_commit @ rdemo_next)) 1 = 2"
  "map lg_Command (lg (rdemo_at (rdemo_lead @ rdemo_commit)) 0) = [None, Some 5]"
  "map lg_Term (lg (rdemo_at (rdemo_lead @ rdemo_commit @ rdemo_next)) 1) = [0, 1, 2]"
  "map lg_Term (lg (rdemo_at (rdemo_lead @ rdemo_commit @ rdemo_next)) 2) = [0, 1, 2]"
  "map am_Command (rn_applied (rdemo_at (rdemo_lead @ rdemo_commit)) 0) = [Some 5]"
  "map am_Command (rn_applied (rdemo_at (rdemo_lead @ rdemo_commit @ rdemo_next)) 1) = [Some 5, Some 6]"
  by code_simp+


section \<open>Safety\<close>

text \<open>
  C8. Election safety: if a peer is the leader of a term and, then or later, a peer is the
  leader of that same term, they are the same peer, and its log has only been appended to.
\<close>

theorem raft_election_safety:
  assumes "rf_reachable N enable s" and "rf_step\<^sup>*\<^sup>* s t" and "q < N" and "q' < N"
    and "rf_GetState (rn_rf s q) = (T, True)" and "rf_GetState (rn_rf t q') = (T, True)"
  shows "q = q' \<and> (\<exists>X. rf_logs (rn_rf t q') = rf_logs (rn_rf s q) @ X)"
proof -
  note f = run_facts [OF assms(1,2)]
  have s: "rn_ll s T = Some (lg s q)" "rn_lead s T = q"
    using lead_invD(6,7) [OF rn_invD(4) [OF f(1)], of q] assms(3,5) f(4) by (auto simp: rf_GetState_def)
  have t: "rn_ll t T = Some (lg t q')" "rn_lead t T = q'"
    using lead_invD(6,7) [OF rn_invD(4) [OF f(2)], of q'] assms(4,6) f(5) by (auto simp: rf_GetState_def)
  obtain X where "rn_ll t T = Some (lg s q @ X)" "rn_lead t T = rn_lead s T" by (rule growsE [OF f(3) s(1)])
  with s t show ?thesis by (intro conjI exI [of _ X]) auto
qed

theorem raft_election_safety_witness:
  "rf_GetState (rn_rf (rdemo_at rdemo_lead) 0) = (1, True) \<and>
   (\<exists>X. rf_logs (rn_rf (rdemo_at (rdemo_lead @ rdemo_commit)) 0) = rf_logs (rn_rf (rdemo_at rdemo_lead) 0) @ X)"
  using raft_election_safety [OF rdemo_reach(1,2), of 0 0 1] rdemo_facts(1-4) by (simp add: rf_GetState_def)

text \<open>
  C9. Log matching: if the logs of two peers have entries of the same term at the same
  position, they agree on all entries up to there.
\<close>

theorem raft_log_matching:
  assumes "rf_reachable N enable s" and "q < N" and "q' < N"
    and "i < length (rf_logs (rn_rf s q))" and "i < length (rf_logs (rn_rf s q'))"
    and "lg_Term (rf_logs (rn_rf s q) ! i) = lg_Term (rf_logs (rn_rf s q') ! i)"
  shows "take (Suc i) (rf_logs (rn_rf s q)) = take (Suc i) (rf_logs (rn_rf s q'))"
proof -
  have inv: "rn_inv s" "rn_size s = N" using reachable_inv reachable_size assms(1) by blast+
  note log = log_invD(1) [OF rn_invD(2) [OF inv(1)]]
  show ?thesis
    using log_matching [OF log log assms(4-6)] assms(2,3) inv(2) by (simp add: agree_def)
qed

theorem raft_log_matching_witness:
  "take 3 (rf_logs (rn_rf (rdemo_at (rdemo_lead @ rdemo_commit @ rdemo_next)) 1)) =
   take 3 (rf_logs (rn_rf (rdemo_at (rdemo_lead @ rdemo_commit @ rdemo_next)) 2))"
proof -
  let ?s = "rdemo_at (rdemo_lead @ rdemo_commit @ rdemo_next)"
  have len: "length (lg ?s 1) = 3" "length (lg ?s 2) = 3"
    using rdemo_facts(9,10) by (metis length_map length_Cons list.size(3) numeral_3_eq_3)+
  moreover have "tm (lg ?s 1) 2 = 2" "tm (lg ?s 2) 2 = 2"
    using rdemo_facts(9,10) len by (metis nth_map nth_Cons_Suc nth_Cons_0 numeral_2_eq_2 lessI numeral_3_eq_3)+
  ultimately show ?thesis
    using raft_log_matching [OF rdemo_reach_next, of 1 2 2] by (simp add: numeral_3_eq_3 numeral_2_eq_2)
qed

text \<open>
  C7. Leader completeness: an entry below the commit index of some peer is in the log of
  every leader of that peer's term or a later one, then and ever after.
\<close>

theorem raft_leader_completeness:
  assumes "rf_reachable N enable s" and "rf_step\<^sup>*\<^sup>* s t" and "q < N" and "q' < N"
    and "int i < rf_commitIndex (rn_rf s q)" and "rf_GetState (rn_rf t q') = (U, True)"
    and "rf_currentTerm (rn_rf s q) \<le> U"
  shows "i < length (rf_logs (rn_rf t q')) \<and> rf_logs (rn_rf t q') ! i = rf_logs (rn_rf s q) ! i"
proof -
  note f = run_facts [OF assms(1,2)]
  let ?c = "rf_commitIndex (rn_rf s q)" and ?H = "lg t q'"
  have cm: "commit_ok s (cur s q) (lg s q) ?c"
    using rn_invD(9) [OF f(1)] assms(3) f(4) by (auto simp: commit_inv_def)
  then have "agree (nat ?c) (lg s q) (lg s q)" by (auto simp: commit_ok_def intro: agree_refl)
  then have cm': "commit_ok t (cur s q) (lg s q) ?c" using commit_ok_grows [OF f(3) cm] by blast
  have H: "rn_ll t U = Some ?H"
    using lead_invD(6) [OF rn_invD(4) [OF f(2)], of q'] assms(4,6) f(5) by (auto simp: rf_GetState_def)
  have "agree (nat ?c) (lg s q) ?H"
  proof (cases "?c = 1")
    case True
    then show ?thesis
      using log_invD(1) [OF rn_invD(2) [OF f(1)], of q] log_invD(3) [OF rn_invD(2) [OF f(2)] H] assms(3) f(4)
      by (intro agreeI) (auto simp: log_ok_def Suc_le_eq)
  next
    case False
    then obtain T n G where T: "T \<le> cur s q" "nat ?c \<le> n" "committed t T n" "rn_ll t T = Some G"
      "agree (nat ?c) (lg s q) G"
      using cm' by (auto simp: commit_ok_def)
    have "agree (nat ?c) G ?H"
    proof (cases "T = U")
      case True
      then show ?thesis using T(4,5) H by (auto simp: agree_def)
    next
      case False
      then have "agree n ?H G"
        using leader_complete [OF rn_invD(8) [OF f(2)] T(3,4) H] T(1) assms(7) by simp
      then show ?thesis using agree_less [OF agree_sym] T(2) by blast
    qed
    then show ?thesis using agree_trans T(5) by blast
  qed
  moreover have "i < nat ?c" using assms(5) by simp
  ultimately show ?thesis using agree_nth by (metis agree_def order_less_le_trans)
qed

theorem raft_leader_completeness_witness:
  "rf_logs (rn_rf (rdemo_at (rdemo_lead @ rdemo_commit @ rdemo_next)) 1) ! 1 =
   rf_logs (rn_rf (rdemo_at (rdemo_lead @ rdemo_commit)) 0) ! 1"
  using raft_leader_completeness [OF rdemo_reach_commit rdemo_reach(3), of 0 1 1 2] rdemo_facts(4-7)
  by (simp add: rf_GetState_def)

text \<open>Whatever two peers have applied, at any two times, is the same.\<close>

lemma applied_agree:
  assumes "rf_reachable N enable s" and "rf_step\<^sup>*\<^sup>* s t" and "q < N" and "q' < N"
    and "i < length (rn_applied s q)" and "i < length (rn_applied t q')"
  shows "rn_applied s q ! i = rn_applied t q' ! i \<and> rn_applied s q ! i = command_msg (lg s q) (Suc i)"
proof -
  note f = run_facts [OF assms(1,2)]
  have s: "commit_ok s (cur s q) (lg s q) (rf_commitIndex (rn_rf s q))"
    "rn_taken s q = map (command_msg (lg s q)) [1..<nat (rf_lastApplied (rn_rf s q))]"
    using rn_invD(9) [OF f(1)] assms(3) f(4) by (auto simp: commit_inv_def)
  have t: "commit_ok t (cur t q') (lg t q') (rf_commitIndex (rn_rf t q'))"
    "rn_taken t q' = map (command_msg (lg t q')) [1..<nat (rf_lastApplied (rn_rf t q'))]"
    using rn_invD(9) [OF f(2)] assms(4) f(5) by (auto simp: commit_inv_def)
  have "agree (nat (rf_commitIndex (rn_rf s q))) (lg s q) (lg s q)"
    using s(1) by (auto simp: commit_ok_def intro: agree_refl)
  then have s': "commit_ok t (cur s q) (lg s q) (rf_commitIndex (rn_rf s q))"
    using commit_ok_grows [OF f(3) s(1)] by blast
  have bounds: "rf_lastApplied (rn_rf s q) \<le> rf_commitIndex (rn_rf s q)"
    "rf_lastApplied (rn_rf t q') \<le> rf_commitIndex (rn_rf t q')"
    using peer_invD(8) [OF rn_invD(1) [OF f(1)]] peer_invD(8) [OF rn_invD(1) [OF f(2)]] f(4,5) assms(3,4)
    by auto
  have i: "Suc i < nat (rf_commitIndex (rn_rf s q))" "Suc i < nat (rf_commitIndex (rn_rf t q'))"
    using assms(5,6) bounds by (auto simp: rn_applied_def s(2) t(2))
  have "lg s q ! Suc i = lg t q' ! Suc i"
    using commit_ok_agree [OF rn_invD(8) [OF f(2)] s' t(1) log_invD(1) log_invD(1) i]
      rn_invD(2) [OF f(1)] rn_invD(2) [OF f(2)] f(4,5) assms(3,4) by simp
  then show ?thesis using assms(5,6) by (auto simp: rn_applied_def s(2) t(2) command_msg_def)
qed

text \<open>
  C1. State machine safety: the commands that two peers have delivered to their services,
  now or at any later time, are the same at every position that both have reached. Delivery
  is message by message. A peer that restarts delivers the same commands from the start.
\<close>

theorem raft_state_machine_safety:
  assumes "rf_reachable N enable s" and "rf_step\<^sup>*\<^sup>* s t" and "q < N" and "q' < N"
    and "i < length (rn_applied s q)" and "i < length (rn_applied t q')"
  shows "rn_applied s q ! i = rn_applied t q' ! i \<and> am_CommandValid (rn_applied s q ! i) \<and>
    am_CommandIndex (rn_applied s q ! i) = int i + 1"
proof -
  have "am_CommandValid (command_msg (lg s q) (Suc i))" "am_CommandIndex (command_msg (lg s q) (Suc i)) = int i + 1"
    by (simp_all add: command_msg_def)
  then show ?thesis using applied_agree [OF assms] by metis
qed

theorem raft_state_machine_safety_witness:
  "am_Command (rn_applied (rdemo_at (rdemo_lead @ rdemo_commit @ rdemo_next)) 1 ! 0) = Some 5"
proof -
  let ?s = "rdemo_at (rdemo_lead @ rdemo_commit)" and ?t = "rdemo_at (rdemo_lead @ rdemo_commit @ rdemo_next)"
  have len: "length (rn_applied ?s 0) = 1" "length (rn_applied ?t 1) = 2"
    using rdemo_facts(11,12) by (metis length_map length_Cons list.size(3) One_nat_def numeral_2_eq_2)+
  then have "am_Command (rn_applied ?s 0 ! 0) = Some 5"
    using rdemo_facts(11) by (metis nth_map nth_Cons_0 zero_less_one)
  moreover have "0 < length (rn_applied ?s 0)" "0 < length (rn_applied ?t 1)" using len by linarith+
  ultimately show ?thesis
    using raft_state_machine_safety [OF rdemo_reach_commit rdemo_reach(3), of 0 1 0] by simp
qed

text \<open>
  A group of one peer never gets a leader: the election asks only other peers, and
  counts the candidate's own vote as a majority only when another vote comes in.
\<close>

lemma raft_single_peer_never_leads:
  assumes "rf_reachable 1 enable s"
  shows "rf_state (rn_rf s 0) \<noteq> Leader \<and> rn_applied s 0 = []"
proof -
  have inv: "rn_inv s" "rn_size s = 1" using reachable_inv reachable_size assms by blast+
  have none: "rn_ll s T = None" for T
    using lead_invD(2) [OF rn_invD(4) [OF inv(1)], of T] inv(2) by (cases "rn_ll s T") auto
  then have "st s 0 \<noteq> Leader" using lead_invD(6) [OF rn_invD(4) [OF inv(1)], of 0] inv(2) by auto
  moreover have c: "commit_ok s (cur s 0) (lg s 0) (rf_commitIndex (rn_rf s 0))"
    "rn_taken s 0 = map (command_msg (lg s 0)) [1..<nat (rf_lastApplied (rn_rf s 0))]"
    using rn_invD(9) [OF inv(1)] inv(2) by (auto simp: commit_inv_def)
  then have "rf_commitIndex (rn_rf s 0) = 1" using none by (simp add: commit_ok_def)
  then have "rf_lastApplied (rn_rf s 0) \<le> 1" using peer_invD(8) [OF rn_invD(1) [OF inv(1)], of 0] inv(2) by simp
  ultimately show ?thesis using c(2) by (simp add: rn_applied_def)
qed

lemma raft_single_peer_never_leads_witness:
  "rf_reachable 1 True (the (rx_run (replicate 7 (RTick 0) @ [RCampaign 0]) (rn_init 1 True :: nat rnet))) \<and>
   rf_state (rn_rf (the (rx_run (replicate 7 (RTick 0) @ [RCampaign 0]) (rn_init 1 True :: nat rnet))) 0) \<noteq> Leader"
proof -
  let ?r = "rx_run (replicate 7 (RTick 0) @ [RCampaign 0]) (rn_init 1 True :: nat rnet)"
  have "?r \<noteq> None" unfolding not_None_eq [symmetric] by code_simp
  then obtain s where s: "?r = Some s" by blast
  then have "rf_reachable 1 True s" using steps_reachable [OF rx_run_steps rf_reachable.init] by blast
  with raft_single_peer_never_leads [OF this] s show ?thesis by simp
qed

end
