(* ===== verification/Raft_Progress.thy ===== *)
theory Raft_Progress
  imports Raft_Facts "HOL-Library.Multiset"
begin

text \<open>
  Properties of single sections of a Raft peer: the committer against an order statistic of
  the match indices, the retry loop of the sender, and what restarts and crashes keep.
\<close>

section \<open>The committer\<close>

text \<open>The position up to which a majority has the log: an order statistic of the match indices.\<close>

definition median_match :: "'c Raft \<Rightarrow> int" where
  "median_match rf = rev (sort (map (\<lambda>p. rf_matchIndex rf ! p) (other_peers rf))) ! (rf_peers rf div 2 - 1)"

lemma nth_filter_greater:
  "sorted (rev ys) \<Longrightarrow> j < length ys \<Longrightarrow> (i < ys ! j) = (j < length (filter (\<lambda>y. i < (y::int)) ys))"
proof (induction ys arbitrary: j)
  case (Cons y ys)
  have srt: "sorted (rev ys)" "\<forall>x \<in> set ys. x \<le> y" using Cons.prems(1) by (auto simp: sorted_append)
  show ?case
  proof (cases "i < y")
    case True
    then show ?thesis using Cons.IH [OF srt(1)] Cons.prems(2) by (cases j) auto
  next
    case False
    then have "\<forall>x \<in> set ys. \<not> i < x" using srt(2) by auto
    then have "filter (\<lambda>y. i < y) (y # ys) = []" "\<not> i < (y # ys) ! j"
      using False Cons.prems(2) nth_mem by (auto simp: filter_empty_conv nth_Cons' split: if_splits)
    then show ?thesis by simp
  qed
qed simp

lemma length_other_peers:
  assumes "rf_me rf < rf_peers rf"
  shows "length (other_peers rf) = rf_peers rf - 1"
proof -
  have "distinct (other_peers rf)" by (simp add: other_peers_def)
  then have "length (other_peers rf) = card (set (other_peers rf))" by (simp add: distinct_card)
  moreover have "set (other_peers rf) = {..<rf_peers rf} - {rf_me rf}" by (auto simp: other_peers_def)
  ultimately show ?thesis using assms by simp
qed

lemma quorum_has_median:
  assumes "rf_me rf < rf_peers rf" and "2 \<le> rf_peers rf"
  shows "quorum_has rf i \<longleftrightarrow> i < median_match rf"
proof -
  let ?ms = "map (\<lambda>p. rf_matchIndex rf ! p) (other_peers rf)" and ?h = "rf_peers rf div 2"
  have "distinct (other_peers rf)" by (simp add: other_peers_def)
  then have "length (filter (\<lambda>p. i < rf_matchIndex rf ! p) (other_peers rf)) = card (matched rf i)"
    by (subst distinct_card [symmetric]) (auto simp: matched_def other_peers_def intro!: arg_cong [where f = card])
  moreover have "mset (filter (\<lambda>m. i < m) (rev (sort ?ms))) = mset (filter (\<lambda>m. i < m) ?ms)" by simp
  then have "length (filter (\<lambda>m. i < m) (rev (sort ?ms))) = length (filter (\<lambda>m. i < m) ?ms)"
    by (metis size_mset)
  ultimately have cnt: "length (filter (\<lambda>m. i < m) (rev (sort ?ms))) = card (matched rf i)"
    by (simp add: filter_map comp_def)
  have "?h - 1 < length (rev (sort ?ms))" using assms length_other_peers [OF assms(1)] by simp
  then have "(i < median_match rf) = (?h - 1 < card (matched rf i))"
    using nth_filter_greater [of "rev (sort ?ms)" "?h - 1" i] cnt by (simp add: median_match_def)
  also have "\<dots> = (rf_peers rf < (1 + card (matched rf i)) * 2)" using assms(2) by presburger
  finally show ?thesis by (simp add: quorum_has_def)
qed

lemma commit_median:
  assumes "rf_currentTerm rf = T" and "rf_me rf < rf_peers rf" and "2 \<le> rf_peers rf"
    and "length (rf_matchIndex rf) = rf_peers rf"
    and "median_match rf \<le> rf_startIndex rf + int (length (rf_logs rf))"
  shows "committer_round T True rf =
    Some (Some (rf\<lparr>rf_commitIndex := max (rf_commitIndex rf) (median_match rf)\<rparr>, True, True))"
proof -
  let ?c = "rf_commitIndex rf" and ?r = "rf_startIndex rf + int (length (rf_logs rf))"
  note q = quorum_has_median [OF assms(2,3)]
  have test: "testIndexL ?c rf = Some (?c < median_match rf)"
    using testIndexL_eq [OF assms(4,3)] q by (simp add: quorum_has_def)
  show ?thesis
  proof (cases "?c < median_match rf")
    case True
    then obtain c where "commit_search rf (?c + 1) ?r = Some c" "c \<le> ?r" "c - 1 < median_match rf"
      "c < ?r \<Longrightarrow> \<not> c < median_match rf"
      using commit_search_eq [OF assms(4,3), of "?c + 1" ?r] q assms(5) by auto
    moreover from calculation have "c = median_match rf" using assms(5) by linarith
    ultimately show ?thesis using True test assms(1) by (simp add: committer_round_def)
  next
    case False
    then show ?thesis using test assms(1) by (simp add: committer_round_def max_def)
  qed
qed

text \<open>
  C22. The binary search of the committer moves the commit index to exactly the position
  that a majority of the peers has, counting the leader, and never back.
\<close>

theorem raft_commit_median:
  assumes "rf_currentTerm rf = T" and "rf_me rf < rf_peers rf" and "2 \<le> rf_peers rf"
    and "length (rf_matchIndex rf) = rf_peers rf"
    and "median_match rf \<le> rf_startIndex rf + int (length (rf_logs rf))"
  shows "committer_round T True rf =
    Some (Some (rf\<lparr>rf_commitIndex := max (rf_commitIndex rf) (median_match rf)\<rparr>, True, True))"
  by (rule commit_median [OF assms])

definition sample_five :: "nat Raft" where
  "sample_five = (rf_Make 5 0 (rp_MakePersister True))\<lparr>rf_state := Leader, rf_currentTerm := 1,
     rf_logs := replicate 9 \<lparr>lg_Term = 1, lg_Command = None\<rparr>, rf_matchIndex := [1, 7, 4, 9, 2]\<rparr>"

theorem raft_commit_median_witness:
  "committer_round 1 True sample_five = Some (Some (sample_five\<lparr>rf_commitIndex := 7\<rparr>, True, True))"
proof -
  have m: "median_match sample_five = 7" by code_simp
  have c: "rf_commitIndex sample_five = 1" "rf_currentTerm sample_five = 1"
    "rf_me sample_five < rf_peers sample_five" "2 \<le> rf_peers sample_five"
    "length (rf_matchIndex sample_five) = rf_peers sample_five"
    "7 \<le> rf_startIndex sample_five + int (length (rf_logs sample_five))" by code_simp+
  show ?thesis using raft_commit_median [OF c(2-5)] m c(1,6) by simp
qed

section \<open>The sender\<close>

lemma term_start_le: "term_start logs i \<le> i"
  by (induction i) auto

lemma back_loop_le: "back_loop rf x n = Some m \<Longrightarrow> m \<le> n"
  by (induction n arbitrary: m) (fastforce split: bind_splits if_splits)+

lemma sendLog_back_bounds:
  "sendLog_back rf x n = Some m \<Longrightarrow> rf_startIndex rf \<le> m \<and> m \<le> max n (rf_startIndex rf)"
  by (auto simp: sendLog_back_def split: if_splits bind_splits dest: back_loop_le)

lemma sendLog_forward_bounds:
  "n \<le> sendLog_forward rf x xlen n \<and> sendLog_forward rf x xlen n \<le> max n xlen \<and>
   sendLog_forward rf x xlen n \<le> max n (rf_startIndex rf + int (length (rf_logs rf)))"
proof (induction rf x xlen n rule: sendLog_forward.induct)
  case (1 rf x xlen n)
  show ?case
  proof (cases "n - rf_startIndex rf < int (length (rf_logs rf)) \<and> n < xlen \<and>
      lg_Term (rf_logs rf ! nat (n - rf_startIndex rf)) = x")
    case True
    then show ?thesis using 1 by (subst (1 2 3) sendLog_forward.simps) auto
  next
    case False
    then show ?thesis by (subst (1 2 3) sendLog_forward.simps) auto
  qed
qed

text \<open>The hints of a refusal point before the entries that were sent.\<close>

lemma refusal_hints:
  assumes "AppendEntries args rf = Some (rf', reply)" and "\<not> ar_Success reply"
    and "ar_Term reply \<le> ae_Term args" and "rf_startIndex rf \<le> ae_PrevLogIndex args"
  shows "ar_XIndex reply \<le> ae_PrevLogIndex args \<and> ar_XLen reply \<le> ae_PrevLogIndex args"
proof -
  have cur: "rf_currentTerm rf \<le> ae_Term args"
    using assms(1,3) by (auto simp: AppendEntries_def split: if_splits)
  define rf2 where "rf2 = (if ae_Term args > rf_currentTerm rf
      then rf\<lparr>rf_currentTerm := ae_Term args, rf_votedFor := - 1\<rparr> else rf)
    \<lparr>rf_state := Follower, rf_missedHeartbeat := 0\<rparr>"
  have rf2: "rf_logs rf2 = rf_logs rf" "rf_startIndex rf2 = rf_startIndex rf" by (simp_all add: rf2_def)
  have app: "ae_append (ae_PrevLogTerm args) (ae_PrevLogIndex args) (ae_Entries args) (ae_LeaderCommit args)
      rf2 = Some (rf', reply)"
    using assms(1,4) cur rf2(2) unfolding AppendEntries_def Let_def rf2_def [symmetric] by (simp split: if_splits)
  show ?thesis
  proof (cases "ae_PrevLogIndex args \<ge> rf_startIndex rf + int (length (rf_logs rf))")
    case True
    then show ?thesis
      using app rf2 term_start_le [of "rf_logs rf" "length (rf_logs rf) - 1"]
      by (auto simp: ae_append_def ae_reject_def split: bind_splits)
  next
    case False
    then show ?thesis
      using app rf2 assms(2,4) term_start_le [of "rf_logs rf" "nat (ae_PrevLogIndex args - rf_startIndex rf)"]
      by (auto simp: ae_append_def ae_reject_def ae_accept_def Let_def split: bind_splits if_splits prod.splits)
  qed
qed

lemma retry_down:
  assumes "AppendEntries args rfp = Some (rfp', reply)" and "rf_startIndex rfp \<le> ae_PrevLogIndex args"
    and "ae_PrevLogIndex args = n - 1" and "rf_startIndex rf < n"
    and "sendLog_reply p T args n reply rf = Some (rf', True)"
  shows "rf_nextIndex rf ! p = n \<and> rf_nextIndex rf' ! p < n \<and> rf_startIndex rf \<le> rf_nextIndex rf' ! p"
proof -
  from assms(5) obtain nIndex where
    fl: "\<not> ar_Success reply" "ar_Term reply \<le> ae_Term args" and nxt: "p < length (rf_nextIndex rf)"
      "rf_nextIndex rf ! p = n"
    and bk: "sendLog_back rf (ar_XTerm reply) (ar_XIndex reply) = Some nIndex"
    and rf': "rf' = rf\<lparr>rf_nextIndex := (rf_nextIndex rf)
      [p := sendLog_forward rf (ar_XTerm reply) (ar_XLen reply) nIndex]\<rparr>"
    by (auto simp: sendLog_reply_def Let_def go_slices split: bind_splits if_splits)
  note hints = refusal_hints [OF assms(1) fl assms(2)]
  have "rf_startIndex rf \<le> nIndex" "nIndex \<le> n - 1"
    using sendLog_back_bounds [OF bk] hints assms(3,4) by auto
  then show ?thesis
    using sendLog_forward_bounds [of nIndex rf "ar_XTerm reply" "ar_XLen reply"] hints assms(3) rf' nxt by auto
qed

text \<open>
  C21. The retry loop of the sender ends: a refusal that makes it try again, whatever the
  logs of the two peers are, moves nextIndex strictly down, and not below the start of the
  sender's log.
\<close>

theorem raft_retry_decreases:
  assumes "AppendEntries args rfp = Some (rfp', reply)" and "rf_startIndex rfp \<le> ae_PrevLogIndex args"
    and "ae_PrevLogIndex args = n - 1" and "rf_startIndex rf < n"
    and "sendLog_reply p T args n reply rf = Some (rf', True)"
  shows "rf_nextIndex rf ! p = n \<and> rf_nextIndex rf' ! p < n \<and> rf_startIndex rf \<le> rf_nextIndex rf' ! p"
  by (rule retry_down [OF assms])

definition sample_request :: "nat AppendEntriesArgs" where
  "sample_request = \<lparr>ae_Term = 1, ae_PrevLogTerm = 1, ae_PrevLogIndex = 6, ae_Entries = [], ae_LeaderCommit = 1\<rparr>"

theorem raft_retry_decreases_witness:
  "\<exists>rfp' reply rf'. AppendEntries sample_request (rf_Make 5 1 (rp_MakePersister True)) = Some (rfp', reply) \<and>
     sendLog_reply 1 1 sample_request 7 reply (sample_five\<lparr>rf_nextIndex := [7, 7, 7, 7, 7]\<rparr>) = Some (rf', True) \<and>
     rf_nextIndex rf' ! 1 < 7"
proof -
  let ?f = "rf_Make 5 1 (rp_MakePersister True) :: nat Raft"
  let ?l = "sample_five\<lparr>rf_nextIndex := [7, 7, 7, 7, 7]\<rparr>"
  have "AppendEntries sample_request ?f \<noteq> None" unfolding not_None_eq [symmetric] by code_simp
  then obtain rfp' reply where a: "AppendEntries sample_request ?f = Some (rfp', reply)" by force
  have "map_option snd (sendLog_reply 1 1 sample_request 7 (snd (the (AppendEntries sample_request ?f))) ?l) = Some True"
    by code_simp
  then obtain rf' where b: "sendLog_reply 1 1 sample_request 7 reply ?l = Some (rf', True)" using a by auto
  have c: "rf_startIndex ?f \<le> ae_PrevLogIndex sample_request" "ae_PrevLogIndex sample_request = 7 - 1"
    "rf_startIndex ?l < 7" by code_simp+
  show ?thesis using raft_retry_decreases [OF a c b] a b by blast
qed

section \<open>Restarts and crashes\<close>

text \<open>
  A peer that is persisted and made again has its term, its vote, its log and its
  snapshot back, and expects the next commands right after the snapshot.
\<close>

lemma raft_persist_restart:
  "rf_currentTerm (rf_Make N q (rf_persister (rf_Persist rf))) = rf_currentTerm rf \<and>
   rf_votedFor (rf_Make N q (rf_persister (rf_Persist rf))) = rf_votedFor rf \<and>
   rf_logs (rf_Make N q (rf_persister (rf_Persist rf))) = rf_logs rf \<and>
   rf_startIndex (rf_Make N q (rf_persister (rf_Persist rf))) = rf_startIndex rf \<and>
   rf_lastApplied (rf_Make N q (rf_persister (rf_Persist rf))) =
     (if rf_startIndex rf > 0 then rf_startIndex rf + 1 else 1) \<and>
   rf_snapshot (rf_Make N q (rf_persister (rf_Persist rf))) =
     (if rf_startIndex rf > 0 then rf_snapshot rf else [])"
  by (auto simp: rf_Make_def rf_readPersist_def rp_ReadRaftState_def rp_ReadSnapshot_def rf_Persist_def
      rf_persistL_def rp_Save_def Let_def)

text \<open>
  A candidate's vote for itself is not persisted: a peer that campaigns, crashes and is
  made again from its persister grants its vote for the same term to another candidate, so
  it votes twice in one term.
\<close>

lemma raft_candidate_votes_twice_after_crash:
  "\<exists>rf1 args rf2 args' reply.
     election_begin (rf_Make N q (rp_MakePersister True) :: nat Raft) = Some (Some (rf1, args)) \<and>
     rf_votedFor rf1 = int q \<and> rv_Term args = 1 \<and>
     RequestVote args' (rf_Make N q (rf_persister rf1)) = Some (rf2, reply) \<and> rr_Granted reply \<and>
     rv_Term args' = rv_Term args \<and> rv_CandidateId args' \<noteq> int q"
proof -
  let ?rf = "rf_Make N q (rp_MakePersister True) :: nat Raft"
  let ?rf1 = "?rf\<lparr>rf_currentTerm := 1, rf_votedFor := int q, rf_state := Candidate\<rparr>"
  let ?args = "\<lparr>rv_Term = 1, rv_CandidateId = int q, rv_LastLogTerm = 0, rv_LastLogIndex = 0\<rparr>"
  let ?args' = "?args\<lparr>rv_CandidateId := int q + 1\<rparr>"
  have b: "election_begin ?rf = Some (Some (?rf1, ?args))"
    by (simp add: election_begin_def make_effect getLastLogL_def go_index_def dummy_def)
  have p: "rf_persister ?rf1 = rp_MakePersister True" by (simp add: make_effect)
  obtain rf2 reply where v: "RequestVote ?args' (rf_Make N q (rf_persister ?rf1)) = Some (rf2, reply)"
    "rr_Granted reply"
    unfolding p by (simp add: RequestVote_def make_effect getLastLogL_def go_index_def dummy_def)
  show ?thesis
    by (intro exI [of _ ?rf1] exI [of _ ?args] exI [of _ rf2] exI [of _ ?args'] exI [of _ reply])
       (use b v in \<open>simp add: make_effect\<close>)
qed

end
