(* ===== verification/Raft_Panics.thy ===== *)
theory Raft_Panics
  imports Raft_Properties Raft_Progress
begin

text \<open>
  No section of a Raft peer reads or writes an array out of its range. The only index that
  the invariant does not bound yet is nextIndex: it stays within the leader's log and after
  its first entry because of where the hints of a refusal point. So a leader whose log starts
  at position 0 never sends a snapshot.
\<close>

section \<open>Sections that would panic\<close>

inductive rf_panic :: "'c rnet \<Rightarrow> bool" where
  campaign: "q < rn_size s \<Longrightarrow> election_begin (rn_rf s q) = None \<Longrightarrow> rf_panic s"
| vote: "args \<in> rn_voteReq s \<Longrightarrow> r < rn_size s \<Longrightarrow> RequestVote args (rn_rf s r) = None \<Longrightarrow> rf_panic s"
| elect: "args \<in> rn_voteReq s \<Longrightarrow> rv_CandidateId args = int q \<Longrightarrow>
    election_finish args results (rn_rf s q) = None \<Longrightarrow> rf_panic s"
| send: "(q, GoSendLog p t) \<in> rn_tasks s \<Longrightarrow> q < rn_size s \<Longrightarrow>
    sendLog_begin p t (rn_rf s q) = None \<Longrightarrow> rf_panic s"
| append: "(q, p, args, n) \<in> rn_appReq s \<Longrightarrow> p < rn_size s \<Longrightarrow>
    AppendEntries args (rn_rf s p) = None \<Longrightarrow> rf_panic s"
| append_reply: "(q, p, args, n) \<in> rn_sending s \<Longrightarrow> (q, p, args, n, reply) \<in> rn_appRep s \<Longrightarrow>
    q < rn_size s \<Longrightarrow> sendLog_reply p (ae_Term args) args n reply (rn_rf s q) = None \<Longrightarrow> rf_panic s"
| append_retry: "(q, p, args, n) \<in> rn_sending s \<Longrightarrow> (q, p, args, n, reply) \<in> rn_appRep s \<Longrightarrow>
    q < rn_size s \<Longrightarrow> sendLog_reply p (ae_Term args) args n reply (rn_rf s q) = Some (rf, True) \<Longrightarrow>
    sendLog_build p (ae_Term args) rf = None \<Longrightarrow> rf_panic s"
| install: "(q, GoSendSnapshot p t m args) \<in> rn_tasks s \<Longrightarrow> p < rn_size s \<Longrightarrow>
    InstallSnapshot args (rn_rf s p) = None \<Longrightarrow> rf_panic s"
| install_reply: "(q, p, t, m, reply) \<in> rn_snapRep s \<Longrightarrow> q < rn_size s \<Longrightarrow>
    sendSnapshot_reply p t m reply (rn_rf s q) = None \<Longrightarrow> rf_panic s"
| commit: "rn_committer s (q, t) = Some b \<Longrightarrow> q < rn_size s \<Longrightarrow>
    committer_round t b (rn_rf s q) = None \<Longrightarrow> rf_panic s"
| apply_msgs: "q < rn_size s \<Longrightarrow> applier_round (rn_rf s q) = None \<Longrightarrow> rf_panic s"

section \<open>When sections return\<close>

lemma getLastLogL_total: "rf_logs rf \<noteq> [] \<Longrightarrow> getLastLogL rf \<noteq> None"
  by (auto simp: getLastLogL_def Let_def go_index_def)

lemma election_begin_total: "rf_logs rf \<noteq> [] \<Longrightarrow> election_begin rf \<noteq> None"
  using getLastLogL_total [of "rf\<lparr>rf_currentTerm := rf_currentTerm rf + 1, rf_votedFor := int (rf_me rf),
    rf_state := Candidate\<rparr>"]
  by (auto simp: election_begin_def Let_def)

lemma RequestVote_total: "rf_logs rf \<noteq> [] \<Longrightarrow> RequestVote args rf \<noteq> None"
  using getLastLogL_total [of rf]
    getLastLogL_total [of "rf\<lparr>rf_currentTerm := rv_Term args, rf_votedFor := - 1, rf_state := Follower\<rparr>"]
  by (auto simp: RequestVote_def Let_def split: prod.splits)

lemma reset_peers_total:
  "\<forall>i \<in> set is. i < length (rf_nextIndex rf) \<and> i < length (rf_matchIndex rf) \<Longrightarrow> reset_peers l is rf \<noteq> None"
  by (induction l "is" rf rule: reset_peers.induct) (auto simp: go_store_def)

lemma election_finish_total:
  assumes "length (rf_nextIndex rf) = rf_peers rf" and "length (rf_matchIndex rf) = rf_peers rf"
  shows "election_finish args results rf \<noteq> None"
  using reset_peers_total [of "[0..<rf_peers rf]" "rf\<lparr>rf_state := Leader\<rparr>" "rv_LastLogIndex args"] assms
  by (auto simp: election_finish_def election_win_def split: election_outcome.splits bind_splits)

lemma build_total:
  assumes "p < length (rf_nextIndex rf)" and "rf_startIndex rf = 0" and "rf_logs rf \<noteq> []"
    and "rf_nextIndex rf ! p \<le> int (length (rf_logs rf))"
  shows "sendLog_build p t rf \<noteq> None"
  using assms by (auto simp: sendLog_build_def go_index_def go_store_def go_from_def)

lemma AppendEntries_total:
  assumes "rf_startIndex rf = 0" and "rf_logs rf \<noteq> []" and "0 \<le> ae_PrevLogIndex args"
  shows "AppendEntries args rf \<noteq> None"
  using assms
  by (auto simp: AppendEntries_def ae_append_def Let_def go_index_def split: prod.splits)

lemma back_loop_total: "n \<le> length (rf_logs rf) \<Longrightarrow> back_loop rf x n \<noteq> None"
  by (induction n) (auto simp: go_index_def)

lemma reply_total:
  assumes "p < length (rf_nextIndex rf)" and "p < length (rf_matchIndex rf)" and "rf_startIndex rf = 0"
    and "rf_nextIndex rf ! p = n \<Longrightarrow> \<not> ar_Success reply \<Longrightarrow> ar_Term reply \<le> ae_Term args \<Longrightarrow>
      ar_XIndex reply \<le> int (length (rf_logs rf))"
  shows "sendLog_reply p t args n reply rf \<noteq> None"
proof -
  have "sendLog_back rf (ar_XTerm reply) (ar_XIndex reply) \<noteq> None"
    if "rf_nextIndex rf ! p = n" "\<not> ar_Success reply" "ar_Term reply \<le> ae_Term args"
  proof -
    have "nat (ar_XIndex reply) \<le> length (rf_logs rf)" using assms(4) [OF that] by linarith
    from back_loop_total [OF this, of "ar_XTerm reply"] assms(3) show ?thesis
      by (auto simp: sendLog_back_def split: bind_splits)
  qed
  then show ?thesis
    using assms(1-3)
    by (auto simp: sendLog_reply_def go_index_def Let_def simp del: not_None_eq split: bind_splits)
qed

lemma InstallSnapshot_total: "is_LastIndex args < rf_lastApplied rf \<Longrightarrow> InstallSnapshot args rf \<noteq> None"
  by (auto simp: InstallSnapshot_def Let_def)

lemma install_reply_total: "p < length (rf_matchIndex rf) \<Longrightarrow> sendSnapshot_reply p t m reply rf \<noteq> None"
  by (auto simp: sendSnapshot_reply_def go_index_def)

lemma commit_search_total:
  assumes "length (rf_matchIndex rf) = rf_peers rf" and "2 \<le> rf_peers rf"
  shows "commit_search rf l r \<noteq> None"
  using assms
proof (induction rf l r rule: commit_search.induct)
  case (1 rf l r)
  have test: "testIndexL ((l + r) div 2) rf \<noteq> None" using testIndexL_eq [OF "1.prems"] by simp
  show ?case
    using 1 test by (subst commit_search.simps) (auto simp: Let_def split: option.split bool.split)
qed

lemma committer_total:
  assumes "length (rf_matchIndex rf) = rf_peers rf" and "2 \<le> rf_peers rf"
  shows "committer_round t b rf \<noteq> None"
  using testIndexL_eq [OF assms] commit_search_total [OF assms, of "rf_commitIndex rf + 1"
    "rf_startIndex rf + int (length (rf_logs rf))"]
  by (auto simp: committer_round_def split: bind_splits)

section \<open>nextIndex stays within the log\<close>

definition next_ok :: "'c rnet \<Rightarrow> nat \<Rightarrow> bool" where
  "next_ok s q \<longleftrightarrow> (st s q = Leader \<longrightarrow>
     (\<forall>p < rn_size s. rf_nextIndex (rn_rf s q) ! p \<in> {1..int (length (lg s q))}))"

text \<open>A refusal of the entries from n on: its hints lie before n, and in a term of a leader or at the start.\<close>

definition hint :: "int \<Rightarrow> AppendEntriesReply \<Rightarrow> bool" where
  "hint n reply \<longleftrightarrow> ar_XIndex reply \<le> n - 1 \<and>
     (1 \<le> ar_XTerm reply \<and> 1 \<le> ar_XIndex reply \<or>
      ar_XTerm reply = 0 \<and> ar_XIndex reply = 0 \<and> 1 \<le> ar_XLen reply)"

definition next_inv :: "'c rnet \<Rightarrow> bool" where
  "next_inv s \<longleftrightarrow> (\<forall>q < rn_size s. next_ok s q) \<and>
     (\<forall>q p args n reply. (q, p, args, n, reply) \<in> rn_appRep s \<longrightarrow> \<not> ar_Success reply \<longrightarrow>
        ar_Term reply \<le> ae_Term args \<longrightarrow> hint n reply)"

lemma next_step:
  assumes "next_inv s" and "rn_size t = rn_size s" and "\<And>p. p \<noteq> q \<Longrightarrow> rn_rf t p = rn_rf s p"
    and "next_ok t q"
    and "\<And>r p args n reply. (r, p, args, n, reply) \<in> rn_appRep t \<Longrightarrow> \<not> ar_Success reply \<Longrightarrow>
      ar_Term reply \<le> ae_Term args \<Longrightarrow> (r, p, args, n, reply) \<in> rn_appRep s \<or> hint n reply"
  shows "next_inv t"
proof -
  have "next_ok t p" if "p < rn_size t" for p
    using assms(1-4) that by (cases "p = q") (auto simp: next_inv_def next_ok_def)
  then show ?thesis using assms(1,5) unfolding next_inv_def by blast
qed

lemma next_ok_same:
  assumes "next_inv s" and "q < rn_size s" and "rn_size t = rn_size s"
    and "rf_nextIndex (rn_rf t q) = rf_nextIndex (rn_rf s q)"
    and "st t q = Leader \<Longrightarrow> st s q = Leader \<and> length (lg s q) \<le> length (lg t q)"
  shows "next_ok t q"
  using assms by (force simp: next_inv_def next_ok_def)

lemma build_entries:
  assumes "sendLog_build p T rf = Some (rf', act)" and "rf_startIndex rf = 0" and "1 \<le> rf_nextIndex rf ! p"
  shows "rf' = rf \<and> (\<exists>args. act = SendEntries args (rf_nextIndex rf ! p))"
  using assms by (auto simp: sendLog_build_def go_slices split: bind_splits if_splits)

text \<open>The hints of a refusal, when the log of the peer is one the invariant allows.\<close>

lemma reject_hint:
  assumes "log_ok ll (rf_logs rf)" and "rf_startIndex rf = 0" and "i < length (rf_logs rf)" and "int i < n" and "1 \<le> xlen"
  shows "hint n (ae_reject T i xlen rf)"
proof -
  let ?k = "term_start (rf_logs rf) i"
  have k: "?k \<le> i" by (rule term_start_le)
  show ?thesis
  proof (cases "?k = 0")
    case True
    then show ?thesis using assms by (simp add: hint_def ae_reject_def log_ok_def dummy_def)
  next
    case False
    then have "1 \<le> tm (rf_logs rf) ?k" using assms(1,3) k by (simp add: log_ok_def)
    then show ?thesis using assms(2,4) k False by (simp add: hint_def ae_reject_def)
  qed
qed

lemma refusal_hint:
  assumes app: "AppendEntries args rf = Some (rf', reply)"
    and fail: "\<not> ar_Success reply" "ar_Term reply \<le> ae_Term args"
    and rf: "log_ok ll (rf_logs rf)" "rf_startIndex rf = 0"
    and args: "ae_PrevLogIndex args = n - 1" "1 \<le> n" "n = 1 \<Longrightarrow> ae_PrevLogTerm args = 0"
  shows "hint n reply"
proof -
  have cur: "rf_currentTerm rf \<le> ae_Term args"
    using app fail(2) by (auto simp: AppendEntries_def split: if_splits)
  define rf2 where "rf2 = (if ae_Term args > rf_currentTerm rf
      then rf\<lparr>rf_currentTerm := ae_Term args, rf_votedFor := - 1\<rparr> else rf)
    \<lparr>rf_state := Follower, rf_missedHeartbeat := 0\<rparr>"
  have rf2: "rf_logs rf2 = rf_logs rf" "rf_startIndex rf2 = 0" using rf(2) by (simp_all add: rf2_def)
  have ok: "log_ok ll (rf_logs rf2)" using rf(1) rf2(1) by simp
  have len: "1 \<le> int (length (rf_logs rf2))" using ok by (simp add: log_ok_def Suc_le_eq)
  have app': "ae_append (ae_PrevLogTerm args) (n - 1) (ae_Entries args) (ae_LeaderCommit args)
      rf2 = Some (rf', reply)"
    using app args(1,2) cur rf2(2) unfolding AppendEntries_def Let_def rf2_def [symmetric]
    by (simp split: if_splits)
  show ?thesis
  proof (cases "n - 1 \<ge> int (length (rf_logs rf2))")
    case True
    then have "reply = ae_reject (rf_currentTerm rf2) (length (rf_logs rf2) - 1) (int (length (rf_logs rf2))) rf2"
      using app' rf2(2) by (auto simp: ae_append_def split: bind_splits)
    then show ?thesis using reject_hint [OF ok rf2(2)] len True by auto
  next
    case False
    then have prev: "go_index (rf_logs rf2) (n - 1) = Some (rf_logs rf2 ! nat (n - 1))"
      using args(2) by (simp add: go_index_def)
    have mis: "tm (rf_logs rf2) (nat (n - 1)) \<noteq> ae_PrevLogTerm args"
      and reply: "reply = ae_reject (rf_currentTerm rf2) (nat (n - 1)) (n - 1) rf2"
      using app' False rf2(2) prev fail(1)
      by (auto simp: ae_append_def ae_accept_def Let_def split: if_splits prod.splits)
    have "n \<noteq> 1" using mis args(3) ok by (auto simp: log_ok_def dummy_def)
    then show ?thesis unfolding reply using reject_hint [OF ok rf2(2)] args(2) False by simp
  qed
qed

text \<open>From such hints the sender finds a position after the first entry.\<close>

lemma back_loop_pos: "back_loop rf x n = Some m \<Longrightarrow> 1 \<le> n \<Longrightarrow> lg_Term (rf_logs rf ! 0) < x \<Longrightarrow> 1 \<le> m"
proof (induction n)
  case (Suc n)
  then show ?case by (cases "n = 0") (auto simp: go_slices split: bind_splits if_splits)
qed simp

lemma retry_pos:
  assumes "hint n reply" and "sendLog_back rf (ar_XTerm reply) (ar_XIndex reply) = Some m"
    and "rf_startIndex rf = 0" and "rf_logs rf \<noteq> []" and "lg_Term (rf_logs rf ! 0) = 0"
  shows "1 \<le> sendLog_forward rf (ar_XTerm reply) (ar_XLen reply) m"
proof (cases "1 \<le> ar_XTerm reply")
  case True
  then have "1 \<le> m"
    using assms back_loop_pos [of rf "ar_XTerm reply" "nat (ar_XIndex reply)"]
    by (auto simp: hint_def sendLog_back_def split: if_splits bind_splits)
  then show ?thesis using sendLog_forward_bounds [of m rf "ar_XTerm reply" "ar_XLen reply"] by simp
next
  case False
  then have h: "ar_XTerm reply = 0" "ar_XIndex reply = 0" "1 \<le> ar_XLen reply" using assms(1) by (auto simp: hint_def)
  then have "m = 0" using assms(2,3) by (simp add: sendLog_back_def)
  then have "sendLog_forward rf (ar_XTerm reply) (ar_XLen reply) m = sendLog_forward rf 0 (ar_XLen reply) 1"
    using h assms(3-5) by (subst sendLog_forward.simps) simp
  then show ?thesis using sendLog_forward_bounds [of 1 rf 0 "ar_XLen reply"] by simp
qed

lemma reply_next_ok:
  assumes inv: "rn_inv s" and nx: "next_inv s" and snd: "(q, p, args, n) \<in> rn_sending s"
    and rep: "(q, p, args, n, reply) \<in> rn_appRep s" and q: "q < rn_size s"
    and step: "sendLog_reply p (ae_Term args) args n reply (rn_rf s q) = Some (rf, again)"
  shows "rf_state rf = Leader \<longrightarrow> (\<forall>k < rn_size s. rf_nextIndex rf ! k \<in> {1..int (length (rf_logs rf))})"
proof
  assume lead: "rf_state rf = Leader"
  note I = rn_invD [OF inv]
  have act: "active s q (ae_Term args)" and sent: "sent_ok s (q, p, args, n)"
    using msg_invD(2-4) [OF I(5)] snd by blast+
  have logs: "rf_logs rf = lg s q" using reply_effect [OF step] by (simp add: same_log_def)
  have stl: "st s q = Leader"
    using reply_effect [OF step] lead by (auto simp: same_term_def)
  then have old: "\<And>k. k < rn_size s \<Longrightarrow> rf_nextIndex (rn_rf s q) ! k \<in> {1..int (length (lg s q))}"
    using nx q by (auto simp: next_inv_def next_ok_def)
  consider (same) "rf_nextIndex rf = rf_nextIndex (rn_rf s q)"
    | (fwd) "cur s q = ae_Term args" "ar_Success reply"
        "rf_nextIndex rf = (rf_nextIndex (rn_rf s q))[p := n + int (length (ae_Entries args))]"
    | (bwd) m where "cur s q = ae_Term args" "\<not> ar_Success reply" "ar_Term reply \<le> ae_Term args"
        "sendLog_back (rn_rf s q) (ar_XTerm reply) (ar_XIndex reply) = Some m"
        "rf_nextIndex rf = (rf_nextIndex (rn_rf s q))
           [p := sendLog_forward (rn_rf s q) (ar_XTerm reply) (ar_XLen reply) m]"
    using step by (auto simp: sendLog_reply_def Let_def go_slices split: bind_splits if_splits)
  then have "rf_nextIndex rf = rf_nextIndex (rn_rf s q) \<or>
      (\<exists>v \<in> {1..int (length (lg s q))}. rf_nextIndex rf = (rf_nextIndex (rn_rf s q))[p := v])"
  proof cases
    case fwd
    then have "rn_ll s (ae_Term args) = Some (lg s q)" using lead_invD(6) [OF I(4) q stl] by simp
    then have "n + int (length (ae_Entries args)) \<in> {1..int (length (lg s q))}"
      using sent by (auto simp: sent_ok_def)
    then show ?thesis using fwd(3) by blast
  next
    case bwd
    then have "rn_ll s (ae_Term args) = Some (lg s q)" using lead_invD(6) [OF I(4) q stl] by simp
    then have "n \<le> int (length (lg s q))" using sent by (auto simp: sent_ok_def)
    moreover have h: "hint n reply" using nx rep bwd(2,3) unfolding next_inv_def by blast
    ultimately have "m \<le> int (length (lg s q))"
      using sendLog_back_bounds [OF bwd(4)] peer_invD(3) [OF I(1) q] by (auto simp: hint_def)
    moreover have "1 \<le> sendLog_forward (rn_rf s q) (ar_XTerm reply) (ar_XLen reply) m"
      using retry_pos [OF h bwd(4) peer_invD(3) [OF I(1) q]] log_invD(1) [OF I(2) q]
      by (simp add: log_ok_def dummy_def)
    ultimately show ?thesis
      using bwd(5) sendLog_forward_bounds [of m "rn_rf s q" "ar_XTerm reply" "ar_XLen reply"]
        peer_invD(3) [OF I(1) q] by auto
  qed simp
  then show "\<forall>k < rn_size s. rf_nextIndex rf ! k \<in> {1..int (length (rf_logs rf))}"
    using old logs peer_invD(9) [OF I(1) q] sent by (auto simp: nth_list_update sent_ok_def)
qed


lemma win_next_ok:
  assumes inv: "rn_inv s" and req: "args \<in> rn_voteReq s" and id: "rv_CandidateId args = int q"
    and fin: "election_finish args results (rn_rf s q) = Some (rf, ts)"
    and lead: "rf_state rf = Leader" "st s q \<noteq> Leader" and p: "p < rn_size s"
  shows "rf_nextIndex rf ! p = int (length (rf_logs rf))"
proof -
  note I = rn_invD [OF inv]
  have cand: "cand_ok s args q" using vote_invD(9) [OF I(3) req] id by (auto simp: cand_ok_def)
  then have q: "q < rn_size s" by (simp add: cand_ok_def)
  have el: "election_win args (rn_rf s q) = Some (rf, ts)" "rf_currentTerm (rn_rf s q) = rv_Term args"
    "st s q = Candidate"
    using fin lead by (auto simp: election_finish_def election_win_def stepdown_def
        split: election_outcome.splits if_splits)
  then obtain rf1 where "reset_peers (rv_LastLogIndex args) [0..<rf_peers (rn_rf s q)]
      ((rn_rf s q)\<lparr>rf_state := Leader\<rparr>) = Some rf1" "rf = rf1\<lparr>rf_newOp := 0\<rparr>"
    by (auto simp: election_win_def split: bind_splits)
  from reset_peers_Some [OF this(1)] this(2)
  have "rf_nextIndex rf ! p = rv_LastLogIndex args + 1" "rf_logs rf = lg s q"
    using p peer_invD(1,9) [OF I(1) q] by (auto simp: same_log_def)
  then show ?thesis
    using cand lead_invD(8) [OF I(4) q el(3)] el(2) by (simp add: cand_ok_def)
qed

lemma next_other:
  assumes nx: "next_inv s" and q: "q < rn_size s" and "rn_size t = rn_size s"
    and "\<And>p. p \<noteq> q \<Longrightarrow> rn_rf t p = rn_rf s p" and "rn_appRep t = rn_appRep s"
    and "rf_nextIndex (rn_rf t q) = rf_nextIndex (rn_rf s q)"
    and "st t q = Leader \<Longrightarrow> st s q = Leader \<and> length (lg s q) \<le> length (lg t q)"
  shows "next_inv t"
  using next_ok_same [OF nx q assms(3,6,7)] assms by (intro next_step [OF nx, of t q]) auto

lemmas next_same_defs = rn_defs same_defs

lemma next_append:
  assumes inv: "rn_inv s" and nx: "next_inv s" and req: "(q, p, args, n) \<in> rn_appReq s" and p: "p < rn_size s"
    and app: "AppendEntries args (rn_rf s p) = Some (rf, reply)"
  shows "next_inv (rn_put p rf s\<lparr>rn_appRep := insert (q, p, args, n, reply) (rn_appRep s), rn_acked := A\<rparr>)"
    (is "next_inv ?t")
proof -
  note I = rn_invD [OF inv]
  have n: "1 \<le> n" "ae_PrevLogIndex args = n - 1" using msg_invD(2) [OF I(5) req] by (auto simp: sent_ok_def)
  obtain G where G: "rn_ll s (ae_Term args) = Some G" "ae_PrevLogTerm args = tm G (nat n - 1)"
    using msg_invD(2) [OF I(5) req] by (auto simp: sent_ok_def)
  have first: "ae_PrevLogTerm args = 0" if "n = 1"
    using log_invD(3) [OF I(2) G(1)] G(2) that by (simp add: log_ok_def dummy_def)
  have hint: "hint n reply" if "\<not> ar_Success reply" "ar_Term reply \<le> ae_Term args"
    using refusal_hint [OF app that log_invD(1) [OF I(2) p] peer_invD(3) [OF I(1) p] n(2,1) first] .
  have n': "ae_PrevLogIndex args = int (nat n) - 1" "1 \<le> nat n" using n by auto
  have "rf_nextIndex rf = rf_nextIndex (rn_rf s p)" "rf = rn_rf s p \<or> rf_state rf = Follower"
    using append_effect [OF app peer_invD(3) [OF I(1) p] n'] by (auto simp: same_index_def)
  then have "next_ok ?t p" using p by (intro next_ok_same [OF nx p]) (auto simp: rn_put_def)
  then show ?thesis using hint by (intro next_step [OF nx, of ?t p]) (auto simp: rn_put_def)
qed

lemma next_emit:
  assumes inv: "rn_inv s" and nx: "next_inv s" and q: "q < rn_size s" and p: "p < rn_size s"
    and rf1: "same_log (rn_rf s q) rf1" "\<forall>k < rn_size s. rf_nextIndex rf1 ! k \<in> {1..int (length (rf_logs rf1))}"
    and build: "sendLog_build p T rf1 = Some (rf, act)"
  shows "next_inv (rn_emit q p act (rn_put q rf s))" (is "next_inv ?t")
proof -
  note I = rn_invD [OF inv]
  have "rf_startIndex rf1 = 0" using rf1(1) peer_invD(3) [OF I(1) q] by (simp add: same_log_def)
  then obtain args where b: "rf = rf1" "act = SendEntries args (rf_nextIndex rf1 ! p)"
    using build_entries [OF build] rf1(2) p by auto
  then have "next_ok ?t q" using rf1(2) by (simp add: next_ok_def rn_defs)
  then show ?thesis by (intro next_step [OF nx, of ?t q]) (auto simp: rn_defs b)
qed

lemma active_leads: "msg_inv s \<Longrightarrow> (q, GoSendLog p T) \<in> rn_tasks s \<Longrightarrow> cur s q = T \<Longrightarrow> st s q = Leader"
  using msg_invD(1) [of s q "GoSendLog p T"] by (auto simp: active_def)

lemma step_next:
  assumes "rf_step s t" and inv: "rn_inv s" and nx: "next_inv s"
  shows "next_inv t"
proof -
  note I = rn_invD [OF inv]
  note start0 = peer_invD(3) [OF I(1)]
  from assms(1) show ?thesis
  proof cases
    case (tick q rf ts)
    show ?thesis unfolding tick(1)
      by (rule next_other [OF nx tick(2)]) (use tick_effect [OF tick(3)] in \<open>auto simp: next_same_defs\<close>)
  next
    case (campaign q rf args)
    show ?thesis unfolding campaign(1)
      by (rule next_other [OF nx campaign(3)])
         (use campaign_effect [OF campaign(4) start0 [OF campaign(3)]] in \<open>auto simp: next_same_defs\<close>)
  next
    case (vote args r rf reply)
    show ?thesis unfolding vote(1)
      by (rule next_other [OF nx vote(3)])
         (use vote_effect [OF vote(5) start0 [OF vote(3)]] in \<open>auto simp: next_same_defs split: if_splits\<close>)
  next
    case (start q now cmd rf idx T ts)
    show ?thesis unfolding start(1)
      by (rule next_other [OF nx start(2)])
         (use start_effect [OF start(3) start0 [OF start(2)]] in \<open>auto simp: next_same_defs\<close>)
  next
    case (heartbeat q T now rf ts)
    show ?thesis unfolding heartbeat(1)
      by (rule next_other [OF nx heartbeat(3)])
         (use heartbeat_effect [OF heartbeat(4)] in \<open>auto simp: next_same_defs\<close>)
  next
    case (install q p T m args rf reply ts)
    have "is_LastIndex args = 0" using msg_invD(1) [OF I(5) install(2)] by simp
    note eff = install_effect [OF install(4) start0 [OF install(3)] this peer_invD(5) [OF I(1) install(3)]]
    show ?thesis unfolding install(1)
      by (rule next_other [OF nx install(3)]) (use eff in \<open>auto simp: next_same_defs\<close>)
  next
    case (install_reply q p T m reply rf ts)
    show ?thesis unfolding install_reply(1)
      by (rule next_other [OF nx install_reply(3)])
         (use install_reply_effect [OF install_reply(4)] in \<open>auto simp: next_same_defs\<close>)
  next
    case (commit q T b rf b' w)
    have "rf_nextIndex rf = rf_nextIndex (rn_rf s q) \<and> rf_state rf = st s q \<and> rf_logs rf = lg s q"
      using commit(4) by (auto simp: committer_round_def split: if_splits bind_splits)
    then show ?thesis unfolding commit(1) by (intro next_other [OF nx commit(3)]) (auto simp: rn_put_def)
  next
    case (commit_exit q T b)
    show ?thesis unfolding commit_exit(1) by (rule next_other [OF nx commit_exit(3)]) auto
  next
    case (apply_msgs q rf msgs)
    have "rf_nextIndex rf = rf_nextIndex (rn_rf s q) \<and> rf_state rf = st s q \<and> rf_logs rf = lg s q"
      using apply_msgs(4) by (auto simp: applier_round_def split: if_splits bind_splits)
    then show ?thesis unfolding apply_msgs(1)
      by (intro next_other [OF nx apply_msgs(2)]) (auto simp: rn_put_def)
  next
    case (deliver q)
    show ?thesis unfolding deliver(1) by (rule next_other [OF nx deliver(2)]) auto
  next
    case (restart q)
    have "next_ok t q"
      using restart_effect [OF start0 [OF restart(2)] refl, of "rn_size s" q] restart(1)
      by (simp add: next_ok_def rn_restart_def rn_put_def)
    then show ?thesis
      using restart by (intro next_step [OF nx, of t q]) (auto simp: rn_restart_def rn_put_def)
  next
    case (append q p args n rf reply)
    then show ?thesis using next_append [OF inv nx append(2-4)] by simp
  next
    case (elect args q rs rf ts)
    obtain c where "cand_ok s args c" using vote_invD(9) [OF I(3) elect(2)] by blast
    then have q: "q < rn_size s" using elect(3) by (auto simp: cand_ok_def)
    show ?thesis
    proof (cases "rf_state rf = Leader \<and> st s q \<noteq> Leader")
      case True
      have len: "rf_logs rf \<noteq> []"
        using elect_effect [OF elect(5)] log_invD(1) [OF I(2) q] by (auto simp: same_log_def log_ok_def)
      from True have "next_ok t q"
        using elect(1) win_next_ok [OF inv elect(2,3,5)] len by (auto simp: next_ok_def rn_defs Suc_le_eq)
      then show ?thesis using elect(1) True by (intro next_step [OF nx, of t q]) (auto simp: rn_defs)
    next
      case False
      then have "same_log (rn_rf s q) rf \<and> same_index (rn_rf s q) rf \<and>
          (same_term (rn_rf s q) rf \<or> new_term (rn_rf s q) rf)"
        using elect_effect [OF elect(5)] by auto
      then show ?thesis using False unfolding elect(1) by (intro next_other [OF nx q]) (auto simp: next_same_defs)
    qed
  next
    case (send q p T rf act)
    have T: "cur s q = T" and b: "sendLog_build p T (rn_rf s q) = Some (rf, act)"
      using send(4) by (auto simp: sendLog_begin_def split: if_splits bind_splits)
    have lead: "st s q = Leader" using active_leads [OF I(5) send(2) T] .
    have p: "p < rn_size s" using msg_invD(1) [OF I(5) send(2)] by simp
    from lead have "\<forall>k < rn_size s. rf_nextIndex (rn_rf s q) ! k \<in> {1..int (length (lg s q))}"
      using nx send(3) by (auto simp: next_inv_def next_ok_def)
    then show ?thesis
      using next_emit [OF inv nx send(3) p _ _ b] send(1) by (simp add: same_log_def)
  next
    case (append_reply q p args n reply rf)
    have "next_ok t q"
      using reply_next_ok [OF inv nx append_reply(2-5)] append_reply(1) by (simp add: next_ok_def rn_put_def)
    then show ?thesis using append_reply(1) by (intro next_step [OF nx, of t q]) (auto simp: rn_put_def)
  next
    case (append_retry q p args n reply rf rf' act)
    have eff: "same_log (rn_rf s q) rf" "same_term (rn_rf s q) rf" "cur s q = ae_Term args"
      "active s q (ae_Term args)" "p < rn_size s"
      using reply_quiet [OF inv append_retry(2,3,5)] by auto
    then have "rf_state rf = Leader" by (simp add: same_term_def active_def)
    then show ?thesis
      using next_emit [OF inv nx append_retry(4) eff(5,1) _ append_retry(6)]
        reply_next_ok [OF inv nx append_retry(2-5)] append_retry(1) by simp
  qed
qed

lemma reachable_next: "rf_reachable N enable s \<Longrightarrow> next_inv s"
proof (induction rule: rf_reachable.induct)
  case init
  show ?case by (simp add: next_inv_def next_ok_def rn_init_def make_effect)
next
  case (step s t)
  then show ?case using step_next reachable_inv by blast
qed


section \<open>No panics\<close>

lemma invs_no_panic:
  assumes inv: "rn_inv s" and nx: "next_inv s"
  shows "\<not> rf_panic s"
proof
  note I = rn_invD [OF inv]
  have logs: "lg s q \<noteq> []" if "q < rn_size s" for q
    using log_invD(1) [OF I(2) that] by (simp add: log_ok_def)
  have nxt: "rf_nextIndex (rn_rf s q) ! p \<le> int (length (lg s q))"
    if "q < rn_size s" "st s q = Leader" "p < rn_size s" for q p
    using nx that by (auto simp: next_inv_def next_ok_def)
  assume "rf_panic s"
  then show False
  proof cases
    case (campaign q)
    then show False using election_begin_total logs by blast
  next
    case (vote args r)
    then show False using RequestVote_total logs by blast
  next
    case (elect args q results)
    obtain c where "cand_ok s args c" using vote_invD(9) [OF I(3) elect(1)] by blast
    then have "q < rn_size s" using elect(2) by (auto simp: cand_ok_def)
    then show False using elect(3) election_finish_total peer_invD(1,4,9) [OF I(1)] by metis
  next
    case (send q p T)
    have T: "cur s q = T" and b: "sendLog_build p T (rn_rf s q) = None"
      using send(3) by (auto simp: sendLog_begin_def split: if_splits bind_splits)
    have "p < rn_size s" using msg_invD(1) [OF I(5) send(1)] by simp
    then show False
      using b build_total [of p "rn_rf s q" T] nxt [OF send(2) active_leads [OF I(5) send(1) T]]
        peer_invD(3,9) [OF I(1) send(2)] logs [OF send(2)] by simp
  next
    case (append q p args n)
    have "0 \<le> ae_PrevLogIndex args" using msg_invD(2) [OF I(5) append(1)] by (auto simp: sent_ok_def)
    then show False using append(3) AppendEntries_total peer_invD(3) [OF I(1) append(2)] logs append(2) by blast
  next
    case (append_reply q p args n reply)
    have p: "p < rn_size s"
      using msg_invD(2) [OF I(5) msg_invD(3) [OF I(5) append_reply(1)]] by (simp add: sent_ok_def)
    have "ar_XIndex reply \<le> int (length (lg s q))"
      if "rf_nextIndex (rn_rf s q) ! p = n" "\<not> ar_Success reply" "ar_Term reply \<le> ae_Term args" "cur s q = ae_Term args"
    proof -
      have "st s q = Leader" using msg_invD(4) [OF I(5) append_reply(1)] that(4) by (simp add: active_def)
      then have "n \<le> int (length (lg s q))" using nxt [OF append_reply(3) _ p] that(1) by simp
      moreover have "hint n reply" using nx append_reply(2) that(2,3) unfolding next_inv_def by blast
      ultimately show ?thesis by (simp add: hint_def)
    qed
    then show False
      using append_reply(4) reply_total [of p "rn_rf s q" n reply args "ae_Term args"] p
        peer_invD(3,4,9) [OF I(1) append_reply(3)]
      by (cases "cur s q = ae_Term args") (auto simp: sendLog_reply_def go_index_def)
  next
    case (append_retry q p args n reply rf)
    have eff: "same_log (rn_rf s q) rf" "same_term (rn_rf s q) rf" "cur s q = ae_Term args"
      "active s q (ae_Term args)" "p < rn_size s" "length (rf_nextIndex rf) = length (rf_nextIndex (rn_rf s q))"
      using reply_quiet [OF inv append_retry(1,2,4)] by auto
    then have "rf_state rf = Leader" by (simp add: same_term_def active_def)
    then have "rf_nextIndex rf ! p \<le> int (length (rf_logs rf))"
      using reply_next_ok [OF inv nx append_retry(1-4)] eff(5) by simp
    then show False
      using append_retry(5) build_total [of p rf "ae_Term args"] eff peer_invD(3,9) [OF I(1) append_retry(3)]
        logs [OF append_retry(3)] by (simp add: same_log_def)
  next
    case (install q p T m args)
    have "is_LastIndex args = 0" using msg_invD(1) [OF I(5) install(1)] by simp
    then show False
      using install(3) InstallSnapshot_total [of args "rn_rf s p"] peer_invD(5) [OF I(1) install(2)] by simp
  next
    case (install_reply q p T m reply)
    have "p < rn_size s" using msg_invD(6) [OF I(5) install_reply(1)] by simp
    then show False
      using install_reply(3) install_reply_total [of p "rn_rf s q"] peer_invD(4) [OF I(1) install_reply(2)] by simp
  next
    case (commit q T b)
    have "active s q T" using I(6) commit(1) unfolding leader_inv_def by blast
    then obtain G where "rn_ll s T = Some G" by (auto simp: active_def)
    then have "2 \<le> rn_size s" using lead_invD(2) [OF I(4)] by blast
    then show False
      using commit(3) committer_total [of "rn_rf s q" T b] peer_invD(1,4) [OF I(1) commit(2)] by simp
  next
    case (apply_msgs q)
    then show False using applier_delivers [OF inv apply_msgs(1)] by simp
  qed
qed

text \<open>
  C10. No goroutine of a Raft peer panics: in every state that a group of peers can reach,
  every handler and every section of every goroutine that is there to run stays within the
  bounds of the logs and of the index arrays.
\<close>

theorem raft_never_panics:
  assumes "rf_reachable N enable s"
  shows "\<not> rf_panic s"
  using invs_no_panic reachable_inv reachable_next assms by blast

theorem raft_never_panics_witness:
  "\<not> rf_panic (rdemo_at (rdemo_lead @ rdemo_commit @ rdemo_next)) \<and>
   rn_tasks (rdemo_at (rdemo_lead @ rdemo_commit @ rdemo_next)) \<noteq> {}"
proof
  show "\<not> rf_panic (rdemo_at (rdemo_lead @ rdemo_commit @ rdemo_next))"
    by (rule raft_never_panics [OF rdemo_reach_next])
  have "(1, GoHeartbeat 2) \<in> rn_tasks (rdemo_at (rdemo_lead @ rdemo_commit @ rdemo_next))" by code_simp
  then show "rn_tasks (rdemo_at (rdemo_lead @ rdemo_commit @ rdemo_next)) \<noteq> {}" by blast
qed

end
