(* ===== verification/Raft_Majority.thy ===== *)
theory Raft_Majority
  imports Raft_Panics
begin

text \<open>
  What a majority of the peers can do on its own, from every reachable state: elect a
  leader, replicate its log to all of them, commit and apply a new command.
\<close>

section \<open>Runs of some of the peers\<close>

definition among :: "nat set \<Rightarrow> 'c rnet \<Rightarrow> 'c rnet \<Rightarrow> bool" where
  "among A s t \<longleftrightarrow> rf_step\<^sup>*\<^sup>* s t \<and> (\<forall>q. q \<notin> A \<longrightarrow> rn_rf t q = rn_rf s q)"

lemma among_refl: "among A s s"
  by (simp add: among_def)

lemma among_trans: "among A s t \<Longrightarrow> among B t u \<Longrightarrow> A \<union> B \<subseteq> C \<Longrightarrow> among C s u"
  unfolding among_def by (auto dest: rtranclp_trans) (metis subsetD)+

lemma among_step: "rf_step s t \<Longrightarrow> (\<And>q. q \<notin> A \<Longrightarrow> rn_rf t q = rn_rf s q) \<Longrightarrow> among A s t"
  by (auto simp: among_def)

lemma among_others: "among A s t \<Longrightarrow> q \<notin> A \<Longrightarrow> rn_rf t q = rn_rf s q"
  by (simp add: among_def)

lemma among_reachable: "among A s t \<Longrightarrow> rf_reachable N enable s \<Longrightarrow> rf_reachable N enable t"
  using steps_reachable by (auto simp: among_def)

section \<open>Elections\<close>

text \<open>The ticker starts an election after enough ticks.\<close>

lemma ticks_run:
  assumes "q < rn_size s"
  shows "\<exists>t. among {q} s t \<and> (q, GoStartElection) \<in> rn_tasks t \<and> rn_size t = rn_size s \<and>
    same_log (rn_rf s q) (rn_rf t q) \<and> same_index (rn_rf s q) (rn_rf t q) \<and> same_term (rn_rf s q) (rn_rf t q)"
  using assms
proof (induction "nat (ElectionThreshold + 1 - rf_missedHeartbeat (rn_rf s q))" arbitrary: s rule: less_induct)
  case less
  obtain rf ts where tick: "rf_tick (rn_rf s q) = (rf, ts)" by fastforce
  let ?t = "rn_spawn q ts (rn_put q rf s)"
  have run: "among {q} s ?t"
    by (rule among_step [OF rf_step.tick [OF less.prems tick]]) (auto simp: rn_defs)
  have t: "rn_rf ?t q = rf" "rn_size ?t = rn_size s" by (simp_all add: rn_defs)
  note eff = tick_effect [OF tick]
  show ?case
  proof (cases "rf_missedHeartbeat (rn_rf s q) > ElectionThreshold")
    case True
    then have "(q, GoStartElection) \<in> rn_tasks ?t" using tick by (auto simp: rf_tick_def rn_defs)
    then show ?thesis using run t eff by (intro exI [of _ ?t]) simp
  next
    case False
    then have "rf_missedHeartbeat rf = rf_missedHeartbeat (rn_rf s q) + 1" using tick by (auto simp: rf_tick_def)
    then obtain u where u: "among {q} ?t u" "(q, GoStartElection) \<in> rn_tasks u" "rn_size u = rn_size s"
        "same_log rf (rn_rf u q) \<and> same_index rf (rn_rf u q) \<and> same_term rf (rn_rf u q)"
      using less.hyps [of ?t] False less.prems unfolding t by auto
    have "among {q} s u" by (rule among_trans [OF run u(1)]) simp
    then show ?thesis using u eff by (intro exI [of _ u]) (simp add: same_defs)
  qed
qed

text \<open>A candidate whose request is in the network.\<close>

definition standing :: "'c rnet \<Rightarrow> nat \<Rightarrow> RequestVoteArgs \<Rightarrow> bool" where
  "standing s q args \<longleftrightarrow> args \<in> rn_voteReq s \<and> q < rn_size s \<and> st s q = Candidate \<and>
     rv_CandidateId args = int q \<and> rv_Term args = cur s q \<and>
     rv_LastLogTerm args = lg_Term (last (lg s q)) \<and> rv_LastLogIndex args = int (length (lg s q)) - 1"

lemma campaign_runs:
  assumes "rf_reachable N enable s" and "q < N" and "st s q \<noteq> Leader"
  shows "\<exists>t args. among {q} s t \<and> standing t q args \<and> cur t q = cur s q + 1 \<and> lg t q = lg s q"
proof -
  have q: "q < rn_size s" using assms(2) reachable_size [OF assms(1)] by simp
  obtain u where u: "among {q} s u" "(q, GoStartElection) \<in> rn_tasks u" "rn_size u = rn_size s"
      "same_log (rn_rf s q) (rn_rf u q)" "same_term (rn_rf s q) (rn_rf u q)"
    using ticks_run [OF q] by blast
  note I = rn_invD [OF reachable_inv [OF among_reachable [OF u(1) assms(1)]]]
  have q': "q < rn_size u" using q u(3) by simp
  have "lg u q \<noteq> []" using log_invD(1) [OF I(2) q'] by (simp add: log_ok_def)
  moreover have "st u q \<noteq> Leader" using assms(3) u(5) by (simp add: same_term_def)
  ultimately obtain rf args where b: "election_begin (rn_rf u q) = Some (Some (rf, args))"
    using election_begin_total [of "rn_rf u q"] by (auto simp: election_begin_def Let_def split: bind_splits)
  let ?t = "rn_put q rf u\<lparr>rn_voteReq := insert args (rn_voteReq u),
    rn_votes := insert (q, rv_Term args, q) (rn_votes u), rn_cand := (rn_cand u)((rv_Term args, q) := rf_logs rf)\<rparr>"
  have "among {q} u ?t"
    by (rule among_step [OF rf_step.campaign [OF u(2) q' b]]) (simp add: rn_put_def)
  then have run: "among {q} s ?t" by (rule among_trans [OF u(1)]) simp
  note eff = campaign_effect [OF b peer_invD(3) [OF I(1) q']]
  have "standing ?t q args" "cur ?t q = cur s q + 1" "lg ?t q = lg s q"
    using eff q' u(4,5) peer_invD(2) [OF I(1) q'] by (auto simp: standing_def rn_put_def same_defs)
  with run show ?thesis by (intro exI [of _ ?t] exI [of _ args]) simp
qed

lemma vote_later_term:
  assumes "RequestVote args rf = Some (rf', reply)" and "rf_startIndex rf = 0" and "rf_currentTerm rf < rv_Term args"
  shows "rf_currentTerm rf' = rv_Term args \<and> rf_state rf' = Follower \<and> rf_logs rf' = rf_logs rf \<and>
    (rr_Granted reply \<longleftrightarrow> uptodate args (rf_logs rf))"
proof -
  define rf1 where "rf1 = rf\<lparr>rf_currentTerm := rv_Term args, rf_votedFor := - 1, rf_state := Follower\<rparr>"
  obtain lt li where last: "getLastLogL rf1 = Some (lt, li)"
    and res: "(if rv_LastLogTerm args < lt \<or> rv_LastLogTerm args = lt \<and> rv_LastLogIndex args < li
        then (rf1, \<lparr>rr_Term = rf_currentTerm rf1, rr_Granted = False\<rparr>)
        else (rf_persistL False (rf1\<lparr>rf_votedFor := rv_CandidateId args, rf_missedHeartbeat := 0\<rparr>),
              \<lparr>rr_Term = rf_currentTerm rf1, rr_Granted = True\<rparr>)) = (rf', reply)"
    using assms(1,3) unfolding RequestVote_def rf1_def [symmetric] by (auto simp: Let_def rf1_def split: bind_splits if_splits)
  have rf1: "rf_startIndex rf1 = 0" "rf_logs rf1 = rf_logs rf" "rf_currentTerm rf1 = rv_Term args"
      "rf_state rf1 = Follower" using assms(2) by (simp_all add: rf1_def)
  then have "lt = lg_Term (List.last (rf_logs rf))" "li = int (length (rf_logs rf)) - 1"
    using getLastLogL_Some [OF rf1(1) last] by simp_all
  then show ?thesis using res rf1 by (auto simp: uptodate_def split: if_splits)
qed

text \<open>A peer in an earlier term follows the candidate, and votes for it when its log is good enough.\<close>

definition voted :: "'c rnet \<Rightarrow> RequestVoteArgs \<Rightarrow> nat \<Rightarrow> bool" where
  "voted s args r \<longleftrightarrow> (\<exists>reply. (r, args, reply) \<in> rn_voteRep s \<and> rr_Granted reply)"

lemma vote_runs:
  assumes "rf_reachable N enable s" and "standing s q args" and "r < N" and "r \<noteq> q" and "cur s r < rv_Term args"
  shows "\<exists>t. among {r} s t \<and> standing t q args \<and> cur t r = rv_Term args \<and> st t r = Follower \<and> lg t r = lg s r \<and>
    (uptodate args (lg s r) \<longrightarrow> voted t args r) \<and> (\<forall>p. voted s args p \<longrightarrow> voted t args p)"
proof -
  note I = rn_invD [OF reachable_inv [OF assms(1)]]
  have r: "r < rn_size s" using assms(3) reachable_size [OF assms(1)] by simp
  have "lg s r \<noteq> []" using log_invD(1) [OF I(2) r] by (simp add: log_ok_def)
  then obtain rf reply where v: "RequestVote args (rn_rf s r) = Some (rf, reply)"
    using RequestVote_total by fastforce
  let ?t = "rn_put r rf s\<lparr>rn_voteRep := insert (r, args, reply) (rn_voteRep s),
      rn_votes := (if rr_Granted reply then {(r, rv_Term args, nat (rv_CandidateId args))} else {}) \<union> rn_votes s\<rparr>"
  have req: "args \<in> rn_voteReq s" "int r \<noteq> rv_CandidateId args" using assms(2,4) by (auto simp: standing_def)
  have "among {r} s ?t" by (rule among_step [OF rf_step.vote [OF req(1) r req(2) v]]) (simp add: rn_put_def)
  moreover note eff = vote_later_term [OF v peer_invD(3) [OF I(1) r] assms(5)]
  moreover have "standing ?t q args" using assms(2,4) by (simp add: standing_def rn_put_def)
  ultimately show ?thesis by (intro exI [of _ ?t]) (auto simp: rn_put_def voted_def)
qed

lemma all_vote:
  assumes "rf_reachable N enable s" and "standing s q args" and "distinct rs" and "q \<notin> set rs" and "set rs \<subseteq> {..<N}"
    and "\<forall>r \<in> set rs. cur s r < rv_Term args \<and> uptodate args (lg s r)"
  shows "\<exists>t. among (set rs) s t \<and> standing t q args \<and> (\<forall>r \<in> set rs. cur t r = rv_Term args \<and> voted t args r)"
  using assms(3-6)
proof (induction rs)
  case Nil
  then show ?case using assms(2) among_refl by fastforce
next
  case (Cons r rs)
  then obtain u where u: "among (set rs) s u" "standing u q args"
      "\<forall>r \<in> set rs. cur u r = rv_Term args \<and> voted u args r" by auto
  have same: "rn_rf u r = rn_rf s r" using among_others [OF u(1)] Cons.prems(1) by simp
  obtain t where t: "among {r} u t" "standing t q args" "cur t r = rv_Term args" "voted t args r"
      "\<forall>p. voted u args p \<longrightarrow> voted t args p"
    using vote_runs [OF among_reachable [OF u(1) assms(1)] u(2), of r] Cons.prems same by auto
  have "rn_rf t p = rn_rf u p" if "p \<in> set rs" for p using among_others [OF t(1), of p] Cons.prems(1) that by (cases "p = r") auto
  then have "\<forall>p \<in> set (r # rs). cur t p = rv_Term args \<and> voted t args p" using u(3) t(3-5) by auto
  moreover have "among (set (r # rs)) s t" by (rule among_trans [OF u(1) t(1)]) auto
  ultimately show ?case using t(2) by (intro exI [of _ t]) simp
qed

lemma election_loop_replicate:
  "n < (votes + int k) * 2 \<Longrightarrow> 1 \<le> k \<Longrightarrow> election_loop n votes (replicate k ElSuccess) = Elected"
proof (induction k arbitrary: votes)
  case (Suc k)
  show ?case
  proof (cases "n < (votes + 1) * 2")
    case False
    then have "1 \<le> k" using Suc.prems(1) by (cases k) auto
    then have "election_loop n (votes + 1) (replicate k ElSuccess) = Elected"
      using Suc.prems(1) by (intro Suc.IH) (auto simp: algebra_simps)
    then show ?thesis using False by simp
  qed simp
qed simp

lemma elect_runs:
  assumes "rf_reachable N enable s" and "standing s q args" and "distinct rs" and "q \<notin> set rs" and "set rs \<subseteq> {..<N}"
    and "\<forall>r \<in> set rs. voted s args r" and "N < (1 + length rs) * 2" and "rs \<noteq> []"
  shows "\<exists>t. among {q} s t \<and> st t q = Leader \<and> cur t q = cur s q"
proof -
  note I = rn_invD [OF reachable_inv [OF assms(1)]]
  have N: "rn_size s = N" by (rule reachable_size [OF assms(1)])
  have q: "q < rn_size s" and req: "args \<in> rn_voteReq s" "rv_CandidateId args = int q"
    and c: "st s q = Candidate" "rv_Term args = cur s q"
    using assms(2) by (auto simp: standing_def)
  let ?rs = "map (\<lambda>r. (r, ElSuccess)) rs"
  have results: "map snd ?rs = replicate (length rs) ElSuccess" by (simp add: comp_def map_replicate_const)
  have chan: "vote_channel s q args ?rs"
    using assms(3-6) N by (fastforce simp: vote_channel_def comp_def voted_def election_result_def)
  obtain rf ts where f: "election_finish args (map snd ?rs) (rn_rf s q) = Some (rf, ts)"
    using election_finish_total [of "rn_rf s q" args "map snd ?rs"] peer_invD(1,4,9) [OF I(1) q]
    by (metis not_None_eq surj_pair)
  have "election_loop (int (rf_peers (rn_rf s q))) 1 (map snd ?rs) = Elected"
    unfolding results using assms(7,8) peer_invD(1) [OF I(1) q] N
    by (intro election_loop_replicate) (auto simp: Suc_le_eq)
  then have "rf_state rf = Leader" "rf_currentTerm rf = cur s q"
    using f c by (auto simp: election_finish_def election_win_def same_term_def split: bind_splits dest: reset_peers_Some)
  moreover let ?t = "rn_lead_log q (rf_currentTerm rf) (rf_logs rf) (rn_spawn q ts (rn_put q rf s))"
  have "rf_step s ?t" using rf_step.elect [OF req chan f] calculation c(1) by simp
  then have "among {q} s ?t" by (rule among_step) (simp add: rn_defs)
  ultimately show ?thesis by (intro exI [of _ ?t]) (simp add: rn_defs)
qed

text \<open>The comparison of two logs that a vote rests on is a total preorder.\<close>

definition as_good :: "'c Log list \<Rightarrow> 'c Log list \<Rightarrow> bool" where
  "as_good L M \<longleftrightarrow> lg_Term (last M) < lg_Term (last L) \<or>
     lg_Term (last M) = lg_Term (last L) \<and> length M \<le> length L"

lemma standing_uptodate: "standing s q args \<Longrightarrow> uptodate args M = as_good (lg s q) M"
  by (auto simp: standing_def uptodate_def as_good_def)

lemma best_log: "finite A \<Longrightarrow> A \<noteq> {} \<Longrightarrow> \<exists>p \<in> A. \<forall>r \<in> A. as_good (f p) (f r)"
proof (induction rule: finite_ne_induct)
  case (insert x A)
  then obtain p where p: "p \<in> A" "\<forall>r \<in> A. as_good (f p) (f r)" by blast
  consider "as_good (f p) (f x)" | "as_good (f x) (f p)" by (force simp: as_good_def)
  then show ?case
  proof cases
    case 2
    then have "\<forall>r \<in> insert x A. as_good (f x) (f r)" using p(2) by (force simp: as_good_def)
    then show ?thesis by blast
  qed (use p in blast)
qed (simp add: as_good_def)

text \<open>A peer that is ahead of all others of a majority and has the best log is elected.\<close>

lemma best_elected:
  assumes "rf_reachable N enable s" and "majority N A" and "2 \<le> N" and "p \<in> A" and "st s p \<noteq> Leader"
    and "\<forall>r \<in> A. cur s r \<le> cur s p \<and> as_good (lg s p) (lg s r)"
  shows "\<exists>t. among A s t \<and> st t p = Leader \<and> (\<forall>r \<in> A. cur t r \<le> cur t p)"
proof -
  have A: "A \<subseteq> {..<N}" "N < card A * 2" using assms(2) by (simp_all add: majority_def)
  obtain rs where rs: "set rs = A - {p}" "distinct rs"
    using finite_distinct_list [of "A - {p}"] majority_finite [OF assms(2)] by blast
  have card: "card A = 1 + length rs"
    using distinct_card [OF rs(2)] rs(1) card.remove [OF majority_finite [OF assms(2)] assms(4)] by simp
  obtain u args where u: "among {p} s u" "standing u p args" "cur u p = cur s p + 1" "lg u p = lg s p"
    using campaign_runs [OF assms(1) _ assms(5)] A(1) assms(4) by blast
  have reach: "rf_reachable N enable u" by (rule among_reachable [OF u(1) assms(1)])
  have T: "rv_Term args = cur s p + 1" using u(2,3) by (simp add: standing_def)
  have "cur u r < rv_Term args \<and> uptodate args (lg u r)" if "r \<in> set rs" for r
    using among_others [OF u(1), of r] assms(6) that rs(1) T u(4) standing_uptodate [OF u(2)]
    by auto
  then obtain v where v: "among (set rs) u v" "standing v p args"
      "\<forall>r \<in> set rs. cur v r = rv_Term args \<and> voted v args r"
    using all_vote [OF reach u(2) rs(2)] rs(1) A(1) by blast
  obtain t where t: "among {p} v t" "st t p = Leader" "cur t p = cur v p"
    using elect_runs [OF among_reachable [OF v(1) reach] v(2) rs(2)] rs(1) A v(3) assms(3) card by fastforce
  have "among A s v" by (rule among_trans [OF u(1) v(1)]) (use rs(1) assms(4) in auto)
  then have run: "among A s t" by (rule among_trans [OF _ t(1)]) (use assms(4) in auto)
  have "cur t r \<le> cur t p" if "r \<in> A" for r
  proof (cases "r = p")
    case False
    then have "cur t r = rv_Term args" using among_others [OF t(1), of r] v(3) rs(1) that by simp
    then show ?thesis using t(3) v(2) by (simp add: standing_def)
  qed simp
  then show ?thesis using run t(2) by blast
qed

lemma majority_elects:
  assumes "rf_reachable N enable s" and "majority N A" and "2 \<le> N"
  shows "\<exists>t p. among A s t \<and> p \<in> A \<and> st t p = Leader \<and> (\<forall>r \<in> A. cur t r \<le> cur t p)"
proof -
  have A: "A \<subseteq> {..<N}" using assms(2) by (simp add: majority_def)
  have fin: "finite A" "A \<noteq> {}" using majority_finite maj.quorum_nonempty assms(2) by blast+
  obtain p where p: "p \<in> A" "\<forall>r \<in> A. as_good (lg s p) (lg s r)" using best_log [OF fin, of "lg s"] by blast
  have "Max (cur s ` A) \<in> cur s ` A" using fin by (intro Max_in) auto
  then obtain q where "q \<in> A" "cur s q = Max (cur s ` A)" by force
  then have q: "q \<in> A" "\<forall>r \<in> A. cur s r \<le> cur s q" using fin by auto
  consider (lead) "st s q = Leader" | (best) "q = p" "st s q \<noteq> Leader" | (other) "q \<noteq> p" "st s q \<noteq> Leader"
    by blast
  then show ?thesis
  proof cases
    case lead
    then show ?thesis using q among_refl by blast
  next
    case best
    then show ?thesis using best_elected [OF assms p(1)] p q by blast
  next
    case other
    obtain u args where u: "among {q} s u" "standing u q args" "cur u q = cur s q + 1" "lg u q = lg s q"
      using campaign_runs [OF assms(1) _ other(2)] A q(1) by blast
    have reach: "rf_reachable N enable u" by (rule among_reachable [OF u(1) assms(1)])
    have T: "rv_Term args = cur s q + 1" using u(2,3) by (simp add: standing_def)
    have "cur u p < rv_Term args" using among_others [OF u(1), of p] other(1) q(2) p(1) T by auto
    then obtain v where v: "among {p} u v" "cur v p = rv_Term args" "st v p = Follower" "lg v p = lg u p"
      using vote_runs [OF reach u(2), of p] other(1) p(1) A by blast
    have run: "among A s v" by (rule among_trans [OF u(1) v(1)]) (use p(1) q(1) in auto)
    have logs: "lg v r = lg s r" for r
      using among_others [OF u(1), of r] among_others [OF v(1), of r] u(4) v(4) by (cases "r = p"; cases "r = q") auto
    have "cur v r \<le> cur v p" if "r \<in> A" for r
      using among_others [OF u(1), of r] among_others [OF v(1), of r] u(3) v(2) T q(2) that
      by (cases "r = p"; cases "r = q") force+
    then obtain t where t: "among A v t" "st t p = Leader" "\<forall>r \<in> A. cur t r \<le> cur t p"
      using best_elected [OF among_reachable [OF run assms(1)] assms(2,3) p(1)] v(3) p(2) logs by auto
    have "among A s t" by (rule among_trans [OF run t(1)]) simp
    then show ?thesis using t(2,3) p(1) by blast
  qed
qed

section \<open>Replication\<close>

text \<open>The leader stays the leader with its log; its goroutines stay and its match indices do not go down.\<close>

definition leads_on :: "nat \<Rightarrow> 'c rnet \<Rightarrow> 'c rnet \<Rightarrow> bool" where
  "leads_on p s t \<longleftrightarrow> st s p = Leader \<and> st t p = Leader \<and> cur t p = cur s p \<and> lg t p = lg s p \<and>
     rf_newOp (rn_rf t p) = rf_newOp (rn_rf s p) \<and> rn_tasks s \<subseteq> rn_tasks t \<and> rn_committer t = rn_committer s \<and>
     (\<forall>k. rf_matchIndex (rn_rf s p) ! k \<le> rf_matchIndex (rn_rf t p) ! k)"

lemma leads_on_trans: "leads_on p s t \<Longrightarrow> leads_on p t u \<Longrightarrow> leads_on p s u"
  unfolding leads_on_def by (auto intro: order_trans)

lemma append_reply_term:
  assumes "AppendEntries args rf = Some (rf', reply)" and "rf_currentTerm rf \<le> ae_Term args"
    and "rf_startIndex rf = 0" and "0 \<le> ae_PrevLogIndex args"
  shows "ar_Term reply = ae_Term args"
  using assms
  by (auto simp: AppendEntries_def ae_append_def ae_reject_def ae_accept_def Let_def
      split: bind_splits if_splits prod.splits)

text \<open>An acknowledged request that reaches to the end of the log.\<close>

lemma success_runs:
  assumes "rf_reachable N enable s" and "p < N" and "r < N" and "st s p = Leader"
    and "(p, r, args, n) \<in> rn_sending s" and "(p, r, args, n, reply) \<in> rn_appRep s" and "ar_Success reply"
    and "ae_Term args = cur s p" and "rf_nextIndex (rn_rf s p) ! r = n"
    and "n + int (length (ae_Entries args)) = int (length (lg s p))"
  shows "\<exists>t. among {p} s t \<and> leads_on p s t \<and> int (length (lg s p)) \<le> rf_matchIndex (rn_rf t p) ! r"
proof -
  note I = rn_invD [OF reachable_inv [OF assms(1)]]
  have p: "p < rn_size s" "r < rn_size s" using assms(2,3) reachable_size [OF assms(1)] by simp_all
  let ?len = "int (length (lg s p))" and ?r = "rn_rf s p"
  let ?rf = "?r\<lparr>rf_nextIndex := (rf_nextIndex ?r)[r := ?len],
    rf_matchIndex := (rf_matchIndex ?r)[r := max ?len (rf_matchIndex ?r ! r)]\<rparr>"
  have len: "r < length (rf_nextIndex ?r)" "r < length (rf_matchIndex ?r)"
    using p peer_invD(4,9) [OF I(1) p(1)] by simp_all
  then have "sendLog_reply r (ae_Term args) args n reply ?r = Some (?rf, False)"
    using assms(7-10) by (auto simp: sendLog_reply_def go_index_def max_def Let_def)
  then have "rf_step s (rn_put p ?rf s)" by (rule rf_step.append_reply [OF assms(5,6) p(1)])
  then have "among {p} s (rn_put p ?rf s)" by (rule among_step) (simp add: rn_put_def)
  moreover have "rf_matchIndex ?r ! k \<le> rf_matchIndex ?rf ! k" for k
    using len(2) by (cases "k = r") auto
  then have "leads_on p s (rn_put p ?rf s)" using assms(4) by (simp add: leads_on_def rn_put_def)
  ultimately show ?thesis using len(2) by (intro exI [of _ "rn_put p ?rf s"]) (simp add: rn_put_def)
qed

text \<open>A refusal: the sender tries again with earlier entries, again up to the end of the log.\<close>

lemma refusal_runs:
  assumes "rf_reachable N enable s" and "p < N" and "r < N" and "st s p = Leader"
    and "(p, r, args, n) \<in> rn_sending s" and "(p, r, args, n, reply) \<in> rn_appRep s"
    and "\<not> ar_Success reply" and "ar_Term reply = ae_Term args"
    and "ae_Term args = cur s p" and "rf_nextIndex (rn_rf s p) ! r = n"
    and "AppendEntries args rfr = Some (rfr', reply)" and "rf_startIndex rfr = 0"
  shows "\<exists>t args' n'. among {p} s t \<and> leads_on p s t \<and> (p, r, args', n') \<in> rn_sending t \<and> ae_Term args' = cur t p \<and>
    rf_nextIndex (rn_rf t p) ! r = n' \<and> n' + int (length (ae_Entries args')) = int (length (lg t p)) \<and> 1 \<le> n' \<and> n' < n"
proof -
  have inv: "rn_inv s" "next_inv s" using reachable_inv reachable_next assms(1) by blast+
  note I = rn_invD [OF inv(1)] and safe = invs_no_panic [OF inv]
  have p: "p < rn_size s" "r < rn_size s" using assms(2,3) reachable_size [OF assms(1)] by simp_all
  obtain rf b where rep: "sendLog_reply r (ae_Term args) args n reply (rn_rf s p) = Some (rf, b)"
    using safe rf_panic.append_reply [OF assms(5,6) p(1)] by fastforce
  have b: "b" and match: "rf_matchIndex rf = rf_matchIndex (rn_rf s p)"
    using rep assms(7-10) by (auto simp: sendLog_reply_def Let_def go_slices split: bind_splits if_splits)
  have rep': "sendLog_reply r (ae_Term args) args n reply (rn_rf s p) = Some (rf, True)" using rep b by simp
  note eff = reply_quiet [OF inv(1) assms(5,6) rep]
  have rf: "rf_state rf = Leader" "rf_currentTerm rf = cur s p" "rf_logs rf = lg s p" "rf_startIndex rf = 0"
    using eff b assms(4) peer_invD(3) [OF I(1) p(1)] by (auto simp: same_log_def same_term_def)
  have nx: "1 \<le> rf_nextIndex rf ! r" using reply_next_ok [OF inv assms(5,6) p(1) rep] rf(1) p(2) by simp
  have sent: "ae_PrevLogIndex args = n - 1" "1 \<le> n"
    using msg_invD(2) [OF I(5) msg_invD(3) [OF I(5) assms(5)]] by (auto simp: sent_ok_def)
  have down: "rf_nextIndex rf ! r < n"
    using retry_down [OF assms(11) _ sent(1) _ rep'] sent assms(12)
      peer_invD(3) [OF I(1) p(1)] by simp
  obtain rf' act where build: "sendLog_build r (ae_Term args) rf = Some (rf', act)"
    using safe rf_panic.append_retry [OF assms(5,6) p(1) rep'] by fastforce
  obtain args' where act: "rf' = rf" "act = SendEntries args' (rf_nextIndex rf ! r)"
    using build_entries [OF build rf(4) nx] by blast
  have bt: "nat (rf_nextIndex rf ! r) \<le> length (lg s p)" "ae_Term args' = cur s p"
      "ae_Entries args' = drop (nat (rf_nextIndex rf ! r)) (lg s p)"
    using build_effect [OF build rf(4)] rf(2,3) act(2) by (simp_all add: built_def)
  let ?t = "rn_emit p r act (rn_put p rf' s)"
  have "rf_step s ?t"
    using rf_step.append_retry [OF assms(5,6) p(1) rep' build] .
  then have "among {p} s ?t" by (rule among_step) (simp add: rn_defs act(2))
  moreover have "leads_on p s ?t"
    using rf match eff assms(4) by (simp add: leads_on_def rn_defs act)
  moreover have "rf_nextIndex rf ! r + int (length (ae_Entries args')) = int (length (lg s p))"
    using bt(1,3) nx by simp
  ultimately show ?thesis
    using nx down bt(2) rf
    by (intro exI [of _ ?t] exI [of _ args'] exI [of _ "rf_nextIndex rf ! r"]) (simp add: rn_defs act)
qed

lemma resend_runs:
  assumes "rf_reachable N enable s" and "p < N" and "r < N" and "r \<noteq> p" and "st s p = Leader" and "cur s r \<le> cur s p"
    and "(p, r, args, n) \<in> rn_sending s" and "ae_Term args = cur s p" and "rf_nextIndex (rn_rf s p) ! r = n"
    and "n + int (length (ae_Entries args)) = int (length (lg s p))"
  shows "\<exists>t. among {p, r} s t \<and> leads_on p s t \<and> cur t r \<le> cur t p \<and>
    int (length (lg s p)) \<le> rf_matchIndex (rn_rf t p) ! r"
  using assms(1,5-10)
proof (induction "nat n" arbitrary: s args n rule: less_induct)
  case less
  note prems = less.prems
  have inv: "rn_inv s" "next_inv s" using reachable_inv reachable_next prems(1) by blast+
  note I = rn_invD [OF inv(1)]
  have p: "p < rn_size s" "r < rn_size s" using assms(2,3) reachable_size [OF prems(1)] by simp_all
  have start: "rf_startIndex (rn_rf s r) = 0" by (rule peer_invD(3) [OF I(1) p(2)])
  have req: "(p, r, args, n) \<in> rn_appReq s" by (rule msg_invD(3) [OF I(5) prems(4)])
  have sent: "ae_PrevLogIndex args = n - 1" "1 \<le> n" using msg_invD(2) [OF I(5) req] by (auto simp: sent_ok_def)
  obtain rf reply where app: "AppendEntries args (rn_rf s r) = Some (rf, reply)"
    using invs_no_panic [OF inv] rf_panic.append [OF req p(2)] by fastforce
  have cur: "rf_currentTerm rf = cur s p"
    using append_effect [OF app start, of "nat n"] sent prems(3,5) by auto
  have reply: "ar_Term reply = ae_Term args"
    using append_reply_term [OF app _ start] prems(3,5) sent by simp
  let ?u = "rn_put r rf s\<lparr>rn_appRep := insert (p, r, args, n, reply) (rn_appRep s),
    rn_acked := (if ar_Success reply then {(r, ae_Term args, nat (n + int (length (ae_Entries args))))} else {})
      \<union> rn_acked s\<rparr>"
  have "rf_step s ?u" by (rule rf_step.append [OF req p(2) app])
  then have run: "among {r} s ?u" by (rule among_step) (simp add: rn_put_def)
  have u: "rn_rf ?u p = rn_rf s p" "rn_rf ?u r = rf" "(p, r, args, n) \<in> rn_sending ?u"
      "(p, r, args, n, reply) \<in> rn_appRep ?u" "leads_on p s ?u"
    using assms(4) prems(2,4) by (auto simp: rn_put_def leads_on_def)
  have reach: "rf_reachable N enable ?u" by (rule among_reachable [OF run prems(1)])
  show ?case
  proof (cases "ar_Success reply")
    case True
    then obtain t where t: "among {p} ?u t" "leads_on p ?u t" "int (length (lg ?u p)) \<le> rf_matchIndex (rn_rf t p) ! r"
      using success_runs [OF reach assms(2,3) _ u(3,4)] prems(2,5-7) unfolding u(1) by blast
    have "rn_rf t r = rf" using among_others [OF t(1)] assms(4) u(2) by simp
    then have "cur t r \<le> cur t p" using t(2) cur u(1) by (simp add: leads_on_def)
    moreover have "among {p, r} s t" by (rule among_trans [OF run t(1)]) simp
    ultimately show ?thesis using leads_on_trans [OF u(5) t(2)] t(3) u(1) by (intro exI [of _ t]) simp
  next
    case False
    then obtain v args' n' where v: "among {p} ?u v" "leads_on p ?u v" "(p, r, args', n') \<in> rn_sending v"
        "ae_Term args' = cur v p" "rf_nextIndex (rn_rf v p) ! r = n'"
        "n' + int (length (ae_Entries args')) = int (length (lg v p))" "1 \<le> n'" "n' < n"
      using refusal_runs [OF reach assms(2,3) _ u(3,4) False reply _ _ app start] prems(2,5,6) unfolding u(1) by blast
    have "rn_rf v r = rf" using among_others [OF v(1)] assms(4) u(2) by simp
    then have le: "cur v r \<le> cur v p" using v(2) cur u(1) by (simp add: leads_on_def)
    have lead: "st v p = Leader" and len: "lg v p = lg s p" using v(2) u(1) by (simp_all add: leads_on_def)
    obtain t where t: "among {p, r} v t" "leads_on p v t" "cur t r \<le> cur t p"
        "int (length (lg v p)) \<le> rf_matchIndex (rn_rf t p) ! r"
      using less.hyps [OF _ among_reachable [OF v(1) reach] lead le v(3-6)] v(7,8) by auto
    have "among {p, r} s v" by (rule among_trans [OF run v(1)]) simp
    then have "among {p, r} s t" by (rule among_trans [OF _ t(1)]) simp
    moreover have "leads_on p s t" using leads_on_trans [OF leads_on_trans [OF u(5) v(2)] t(2)] .
    ultimately show ?thesis using t(3,4) len by (intro exI [of _ t]) simp
  qed
qed

lemma send_runs:
  assumes "rf_reachable N enable s" and "p < N" and "r < N" and "r \<noteq> p" and "st s p = Leader" and "cur s r \<le> cur s p"
    and "(p, GoSendLog r (cur s p)) \<in> rn_tasks s"
  shows "\<exists>t. among {p, r} s t \<and> leads_on p s t \<and> cur t r \<le> cur t p \<and>
    int (length (lg s p)) \<le> rf_matchIndex (rn_rf t p) ! r"
proof -
  have inv: "rn_inv s" "next_inv s" using reachable_inv reachable_next assms(1) by blast+
  note I = rn_invD [OF inv(1)]
  have p: "p < rn_size s" "r < rn_size s" using assms(2,3) reachable_size [OF assms(1)] by simp_all
  have start: "rf_startIndex (rn_rf s p) = 0" by (rule peer_invD(3) [OF I(1) p(1)])
  have "sendLog_begin r (cur s p) (rn_rf s p) \<noteq> None"
    using invs_no_panic [OF inv] rf_panic.send [OF assms(7) p(1)] by blast
  then obtain rf act where b: "sendLog_begin r (cur s p) (rn_rf s p) = Some (Some (rf, act))"
      "sendLog_build r (cur s p) (rn_rf s p) = Some (rf, act)"
    by (auto simp: sendLog_begin_def split: bind_splits)
  let ?n = "rf_nextIndex (rn_rf s p) ! r"
  have n: "1 \<le> ?n" using inv(2) p assms(5) by (auto simp: next_inv_def next_ok_def)
  then obtain args where act: "rf = rn_rf s p" "act = SendEntries args ?n"
    using build_entries [OF b(2) start] by blast
  have args: "nat ?n \<le> length (lg s p)" "ae_Term args = cur s p" "ae_Entries args = drop (nat ?n) (lg s p)"
    using build_effect [OF b(2) start] act(2) by (simp_all add: built_def)
  let ?u = "rn_emit p r act (rn_put p rf s)"
  have "rf_step s ?u" by (rule rf_step.send [OF assms(7) p(1) b(1)])
  then have run: "among {p} s ?u" by (rule among_step) (simp add: rn_defs act)
  have u: "rn_rf ?u = rn_rf s" "(p, r, args, ?n) \<in> rn_sending ?u" "leads_on p s ?u"
    using assms(5) by (auto simp: rn_defs act leads_on_def)
  have "?n + int (length (ae_Entries args)) = int (length (lg s p))" using args(1,3) n by simp
  then obtain t where t: "among {p, r} ?u t" "leads_on p ?u t" "cur t r \<le> cur t p"
      "int (length (lg s p)) \<le> rf_matchIndex (rn_rf t p) ! r"
    using resend_runs [OF among_reachable [OF run assms(1)] assms(2-4) _ _ u(2)] assms(5,6) args(2)
    unfolding u(1) by blast
  have "among {p, r} s t" by (rule among_trans [OF run t(1)]) simp
  then show ?thesis using leads_on_trans [OF u(3) t(2)] t(3,4) by (intro exI [of _ t]) simp
qed

lemma all_replicate:
  assumes "rf_reachable N enable s" and "p < N" and "st s p = Leader" and "distinct rs" and "p \<notin> set rs"
    and "set rs \<subseteq> {..<N}" and "\<forall>r \<in> set rs. cur s r \<le> cur s p \<and> (p, GoSendLog r (cur s p)) \<in> rn_tasks s"
  shows "\<exists>t. among (insert p (set rs)) s t \<and> leads_on p s t \<and>
    (\<forall>r \<in> set rs. int (length (lg s p)) \<le> rf_matchIndex (rn_rf t p) ! r)"
  using assms(4-7)
proof (induction rs)
  case Nil
  then show ?case using assms(3) among_refl by (fastforce simp: leads_on_def)
next
  case (Cons r rs)
  then obtain u where u: "among (insert p (set rs)) s u" "leads_on p s u"
      "\<forall>r \<in> set rs. int (length (lg s p)) \<le> rf_matchIndex (rn_rf u p) ! r" by auto
  have "rn_rf u r = rn_rf s r" using among_others [OF u(1)] Cons.prems(1,2) by simp
  then have "cur u r \<le> cur u p" "(p, GoSendLog r (cur u p)) \<in> rn_tasks u" "st u p = Leader" "lg u p = lg s p"
    using u(2) Cons.prems(4) by (auto simp: leads_on_def)
  then obtain t where t: "among {p, r} u t" "leads_on p u t" "int (length (lg s p)) \<le> rf_matchIndex (rn_rf t p) ! r"
    using send_runs [OF among_reachable [OF u(1) assms(1)] assms(2), of r] Cons.prems(2,3) by auto
  have "\<forall>r \<in> set (r # rs). int (length (lg s p)) \<le> rf_matchIndex (rn_rf t p) ! r"
    using u(3) t(2,3) by (auto simp: leads_on_def intro: order_trans)
  moreover have "among (insert p (set (r # rs))) s t" by (rule among_trans [OF u(1) t(1)]) auto
  ultimately show ?case using leads_on_trans [OF u(2) t(2)] by (intro exI [of _ t]) simp
qed

section \<open>Commitment\<close>

text \<open>A leader that has taken a command has its committer.\<close>

definition comm_inv :: "'c rnet \<Rightarrow> bool" where
  "comm_inv s \<longleftrightarrow> (\<forall>q < rn_size s. st s q = Leader \<longrightarrow> rf_newOp (rn_rf s q) \<noteq> 0 \<longrightarrow>
     rn_committer s (q, cur s q) \<noteq> None)"

lemma comm_step:
  assumes "comm_inv s" and "rn_size t = rn_size s" and "\<And>p. p \<noteq> q \<Longrightarrow> rn_rf t p = rn_rf s p"
    and "\<And>p T. p \<noteq> q \<Longrightarrow> rn_committer t (p, T) = rn_committer s (p, T)"
    and "q < rn_size s \<Longrightarrow> st t q = Leader \<Longrightarrow> rf_newOp (rn_rf t q) \<noteq> 0 \<Longrightarrow>
      rn_committer t (q, cur t q) \<noteq> None \<or> st s q = Leader \<and> cur t q = cur s q \<and>
      rf_newOp (rn_rf t q) = rf_newOp (rn_rf s q) \<and>
      (rn_committer s (q, cur s q) \<noteq> None \<longrightarrow> rn_committer t (q, cur s q) \<noteq> None)"
  shows "comm_inv t"
  unfolding comm_inv_def
proof (intro allI impI)
  fix p
  assume "p < rn_size t" "st t p = Leader" "rf_newOp (rn_rf t p) \<noteq> 0"
  then show "rn_committer t (p, cur t p) \<noteq> None"
    using assms by (cases "p = q") (auto simp: comm_inv_def)
qed

lemma step_comm:
  assumes "rf_step s t" and inv: "rn_inv s" and cm: "comm_inv s"
  shows "comm_inv t"
proof -
  note I = rn_invD [OF inv]
  note start0 = peer_invD(3) [OF I(1)]
  from assms(1) show ?thesis
  proof cases
    case (tick q rf ts)
    show ?thesis unfolding tick(1)
      by (rule comm_step [OF cm, of _ q]) (use tick_effect [OF tick(3)] in \<open>auto simp: next_same_defs\<close>)
  next
    case (campaign q rf args)
    show ?thesis unfolding campaign(1)
      by (rule comm_step [OF cm, of _ q])
        (use campaign_effect [OF campaign(4) start0 [OF campaign(3)]] in \<open>auto simp: next_same_defs\<close>)
  next
    case (vote args r rf reply)
    show ?thesis unfolding vote(1)
      by (rule comm_step [OF cm, of _ r])
        (use vote_effect [OF vote(5) start0 [OF vote(3)]] in \<open>auto simp: next_same_defs split: if_splits\<close>)
  next
    case (elect args q rs rf ts)
    show ?thesis unfolding elect(1)
      by (rule comm_step [OF cm, of _ q]) (use elect_effect [OF elect(5)] in \<open>auto simp: next_same_defs\<close>)
  next
    case (start q now cmd rf idx T ts)
    show ?thesis unfolding start(1)
      by (rule comm_step [OF cm, of _ q])
        (use start_effect [OF start(3) start0 [OF start(2)]] in \<open>auto simp: next_same_defs split: if_splits\<close>)
  next
    case (heartbeat q T now rf ts)
    show ?thesis unfolding heartbeat(1)
      by (rule comm_step [OF cm, of _ q]) (use heartbeat_effect [OF heartbeat(4)] in \<open>auto simp: next_same_defs\<close>)
  next
    case (send q p T rf act)
    show ?thesis unfolding send(1)
      by (rule comm_step [OF cm, of _ q])
        (use send_effect [OF send(4) start0 [OF send(3)]] in \<open>auto simp: next_same_defs built_def split: send_action.splits\<close>)
  next
    case (append q p args n rf reply)
    have n: "ae_PrevLogIndex args = int (nat n) - 1" "1 \<le> nat n"
      using msg_invD(2) [OF I(5) append(2)] by (auto simp: sent_ok_def)
    show ?thesis unfolding append(1)
      by (rule comm_step [OF cm, of _ p])
        (use append_effect [OF append(4) start0 [OF append(3)] n] in \<open>auto simp: next_same_defs\<close>)
  next
    case (append_reply q p args n reply rf)
    show ?thesis unfolding append_reply(1)
      by (rule comm_step [OF cm, of _ q]) (use reply_effect [OF append_reply(5)] in \<open>auto simp: next_same_defs\<close>)
  next
    case (append_retry q p args n reply rf rf' act)
    note eff = reply_effect [OF append_retry(5)]
    then have "rf_startIndex rf = 0" using start0 [OF append_retry(4)] by (simp add: same_log_def)
    note eff' = build_effect [OF append_retry(6) this]
    show ?thesis unfolding append_retry(1)
      by (rule comm_step [OF cm, of _ q]) (use eff eff' in \<open>auto simp: next_same_defs built_def split: send_action.splits\<close>)
  next
    case (install q p T m args rf reply ts)
    have "is_LastIndex args = 0" using msg_invD(1) [OF I(5) install(2)] by simp
    note eff = install_effect [OF install(4) start0 [OF install(3)] this peer_invD(5) [OF I(1) install(3)]]
    show ?thesis unfolding install(1) by (rule comm_step [OF cm, of _ p]) (use eff in \<open>auto simp: next_same_defs\<close>)
  next
    case (install_reply q p T m reply rf ts)
    show ?thesis unfolding install_reply(1)
      by (rule comm_step [OF cm, of _ q]) (use install_reply_effect [OF install_reply(4)] in \<open>auto simp: next_same_defs\<close>)
  next
    case (commit q T b rf b' w)
    have "rf_newOp rf = rf_newOp (rn_rf s q) \<and> rf_state rf = st s q \<and> rf_currentTerm rf = cur s q"
      using commit(4) by (auto simp: committer_round_def split: if_splits bind_splits)
    then show ?thesis unfolding commit(1) by (intro comm_step [OF cm, of _ q]) (auto simp: rn_put_def)
  next
    case (commit_exit q T b)
    have "cur s q \<noteq> T" using commit_exit(4) by (auto simp: committer_round_def split: if_splits bind_splits)
    then show ?thesis unfolding commit_exit(1) by (intro comm_step [OF cm, of _ q]) auto
  next
    case (apply_msgs q rf msgs)
    have "rf_newOp rf = rf_newOp (rn_rf s q) \<and> rf_state rf = st s q \<and> rf_currentTerm rf = cur s q"
      using apply_msgs(4) by (auto simp: applier_round_def split: if_splits bind_splits)
    then show ?thesis unfolding apply_msgs(1) by (intro comm_step [OF cm, of _ q]) (auto simp: rn_put_def)
  next
    case (deliver q)
    show ?thesis unfolding deliver(1) by (intro comm_step [OF cm, of _ q]) auto
  next
    case (restart q)
    show ?thesis unfolding restart(1)
      by (rule comm_step [OF cm, of _ q])
        (use restart_effect [OF start0 [OF restart(2)] refl, of "rn_size s" q] in \<open>auto simp: rn_restart_def rn_put_def\<close>)
  qed
qed

lemma reachable_comm: "rf_reachable N enable s \<Longrightarrow> comm_inv s"
proof (induction rule: rf_reachable.induct)
  case init
  show ?case by (simp add: comm_inv_def rn_init_def make_effect)
next
  case (step s t)
  then show ?case using step_comm reachable_inv by blast
qed

lemma start_runs:
  assumes "rf_reachable N enable s" and "p < N" and "st s p = Leader"
  shows "\<exists>t. among {p} s t \<and> st t p = Leader \<and> cur t p = cur s p \<and>
    lg t p = lg s p @ [\<lparr>lg_Term = cur s p, lg_Command = cmd\<rparr>] \<and> rf_newOp (rn_rf t p) \<noteq> 0 \<and>
    (\<forall>r < N. r \<noteq> p \<longrightarrow> (p, GoSendLog r (cur s p)) \<in> rn_tasks t)"
proof -
  note I = rn_invD [OF reachable_inv [OF assms(1)]]
  have N: "rn_size s = N" by (rule reachable_size [OF assms(1)])
  have p: "p < rn_size s" using assms(2) N by simp
  obtain rf idx ts where s: "rf_Start 0 cmd (rn_rf s p) = (rf, idx, cur s p, True, ts)"
    using assms(3) by (auto simp: rf_Start_def Let_def)
  let ?t = "rn_lead_log p (cur s p) (rf_logs rf) (rn_spawn p ts (rn_put p rf s))"
  have "among {p} s ?t" by (rule among_step [OF rf_step.start [OF p s]]) (simp add: rn_defs)
  moreover note start_effect [OF s peer_invD(3) [OF I(1) p]] peer_invD(1,2) [OF I(1) p]
  moreover have "lg s p \<noteq> []" using log_invD(1) [OF I(2) p] by (simp add: log_ok_def)
  ultimately show ?thesis using assms(3) N by (intro exI [of _ ?t]) (auto simp: rn_defs same_term_def)
qed

text \<open>When all of a majority have the leader's log, a round of the committer commits it.\<close>

lemma match_median:
  assumes "rf_reachable N enable s" and "majority N A" and "2 \<le> N" and "p \<in> A" and "st s p = Leader"
    and "\<forall>r \<in> A - {p}. int (length (lg s p)) \<le> rf_matchIndex (rn_rf s p) ! r"
  shows "median_match (rn_rf s p) = int (length (lg s p))"
proof -
  note I = rn_invD [OF reachable_inv [OF assms(1)]]
  have N: "rn_size s = N" by (rule reachable_size [OF assms(1)])
  have A: "A \<subseteq> {..<N}" "N < card A * 2" using assms(2) by (simp_all add: majority_def)
  then have p: "p < rn_size s" using assms(4) N by auto
  let ?r = "rn_rf s p" and ?len = "int (length (lg s p))"
  have me: "rf_me ?r = p" "rf_peers ?r = N" using peer_invD(1,2) [OF I(1) p] N by simp_all
  have has: "quorum_has ?r i \<longleftrightarrow> i < median_match ?r" for i
    using quorum_has_median [of ?r i] me p N assms(3) by simp
  have "?len - 1 < rf_matchIndex ?r ! r" if "r \<in> A - {p}" for r using bspec [OF assms(6) that] by simp
  then have "A - {p} \<subseteq> matched ?r (?len - 1)" using A(1) me by (auto simp: matched_def)
  then have "card (A - {p}) \<le> card (matched ?r (?len - 1))" by (rule card_mono [rotated]) (simp add: matched_def)
  then have "quorum_has ?r (?len - 1)"
    using A(2) me(2) card.remove [OF majority_finite [OF assms(2)] assms(4)] by (simp add: quorum_has_def)
  moreover have "leader_ok s p" using I(6) p by (auto simp: leader_inv_def)
  then have "rf_matchIndex ?r ! r \<le> ?len" if "r < N" "r \<noteq> p" for r
    using assms(5) N that by (auto simp: leader_ok_def)
  then have "matched ?r ?len = {}" using me by (fastforce simp: matched_def)
  then have "\<not> quorum_has ?r ?len" using me(2) assms(3) by (simp add: quorum_has_def)
  ultimately show ?thesis using has by fastforce
qed

lemma commit_all:
  assumes "rf_reachable N enable s" and "majority N A" and "2 \<le> N" and "p \<in> A" and "st s p = Leader"
    and "\<forall>r \<in> A - {p}. int (length (lg s p)) \<le> rf_matchIndex (rn_rf s p) ! r"
    and "rn_committer s (p, cur s p) = Some True"
  shows "\<exists>t. among {p} s t \<and> st t p = Leader \<and> lg t p = lg s p \<and> rf_commitIndex (rn_rf t p) = int (length (lg s p))"
proof -
  note I = rn_invD [OF reachable_inv [OF assms(1)]]
  have N: "rn_size s = N" by (rule reachable_size [OF assms(1)])
  have p: "p < rn_size s" using assms(2,4) N by (auto simp: majority_def)
  let ?r = "rn_rf s p" and ?len = "int (length (lg s p))"
  have med: "median_match ?r = ?len" by (rule match_median [OF assms(1-6)])
  have "commit_ok s (cur s p) (lg s p) (rf_commitIndex ?r)" using I(9) p by (auto simp: commit_inv_def)
  then have "rf_commitIndex ?r \<le> ?len" by (simp add: commit_ok_def nat_le_iff)
  then have "committer_round (cur s p) True ?r = Some (Some (?r\<lparr>rf_commitIndex := ?len\<rparr>, True, True))"
    using commit_median [of ?r "cur s p"] med peer_invD(1-4) [OF I(1) p] p N assms(3) by (simp add: max_def)
  note step = rf_step.commit [OF assms(7) p this]
  show ?thesis by (rule exI, rule conjI [OF among_step [OF step]]) (use assms(5) in \<open>auto simp: rn_put_def\<close>)
qed

lemma commit_runs:
  assumes "rf_reachable N enable s" and "majority N A" and "2 \<le> N" and "p \<in> A" and "st s p = Leader"
    and "\<forall>r \<in> A - {p}. int (length (lg s p)) \<le> rf_matchIndex (rn_rf s p) ! r" and "rf_newOp (rn_rf s p) \<noteq> 0"
  shows "\<exists>t. among {p} s t \<and> st t p = Leader \<and> lg t p = lg s p \<and> rf_commitIndex (rn_rf t p) = int (length (lg s p))"
proof -
  note I = rn_invD [OF reachable_inv [OF assms(1)]]
  have N: "rn_size s = N" by (rule reachable_size [OF assms(1)])
  have p: "p < rn_size s" using assms(2,4) N by (auto simp: majority_def)
  let ?r = "rn_rf s p"
  obtain b where b: "rn_committer s (p, cur s p) = Some b"
    using reachable_comm [OF assms(1)] p assms(5,7) by (auto simp: comm_inv_def)
  show ?thesis
  proof (cases b)
    case True
    then show ?thesis using commit_all [OF assms(1-6)] b by simp
  next
    case False
    then have b': "rn_committer s (p, cur s p) = Some False" using b by simp
    have "leader_ok s p" using I(6) p by (auto simp: leader_inv_def)
    then have "rf_newOp ?r < median_match ?r"
      using assms(5,7) match_median [OF assms(1-6)] by (auto simp: leader_ok_def)
    then have "testIndexL (rf_newOp ?r) ?r = Some True"
      using testIndexL_eq [of ?r] quorum_has_median [of ?r] peer_invD(1,2,4) [OF I(1) p] p N assms(3)
      by (simp add: quorum_has_def)
    then have "committer_round (cur s p) False ?r = Some (Some (?r\<lparr>rf_commitIndex := rf_newOp ?r + 1\<rparr>, True, False))"
      by (simp add: committer_round_def)
    note step = rf_step.commit [OF b' p this]
    let ?u = "rn_put p (?r\<lparr>rf_commitIndex := rf_newOp ?r + 1\<rparr>) s
      \<lparr>rn_committer := (rn_committer s)((p, cur s p) \<mapsto> True)\<rparr>"
    have run: "among {p} s ?u" by (rule among_step [OF step]) (simp add: rn_put_def)
    obtain t where t: "among {p} ?u t" "st t p = Leader" "lg t p = lg s p"
        "rf_commitIndex (rn_rf t p) = int (length (lg s p))"
      using commit_all [OF among_reachable [OF run assms(1)] assms(2-4)] assms(5,6) by (auto simp: rn_put_def)
    have "among {p} s t" by (rule among_trans [OF run t(1)]) simp
    then show ?thesis using t(2-4) by blast
  qed
qed

text \<open>The applier never sends more than it has taken, and can send the rest.\<close>

lemma reachable_sent: "rf_reachable N enable s \<Longrightarrow> rn_sent s q \<le> length (rn_taken s q)"
proof (induction rule: rf_reachable.induct)
  case (step s t)
  from step.hyps(2) step.IH show ?case
    by cases (auto simp: rn_put_def rn_spawn_def rn_emit_def rn_lead_log_def rn_restart_def
        split: send_action.splits)
qed (simp add: rn_init_def)

lemma drain_runs:
  assumes "rf_reachable N enable s" and "p < N"
  shows "\<exists>t. among {p} s t \<and> rn_rf t = rn_rf s \<and> rn_applied t p = rn_taken s p \<and>
    rn_taken t = rn_taken s \<and> rn_sent t p = length (rn_taken s p)"
  using assms(1)
proof (induction "length (rn_taken s p) - rn_sent s p" arbitrary: s)
  case 0
  then have "rn_sent s p = length (rn_taken s p)" using reachable_sent [OF 0(2), of p] by simp
  then show ?case using among_refl by (intro exI [of _ s]) (simp add: rn_applied_def)
next
  case (Suc n)
  let ?u = "s\<lparr>rn_sent := (rn_sent s)(p := Suc (rn_sent s p))\<rparr>"
  have step: "rf_step s ?u"
    using Suc(2,3) assms(2) reachable_size [OF Suc(3)] by (intro rf_step.deliver) auto
  have run: "among {p} s ?u" by (rule among_step [OF step]) simp
  obtain t where t: "among {p} ?u t" "rn_rf t = rn_rf s" "rn_applied t p = rn_taken s p"
      "rn_taken t = rn_taken s" "rn_sent t p = length (rn_taken s p)"
    using Suc(1) [OF _ among_reachable [OF run Suc(3)]] Suc(2) by fastforce
  have "among {p} s t" by (rule among_trans [OF run t(1)]) simp
  then show ?case using t(2-5) by blast
qed

lemma take_runs:
  assumes "rf_reachable N enable s" and "p < N" and "rf_commitIndex (rn_rf s p) = int c"
    and "rn_sent s p = length (rn_taken s p)"
  shows "\<exists>t. among {p} s t \<and> st t p = st s p \<and> rn_taken t p = map (command_msg (lg s p)) [1..<c]"
proof (cases "rf_lastApplied (rn_rf s p) < rf_commitIndex (rn_rf s p)")
  case True
  have p: "p < rn_size s" using assms(2) reachable_size [OF assms(1)] by simp
  note step = rf_step.apply_msgs [OF p assms(4) applier_delivers [OF reachable_inv [OF assms(1)] p, unfolded if_P [OF True]]]
  let ?t = "rn_put p ((rn_rf s p)\<lparr>rf_lastApplied := rf_commitIndex (rn_rf s p)\<rparr>) s\<lparr>rn_taken := (rn_taken s)
    (p := rn_taken s p @ map (command_msg (lg s p)) [nat (rf_lastApplied (rn_rf s p))..<nat (rf_commitIndex (rn_rf s p))])\<rparr>"
  have run: "among {p} s ?t" by (rule among_step [OF step]) (simp add: rn_put_def)
  note I = rn_invD [OF reachable_inv [OF among_reachable [OF run assms(1)]]]
  have "rn_taken ?t p = map (command_msg (lg ?t p)) [1..<nat (rf_lastApplied (rn_rf ?t p))]"
    using I(9) reachable_size [OF among_reachable [OF run assms(1)]] assms(2) unfolding commit_inv_def by blast
  then show ?thesis using run assms(3) by (intro exI [of _ ?t]) (simp add: rn_put_def)
next
  case False
  have p: "p < rn_size s" using assms(2) reachable_size [OF assms(1)] by simp
  note I = rn_invD [OF reachable_inv [OF assms(1)]]
  have "rf_lastApplied (rn_rf s p) = int c" using False assms(3) peer_invD(8) [OF I(1) p] by simp
  then show ?thesis using I(9) p among_refl unfolding commit_inv_def by force
qed

lemma apply_runs:
  assumes "rf_reachable N enable s" and "p < N" and "rf_commitIndex (rn_rf s p) = int c"
  shows "\<exists>t. among {p} s t \<and> st t p = st s p \<and> rn_applied t p = map (command_msg (lg s p)) [1..<c]"
proof -
  obtain u where u: "among {p} s u" "rn_rf u = rn_rf s" "rn_sent u p = length (rn_taken u p)"
    using drain_runs [OF assms(1,2)] by auto
  have ru: "rf_reachable N enable u" by (rule among_reachable [OF u(1) assms(1)])
  obtain v where v: "among {p} u v" "st v p = st s p" "rn_taken v p = map (command_msg (lg s p)) [1..<c]"
    using take_runs [OF ru assms(2) _ u(3)] assms(3) u(2) by auto
  obtain t where t: "among {p} v t" "rn_rf t = rn_rf v" "rn_applied t p = rn_taken v p"
    using drain_runs [OF among_reachable [OF v(1) ru] assms(2)] by auto
  have "among {p} s v" by (rule among_trans [OF u(1) v(1)]) simp
  then have "among {p} s t" by (rule among_trans [OF _ t(1)]) simp
  then show ?thesis using t(2,3) v(2,3) by auto
qed

section \<open>Progress\<close>

text \<open>
  C12. Progress: from every reachable state of a group of at least two peers, whatever
  terms, logs, elections and messages are under way, any majority of the peers can go on
  without the others: there is a run in which no other peer takes part, after which a peer
  of the majority is the leader and has committed and applied any given new command.
\<close>

theorem raft_progress:
  assumes "rf_reachable N enable s" and "majority N A" and "2 \<le> N"
  shows "\<exists>t p. rf_step\<^sup>*\<^sup>* s t \<and> (\<forall>q. q \<notin> A \<longrightarrow> rn_rf t q = rn_rf s q) \<and> p \<in> A \<and>
    snd (rf_GetState (rn_rf t p)) \<and> rn_applied t p \<noteq> [] \<and>
    am_CommandValid (last (rn_applied t p)) \<and> am_Command (last (rn_applied t p)) = cmd"
proof -
  have A: "A \<subseteq> {..<N}" using assms(2) by (simp add: majority_def)
  obtain s1 p where s1: "among A s s1" "p \<in> A" "st s1 p = Leader" "\<forall>r \<in> A. cur s1 r \<le> cur s1 p"
    using majority_elects [OF assms] by blast
  have p: "p < N" using s1(2) A by auto
  have r1: "rf_reachable N enable s1" by (rule among_reachable [OF s1(1) assms(1)])
  obtain s2 where s2: "among {p} s1 s2" "st s2 p = Leader" "cur s2 p = cur s1 p"
      "lg s2 p = lg s1 p @ [\<lparr>lg_Term = cur s1 p, lg_Command = cmd\<rparr>]" "rf_newOp (rn_rf s2 p) \<noteq> 0"
      "\<forall>r < N. r \<noteq> p \<longrightarrow> (p, GoSendLog r (cur s1 p)) \<in> rn_tasks s2"
    using start_runs [OF r1 p s1(3)] by blast
  have r2: "rf_reachable N enable s2" by (rule among_reachable [OF s2(1) r1])
  obtain rs where rs: "set rs = A - {p}" "distinct rs"
    using finite_distinct_list [of "A - {p}"] majority_finite [OF assms(2)] by blast
  have "\<forall>r \<in> set rs. cur s2 r \<le> cur s2 p \<and> (p, GoSendLog r (cur s2 p)) \<in> rn_tasks s2"
    using among_others [OF s2(1)] s1(4) s2(3,6) rs(1) A by auto
  then obtain s3 where s3: "among (insert p (set rs)) s2 s3" "leads_on p s2 s3"
      "\<forall>r \<in> set rs. int (length (lg s2 p)) \<le> rf_matchIndex (rn_rf s3 p) ! r"
    using all_replicate [OF r2 p s2(2) rs(2)] rs(1) A by blast
  have r3: "rf_reachable N enable s3" by (rule among_reachable [OF s3(1) r2])
  have l3: "st s3 p = Leader" "lg s3 p = lg s2 p" "rf_newOp (rn_rf s3 p) \<noteq> 0"
    using s3(2) s2(5) by (simp_all add: leads_on_def)
  obtain s4 where s4: "among {p} s3 s4" "st s4 p = Leader" "lg s4 p = lg s2 p"
      "rf_commitIndex (rn_rf s4 p) = int (length (lg s2 p))"
    using commit_runs [OF r3 assms(2,3) s1(2) l3(1) _ l3(3)] s3(3) rs(1) l3(2) by auto
  obtain t where t: "among {p} s4 t" "st t p = Leader" "rn_applied t p = map (command_msg (lg s2 p)) [1..<length (lg s2 p)]"
    using apply_runs [OF among_reachable [OF s4(1) r3] p s4(4)] s4(2,3) by auto
  have "among A s s2" by (rule among_trans [OF s1(1) s2(1)]) (use s1(2) in simp)
  then have "among A s s3" by (rule among_trans [OF _ s3(1)]) (use s1(2) rs(1) in auto)
  then have "among A s s4" by (rule among_trans [OF _ s4(1)]) (use s1(2) in simp)
  then have run: "among A s t" by (rule among_trans [OF _ t(1)]) (use s1(2) in simp)
  have "lg s1 p \<noteq> []"
    using log_invD(1) [OF rn_invD(2) [OF reachable_inv [OF r1]]] reachable_size [OF r1] p by (simp add: log_ok_def)
  then have "1 \<le> length (lg s1 p)" by (simp add: Suc_le_eq)
  then have "rn_applied t p = map (command_msg (lg s2 p)) [1..<length (lg s1 p)] @ [command_msg (lg s2 p) (length (lg s1 p))]"
    using t(3) s2(4) by simp
  then show ?thesis
    using run s1(2) t(2) s2(4) unfolding among_def
    by (intro exI [of _ t] exI [of _ p]) (simp add: rf_GetState_def command_msg_def)
qed

theorem raft_progress_witness:
  "\<exists>t p. rf_step\<^sup>*\<^sup>* (rdemo_at rdemo_lead) t \<and> rn_rf t 0 = rn_rf (rdemo_at rdemo_lead) 0 \<and> p \<in> {1, 2} \<and>
     snd (rf_GetState (rn_rf t p)) \<and> am_Command (last (rn_applied t p)) = Some 9"
proof -
  have "majority 3 {1, 2}" by (auto simp: majority_def)
  from raft_progress [OF rdemo_reach(1) this, of "Some 9"] show ?thesis by fastforce
qed

end
