(* ===== verification/Session.thy ===== *)
theory Session
  imports Go_Prelude
begin

text \<open>
  The package session: the data that clients and lock servers exchange (common.go) and
  the client (client.go). A session identifier is an int32 whose lowest bit tells the two
  request streams of a session apart: the client's own calls and its keep-alive goroutine.

  A call and the wait that may follow it are one input of the request loop: what the call
  returned, and whether the session was closed if the loop waits after it. The wall clock
  is an argument.
\<close>

section \<open>Data (common.go)\<close>

datatype Err =
    NoErr | OK | WrongLeader | RepeatedRequest | LockNotExist | LockBusy | LockNotAcquired
  | LockReacquire | Terminated

record PathArgs =
  path_Path :: string
  path_Sessid :: int32
  path_Seq :: int

record ErrReply =
  er_Result :: Err
  er_Lease :: int

text \<open>The zero value of the type Err is none of its constants; NoErr stands for it.\<close>

definition zero_ErrReply :: ErrReply where
  "zero_ErrReply = \<lparr>er_Result = NoErr, er_Lease = 0\<rparr>"

datatype Opcode = Create | Remove | Acquire | Release | Extend | Revoke | UnknownCode int

record Op =
  op_Code :: Opcode
  op_Path :: string
  op_Sessid :: int32
  op_Seq :: int
  op_Lease :: int

definition DefaultLease :: int where "DefaultLease = 12"
definition GracePeriod :: int where "GracePeriod = DefaultLease div 2"

record File =
  file_Sessid :: int32
  file_Lease :: int

text \<open>Reading a map of type map[int32]int64: an absent key reads as zero.\<close>

definition seq_of :: "(int32 \<rightharpoonup> int) \<Rightarrow> int32 \<Rightarrow> int" where
  "seq_of sessions sessid = (case sessions sessid of None \<Rightarrow> 0 | Some n \<Rightarrow> n)"

lemma seq_of_upd [simp]:
  "seq_of (m(s \<mapsto> n)) = (seq_of m)(s := n)"
  by (auto simp: fun_eq_iff seq_of_def)

text \<open>A command of the replicated log: the interface value holds an Op or something else.\<close>

datatype command = OpCommand Op | OtherCommand

abbreviation err_result :: "Err \<Rightarrow> ErrReply" where
  "err_result e \<equiv> \<lparr>er_Result = e, er_Lease = 0\<rparr>"

text \<open>The operation a handler proposes for the arguments of a call.\<close>

definition mk_op :: "Opcode \<Rightarrow> PathArgs \<Rightarrow> int \<Rightarrow> Op" where
  "mk_op code args lease =
     \<lparr>op_Code = code, op_Path = path_Path args, op_Sessid = path_Sessid args,
      op_Seq = path_Seq args, op_Lease = lease\<rparr>"

section \<open>The client (client.go)\<close>

datatype Protocol = ProtoRaft | ProtoPaxos

record Session =
  se_servers :: nat
  se_sessid :: int32
  se_seq :: "int list"
  se_protocol :: string
  se_leader :: int32
  se_alive :: "string \<rightharpoonup> int"
  se_refresh :: int
  se_done :: bool

text \<open>Init takes the next even number as the identifier; assignedId starts at -2.\<close>

definition assignedId0 :: int32 where "assignedId0 = - 2"

definition sess_Init :: "nat \<Rightarrow> Protocol \<Rightarrow> int \<Rightarrow> int32 \<Rightarrow> Session \<times> int32" where
  "sess_Init servers ptl refresh assignedId =
     (let sessid = assignedId + 2
      in (\<lparr>se_servers = servers, se_sessid = sessid, se_seq = [0, 0],
           se_protocol = (if ptl = ProtoRaft then ''RaftServer.'' else ''PaxosServer.''),
           se_leader = 0, se_alive = Map.empty, se_refresh = refresh, se_done = False\<rparr>, sessid))"

text \<open>Closing the channel twice is a run-time panic.\<close>

definition sess_Close :: "Session \<Rightarrow> Session panics" where
  "sess_Close sess = (if se_done sess then None else Some (sess\<lparr>se_done := True\<rparr>))"

record call_event =
  ce_reply :: "ErrReply option"
  ce_closed :: bool

definition request_args :: "nat \<Rightarrow> string \<Rightarrow> Session \<Rightarrow> (Session \<times> PathArgs) panics" where
  "request_args rid path sess = do {
     n \<leftarrow> go_index (se_seq sess) (int rid);
     let sess1 = sess\<lparr>se_seq := (se_seq sess)[rid := n + 1]\<rparr>;
     Some (sess1, \<lparr>path_Path = path, path_Sessid = se_sessid sess + of_nat rid,
                   path_Seq = n + 1\<rparr>)
   }"

text \<open>The index of the server to call; the remainder of a negative number is negative.\<close>

definition request_server :: "Session \<Rightarrow> nat panics" where
  "request_server sess =
     (if se_servers sess = 0 then None
      else let i = go_rem (sint (se_leader sess)) (int (se_servers sess))
           in if 0 \<le> i then Some (nat i) else None)"

text \<open>
  The request loop. It returns the session, the calls it has made (server, remote function
  and arguments) and the reply, or no reply when the inputs are used up and it would still be waiting.
\<close>

fun request_loop ::
  "nat \<Rightarrow> string \<Rightarrow> string \<Rightarrow> PathArgs \<Rightarrow> int \<Rightarrow> call_event list \<Rightarrow> Session \<Rightarrow>
   (Session \<times> (nat \<times> string \<times> PathArgs) list \<times> ErrReply option) panics" where
  "request_loop rid path function args retry [] sess = Some (sess, [], None)"
| "request_loop rid path function args retry (ev # evs) sess = do {
     i \<leftarrow> request_server sess;
     let again = do {
       let sess1 = sess\<lparr>se_leader := se_leader sess + 1\<rparr>;
       if retry - 1 = 0 then
         if ce_closed ev
         then Some (sess1, [], Some \<lparr>er_Result = Terminated, er_Lease = 0\<rparr>)
         else request_loop rid path function args (int (se_servers sess)) evs sess1
       else request_loop rid path function args (retry - 1) evs sess1
     };
     (sess', calls, reply) \<leftarrow>
       (case ce_reply ev of
          None \<Rightarrow> again
        | Some reply \<Rightarrow>
            if er_Result reply = RepeatedRequest then do {
              (sess1, args1) \<leftarrow> request_args rid path sess;
              request_loop rid path function args1 (int (se_servers sess)) evs sess1
            }
            else if er_Result reply \<noteq> WrongLeader then Some (sess, [], Some reply)
            else again);
     Some (sess', (i, function, args) # calls, reply)
   }"

definition sess_Request ::
  "nat \<Rightarrow> string \<Rightarrow> string \<Rightarrow> call_event list \<Rightarrow> Session \<Rightarrow>
   (Session \<times> (nat \<times> string \<times> PathArgs) list \<times> ErrReply option) panics" where
  "sess_Request rid path function evs sess = do {
     (sess1, args) \<leftarrow> request_args rid path sess;
     request_loop rid path function args (int (se_servers sess)) evs sess1
   }"

definition sess_Create ::
  "string \<Rightarrow> call_event list \<Rightarrow> Session \<Rightarrow> (Session \<times> Err option) panics" where
  "sess_Create path evs sess = do {
     (sess1, calls, reply) \<leftarrow> sess_Request 0 path (se_protocol sess @ ''Create'') evs sess;
     Some (sess1, map_option er_Result reply)
   }"

definition sess_Remove ::
  "string \<Rightarrow> call_event list \<Rightarrow> Session \<Rightarrow> (Session \<times> Err option) panics" where
  "sess_Remove path evs sess = do {
     (sess1, calls, reply) \<leftarrow> sess_Request 0 path (se_protocol sess @ ''Remove'') evs sess;
     Some (sess1, map_option er_Result reply)
   }"

definition sess_Acquire ::
  "string \<Rightarrow> call_event list \<Rightarrow> Session \<Rightarrow> (Session \<times> Err option) panics" where
  "sess_Acquire path evs sess =
     (if se_alive sess path \<noteq> None then Some (sess, Some LockReacquire)
      else do {
        (sess1, calls, reply) \<leftarrow> sess_Request 0 path (se_protocol sess @ ''Acquire'') evs sess;
        case reply of
          None \<Rightarrow> Some (sess1, None)
        | Some r \<Rightarrow>
            Some (if er_Result r = OK
                  then sess1\<lparr>se_alive := (se_alive sess1)(path \<mapsto> er_Lease r)\<rparr> else sess1,
                  Some (er_Result r))
      })"

definition sess_Release ::
  "string \<Rightarrow> call_event list \<Rightarrow> Session \<Rightarrow> (Session \<times> Err option) panics" where
  "sess_Release path evs sess =
     (if se_alive sess path = None then Some (sess, Some LockNotAcquired)
      else do {
        (sess1, calls, reply) \<leftarrow>
          sess_Request 0 path (se_protocol sess @ ''Release'') evs (sess\<lparr>se_alive := (se_alive sess)(path := None)\<rparr>);
        Some (sess1, map_option er_Result reply)
      })"

text \<open>
  IsHolding looks at the lease, and sleeps and looks again while the lease has run out but
  the grace period has not. One input per look: the time, and the table at that time (the
  keep-alive goroutine may have changed it while IsHolding slept).
\<close>

fun sess_IsHolding ::
  "string \<Rightarrow> (int \<times> (string \<rightharpoonup> int)) list \<Rightarrow> ((string \<rightharpoonup> int) \<times> bool) option" where
  "sess_IsHolding path [] = None"
| "sess_IsHolding path ((now, alive) # looks) =
     (case alive path of
        None \<Rightarrow> Some (alive, False)
      | Some lease \<Rightarrow>
          if now \<le> lease then Some (alive, True)
          else if now > lease + GracePeriod then Some (alive(path := None), False)
          else sess_IsHolding path looks)"

text \<open>
  KeepAlive: the paths whose lease is about to run out, in the order in which the map is
  visited, and what the reply to an Extend does to the table. A RepeatedRequest never
  reaches the switch, since Request has already tried again.
\<close>

definition keepalive_extend :: "string list \<Rightarrow> int \<Rightarrow> Session \<Rightarrow> string list" where
  "keepalive_extend order now sess =
     filter (\<lambda>path. case se_alive sess path of None \<Rightarrow> False
                    | Some lease \<Rightarrow> now \<ge> lease - se_refresh sess) order"

definition keepalive_reply :: "string \<Rightarrow> ErrReply \<Rightarrow> Session \<Rightarrow> Session" where
  "keepalive_reply path reply sess =
     (if er_Result reply = OK then
        if se_alive sess path \<noteq> None
        then sess\<lparr>se_alive := (se_alive sess)(path \<mapsto> er_Lease reply)\<rparr> else sess
      else sess\<lparr>se_alive := (se_alive sess)(path := None)\<rparr>)"

fun keepalive_round ::
  "string list \<Rightarrow> call_event list list \<Rightarrow> Session \<Rightarrow> Session panics" where
  "keepalive_round [] evss sess = Some sess"
| "keepalive_round (path # paths) evss sess =
     (case evss of
        [] \<Rightarrow> Some sess
      | evs # evss' \<Rightarrow> do {
          (sess1, calls, reply) \<leftarrow> sess_Request 1 path (se_protocol sess @ ''Extend'') evs sess;
          case reply of
            None \<Rightarrow> Some sess1
          | Some r \<Rightarrow> keepalive_round paths evss' (keepalive_reply path r sess1)
        })"

text \<open>When the session is closed, every lock in the table is released in the second stream.\<close>

fun keepalive_close ::
  "string list \<Rightarrow> call_event list list \<Rightarrow> Session \<Rightarrow> Session panics" where
  "keepalive_close [] evss sess = Some sess"
| "keepalive_close (path # paths) evss sess =
     (case evss of
        [] \<Rightarrow> Some sess
      | evs # evss' \<Rightarrow> do {
          (sess1, calls, reply) \<leftarrow> sess_Request 1 path (se_protocol sess @ ''Release'') evs sess;
          keepalive_close paths evss' sess1
        })"

end
