(* ===== verification/Lock_Spec.thy ===== *)
theory Lock_Spec
  imports Session
begin

text \<open>
  What the lock service promises, independent of the consensus protocol below it: a table
  of locks, each free or held by one session until a time, and the highest request number
  each request stream has executed. Both servers refine this state machine; the locale
  states the refinement once and carries the consequences.
\<close>

section \<open>The abstract state machine\<close>

datatype lock = Free | Held int32 int

record lock_state =
  ls_locks :: "string \<rightharpoonup> lock"
  ls_seen :: "int32 \<Rightarrow> int"

text \<open>The two request streams of one session.\<close>

definition twin :: "int32 \<Rightarrow> int32" where
  "twin s = s XOR 1"

fun spec_lock :: "Op \<Rightarrow> lock option \<Rightarrow> lock option" where
  "spec_lock op None = (if op_Code op = Create then Some Free else None)"
| "spec_lock op (Some Free) =
     (case op_Code op of
        Remove \<Rightarrow> None
      | Acquire \<Rightarrow> Some (Held (op_Sessid op) (op_Lease op))
      | _ \<Rightarrow> Some Free)"
| "spec_lock op (Some (Held s l)) =
     (case op_Code op of
        Acquire \<Rightarrow> Some (Held s (if s = op_Sessid op then max l (op_Lease op) else l))
      | Release \<Rightarrow> if s = op_Sessid op \<or> s = twin (op_Sessid op) then Some Free else Some (Held s l)
      | Extend \<Rightarrow> Some (Held s (if s = twin (op_Sessid op) then op_Lease op else l))
      | Revoke \<Rightarrow> if s = op_Sessid op \<and> l = op_Lease op then Some Free else Some (Held s l)
      | _ \<Rightarrow> Some (Held s l))"

definition numbered :: "Op \<Rightarrow> bool" where
  "numbered op \<longleftrightarrow> op_Code op \<in> {Create, Remove, Acquire, Release, Extend}"

definition spec_apply :: "Op \<Rightarrow> lock_state \<Rightarrow> lock_state" where
  "spec_apply op st =
     (if numbered op then
        if op_Seq op \<le> ls_seen st (op_Sessid op) then st
        else st\<lparr>ls_locks := (ls_locks st)(op_Path op := spec_lock op (ls_locks st (op_Path op))),
                ls_seen := (ls_seen st)(op_Sessid op := op_Seq op)\<rparr>
      else if op_Code op = Revoke then
        st\<lparr>ls_locks := (ls_locks st)(op_Path op := spec_lock op (ls_locks st (op_Path op)))\<rparr>
      else st)"

definition spec_run :: "Op list \<Rightarrow> lock_state \<Rightarrow> lock_state" where
  "spec_run ops st = fold spec_apply ops st"

lemma spec_run_simps [simp]:
  "spec_run [] st = st"
  "spec_run (op # ops) st = spec_run ops (spec_apply op st)"
  "spec_run (ops @ ops') st = spec_run ops' (spec_run ops st)"
  by (simp_all add: spec_run_def)

section \<open>Executing at most once\<close>

lemma spec_stale: "numbered op \<Longrightarrow> op_Seq op \<le> ls_seen st (op_Sessid op) \<Longrightarrow> spec_apply op st = st"
  by (simp add: spec_apply_def)

lemma spec_seen_op: "numbered op \<Longrightarrow> op_Seq op \<le> ls_seen (spec_apply op st) (op_Sessid op)"
  by (simp add: spec_apply_def)

lemma spec_seen_mono: "ls_seen st s \<le> ls_seen (spec_apply op st) s"
  by (auto simp: spec_apply_def)

lemma spec_run_seen_mono: "ls_seen st s \<le> ls_seen (spec_run ops st) s"
  by (induction ops arbitrary: st) (auto intro: order_trans [OF spec_seen_mono])

lemma spec_once:
  assumes "numbered op" "numbered op'" "op_Sessid op' = op_Sessid op" "op_Seq op' \<le> op_Seq op"
  shows "spec_run (xs @ op # ys @ op' # zs) st = spec_run (xs @ op # ys @ zs) st"
proof -
  let ?st = "spec_run ys (spec_apply op (spec_run xs st))"
  have "op_Seq op \<le> ls_seen ?st (op_Sessid op)"
    using spec_seen_op [OF assms(1)] spec_run_seen_mono order_trans by blast
  then have "spec_apply op' ?st = ?st" using assms by (intro spec_stale) auto
  then show ?thesis by simp
qed

text \<open>A request number is reached by executing an operation of the stream with at least that number.\<close>

lemma run_seen_source:
  assumes "ls_seen st s < n" and "n \<le> ls_seen (spec_run ops st) s"
  shows "\<exists>xs op ys. ops = xs @ op # ys \<and> numbered op \<and> op_Sessid op = s \<and> n \<le> op_Seq op \<and>
    ls_seen (spec_run xs st) s < n"
  using assms
proof (induction ops arbitrary: st)
  case (Cons op ops)
  show ?case
  proof (cases "n \<le> ls_seen (spec_apply op st) s")
    case True
    then have "numbered op \<and> op_Sessid op = s \<and> n \<le> op_Seq op"
      using Cons.prems(1) by (auto simp: spec_apply_def split: if_splits)
    then show ?thesis using Cons.prems(1) by (intro exI [of _ "[]"]) simp
  next
    case False
    then obtain xs o' ys where "ops = xs @ o' # ys" "numbered o'" "op_Sessid o' = s" "n \<le> op_Seq o'"
        "ls_seen (spec_run xs (spec_apply op st)) s < n"
      using Cons.IH [of "spec_apply op st"] Cons.prems(2) by auto
    then show ?thesis by (intro exI [of _ "op # xs"] exI [of _ o'] exI [of _ ys]) simp
  qed
qed simp

section \<open>Who holds a lock\<close>

definition holds :: "lock_state \<Rightarrow> string \<Rightarrow> int32 \<Rightarrow> bool" where
  "holds st path s \<longleftrightarrow> (\<exists>l. ls_locks st path = Some (Held s l))"

text \<open>The operations that may take a lock away from the session s.\<close>

definition frees :: "Op \<Rightarrow> string \<Rightarrow> int32 \<Rightarrow> bool" where
  "frees op path s \<longleftrightarrow> op_Path op = path \<and>
     (op_Code op = Release \<and> (s = op_Sessid op \<or> s = twin (op_Sessid op)) \<or>
      op_Code op = Revoke \<and> s = op_Sessid op)"

definition takes :: "Op \<Rightarrow> string \<Rightarrow> int32 \<Rightarrow> bool" where
  "takes op path s \<longleftrightarrow> op_Path op = path \<and> op_Code op = Acquire \<and> op_Sessid op = s"

lemma holds_unique: "holds st path s \<Longrightarrow> holds st path s' \<Longrightarrow> s = s'"
  by (auto simp: holds_def)

lemma apply_keeps_holder:
  "holds st path s \<Longrightarrow> \<not> frees op path s \<Longrightarrow> holds (spec_apply op st) path s"
  by (auto simp: holds_def frees_def spec_apply_def numbered_def split: Opcode.splits)

lemma apply_new_holder:
  assumes "holds (spec_apply op st) path s" and "\<not> holds st path s"
  shows "takes op path s"
proof (cases "ls_locks st path")
  case None
  with assms show ?thesis by (auto simp: holds_def spec_apply_def split: if_splits)
next
  case (Some l)
  with assms show ?thesis
    by (cases l) (auto simp: holds_def takes_def spec_apply_def split: if_splits Opcode.splits)
qed

lemma run_keeps_holder:
  "holds st path s \<Longrightarrow> \<forall>op \<in> set ops. \<not> frees op path s \<Longrightarrow> holds (spec_run ops st) path s"
  by (induction ops arbitrary: st) (auto intro: apply_keeps_holder)

lemma run_new_holder:
  assumes "holds (spec_run ops st) path s" and "\<not> holds st path s"
  shows "\<exists>xs op ys. ops = xs @ op # ys \<and> takes op path s"
  using assms
proof (induction ops arbitrary: st)
  case (Cons op ops)
  show ?case
  proof (cases "holds (spec_apply op st) path s")
    case True
    then show ?thesis using apply_new_holder Cons.prems(2) by (metis append_Nil)
  next
    case False
    with Cons show ?thesis by (metis append_Cons spec_run_simps(2))
  qed
qed simp

text \<open>Between two tables a lock was freed by one session and then taken by another.\<close>

definition passed_on :: "Op list \<Rightarrow> string \<Rightarrow> int32 \<Rightarrow> int32 \<Rightarrow> bool" where
  "passed_on ops path s s' \<longleftrightarrow>
     (\<exists>xs f ys a zs. ops = xs @ f # ys @ a # zs \<and> frees f path s \<and> takes a path s')"

text \<open>A lock passes from one session to another only through a release or revocation.\<close>

lemma run_handover:
  assumes "holds st path s" and "holds (spec_run ops st) path s'" and "s \<noteq> s'"
  shows "passed_on ops path s s'"
proof -
  have "\<exists>op \<in> set ops. frees op path s"
    using run_keeps_holder [OF assms(1)] assms(2,3) holds_unique by blast
  from split_list_first_prop [OF this] obtain xs f zs where
    ops: "ops = xs @ f # zs" "frees f path s" "\<forall>op \<in> set xs. \<not> frees op path s" by blast
  have "holds (spec_run xs st) path s" using run_keeps_holder assms(1) ops(3) by blast
  then have "\<not> holds (spec_run xs st) path s'" using holds_unique assms(3) by metis
  moreover have "holds (spec_run (f # zs) (spec_run xs st)) path s'" using assms(2) ops(1) by simp
  moreover have "\<not> takes f path s'" using ops(2) by (auto simp: frees_def takes_def)
  ultimately have "\<not> holds (spec_apply f (spec_run xs st)) path s'" using apply_new_holder by blast
  moreover have "holds (spec_run zs (spec_apply f (spec_run xs st))) path s'"
    using assms(2) ops(1) by simp
  ultimately obtain ys a us where "zs = ys @ a # us" "takes a path s'"
    using run_new_holder by blast
  with ops show ?thesis unfolding passed_on_def by blast
qed

section \<open>Leases\<close>

definition held_until :: "lock_state \<Rightarrow> string \<Rightarrow> int32 \<Rightarrow> int \<Rightarrow> bool" where
  "held_until st path s l \<longleftrightarrow> (\<exists>l' \<ge> l. ls_locks st path = Some (Held s l'))"

text \<open>
  The operations that leave a lock of session s with a lease of at least l alone: no release
  by s, no revocation of such a lease, no extension that shortens it.
\<close>

definition keeps_lease :: "string \<Rightarrow> int32 \<Rightarrow> int \<Rightarrow> Op \<Rightarrow> bool" where
  "keeps_lease path s l op \<longleftrightarrow> op_Path op = path \<longrightarrow>
     (op_Code op = Release \<longrightarrow> s \<noteq> op_Sessid op \<and> s \<noteq> twin (op_Sessid op)) \<and>
     (op_Code op = Revoke \<longrightarrow> s = op_Sessid op \<longrightarrow> op_Lease op < l) \<and>
     (op_Code op = Extend \<longrightarrow> s = twin (op_Sessid op) \<longrightarrow> l \<le> op_Lease op)"

lemma apply_keeps_lease:
  "held_until st path s l \<Longrightarrow> keeps_lease path s l op \<Longrightarrow> held_until (spec_apply op st) path s l"
  by (auto simp: held_until_def keeps_lease_def spec_apply_def numbered_def split: Opcode.splits)

lemma run_keeps_lease:
  "held_until st path s l \<Longrightarrow> \<forall>op \<in> set ops. keeps_lease path s l op \<Longrightarrow>
   held_until (spec_run ops st) path s l"
  by (induction ops arbitrary: st) (auto intro: apply_keeps_lease)

section \<open>The contract of a server's state machine\<close>

text \<open>
  Identifiers that clients use: neither they nor their twins are -1, which marks a free
  file.
\<close>

definition op_ok :: "Op \<Rightarrow> bool" where
  "op_ok op \<longleftrightarrow> op_Sessid op \<noteq> - 1 \<and> twin (op_Sessid op) \<noteq> - 1"

text \<open>The lock that a file object represents.\<close>

definition file_lock :: "File \<Rightarrow> lock" where
  "file_lock fl =
     (if file_Sessid fl = - 1 then Free else Held (file_Sessid fl) (file_Lease fl))"

lemma file_lock_cases:
  "file_Sessid fl = - 1 \<Longrightarrow> file_lock fl = Free"
  "file_Sessid fl \<noteq> - 1 \<Longrightarrow> file_lock fl = Held (file_Sessid fl) (file_Lease fl)"
  by (simp_all add: file_lock_def)

locale lock_replica =
  fixes apply_op :: "Op \<Rightarrow> 's \<Rightarrow> 's"
    and inv :: "'s \<Rightarrow> bool"
    and table :: "'s \<Rightarrow> lock_state"
  assumes apply_inv: "inv s \<Longrightarrow> inv (apply_op op s)"
    and apply_table: "inv s \<Longrightarrow> op_ok op \<Longrightarrow> table (apply_op op s) = spec_apply op (table s)"
begin

lemma run_inv: "inv s \<Longrightarrow> inv (fold apply_op ops s)"
  by (induction ops arbitrary: s) (auto intro: apply_inv)

lemma run_table:
  "inv s \<Longrightarrow> \<forall>op \<in> set ops. op_ok op \<Longrightarrow> table (fold apply_op ops s) = spec_run ops (table s)"
proof (induction ops arbitrary: s)
  case (Cons op ops)
  then show ?case using Cons.IH [of "apply_op op s"] apply_inv apply_table by simp
qed simp

text \<open>Replicas that start alike and execute the same operations answer alike.\<close>

lemma replicas_agree:
  assumes "inv s" and "inv s'" and "table s = table s'" and "\<forall>op \<in> set ops. op_ok op"
  shows "table (fold apply_op ops s) = table (fold apply_op ops s')"
  using assms run_table by simp

lemma run_once:
  assumes "inv s" and "\<forall>o' \<in> set (xs @ op # ys @ op' # zs). op_ok o'"
    and "numbered op" "numbered op'" "op_Sessid op' = op_Sessid op" "op_Seq op' \<le> op_Seq op"
  shows "table (fold apply_op (xs @ op # ys @ op' # zs) s) = table (fold apply_op (xs @ op # ys @ zs) s)"
proof -
  have "table (fold apply_op (xs @ op # ys @ op' # zs) s) = spec_run (xs @ op # ys @ op' # zs) (table s)"
    using run_table [OF assms(1,2)] .
  moreover have "table (fold apply_op (xs @ op # ys @ zs) s) = spec_run (xs @ op # ys @ zs) (table s)"
    using assms(2) by (intro run_table [OF assms(1)]) auto
  ultimately show ?thesis using spec_once [OF assms(3-6)] by simp
qed

lemma handover:
  assumes "inv s" and "\<forall>op \<in> set ops. op_ok op" and "holds (table s) path p"
    and "holds (table (fold apply_op ops s)) path q" and "p \<noteq> q"
  shows "passed_on ops path p q"
  using run_handover [OF assms(3) _ assms(5)] assms(1,2,4) run_table by metis

end

end
