(* ===== verification/Raft_Server.thy ===== *)
theory Raft_Server
  imports Lock_Spec Raft_Election Raft_Log
begin

text \<open>
  The lock server on Raft: server.go, applier.go, ticker.go and raftservers.go of the
  package raftserver. A handler that waits for its operation to be applied gives up the
  server lock: the states in which it wakes up are an argument, and a handler that is
  still waiting after the last of them has no result. The condition variables of the wait
  map are represented by the set of its keys.
\<close>

section \<open>State\<close>

record RaftServer =
  rs_me :: nat
  rs_rf :: "command Raft"
  rs_files :: "string \<rightharpoonup> File"
  rs_sessions :: "int32 \<rightharpoonup> int"
  rs_wait :: "int32 set"
  rs_nowTerm :: int
  rs_done :: bool

definition rs_getWaitL :: "int32 \<Rightarrow> RaftServer \<Rightarrow> RaftServer" where
  "rs_getWaitL sessid srv = srv\<lparr>rs_wait := insert sessid (rs_wait srv)\<rparr>"

section \<open>The replicated state machine (applier.go)\<close>

definition rs_updSessL :: "int32 \<Rightarrow> int \<Rightarrow> RaftServer \<Rightarrow> RaftServer" where
  "rs_updSessL sessid seq srv =
     (if seq > seq_of (rs_sessions srv) sessid
      then rs_getWaitL sessid (srv\<lparr>rs_sessions := (rs_sessions srv)(sessid \<mapsto> seq)\<rparr>)
      else srv)"

definition rs_stale :: "Op \<Rightarrow> RaftServer \<Rightarrow> bool" where
  "rs_stale op srv \<longleftrightarrow> op_Seq op \<le> seq_of (rs_sessions srv) (op_Sessid op)"

definition rs_applyCreate :: "Op \<Rightarrow> RaftServer \<Rightarrow> RaftServer" where
  "rs_applyCreate op srv =
     (if rs_stale op srv then srv
      else rs_updSessL (op_Sessid op) (op_Seq op)
        (case rs_files srv (op_Path op) of
           None \<Rightarrow> srv\<lparr>rs_files := (rs_files srv)(op_Path op \<mapsto>
                     \<lparr>file_Sessid = - 1, file_Lease = 0\<rparr>)\<rparr>
         | Some file \<Rightarrow> srv))"

definition rs_applyRemove :: "Op \<Rightarrow> RaftServer \<Rightarrow> RaftServer" where
  "rs_applyRemove op srv =
     (if rs_stale op srv then srv
      else rs_updSessL (op_Sessid op) (op_Seq op)
        (case rs_files srv (op_Path op) of
           None \<Rightarrow> srv
         | Some file \<Rightarrow>
             if file_Sessid file = - 1
             then srv\<lparr>rs_files := (rs_files srv)(op_Path op := None)\<rparr> else srv))"

definition rs_applyAcquire :: "Op \<Rightarrow> RaftServer \<Rightarrow> RaftServer" where
  "rs_applyAcquire op srv =
     (if rs_stale op srv then srv
      else rs_updSessL (op_Sessid op) (op_Seq op)
        (case rs_files srv (op_Path op) of
           None \<Rightarrow> srv
         | Some file \<Rightarrow>
             if file_Sessid file = - 1
             then srv\<lparr>rs_files := (rs_files srv)(op_Path op \<mapsto>
                    file\<lparr>file_Sessid := op_Sessid op, file_Lease := op_Lease op\<rparr>)\<rparr>
             else if file_Sessid file = op_Sessid op \<and> file_Lease file < op_Lease op
             then srv\<lparr>rs_files := (rs_files srv)(op_Path op \<mapsto> file\<lparr>file_Lease := op_Lease op\<rparr>)\<rparr>
             else srv))"

definition rs_applyRelease :: "Op \<Rightarrow> RaftServer \<Rightarrow> RaftServer" where
  "rs_applyRelease op srv =
     (if rs_stale op srv then srv
      else rs_updSessL (op_Sessid op) (op_Seq op)
        (case rs_files srv (op_Path op) of
           None \<Rightarrow> srv
         | Some file \<Rightarrow>
             if file_Sessid file = op_Sessid op \<or> file_Sessid file = op_Sessid op XOR 1
             then srv\<lparr>rs_files := (rs_files srv)(op_Path op \<mapsto> file\<lparr>file_Sessid := - 1\<rparr>)\<rparr>
             else srv))"

definition rs_applyExtend :: "Op \<Rightarrow> RaftServer \<Rightarrow> RaftServer" where
  "rs_applyExtend op srv =
     (if rs_stale op srv then srv
      else rs_updSessL (op_Sessid op) (op_Seq op)
        (case rs_files srv (op_Path op) of
           None \<Rightarrow> srv
         | Some file \<Rightarrow>
             if file_Sessid file = op_Sessid op XOR 1
             then srv\<lparr>rs_files := (rs_files srv)(op_Path op \<mapsto> file\<lparr>file_Lease := op_Lease op\<rparr>)\<rparr>
             else srv))"

definition rs_applyRevoke :: "Op \<Rightarrow> RaftServer \<Rightarrow> RaftServer" where
  "rs_applyRevoke op srv =
     (case rs_files srv (op_Path op) of
        None \<Rightarrow> srv
      | Some file \<Rightarrow>
          if file_Sessid file = op_Sessid op \<and> file_Lease file = op_Lease op
          then srv\<lparr>rs_files := (rs_files srv)(op_Path op \<mapsto> file\<lparr>file_Sessid := - 1\<rparr>)\<rparr>
          else srv)"

definition rs_applyOp :: "Op \<Rightarrow> RaftServer \<Rightarrow> RaftServer" where
  "rs_applyOp op srv =
     (case op_Code op of
        Create \<Rightarrow> rs_applyCreate op srv
      | Remove \<Rightarrow> rs_applyRemove op srv
      | Acquire \<Rightarrow> rs_applyAcquire op srv
      | Release \<Rightarrow> rs_applyRelease op srv
      | Extend \<Rightarrow> rs_applyExtend op srv
      | Revoke \<Rightarrow> rs_applyRevoke op srv
      | UnknownCode c \<Rightarrow> srv)"

definition rs_applyMsg :: "command ApplyMsg \<Rightarrow> RaftServer \<Rightarrow> RaftServer" where
  "rs_applyMsg msg srv =
     (if am_CommandValid msg then
        (case am_Command msg of
           Some (OpCommand op) \<Rightarrow> rs_applyOp op srv
         | _ \<Rightarrow> srv)
      else srv)"

text \<open>The applier goroutine executes what arrives on its channel, in order.\<close>

definition rs_applier :: "command ApplyMsg list \<Rightarrow> RaftServer \<Rightarrow> RaftServer" where
  "rs_applier msgs srv = fold rs_applyMsg msgs srv"

section \<open>Terms and leases (ticker.go)\<close>

definition rs_checkTermL :: "int \<Rightarrow> RaftServer \<Rightarrow> RaftServer" where
  "rs_checkTermL term srv = (if term > rs_nowTerm srv then srv\<lparr>rs_nowTerm := term\<rparr> else srv)"

text \<open>The operations that are started, in the order in which the map is visited.\<close>

definition rs_checkLeaseL :: "string list \<Rightarrow> int \<Rightarrow> RaftServer \<Rightarrow> Op list" where
  "rs_checkLeaseL order now srv =
     List.map_filter (\<lambda>path. case rs_files srv path of
         None \<Rightarrow> None
       | Some file \<Rightarrow>
           if file_Sessid file = - 1 then None
           else if file_Lease file + GracePeriod < now
           then Some \<lparr>op_Code = Revoke, op_Path = path, op_Sessid = file_Sessid file, op_Seq = 0,
                      op_Lease = file_Lease file\<rparr>
           else None) order"

definition rs_tick :: "string list \<Rightarrow> int \<Rightarrow> RaftServer \<Rightarrow> RaftServer \<times> Op list" where
  "rs_tick order now srv =
     (let (term, isLeader) = rf_GetState (rs_rf srv);
          srv1 = rs_checkTermL term srv
      in (srv1, if isLeader then rs_checkLeaseL order now srv1 else []))"

section \<open>Handlers (server.go)\<close>

text \<open>
  The clock of a handler, now, counts milliseconds, as rf_Start stores them; leases are in
  whole seconds.

  The first part of operateL: the state in which the handler waits, and the term.
\<close>

definition rs_operate_begin ::
  "int \<Rightarrow> Op \<Rightarrow> RaftServer \<Rightarrow> RaftServer \<times> int option \<times> rf_task list" where
  "rs_operate_begin now op srv =
     (let (rf, index, term, isLeader, tasks) = rf_Start now (Some (OpCommand op)) (rs_rf srv);
          srv1 = srv\<lparr>rs_rf := rf\<rparr>
      in if \<not> isLeader then (srv1, None, tasks)
         else (rs_getWaitL (op_Sessid op) (rs_checkTermL term srv1), Some term, tasks))"

fun rs_operate_wait :: "int \<Rightarrow> Op \<Rightarrow> RaftServer list \<Rightarrow> (RaftServer \<times> bool) option" where
  "rs_operate_wait term op [] = None"
| "rs_operate_wait term op (srv # wakes) =
     (if term \<noteq> rs_nowTerm srv then Some (srv, False)
      else if rs_done srv then Some (srv, False)
      else if op_Seq op \<le> seq_of (rs_sessions srv) (op_Sessid op) then Some (srv, True)
      else rs_operate_wait term op wakes)"

text \<open>
  operateL and the handlers return the states in which they gave up the lock, with the
  goroutines started by then, and their result, if they have one by the last wake-up.
\<close>

type_synonym rs_left = "(RaftServer \<times> rf_task list) list"

definition rs_operateL ::
  "int \<Rightarrow> Op \<Rightarrow> RaftServer list \<Rightarrow> RaftServer \<Rightarrow> rs_left \<times> (RaftServer \<times> bool) option" where
  "rs_operateL now op wakes srv =
     (case rs_operate_begin now op srv of
        (srv1, None, tasks) \<Rightarrow> ([], Some (srv1, False))
      | (srv1, Some term, tasks) \<Rightarrow> ([(srv1, tasks)], rs_operate_wait term op wakes))"

definition rs_Create ::
  "int \<Rightarrow> PathArgs \<Rightarrow> RaftServer list \<Rightarrow> RaftServer \<Rightarrow> rs_left \<times> (RaftServer \<times> ErrReply) option" where
  "rs_Create now args wakes srv =
     (if path_Seq args \<le> seq_of (rs_sessions srv) (path_Sessid args)
      then ([], Some (srv, err_result RepeatedRequest))
      else
        let (lefts, r) = rs_operateL now (mk_op Create args 0) wakes srv
        in (lefts, map_option (\<lambda>(srv1, applied). (srv1,
             if applied then err_result OK else err_result WrongLeader)) r))"

definition rs_Remove ::
  "int \<Rightarrow> PathArgs \<Rightarrow> RaftServer list \<Rightarrow> RaftServer \<Rightarrow> rs_left \<times> (RaftServer \<times> ErrReply) option" where
  "rs_Remove now args wakes srv =
     (if path_Seq args \<le> seq_of (rs_sessions srv) (path_Sessid args)
      then ([], Some (srv, err_result RepeatedRequest))
      else
        let (lefts, r) = rs_operateL now (mk_op Remove args 0) wakes srv
        in (lefts, map_option (\<lambda>(srv1, applied). (srv1,
             if applied then
               (case rs_files srv1 (path_Path args) of
                  Some fl \<Rightarrow> err_result LockBusy
                | None \<Rightarrow> err_result OK)
             else err_result WrongLeader)) r))"

definition rs_Acquire ::
  "int \<Rightarrow> PathArgs \<Rightarrow> RaftServer list \<Rightarrow> RaftServer \<Rightarrow> rs_left \<times> (RaftServer \<times> ErrReply) option" where
  "rs_Acquire now args wakes srv =
     (if path_Seq args \<le> seq_of (rs_sessions srv) (path_Sessid args)
      then ([], Some (srv, err_result RepeatedRequest))
      else
        let (lefts, r) = rs_operateL now (mk_op Acquire args (now div 1000 + DefaultLease)) wakes srv
        in (lefts, map_option (\<lambda>(srv1, applied). (srv1,
             if applied then
               (case rs_files srv1 (path_Path args) of
                  None \<Rightarrow> err_result LockNotExist
                | Some fl \<Rightarrow>
                    if file_Sessid fl \<noteq> path_Sessid args then err_result LockBusy
                    else \<lparr>er_Result = OK, er_Lease = file_Lease fl\<rparr>)
             else err_result WrongLeader)) r))"

definition rs_Release ::
  "int \<Rightarrow> PathArgs \<Rightarrow> RaftServer list \<Rightarrow> RaftServer \<Rightarrow> rs_left \<times> (RaftServer \<times> ErrReply) option" where
  "rs_Release now args wakes srv =
     (if path_Seq args \<le> seq_of (rs_sessions srv) (path_Sessid args)
      then ([], Some (srv, err_result RepeatedRequest))
      else
        let (lefts, r) = rs_operateL now (mk_op Release args 0) wakes srv
        in (lefts, map_option (\<lambda>(srv1, applied). (srv1,
             if applied then err_result OK else err_result WrongLeader)) r))"

definition rs_Extend ::
  "int \<Rightarrow> PathArgs \<Rightarrow> RaftServer list \<Rightarrow> RaftServer \<Rightarrow> rs_left \<times> (RaftServer \<times> ErrReply) option" where
  "rs_Extend now args wakes srv =
     (if path_Seq args \<le> seq_of (rs_sessions srv) (path_Sessid args)
      then ([], Some (srv, err_result RepeatedRequest))
      else
        let (lefts, r) = rs_operateL now (mk_op Extend args (now div 1000 + DefaultLease)) wakes srv
        in (lefts, map_option (\<lambda>(srv1, applied). (srv1,
             if applied then
               (case rs_files srv1 (path_Path args) of
                  None \<Rightarrow> err_result LockNotExist
                | Some fl \<Rightarrow>
                    if file_Sessid fl \<noteq> path_Sessid args XOR 1 then err_result LockNotAcquired
                    else \<lparr>er_Result = OK, er_Lease = file_Lease fl\<rparr>)
             else err_result WrongLeader)) r))"

definition rs_StartServer :: "nat \<Rightarrow> nat \<Rightarrow> command RfPersister \<Rightarrow> RaftServer" where
  "rs_StartServer servers me persister =
     \<lparr>rs_me = me, rs_rf = rf_Make servers me persister, rs_files = Map.empty,
      rs_sessions = Map.empty, rs_wait = {}, rs_nowTerm = 0, rs_done = False\<rparr>"

text \<open>Closing a channel twice is a run-time panic.\<close>

definition rs_Kill :: "RaftServer \<Rightarrow> RaftServer panics" where
  "rs_Kill srv =
     (if rs_done srv then None else Some (srv\<lparr>rs_rf := rf_Kill (rs_rf srv), rs_done := True\<rparr>))"

section \<open>A group of servers (raftservers.go)\<close>

text \<open>
  An entry of saved is nil or a pointer. While a server that Start has made runs in its
  slot, it points to the persister that the Raft peer writes to, so that its contents are
  those of the peer's persister.
\<close>

record RaftServers =
  rss_servers :: "RaftServer option list"
  rss_saved :: "command RfPersister option list"

definition MakeRaftServers :: "nat \<Rightarrow> RaftServers" where
  "MakeRaftServers n = \<lparr>rss_servers = replicate n None, rss_saved = replicate n None\<rparr>"

definition rss_shared :: "RaftServer option \<Rightarrow> command RfPersister option \<Rightarrow> command RfPersister option" where
  "rss_shared server saved =
     (case saved of
        None \<Rightarrow> None
      | Some ps \<Rightarrow> Some (case server of Some srv \<Rightarrow> rf_persister (rs_rf srv) | None \<Rightarrow> ps))"

fun rss_Kill_loop :: "RaftServer option list \<Rightarrow> RaftServer option list panics" where
  "rss_Kill_loop [] = Some []"
| "rss_Kill_loop (server # servers) = do {
     server1 \<leftarrow> (case server of None \<Rightarrow> Some None
                 | Some srv \<Rightarrow> do { srv1 \<leftarrow> rs_Kill srv; Some (Some srv1) });
     servers1 \<leftarrow> rss_Kill_loop servers;
     Some (server1 # servers1)
   }"

definition rss_Kill :: "RaftServers \<Rightarrow> RaftServers panics" where
  "rss_Kill srvs = do {
     servers \<leftarrow> rss_Kill_loop (rss_servers srvs);
     Some (srvs\<lparr>rss_servers := servers\<rparr>)
   }"

definition rss_Shutdown :: "int \<Rightarrow> RaftServers \<Rightarrow> RaftServers panics" where
  "rss_Shutdown i srvs = do {
     server \<leftarrow> go_index (rss_servers srvs) i;
     server1 \<leftarrow> (case server of None \<Rightarrow> Some None
                 | Some srv \<Rightarrow> do {
                     srv1 \<leftarrow> rs_Kill (srv\<lparr>rs_rf := rf_Persist (rs_rf srv)\<rparr>);
                     Some (Some srv1)
                   });
     saved \<leftarrow> go_index (rss_saved srvs) i;
     saved1 \<leftarrow> go_store (rss_saved srvs) i (map_option rp_Copy (rss_shared server1 saved));
     servers1 \<leftarrow> go_store (rss_servers srvs) i None;
     Some (srvs\<lparr>rss_servers := servers1, rss_saved := saved1\<rparr>)
   }"

text \<open>The persister that Start hands to the new server; to copy a nil entry of saved panics.\<close>

definition rss_start_persister ::
  "RaftServer option \<Rightarrow> command RfPersister option \<Rightarrow> bool \<Rightarrow> command RfPersister panics" where
  "rss_start_persister server saved durable =
     (case server of
        Some srv \<Rightarrow> map_option rp_Copy (rss_shared server saved)
      | None \<Rightarrow> Some (case saved of None \<Rightarrow> rp_MakePersister durable | Some ps \<Rightarrow> ps))"

definition rss_Start :: "nat \<Rightarrow> int \<Rightarrow> bool \<Rightarrow> RaftServers \<Rightarrow> RaftServers panics" where
  "rss_Start ends i durable srvs = do {
     server \<leftarrow> go_index (rss_servers srvs) i;
     saved \<leftarrow> go_index (rss_saved srvs) i;
     ps \<leftarrow> rss_start_persister server saved durable;
     saved1 \<leftarrow> go_store (rss_saved srvs) i (Some ps);
     servers1 \<leftarrow> go_store (rss_servers srvs) i (Some (rs_StartServer ends (nat i) ps));
     Some (srvs\<lparr>rss_servers := servers1, rss_saved := saved1\<rparr>)
   }"

fun rss_Leader_loop :: "int \<Rightarrow> RaftServer option list \<Rightarrow> int" where
  "rss_Leader_loop i [] = - 1"
| "rss_Leader_loop i (server # servers) =
     (case server of
        None \<Rightarrow> rss_Leader_loop (i + 1) servers
      | Some srv \<Rightarrow>
          if snd (rf_GetState (rs_rf srv)) then i else rss_Leader_loop (i + 1) servers)"

definition rss_Leader :: "RaftServers \<Rightarrow> int" where
  "rss_Leader srvs = rss_Leader_loop 0 (rss_servers srvs)"

section \<open>Refinement of the lock service\<close>

definition rs_table :: "RaftServer \<Rightarrow> lock_state" where
  "rs_table srv = \<lparr>ls_locks = (\<lambda>path. map_option file_lock (rs_files srv path)),
     ls_seen = seq_of (rs_sessions srv)\<rparr>"

lemmas rs_apply_defs = rs_applyCreate_def rs_applyRemove_def rs_applyAcquire_def
  rs_applyRelease_def rs_applyExtend_def rs_applyRevoke_def

lemma rs_updSessL_simps [simp]:
  "rs_files (rs_updSessL sessid seq srv) = rs_files srv"
  "rs_rf (rs_updSessL sessid seq srv) = rs_rf srv"
  "rs_nowTerm (rs_updSessL sessid seq srv) = rs_nowTerm srv"
  "rs_done (rs_updSessL sessid seq srv) = rs_done srv"
  "seq_of (rs_sessions (rs_updSessL sessid seq srv)) =
     (seq_of (rs_sessions srv))(sessid := max seq (seq_of (rs_sessions srv) sessid))"
  by (auto simp: rs_updSessL_def rs_getWaitL_def fun_eq_iff)

lemma rs_table_upd:
  "rs_table (srv\<lparr>rs_files := (rs_files srv)(path := f)\<rparr>) =
     (rs_table srv)\<lparr>ls_locks := (ls_locks (rs_table srv))(path := map_option file_lock f)\<rparr>"
  by (auto simp: rs_table_def fun_eq_iff)

lemma rs_table_updSess:
  "seq_of (rs_sessions srv) sessid < seq \<Longrightarrow>
   rs_table (rs_updSessL sessid seq srv) =
     (rs_table srv)\<lparr>ls_seen := (ls_seen (rs_table srv))(sessid := seq)\<rparr>"
  by (simp add: rs_table_def)

lemma rs_applyOp_table:
  assumes "op_ok op"
  shows "rs_table (rs_applyOp op srv) = spec_apply op (rs_table srv)"
proof -
  have ids: "op_Sessid op \<noteq> - 1" "op_Sessid op XOR 1 \<noteq> - 1"
    using assms by (simp_all add: op_ok_def twin_def)
  show ?thesis
  proof (cases "rs_files srv (op_Path op)")
    case None
    then show ?thesis
      by (cases "op_Code op")
        (auto simp: rs_applyOp_def rs_apply_defs rs_stale_def spec_apply_def numbered_def
          rs_table_def file_lock_def fun_eq_iff)
  next
    case (Some fl)
    with ids show ?thesis
      by (cases "op_Code op"; cases "file_Sessid fl = - 1")
        (auto simp: rs_applyOp_def rs_apply_defs rs_stale_def spec_apply_def numbered_def
          rs_table_def file_lock_cases twin_def fun_eq_iff max_def)
  qed
qed

interpretation raft_lock: lock_replica rs_applyOp "\<lambda>_. True" rs_table
  by unfold_locales (simp_all add: rs_applyOp_table)

end
