(* ===== verification/Paxos_Server.thy ===== *)
theory Paxos_Server
  imports Lock_Spec Paxos_Node
begin

text \<open>
  The lock server on Paxos: server.go, applier.go, ticker.go and paxosservers.go of the
  package paxosserver. Its revoke goroutine compares pointers to file objects, so the file
  table maps paths to pointers into an explicit store. A loop that gives up the lock and
  sleeps takes one input per round: whether the server was found closed, and the state in
  which it took the lock again.
\<close>

section \<open>State\<close>

record PaxosServer =
  pv_me :: nat
  pv_px :: "command Paxos"
  pv_files :: "string \<rightharpoonup> nat"
  pv_fheap :: "nat \<Rightarrow> File"
  pv_fnext :: nat
  pv_applied :: int
  pv_sessions :: "int32 \<rightharpoonup> int"
  pv_done :: bool

definition pv_put :: "nat \<Rightarrow> File \<Rightarrow> PaxosServer \<Rightarrow> PaxosServer" where
  "pv_put r fl srv = srv\<lparr>pv_fheap := (pv_fheap srv)(r := fl)\<rparr>"

section \<open>The replicated state machine (applier.go)\<close>

definition pv_updSessL :: "int32 \<Rightarrow> int \<Rightarrow> PaxosServer \<Rightarrow> PaxosServer" where
  "pv_updSessL sessid seq srv =
     (if seq > seq_of (pv_sessions srv) sessid
      then srv\<lparr>pv_sessions := (pv_sessions srv)(sessid \<mapsto> seq)\<rparr> else srv)"

definition pv_stale :: "Op \<Rightarrow> PaxosServer \<Rightarrow> bool" where
  "pv_stale op srv \<longleftrightarrow> op_Seq op \<le> seq_of (pv_sessions srv) (op_Sessid op)"

definition pv_applyCreateL :: "Op \<Rightarrow> PaxosServer \<Rightarrow> PaxosServer" where
  "pv_applyCreateL op srv =
     (if pv_stale op srv then srv
      else pv_updSessL (op_Sessid op) (op_Seq op)
        (case pv_files srv (op_Path op) of
           None \<Rightarrow>
             let r = pv_fnext srv
             in (pv_put r \<lparr>file_Sessid = - 1, file_Lease = 0\<rparr> srv)
                  \<lparr>pv_fnext := r + 1, pv_files := (pv_files srv)(op_Path op \<mapsto> r)\<rparr>
         | Some r \<Rightarrow> srv))"

definition pv_applyRemoveL :: "Op \<Rightarrow> PaxosServer \<Rightarrow> PaxosServer" where
  "pv_applyRemoveL op srv =
     (if pv_stale op srv then srv
      else pv_updSessL (op_Sessid op) (op_Seq op)
        (case pv_files srv (op_Path op) of
           None \<Rightarrow> srv
         | Some r \<Rightarrow>
             if file_Sessid (pv_fheap srv r) = - 1
             then srv\<lparr>pv_files := (pv_files srv)(op_Path op := None)\<rparr> else srv))"

definition pv_applyAcquireL :: "Op \<Rightarrow> PaxosServer \<Rightarrow> PaxosServer" where
  "pv_applyAcquireL op srv =
     (if pv_stale op srv then srv
      else pv_updSessL (op_Sessid op) (op_Seq op)
        (case pv_files srv (op_Path op) of
           None \<Rightarrow> srv
         | Some r \<Rightarrow>
             let fl = pv_fheap srv r
             in if file_Sessid fl = - 1
                then pv_put r (fl\<lparr>file_Sessid := op_Sessid op, file_Lease := op_Lease op\<rparr>) srv
                else if file_Sessid fl = op_Sessid op \<and> file_Lease fl < op_Lease op
                then pv_put r (fl\<lparr>file_Lease := op_Lease op\<rparr>) srv
                else srv))"

definition pv_applyReleaseL :: "Op \<Rightarrow> PaxosServer \<Rightarrow> PaxosServer" where
  "pv_applyReleaseL op srv =
     (if pv_stale op srv then srv
      else pv_updSessL (op_Sessid op) (op_Seq op)
        (case pv_files srv (op_Path op) of
           None \<Rightarrow> srv
         | Some r \<Rightarrow>
             let fl = pv_fheap srv r
             in if file_Sessid fl = op_Sessid op \<or> file_Sessid fl = op_Sessid op XOR 1
                then pv_put r (fl\<lparr>file_Sessid := - 1\<rparr>) srv else srv))"

definition pv_applyExtendL :: "Op \<Rightarrow> PaxosServer \<Rightarrow> PaxosServer" where
  "pv_applyExtendL op srv =
     (if pv_stale op srv then srv
      else pv_updSessL (op_Sessid op) (op_Seq op)
        (case pv_files srv (op_Path op) of
           None \<Rightarrow> srv
         | Some r \<Rightarrow>
             let fl = pv_fheap srv r
             in if file_Sessid fl = op_Sessid op XOR 1
                then pv_put r (fl\<lparr>file_Lease := op_Lease op\<rparr>) srv else srv))"

definition pv_applyRevokeL :: "Op \<Rightarrow> PaxosServer \<Rightarrow> PaxosServer" where
  "pv_applyRevokeL op srv =
     (case pv_files srv (op_Path op) of
        None \<Rightarrow> srv
      | Some r \<Rightarrow>
          let fl = pv_fheap srv r
          in if file_Sessid fl = op_Sessid op \<and> file_Lease fl = op_Lease op
             then pv_put r (fl\<lparr>file_Sessid := - 1\<rparr>) srv else srv)"

definition pv_applyOp :: "Op \<Rightarrow> PaxosServer \<Rightarrow> PaxosServer" where
  "pv_applyOp op srv =
     (case op_Code op of
        Create \<Rightarrow> pv_applyCreateL op srv
      | Remove \<Rightarrow> pv_applyRemoveL op srv
      | Acquire \<Rightarrow> pv_applyAcquireL op srv
      | Release \<Rightarrow> pv_applyReleaseL op srv
      | Extend \<Rightarrow> pv_applyExtendL op srv
      | Revoke \<Rightarrow> pv_applyRevokeL op srv
      | UnknownCode c \<Rightarrow> srv)"

text \<open>One round of the applier: the flag says whether an instance was applied or it sleeps.\<close>

definition pv_apply_round :: "PaxosServer \<Rightarrow> (PaxosServer \<times> bool) panics" where
  "pv_apply_round srv = do {
     (status, msg) \<leftarrow> px_Status (pv_applied srv) (pv_px srv);
     if status = Decided then
       let srv1 = (case msg of
                     None \<Rightarrow> srv
                   | Some (OpCommand op) \<Rightarrow> pv_applyOp op srv
                   | Some OtherCommand \<Rightarrow> srv)
       in Some (srv1\<lparr>pv_applied := pv_applied srv1 + 1\<rparr>, True)
     else Some (srv, False)
   }"

section \<open>Waiting (server.go)\<close>

definition MinWaitMs :: int where "MinWaitMs = 10"
definition MaxWaitMs :: int where "MaxWaitMs = 100"
definition waitStep :: int where "waitStep = 10"

definition pv_backoff :: "int \<times> int \<Rightarrow> int \<times> int" where
  "pv_backoff = (\<lambda>(ms, step).
     if ms < MaxWaitMs then
       if step > 0 then (ms, step - 1) else (ms * 2, waitStep)
     else (ms, step))"

record wake =
  wk_closed :: bool
  wk_srv :: PaxosServer

text \<open>
  A proposal: when everything up to the last proposal has been applied, the operation is
  proposed again in the first free instance.
\<close>

definition pv_propose ::
  "Op \<Rightarrow> int \<Rightarrow> PaxosServer \<Rightarrow> (PaxosServer \<times> int \<times> command task list) panics" where
  "pv_propose op pxseq srv =
     (if pv_applied srv > pxseq then do {
        let pxseq1 = px_Max (pv_px srv) + 1;
        (px, tasks) \<leftarrow> px_Start pxseq1 (Some (OpCommand op)) (pv_px srv);
        Some (srv\<lparr>pv_px := px\<rparr>, pxseq1, tasks)
      } else Some (srv, pxseq, []))"

text \<open>
  operateL and the handlers return the states in which they gave up the lock, with the
  goroutines started by then, and their result, if they have one by the last wake-up.
\<close>

type_synonym pv_left = "(PaxosServer \<times> command task list) list"

fun pv_operate_loop ::
  "Op \<Rightarrow> int \<times> int \<Rightarrow> int \<Rightarrow> wake list \<Rightarrow> PaxosServer \<Rightarrow> (pv_left \<times> PaxosServer option) panics"
where
  "pv_operate_loop op wait pxseq [] srv = do {
     (srv1, pxseq1, tasks) \<leftarrow> pv_propose op pxseq srv;
     Some ([(srv1, tasks)], None)
   }"
| "pv_operate_loop op wait pxseq (w # ws) srv = do {
     (srv1, pxseq1, tasks) \<leftarrow> pv_propose op pxseq srv;
     (lefts, r) \<leftarrow>
       (if wk_closed w then Some ([], Some (wk_srv w))
        else if op_Seq op \<le> seq_of (pv_sessions (wk_srv w)) (op_Sessid op)
        then Some ([], Some (wk_srv w))
        else pv_operate_loop op (pv_backoff wait) pxseq1 ws (wk_srv w));
     Some ((srv1, tasks) # lefts, r)
   }"

definition pv_operateL ::
  "Op \<Rightarrow> wake list \<Rightarrow> PaxosServer \<Rightarrow> (pv_left \<times> PaxosServer option) panics" where
  "pv_operateL op ws srv = pv_operate_loop op (MinWaitMs, waitStep) (-1) ws srv"

section \<open>Handlers (server.go)\<close>

definition pv_Create ::
  "PathArgs \<Rightarrow> wake list \<Rightarrow> PaxosServer \<Rightarrow> (pv_left \<times> (PaxosServer \<times> ErrReply) option) panics" where
  "pv_Create args ws srv =
     (if path_Seq args \<le> seq_of (pv_sessions srv) (path_Sessid args)
      then Some ([], Some (srv, err_result RepeatedRequest))
      else do {
        (lefts, r) \<leftarrow> pv_operateL (mk_op Create args 0) ws srv;
        Some (lefts, map_option (\<lambda>srv1. (srv1,
          err_result OK)) r)
      })"

definition pv_Remove ::
  "PathArgs \<Rightarrow> wake list \<Rightarrow> PaxosServer \<Rightarrow> (pv_left \<times> (PaxosServer \<times> ErrReply) option) panics" where
  "pv_Remove args ws srv =
     (if path_Seq args \<le> seq_of (pv_sessions srv) (path_Sessid args)
      then Some ([], Some (srv, err_result RepeatedRequest))
      else do {
        (lefts, r) \<leftarrow> pv_operateL (mk_op Remove args 0) ws srv;
        Some (lefts, map_option (\<lambda>srv1. (srv1,
          case pv_files srv1 (path_Path args) of
            Some f \<Rightarrow> err_result LockBusy
          | None \<Rightarrow> err_result OK)) r)
      })"

definition pv_Acquire ::
  "int \<Rightarrow> PathArgs \<Rightarrow> wake list \<Rightarrow> PaxosServer \<Rightarrow> (pv_left \<times> (PaxosServer \<times> ErrReply) option) panics" where
  "pv_Acquire now args ws srv =
     (if path_Seq args \<le> seq_of (pv_sessions srv) (path_Sessid args)
      then Some ([], Some (srv, err_result RepeatedRequest))
      else do {
        (lefts, r) \<leftarrow> pv_operateL (mk_op Acquire args (now + DefaultLease)) ws srv;
        Some (lefts, map_option (\<lambda>srv1. (srv1,
          case pv_files srv1 (path_Path args) of
            None \<Rightarrow> err_result LockNotExist
          | Some f \<Rightarrow>
              if file_Sessid (pv_fheap srv1 f) \<noteq> path_Sessid args then err_result LockBusy
              else \<lparr>er_Result = OK, er_Lease = file_Lease (pv_fheap srv1 f)\<rparr>)) r)
      })"

definition pv_Release ::
  "PathArgs \<Rightarrow> wake list \<Rightarrow> PaxosServer \<Rightarrow> (pv_left \<times> (PaxosServer \<times> ErrReply) option) panics" where
  "pv_Release args ws srv =
     (if path_Seq args \<le> seq_of (pv_sessions srv) (path_Sessid args)
      then Some ([], Some (srv, err_result RepeatedRequest))
      else do {
        (lefts, r) \<leftarrow> pv_operateL (mk_op Release args 0) ws srv;
        Some (lefts, map_option (\<lambda>srv1. (srv1,
          err_result OK)) r)
      })"

definition pv_Extend ::
  "int \<Rightarrow> PathArgs \<Rightarrow> wake list \<Rightarrow> PaxosServer \<Rightarrow> (pv_left \<times> (PaxosServer \<times> ErrReply) option) panics" where
  "pv_Extend now args ws srv =
     (if path_Seq args \<le> seq_of (pv_sessions srv) (path_Sessid args)
      then Some ([], Some (srv, err_result RepeatedRequest))
      else do {
        (lefts, r) \<leftarrow> pv_operateL (mk_op Extend args (now + DefaultLease)) ws srv;
        Some (lefts, map_option (\<lambda>srv1. (srv1,
          case pv_files srv1 (path_Path args) of
            None \<Rightarrow> err_result LockNotExist
          | Some f \<Rightarrow>
              if file_Sessid (pv_fheap srv1 f) \<noteq> path_Sessid args XOR 1 then err_result LockNotAcquired
              else \<lparr>er_Result = OK, er_Lease = file_Lease (pv_fheap srv1 f)\<rparr>)) r)
      })"

definition pv_Kill :: "PaxosServer \<Rightarrow> PaxosServer panics" where
  "pv_Kill srv =
     (if pv_done srv then None else Some (srv\<lparr>pv_px := px_Kill (pv_px srv), pv_done := True\<rparr>))"

definition pv_StartServer ::
  "nat \<Rightarrow> nat \<Rightarrow> command PxPersister \<Rightarrow> (PaxosServer \<times> command task list) panics" where
  "pv_StartServer servers me persister = do {
     (px, tasks) \<leftarrow> px_Make servers me persister;
     Some (\<lparr>pv_me = me, pv_px = px, pv_files = Map.empty,
            pv_fheap = (\<lambda>_. \<lparr>file_Sessid = 0, file_Lease = 0\<rparr>), pv_fnext = 0, pv_applied = 0,
            pv_sessions = Map.empty, pv_done = False\<rparr>, tasks)
   }"

section \<open>Leases (ticker.go)\<close>

text \<open>The revoke goroutines that are started, in the order in which the map is visited.\<close>

definition pv_checkLease :: "string list \<Rightarrow> int \<Rightarrow> PaxosServer \<Rightarrow> (nat \<times> Op) list" where
  "pv_checkLease order now srv =
     List.map_filter (\<lambda>path. case pv_files srv path of
         None \<Rightarrow> None
       | Some r \<Rightarrow>
           let fl = pv_fheap srv r
           in if file_Sessid fl = - 1 then None
              else if file_Lease fl + GracePeriod < now
              then Some (r, \<lparr>op_Code = Revoke, op_Path = path, op_Sessid = file_Sessid fl,
                             op_Seq = 0, op_Lease = file_Lease fl\<rparr>)
              else None) order"

definition revoke_pending :: "nat \<Rightarrow> Op \<Rightarrow> PaxosServer \<Rightarrow> bool" where
  "revoke_pending f op srv \<longleftrightarrow> pv_files srv (op_Path op) = Some f \<and>
     file_Sessid (pv_fheap srv f) = op_Sessid op \<and> file_Lease (pv_fheap srv f) = op_Lease op"

text \<open>
  The revoke goroutine: the first proposal is unconditional, later ones follow as long as
  the same file object is still held under the same lease. True when it has returned.
\<close>

fun pv_revoke_loop ::
  "nat \<Rightarrow> Op \<Rightarrow> int \<times> int \<Rightarrow> int \<Rightarrow> wake list \<Rightarrow> (pv_left \<times> bool) panics" where
  "pv_revoke_loop f op wait pxseq [] = Some ([], False)"
| "pv_revoke_loop f op wait pxseq (w # ws) =
     (if wk_closed w then Some ([], True)
      else if revoke_pending f op (wk_srv w) then do {
        (srv1, pxseq1, tasks) \<leftarrow> pv_propose op pxseq (wk_srv w);
        (lefts, r) \<leftarrow> pv_revoke_loop f op (pv_backoff wait) pxseq1 ws;
        Some ((srv1, tasks) # lefts, r)
      } else Some ([(wk_srv w, [])], True))"

definition pv_revoke ::
  "nat \<Rightarrow> Op \<Rightarrow> wake list \<Rightarrow> PaxosServer \<Rightarrow> (pv_left \<times> bool) panics" where
  "pv_revoke f op ws srv = do {
     let pxseq = px_Max (pv_px srv) + 1;
     (px, tasks) \<leftarrow> px_Start pxseq (Some (OpCommand op)) (pv_px srv);
     (lefts, r) \<leftarrow> pv_revoke_loop f op (MinWaitMs, waitStep) pxseq ws;
     Some ((srv\<lparr>pv_px := px\<rparr>, tasks) # lefts, r)
   }"

section \<open>A group of servers (paxosservers.go)\<close>

text \<open>As for Raft, a running server and its entry of saved share the persister object.\<close>

record PaxosServers =
  pss_leader :: int
  pss_servers :: "PaxosServer option list"
  pss_saved :: "command PxPersister option list"

definition MakePaxosServers :: "nat \<Rightarrow> PaxosServers" where
  "MakePaxosServers n =
     \<lparr>pss_leader = 0, pss_servers = replicate n None, pss_saved = replicate n None\<rparr>"

definition pss_shared ::
  "PaxosServer option \<Rightarrow> command PxPersister option \<Rightarrow> command PxPersister option" where
  "pss_shared server saved =
     (case saved of
        None \<Rightarrow> None
      | Some ps \<Rightarrow> Some (case server of Some srv \<Rightarrow> px_persister (pv_px srv) | None \<Rightarrow> ps))"

fun pss_Kill_loop :: "PaxosServer option list \<Rightarrow> PaxosServer option list panics" where
  "pss_Kill_loop [] = Some []"
| "pss_Kill_loop (server # servers) = do {
     server1 \<leftarrow> (case server of None \<Rightarrow> Some None
                 | Some srv \<Rightarrow> do { srv1 \<leftarrow> pv_Kill srv; Some (Some srv1) });
     servers1 \<leftarrow> pss_Kill_loop servers;
     Some (server1 # servers1)
   }"

definition pss_Kill :: "PaxosServers \<Rightarrow> PaxosServers panics" where
  "pss_Kill srvs = do {
     servers \<leftarrow> pss_Kill_loop (pss_servers srvs);
     Some (srvs\<lparr>pss_servers := servers\<rparr>)
   }"

definition pss_Shutdown :: "int \<Rightarrow> PaxosServers \<Rightarrow> PaxosServers panics" where
  "pss_Shutdown i srvs = do {
     server \<leftarrow> go_index (pss_servers srvs) i;
     server1 \<leftarrow> (case server of None \<Rightarrow> Some None
                 | Some srv \<Rightarrow> do {
                     srv1 \<leftarrow> pv_Kill (srv\<lparr>pv_px := px_Persist (pv_px srv)\<rparr>);
                     Some (Some srv1)
                   });
     servers1 \<leftarrow> go_store (pss_servers srvs) i None;
     saved \<leftarrow> go_index (pss_saved srvs) i;
     saved1 \<leftarrow> go_store (pss_saved srvs) i (map_option ps_Copy (pss_shared server1 saved));
     let leader1 = (if pss_leader srvs = i then
                      if pss_leader srvs + 1 \<ge> int (length servers1) then 0 else pss_leader srvs + 1
                    else pss_leader srvs);
     Some \<lparr>pss_leader = leader1, pss_servers = servers1, pss_saved = saved1\<rparr>
   }"

definition pss_start_persister ::
  "PaxosServer option \<Rightarrow> command PxPersister option \<Rightarrow> bool \<Rightarrow> command PxPersister panics" where
  "pss_start_persister server saved durable =
     (case server of
        Some srv \<Rightarrow> map_option ps_Copy (pss_shared server saved)
      | None \<Rightarrow> Some (case saved of None \<Rightarrow> px_MakePersister durable | Some ps \<Rightarrow> ps))"

definition pss_Start ::
  "nat \<Rightarrow> int \<Rightarrow> bool \<Rightarrow> PaxosServers \<Rightarrow> (PaxosServers \<times> command task list) panics" where
  "pss_Start ends i durable srvs = do {
     server \<leftarrow> go_index (pss_servers srvs) i;
     saved \<leftarrow> go_index (pss_saved srvs) i;
     ps \<leftarrow> pss_start_persister server saved durable;
     saved1 \<leftarrow> go_store (pss_saved srvs) i (Some ps);
     (srv, tasks) \<leftarrow> pv_StartServer ends (nat i) ps;
     servers1 \<leftarrow> go_store (pss_servers srvs) i (Some srv);
     Some (srvs\<lparr>pss_servers := servers1, pss_saved := saved1\<rparr>, tasks)
   }"

definition pss_Leader :: "PaxosServers \<Rightarrow> int" where
  "pss_Leader srvs = pss_leader srvs"

section \<open>Refinement of the lock service\<close>

text \<open>Every path has a file object of its own, and new objects are fresh.\<close>

definition pv_inv :: "PaxosServer \<Rightarrow> bool" where
  "pv_inv srv \<longleftrightarrow> inj_on (pv_files srv) (dom (pv_files srv)) \<and>
     (\<forall>path r. pv_files srv path = Some r \<longrightarrow> r < pv_fnext srv)"

definition pv_table :: "PaxosServer \<Rightarrow> lock_state" where
  "pv_table srv =
     \<lparr>ls_locks = (\<lambda>path. map_option (\<lambda>r. file_lock (pv_fheap srv r)) (pv_files srv path)),
      ls_seen = seq_of (pv_sessions srv)\<rparr>"

lemmas pv_apply_defs = pv_applyCreateL_def pv_applyRemoveL_def pv_applyAcquireL_def
  pv_applyReleaseL_def pv_applyExtendL_def pv_applyRevokeL_def

lemma pv_updSessL_simps [simp]:
  "pv_files (pv_updSessL sessid seq srv) = pv_files srv"
  "pv_fheap (pv_updSessL sessid seq srv) = pv_fheap srv"
  "pv_fnext (pv_updSessL sessid seq srv) = pv_fnext srv"
  "pv_px (pv_updSessL sessid seq srv) = pv_px srv"
  "pv_applied (pv_updSessL sessid seq srv) = pv_applied srv"
  "pv_done (pv_updSessL sessid seq srv) = pv_done srv"
  "seq_of (pv_sessions (pv_updSessL sessid seq srv)) =
     (seq_of (pv_sessions srv))(sessid := max seq (seq_of (pv_sessions srv) sessid))"
  by (auto simp: pv_updSessL_def fun_eq_iff)

lemma pv_put_simps [simp]:
  "pv_files (pv_put r fl srv) = pv_files srv" "pv_fnext (pv_put r fl srv) = pv_fnext srv"
  "pv_fheap (pv_put r fl srv) = (pv_fheap srv)(r := fl)"
  "pv_sessions (pv_put r fl srv) = pv_sessions srv" "pv_px (pv_put r fl srv) = pv_px srv"
  "pv_applied (pv_put r fl srv) = pv_applied srv" "pv_done (pv_put r fl srv) = pv_done srv"
  by (simp_all add: pv_put_def)

lemma pv_inv_other:
  assumes "pv_inv srv" "pv_files srv path = Some r" "path' \<noteq> path"
  shows "pv_files srv path' \<noteq> Some r"
  using assms by (metis domI inj_onD pv_inv_def)

lemma pv_inv_new: "pv_inv srv \<Longrightarrow> pv_files srv path \<noteq> Some (pv_fnext srv)"
  by (auto simp: pv_inv_def)

lemma pv_applyOp_inv:
  assumes "pv_inv srv"
  shows "pv_inv (pv_applyOp op srv)"
proof -
  have upd: "pv_inv (pv_updSessL sessid seq srv1) = pv_inv srv1" for sessid seq srv1
    by (simp add: pv_inv_def)
  have put: "pv_inv (pv_put r fl srv1) = pv_inv srv1" for r fl srv1
    by (simp add: pv_inv_def)
  have new: "pv_inv (srv1\<lparr>pv_fnext := Suc (pv_fnext srv),
      pv_files := (pv_files srv)(path \<mapsto> pv_fnext srv)\<rparr>)" for srv1 path
    using assms by (fastforce simp: pv_inv_def inj_on_def dom_def)
  have del: "pv_inv (srv\<lparr>pv_files := (pv_files srv)(path := None)\<rparr>)" for path
    using assms by (auto simp: pv_inv_def inj_on_def dom_def)
  show ?thesis
    using assms
    by (auto simp: pv_applyOp_def pv_apply_defs Let_def upd put new del
        split: Opcode.split option.split)
qed

lemma pv_table_put:
  assumes "pv_inv srv" and "pv_files srv path = Some r"
  shows "ls_locks (pv_table (pv_put r fl srv)) = (ls_locks (pv_table srv))(path \<mapsto> file_lock fl)"
proof
  fix p
  show "ls_locks (pv_table (pv_put r fl srv)) p = ((ls_locks (pv_table srv))(path \<mapsto> file_lock fl)) p"
    using assms(2) pv_inv_other [OF assms, of p]
    by (cases "p = path"; cases "pv_files srv p") (auto simp: pv_table_def)
qed

lemma pv_table_sel:
  "ls_locks (pv_table (pv_updSessL sessid seq srv)) = ls_locks (pv_table srv)"
  "ls_seen (pv_table srv) = seq_of (pv_sessions srv)"
  "ls_locks (pv_table srv) path = map_option (\<lambda>r. file_lock (pv_fheap srv r)) (pv_files srv path)"
  "ls_locks (pv_table (srv\<lparr>pv_files := (pv_files srv)(path := None)\<rparr>)) =
     (ls_locks (pv_table srv))(path := None)"
  by (auto simp: pv_table_def)

lemma pv_table_new:
  assumes "pv_inv srv"
  shows "ls_locks (pv_table ((pv_put (pv_fnext srv) fl srv)
      \<lparr>pv_fnext := n, pv_files := (pv_files srv)(path \<mapsto> pv_fnext srv)\<rparr>)) =
    (ls_locks (pv_table srv))(path \<mapsto> file_lock fl)"
  using pv_inv_new [OF assms] by (auto simp: pv_table_def fun_eq_iff intro!: option.map_cong)

lemma lock_state_eqI:
  "ls_locks st = ls_locks st' \<Longrightarrow> ls_seen st = ls_seen st' \<Longrightarrow> st = (st' :: lock_state)"
  by simp

lemma pv_applyOp_table:
  assumes inv: "pv_inv srv" and "op_ok op"
  shows "pv_table (pv_applyOp op srv) = spec_apply op (pv_table srv)"
proof (rule lock_state_eqI)
  have ids: "op_Sessid op \<noteq> - 1" "op_Sessid op XOR 1 \<noteq> - 1"
    using assms by (simp_all add: op_ok_def twin_def)
  note defs = pv_applyOp_def pv_apply_defs pv_stale_def spec_apply_def numbered_def Let_def
  show "ls_seen (pv_table (pv_applyOp op srv)) = ls_seen (spec_apply op (pv_table srv))"
    by (cases "op_Code op"; cases "pv_files srv (op_Path op)") (auto simp: defs pv_table_sel(2))
  note sel = pv_table_sel(1,2,4)
  show "ls_locks (pv_table (pv_applyOp op srv)) = ls_locks (spec_apply op (pv_table srv))"
  proof (cases "pv_files srv (op_Path op)")
    case None
    then have lp: "ls_locks (pv_table srv) (op_Path op) = None" by (simp add: pv_table_def)
    have free: "file_lock \<lparr>file_Sessid = - 1, file_Lease = 0\<rparr> = Free" by (simp add: file_lock_def)
    from None lp show ?thesis
      by (cases "op_Code op")
        (auto simp: defs sel pv_table_new [OF inv] free fun_upd_idem)
  next
    case (Some r)
    then have lp: "ls_locks (pv_table srv) (op_Path op) = Some (file_lock (pv_fheap srv r))"
      by (simp add: pv_table_def)
    from Some ids lp show ?thesis
      by (cases "op_Code op"; cases "file_Sessid (pv_fheap srv r) = - 1")
        (auto simp: defs sel pv_table_put [OF inv Some] file_lock_cases twin_def max_def fun_upd_idem)
  qed
qed

interpretation paxos_lock: lock_replica pv_applyOp pv_inv pv_table
  by unfold_locales (simp_all add: pv_applyOp_inv pv_applyOp_table)

end
