(* ===== verification/Lock_Properties.thy ===== *)
theory Lock_Properties
  imports Raft_Server Paxos_Server
begin

text \<open>
  What the two lock servers promise to the clients, on the servers' own states: the same
  behaviour on both, one holder at a time, requests executed at most once, and what the
  answers of the handlers mean.
\<close>

section \<open>Sample operations\<close>

definition sample_op :: "Opcode \<Rightarrow> int32 \<Rightarrow> int \<Rightarrow> int \<Rightarrow> Op" where
  "sample_op code sessid seq lease =
     \<lparr>op_Code = code, op_Path = ''/a'', op_Sessid = sessid, op_Seq = seq, op_Lease = lease\<rparr>"

definition sample_raft :: RaftServer where
  "sample_raft = rs_StartServer 3 0 (rp_MakePersister True)"

definition sample_paxos :: PaxosServer where
  "sample_paxos = fst (the (pv_StartServer 3 0 (px_MakePersister True)))"

text \<open>Session 0 creates and takes the lock, and session 2 takes it after the release.\<close>

definition sample_take :: "Op list" where
  "sample_take = [sample_op Create 0 1 0, sample_op Acquire 0 2 12]"

definition sample_pass :: "Op list" where
  "sample_pass = [sample_op Release 0 3 0, sample_op Acquire 2 1 20]"

lemma sample_ok: "\<forall>op \<in> set (sample_take @ sample_pass). op_ok op"
  by (simp add: sample_take_def sample_pass_def sample_op_def op_ok_def twin_def)

lemma sample_start:
  "pv_inv sample_paxos" "rs_table sample_raft = pv_table sample_paxos"
  by (simp_all add: sample_raft_def sample_paxos_def rs_StartServer_def pv_StartServer_def
      px_Make_def px_readPersist_def ps_ReadPaxosState_def px_MakePersister_def go_store_def
      pv_inv_def rs_table_def pv_table_def)

lemma sample_files:
  "rs_files (fold rs_applyOp sample_take sample_raft) ''/a'' = Some \<lparr>file_Sessid = 0, file_Lease = 12\<rparr>"
  "rs_files (fold rs_applyOp sample_pass (fold rs_applyOp sample_take sample_raft)) ''/a'' =
     Some \<lparr>file_Sessid = 2, file_Lease = 20\<rparr>"
  by code_simp+

section \<open>One holder at a time\<close>

lemma rs_holds:
  "rs_files srv path = Some fl \<Longrightarrow> file_Sessid fl \<noteq> - 1 \<Longrightarrow> holds (rs_table srv) path (file_Sessid fl)"
  by (simp add: rs_table_def holds_def file_lock_def)

lemma pv_holds:
  "pv_files srv path = Some r \<Longrightarrow> file_Sessid (pv_fheap srv r) \<noteq> - 1 \<Longrightarrow>
   holds (pv_table srv) path (file_Sessid (pv_fheap srv r))"
  by (simp add: pv_table_def holds_def file_lock_def)

text \<open>
  On the Raft server a lock passes from one session to another only when the log has,
  in this order, an operation that frees it (a Release by the holding session or by its
  keep-alive stream, or a Revoke of it) and an Acquire by the new holder.
\<close>

lemma raft_lock_handover:
  assumes "\<forall>op \<in> set ops. op_ok op"
    and "rs_files srv path = Some fl" and "file_Sessid fl \<noteq> - 1"
    and "rs_files (fold rs_applyOp ops srv) path = Some fl'" and "file_Sessid fl' \<noteq> - 1"
    and "file_Sessid fl' \<noteq> file_Sessid fl"
  shows "\<exists>xs f ys a zs. ops = xs @ f # ys @ a # zs \<and>
    frees f path (file_Sessid fl) \<and> takes a path (file_Sessid fl')"
  using raft_lock.handover [OF _ assms(1) rs_holds [OF assms(2,3)] rs_holds [OF assms(4,5)]]
    assms(6) by (simp add: passed_on_def)

lemma raft_lock_handover_sample:
  "\<exists>xs f ys a zs. sample_pass = xs @ f # ys @ a # zs \<and> frees f ''/a'' 0 \<and> takes a ''/a'' 2"
  using raft_lock_handover [OF _ sample_files(1) _ sample_files(2)] sample_ok by simp

lemma sample_files_paxos:
  "map_option (pv_fheap (fold pv_applyOp sample_take sample_paxos))
     (pv_files (fold pv_applyOp sample_take sample_paxos) ''/a'') =
     Some \<lparr>file_Sessid = 0, file_Lease = 12\<rparr>"
  "map_option (pv_fheap (fold pv_applyOp (sample_take @ sample_pass) sample_paxos))
     (pv_files (fold pv_applyOp (sample_take @ sample_pass) sample_paxos) ''/a'') =
     Some \<lparr>file_Sessid = 2, file_Lease = 20\<rparr>"
  by code_simp+

text \<open>The same on the Paxos server.\<close>

lemma paxos_lock_handover:
  assumes "pv_inv srv" and "\<forall>op \<in> set ops. op_ok op"
    and "pv_files srv path = Some r" and "file_Sessid (pv_fheap srv r) = p" and "p \<noteq> - 1"
    and "srv' = fold pv_applyOp ops srv"
    and "pv_files srv' path = Some r'" and "file_Sessid (pv_fheap srv' r') = q" and "q \<noteq> - 1"
    and "q \<noteq> p"
  shows "\<exists>xs f ys a zs. ops = xs @ f # ys @ a # zs \<and> frees f path p \<and> takes a path q"
proof -
  have "holds (pv_table srv) path p" using pv_holds [OF assms(3)] assms(4,5) by simp
  moreover have "holds (pv_table (fold pv_applyOp ops srv)) path q"
    using pv_holds [OF assms(7)] assms(6,8,9) by simp
  ultimately show ?thesis using paxos_lock.handover [OF assms(1,2)] assms(10) unfolding passed_on_def by metis
qed

lemma paxos_lock_handover_sample:
  "\<exists>xs f ys a zs. sample_pass = xs @ f # ys @ a # zs \<and> frees f ''/a'' 0 \<and> takes a ''/a'' 2"
proof -
  let ?srv = "fold pv_applyOp sample_take sample_paxos"
  have inv: "pv_inv ?srv" using paxos_lock.run_inv sample_start(1) by blast
  obtain r r' where "pv_files ?srv ''/a'' = Some r" "file_Sessid (pv_fheap ?srv r) = 0"
    "pv_files (fold pv_applyOp sample_pass ?srv) ''/a'' = Some r'"
    "file_Sessid (pv_fheap (fold pv_applyOp sample_pass ?srv) r') = 2"
    using sample_files_paxos by auto
  with paxos_lock_handover [OF inv, of sample_pass "''/a''"] sample_ok show ?thesis by simp
qed

section \<open>Both servers are the same state machine\<close>

text \<open>
  C20. The applier of the Raft server, which keeps file values, and the applier of the
  Paxos server, which updates shared file objects through pointers, keep the same lock
  table and the same request numbers on every sequence of operations.
\<close>

theorem appliers_equivalent:
  assumes "pv_inv srv'" and "rs_table srv = pv_table srv'" and "\<forall>op \<in> set ops. op_ok op"
  shows "rs_table (fold rs_applyOp ops srv) = pv_table (fold pv_applyOp ops srv')"
  using raft_lock.run_table [OF _ assms(3)] paxos_lock.run_table [OF assms(1,3)] assms(2) by simp

theorem appliers_equivalent_witness:
  "rs_table (fold rs_applyOp sample_take sample_raft) = pv_table (fold pv_applyOp sample_take sample_paxos)"
  using appliers_equivalent [OF sample_start, of sample_take] sample_ok by simp

text \<open>
  C17. A request is executed at most once: once an operation of a request stream has been
  executed, a later operation of that stream with the same or a smaller number changes
  nothing, on either server, whatever was executed in between.
\<close>

theorem requests_execute_once:
  assumes "\<forall>o' \<in> set (xs @ op # ys @ op' # zs). op_ok o'"
    and "numbered op" and "numbered op'" and "op_Sessid op' = op_Sessid op"
    and "op_Seq op' \<le> op_Seq op" and "pv_inv srv'"
  shows "rs_table (fold rs_applyOp (xs @ op # ys @ op' # zs) srv) =
      rs_table (fold rs_applyOp (xs @ op # ys @ zs) srv) \<and>
    pv_table (fold pv_applyOp (xs @ op # ys @ op' # zs) srv') =
      pv_table (fold pv_applyOp (xs @ op # ys @ zs) srv')"
  using raft_lock.run_once [OF _ assms(1-5)] paxos_lock.run_once [OF assms(6,1-5)] by simp

theorem requests_execute_once_witness:
  "rs_table (fold rs_applyOp ([sample_op Create 0 1 0] @ sample_op Acquire 0 2 12 # sample_pass @
      sample_op Acquire 0 2 40 # []) sample_raft) =
    rs_table (fold rs_applyOp ([sample_op Create 0 1 0] @ sample_op Acquire 0 2 12 # sample_pass @ [])
      sample_raft)"
  by (rule conjunct1, rule requests_execute_once [OF _ _ _ _ _ sample_start(1)])
    (simp_all add: sample_op_def sample_pass_def op_ok_def twin_def numbered_def)

section \<open>What the answers mean\<close>

lemma rs_operate_wait_applied:
  "rs_operate_wait t op wakes = Some (srv, True) \<Longrightarrow>
   op_Seq op \<le> seq_of (rs_sessions srv) (op_Sessid op) \<and> srv \<in> set wakes"
  by (induction t op wakes rule: rs_operate_wait.induct) (auto split: if_splits)

lemma rs_operateL_applied:
  assumes "rs_operateL now op wakes srv = (lefts, Some (srv', True))"
  shows "op_Seq op \<le> seq_of (rs_sessions srv') (op_Sessid op) \<and> srv' \<in> set wakes"
  using assms rs_operate_wait_applied
  by (auto simp: rs_operateL_def split: prod.splits option.splits)

definition rs_handlers ::
  "(Opcode \<times> (int \<Rightarrow> PathArgs \<Rightarrow> RaftServer list \<Rightarrow> RaftServer \<Rightarrow> rs_left \<times> (RaftServer \<times> ErrReply) option)) list"
where
  "rs_handlers = [(Create, rs_Create), (Remove, rs_Remove), (Acquire, rs_Acquire), (Release, rs_Release),
     (Extend, rs_Extend)]"

lemmas rs_handler_defs = rs_Create_def rs_Remove_def rs_Acquire_def rs_Release_def rs_Extend_def

text \<open>
  An answer other than WrongLeader and RepeatedRequest is only given in a state in which
  the stream has reached the number of the request.
\<close>

lemma handler_reached:
  assumes "(code, handler) \<in> set rs_handlers"
    and "handler now args wakes srv = (lefts, Some (srv', reply))"
    and "er_Result reply \<noteq> WrongLeader" and "er_Result reply \<noteq> RepeatedRequest"
  shows "path_Seq args \<le> ls_seen (rs_table srv') (path_Sessid args)"
proof -
  obtain code' lease where
    "rs_operateL now (mk_op code' args lease) wakes srv = (lefts, Some (srv', True))"
    using assms
    by (auto simp: rs_handlers_def rs_handler_defs split: prod.splits if_splits)
  then have "op_Seq (mk_op code' args lease) \<le> seq_of (rs_sessions srv') (op_Sessid (mk_op code' args lease))"
    using rs_operateL_applied by blast
  then show ?thesis by (simp add: mk_op_def rs_table_def)
qed

definition sample_args :: PathArgs where
  "sample_args = \<lparr>path_Path = ''/a'', path_Sessid = 0, path_Seq = 2\<rparr>"

definition sample_leader :: RaftServer where
  "sample_leader = (fold rs_applyOp [sample_op Create 0 1 0] sample_raft)
     \<lparr>rs_rf := (rs_rf sample_raft)\<lparr>rf_state := Leader\<rparr>\<rparr>"

definition sample_woken :: RaftServer where
  "sample_woken = rs_applyOp (mk_op Acquire sample_args 12) sample_leader"

lemma sample_acquire:
  "snd (rs_Acquire 0 sample_args [sample_woken] sample_leader) =
     Some (sample_woken, \<lparr>er_Result = OK, er_Lease = 12\<rparr>)"
  by (simp add: sample_woken_def sample_leader_def sample_args_def sample_raft_def sample_op_def
      rs_Acquire_def rs_operateL_def rs_operate_begin_def rf_Start_def rs_applyOp_def rs_apply_defs
      rs_stale_def rs_updSessL_def rs_getWaitL_def rs_StartServer_def mk_op_def DefaultLease_def
      rs_checkTermL_def rf_Make_def rf_readPersist_def rp_ReadRaftState_def rp_MakePersister_def
      seq_of_def Let_def)

text \<open>
  C18. On both servers an answer OK to Acquire is only given while the lock is held by the
  caller's session, and an answer OK to Extend while it is held by the session of the
  keep-alive stream that asks; both carry the lease of the lock.
\<close>

theorem answer_OK_means_held:
  "(rs_Acquire now args wakes srv = (lefts, Some (srv', \<lparr>er_Result = OK, er_Lease = l\<rparr>)) \<longrightarrow>
     rs_files srv' (path_Path args) = Some \<lparr>file_Sessid = path_Sessid args, file_Lease = l\<rparr>) \<and>
   (rs_Extend now args wakes srv = (lefts, Some (srv', \<lparr>er_Result = OK, er_Lease = l\<rparr>)) \<longrightarrow>
     rs_files srv' (path_Path args) = Some \<lparr>file_Sessid = twin (path_Sessid args), file_Lease = l\<rparr>) \<and>
   (pv_Acquire now args ws psrv = Some (plefts, Some (psrv', \<lparr>er_Result = OK, er_Lease = l\<rparr>)) \<longrightarrow>
     map_option (pv_fheap psrv') (pv_files psrv' (path_Path args)) =
       Some \<lparr>file_Sessid = path_Sessid args, file_Lease = l\<rparr>) \<and>
   (pv_Extend now args ws psrv = Some (plefts, Some (psrv', \<lparr>er_Result = OK, er_Lease = l\<rparr>)) \<longrightarrow>
     map_option (pv_fheap psrv') (pv_files psrv' (path_Path args)) =
       Some \<lparr>file_Sessid = twin (path_Sessid args), file_Lease = l\<rparr>)"
  by (auto simp: rs_Acquire_def rs_Extend_def pv_Acquire_def pv_Extend_def twin_def
      split: prod.splits if_splits option.splits bind_splits)

theorem answer_OK_means_held_witness:
  "rs_files sample_woken ''/a'' = Some \<lparr>file_Sessid = 0, file_Lease = 12\<rparr>"
proof -
  have "rs_Acquire 0 sample_args [sample_woken] sample_leader =
      (fst (rs_Acquire 0 sample_args [sample_woken] sample_leader),
       Some (sample_woken, \<lparr>er_Result = OK, er_Lease = 12\<rparr>))"
    using sample_acquire by (metis prod.collapse)
  with answer_OK_means_held [of 0 sample_args "[sample_woken]" sample_leader] show ?thesis
    by (simp add: sample_args_def)
qed

end
