(* ===== verification/Server_Groups.thy ===== *)
theory Server_Groups
  imports Raft_Server Paxos_Server
begin

text \<open>
  The interface Servers of eval/config.go, which both groups of lock servers implement:
  starting and shutting down the server of a slot, killing all of them, and asking which
  one is the leader. Its contract is a locale, interpreted on the Raft group, on the Paxos
  group and on the interface value that dispatches to one of the two.
\<close>

section \<open>The contract\<close>

text \<open>
  slots tells which slots hold a server; a group is fit when none of its servers was killed
  and every slot with a server has a persister saved.
  In a fit group, starting and shutting down a slot does not panic and changes that slot
  only, and the leader is a slot of the group, or negative when there is none.
\<close>

locale server_group =
  fixes start :: "nat \<Rightarrow> int \<Rightarrow> bool \<Rightarrow> 'g \<Rightarrow> ('g \<times> 't) panics"
    and shutdown :: "int \<Rightarrow> 'g \<Rightarrow> 'g panics"
    and kill :: "'g \<Rightarrow> 'g panics"
    and leader :: "'g \<Rightarrow> int"
    and slots :: "'g \<Rightarrow> bool list"
    and fit :: "'g \<Rightarrow> bool"
  assumes start_fit: "fit g \<Longrightarrow> i < length (slots g) \<Longrightarrow>
      \<exists>g' t. start (length (slots g)) (int i) durable g = Some (g', t) \<and> fit g' \<and> slots g' = (slots g)[i := True]"
    and shutdown_fit: "fit g \<Longrightarrow> i < length (slots g) \<Longrightarrow>
      \<exists>g'. shutdown (int i) g = Some g' \<and> fit g' \<and> slots g' = (slots g)[i := False]"
    and kill_fit: "fit g \<Longrightarrow> \<exists>g'. kill g = Some g' \<and> slots g' = slots g"
    and leader_fit: "fit g \<Longrightarrow> leader g < int (length (slots g))"
begin

text \<open>Restarting the server of a slot.\<close>

lemma cycle:
  assumes "fit g" "i < length (slots g)"
  shows "\<exists>g1 g2 t. shutdown (int i) g = Some g1 \<and> start (length (slots g)) (int i) durable g1 = Some (g2, t) \<and>
    fit g2 \<and> slots g2 = (slots g)[i := True]"
proof -
  obtain g1 where g1: "shutdown (int i) g = Some g1" "fit g1" "slots g1 = (slots g)[i := False]"
    using shutdown_fit [OF assms] by blast
  then show ?thesis using start_fit [of g1 i durable] assms(2) by auto
qed

end

lemma nth_update_if: "j < length xs \<Longrightarrow> xs[i := x] ! j = (if i = j then x else xs ! j)"
  by (cases "i = j") auto

lemma nth_update_None: "j < length xs \<Longrightarrow> xs[i := None] ! j = Some y \<longleftrightarrow> j \<noteq> i \<and> xs ! j = Some y"
  by (cases "j = i") auto

section \<open>The group on Raft\<close>

definition rss_slots :: "RaftServers \<Rightarrow> bool list" where
  "rss_slots srvs = map (\<lambda>srv. srv \<noteq> None) (rss_servers srvs)"

definition rss_fit :: "RaftServers \<Rightarrow> bool" where
  "rss_fit srvs \<longleftrightarrow> length (rss_saved srvs) = length (rss_servers srvs) \<and>
     (\<forall>i < length (rss_servers srvs). rss_servers srvs ! i \<noteq> None \<longrightarrow> rss_saved srvs ! i \<noteq> None) \<and>
     (\<forall>srv. Some srv \<in> set (rss_servers srvs) \<longrightarrow> \<not> rs_done srv)"

lemma rss_start_persister_total:
  "server \<noteq> None \<longrightarrow> saved \<noteq> None \<Longrightarrow> \<exists>ps. rss_start_persister server saved durable = Some ps"
  by (auto simp: rss_start_persister_def rss_shared_def split: option.splits)

lemma rss_Leader_loop_bound: "rss_Leader_loop i servers < i + int (length servers) \<or> rss_Leader_loop i servers = - 1"
  by (induction i servers rule: rss_Leader_loop.induct) (auto split: option.split)

lemma rss_Kill_loop_fit:
  "(\<forall>srv. Some srv \<in> set servers \<longrightarrow> \<not> rs_done srv) \<Longrightarrow>
   \<exists>servers'. rss_Kill_loop servers = Some servers' \<and>
     map (\<lambda>srv. srv \<noteq> None) servers' = map (\<lambda>srv. srv \<noteq> None) servers"
proof (induction servers)
  case (Cons server servers)
  have "\<forall>srv. Some srv \<in> set servers \<longrightarrow> \<not> rs_done srv" using Cons.prems by (meson list.set_intros(2))
  from Cons.IH [OF this] obtain servers' where "rss_Kill_loop servers = Some servers'"
    "map (\<lambda>srv. srv \<noteq> None) servers' = map (\<lambda>srv. srv \<noteq> None) servers"
    by blast
  moreover have "\<not> rs_done srv" if "server = Some srv" for srv
    using Cons.prems that by (meson list.set_intros(1))
  ultimately show ?case by (cases server) (simp_all add: rs_Kill_def)
qed simp

interpretation raft_group: server_group "\<lambda>n i d g. map_option (\<lambda>g'. (g', [])) (rss_Start n i d g)" rss_Shutdown rss_Kill
  rss_Leader rss_slots rss_fit
proof
  fix g :: RaftServers and i durable
  assume g: "rss_fit g" and i: "i < length (rss_slots g)"
  let ?srv = "\<lambda>ps. rs_StartServer (length (rss_slots g)) i ps"
  have lt: "i < length (rss_servers g)" "i < length (rss_saved g)" using g i by (auto simp: rss_fit_def rss_slots_def)
  obtain ps where ps: "rss_start_persister (rss_servers g ! i) (rss_saved g ! i) durable = Some ps"
    using rss_start_persister_total [of "rss_servers g ! i" "rss_saved g ! i" durable] g lt by (auto simp: rss_fit_def)
  let ?g = "g\<lparr>rss_servers := (rss_servers g)[i := Some (?srv ps)], rss_saved := (rss_saved g)[i := Some ps]\<rparr>"
  have "rss_Start (length (rss_slots g)) (int i) durable g = Some ?g"
    using lt ps by (simp add: rss_Start_def go_index_def go_store_def)
  moreover have "rss_fit ?g"
    using g lt by (auto simp: rss_fit_def rs_StartServer_def nth_list_update dest!: set_update_subset_insert [THEN subsetD])
  moreover have "rss_slots ?g = (rss_slots g)[i := True]" by (simp add: rss_slots_def map_update)
  ultimately show "\<exists>g' t. map_option (\<lambda>g'. (g', [])) (rss_Start (length (rss_slots g)) (int i) durable g) = Some (g', t) \<and>
      rss_fit g' \<and> rss_slots g' = (rss_slots g)[i := True]" by auto
next
  fix g :: RaftServers and i
  assume g: "rss_fit g" and i: "i < length (rss_slots g)"
  have lt: "i < length (rss_servers g)" "i < length (rss_saved g)" using g i by (auto simp: rss_fit_def rss_slots_def)
  have "\<not> rs_done srv" if "rss_servers g ! i = Some srv" for srv
    using g lt that nth_mem [OF lt(1)] by (auto simp: rss_fit_def)
  then obtain g' where g': "rss_Shutdown (int i) g = Some g'"
    "rss_servers g' = (rss_servers g)[i := None]" "length (rss_saved g') = length (rss_saved g)"
    "\<forall>j. j \<noteq> i \<longrightarrow> rss_saved g' ! j = rss_saved g ! j"
    using lt by (cases "rss_servers g ! i")
      (auto simp: rss_Shutdown_def go_index_def go_store_def rs_Kill_def)
  moreover have "rss_fit g'"
    using g g' by (auto simp: rss_fit_def nth_update_None dest!: set_update_subset_insert [THEN subsetD])
  ultimately show "\<exists>g'. rss_Shutdown (int i) g = Some g' \<and> rss_fit g' \<and> rss_slots g' = (rss_slots g)[i := False]"
    by (auto simp: rss_slots_def map_update)
next
  fix g :: RaftServers
  assume g: "rss_fit g"
  then show "\<exists>g'. rss_Kill g = Some g' \<and> rss_slots g' = rss_slots g"
    using rss_Kill_loop_fit [of "rss_servers g"] by (auto simp: rss_fit_def rss_Kill_def rss_slots_def)
  show "rss_Leader g < int (length (rss_slots g))"
    using rss_Leader_loop_bound [of 0 "rss_servers g"] by (auto simp: rss_Leader_def rss_slots_def)
qed

section \<open>The group on Paxos\<close>

definition pss_slots :: "PaxosServers \<Rightarrow> bool list" where
  "pss_slots srvs = map (\<lambda>srv. srv \<noteq> None) (pss_servers srvs)"

definition pss_fit :: "PaxosServers \<Rightarrow> bool" where
  "pss_fit srvs \<longleftrightarrow> length (pss_saved srvs) = length (pss_servers srvs) \<and>
     0 \<le> pss_leader srvs \<and> pss_leader srvs < int (length (pss_servers srvs)) \<and>
     (\<forall>i < length (pss_servers srvs). pss_servers srvs ! i \<noteq> None \<longrightarrow> pss_saved srvs ! i \<noteq> None) \<and>
     (\<forall>srv. Some srv \<in> set (pss_servers srvs) \<longrightarrow> \<not> pv_done srv)"

lemma pss_start_persister_total:
  "server \<noteq> None \<longrightarrow> saved \<noteq> None \<Longrightarrow> \<exists>ps. pss_start_persister server saved durable = Some ps"
  by (auto simp: pss_start_persister_def pss_shared_def split: option.splits)

lemma pss_Kill_loop_fit:
  "(\<forall>srv. Some srv \<in> set servers \<longrightarrow> \<not> pv_done srv) \<Longrightarrow>
   \<exists>servers'. pss_Kill_loop servers = Some servers' \<and>
     map (\<lambda>srv. srv \<noteq> None) servers' = map (\<lambda>srv. srv \<noteq> None) servers"
proof (induction servers)
  case (Cons server servers)
  have "\<forall>srv. Some srv \<in> set servers \<longrightarrow> \<not> pv_done srv" using Cons.prems by (meson list.set_intros(2))
  from Cons.IH [OF this] obtain servers' where "pss_Kill_loop servers = Some servers'"
    "map (\<lambda>srv. srv \<noteq> None) servers' = map (\<lambda>srv. srv \<noteq> None) servers"
    by blast
  moreover have "\<not> pv_done srv" if "server = Some srv" for srv
    using Cons.prems that by (meson list.set_intros(1))
  ultimately show ?case by (cases server) (simp_all add: pv_Kill_def)
qed simp

lemma px_Make_total: "me < n \<Longrightarrow> \<exists>px tasks. px_Make n me ps = Some (px, tasks)"
  by (cases "readPersist_loop (ps_paxosstate ps) 0 (ps_instanceState ps)
       \<lparr>px_peers = n, px_me = me, px_persister = ps, px_dead = False, px_instances = [], px_heap = (\<lambda>_. new_instance),
        px_startIndex = ps_paxosstate ps, px_done = (replicate n 0)[me := ps_paxosstate ps],
        px_decided = ps_paxosstate ps - 1\<rparr>")
     (simp add: px_Make_def px_readPersist_def ps_ReadPaxosState_def go_store_def)

interpretation paxos_group: server_group pss_Start pss_Shutdown pss_Kill pss_Leader pss_slots pss_fit
proof
  fix g :: PaxosServers and i durable
  assume g: "pss_fit g" and i: "i < length (pss_slots g)"
  have lt: "i < length (pss_servers g)" "i < length (pss_saved g)" using g i by (auto simp: pss_fit_def pss_slots_def)
  obtain ps where ps: "pss_start_persister (pss_servers g ! i) (pss_saved g ! i) durable = Some ps"
    using pss_start_persister_total [of "pss_servers g ! i" "pss_saved g ! i" durable] g lt by (auto simp: pss_fit_def)
  obtain srv tasks where srv: "pv_StartServer (length (pss_slots g)) i ps = Some (srv, tasks)" "\<not> pv_done srv"
    using px_Make_total [OF i, of ps] by (auto simp: pv_StartServer_def)
  let ?g = "g\<lparr>pss_servers := (pss_servers g)[i := Some srv], pss_saved := (pss_saved g)[i := Some ps]\<rparr>"
  have "pss_Start (length (pss_slots g)) (int i) durable g = Some (?g, tasks)"
    using lt ps srv(1) by (simp add: pss_Start_def go_index_def go_store_def)
  moreover have "pss_fit ?g"
    using g lt srv(2) by (auto simp: pss_fit_def nth_list_update dest!: set_update_subset_insert [THEN subsetD])
  moreover have "pss_slots ?g = (pss_slots g)[i := True]" by (simp add: pss_slots_def map_update)
  ultimately show "\<exists>g' t. pss_Start (length (pss_slots g)) (int i) durable g = Some (g', t) \<and> pss_fit g' \<and>
      pss_slots g' = (pss_slots g)[i := True]" by auto
next
  fix g :: PaxosServers and i
  assume g: "pss_fit g" and i: "i < length (pss_slots g)"
  have lt: "i < length (pss_servers g)" "i < length (pss_saved g)" using g i by (auto simp: pss_fit_def pss_slots_def)
  have "\<not> pv_done srv" if "pss_servers g ! i = Some srv" for srv
    using g lt that nth_mem [OF lt(1)] by (auto simp: pss_fit_def)
  then obtain g' where g': "pss_Shutdown (int i) g = Some g'"
    "pss_servers g' = (pss_servers g)[i := None]" "length (pss_saved g') = length (pss_saved g)"
    "\<forall>j. j \<noteq> i \<longrightarrow> pss_saved g' ! j = pss_saved g ! j"
    "pss_leader g' = (if pss_leader g = int i
       then if pss_leader g + 1 \<ge> int (length (pss_servers g)) then 0 else pss_leader g + 1 else pss_leader g)"
    using lt by (cases "pss_servers g ! i")
      (auto simp: pss_Shutdown_def go_index_def go_store_def pv_Kill_def Let_def)
  moreover have "pss_fit g'"
    using g g' by (auto simp: pss_fit_def nth_update_None dest!: set_update_subset_insert [THEN subsetD])
  ultimately show "\<exists>g'. pss_Shutdown (int i) g = Some g' \<and> pss_fit g' \<and> pss_slots g' = (pss_slots g)[i := False]"
    by (auto simp: pss_slots_def map_update)
next
  fix g :: PaxosServers
  assume g: "pss_fit g"
  then show "\<exists>g'. pss_Kill g = Some g' \<and> pss_slots g' = pss_slots g"
    using pss_Kill_loop_fit [of "pss_servers g"] by (auto simp: pss_fit_def pss_Kill_def pss_slots_def)
  show "pss_Leader g < int (length (pss_slots g))"
    using g by (simp add: pss_Leader_def pss_fit_def pss_slots_def)
qed

section \<open>The interface value\<close>

datatype Servers = RaftGroup RaftServers | PaxosGroup PaxosServers

fun srvs_Kill :: "Servers \<Rightarrow> Servers panics" where
  "srvs_Kill (RaftGroup g) = map_option RaftGroup (rss_Kill g)"
| "srvs_Kill (PaxosGroup g) = map_option PaxosGroup (pss_Kill g)"

fun srvs_Shutdown :: "int \<Rightarrow> Servers \<Rightarrow> Servers panics" where
  "srvs_Shutdown i (RaftGroup g) = map_option RaftGroup (rss_Shutdown i g)"
| "srvs_Shutdown i (PaxosGroup g) = map_option PaxosGroup (pss_Shutdown i g)"

text \<open>The goroutines that a new Paxos peer starts are returned as tasks.\<close>

fun srvs_Start :: "nat \<Rightarrow> int \<Rightarrow> bool \<Rightarrow> Servers \<Rightarrow> (Servers \<times> command task list) panics" where
  "srvs_Start ends i durable (RaftGroup g) = map_option (\<lambda>g'. (RaftGroup g', [])) (rss_Start ends i durable g)"
| "srvs_Start ends i durable (PaxosGroup g) =
     map_option (\<lambda>(g', tasks). (PaxosGroup g', tasks)) (pss_Start ends i durable g)"

fun srvs_Leader :: "Servers \<Rightarrow> int" where
  "srvs_Leader (RaftGroup g) = rss_Leader g"
| "srvs_Leader (PaxosGroup g) = pss_Leader g"

fun srvs_slots :: "Servers \<Rightarrow> bool list" where
  "srvs_slots (RaftGroup g) = rss_slots g"
| "srvs_slots (PaxosGroup g) = pss_slots g"

fun srvs_fit :: "Servers \<Rightarrow> bool" where
  "srvs_fit (RaftGroup g) = rss_fit g"
| "srvs_fit (PaxosGroup g) = pss_fit g"

interpretation srvs: server_group srvs_Start srvs_Shutdown srvs_Kill srvs_Leader srvs_slots srvs_fit
proof
  fix g :: Servers and i durable
  assume g: "srvs_fit g" and i: "i < length (srvs_slots g)"
  show "\<exists>g' t. srvs_Start (length (srvs_slots g)) (int i) durable g = Some (g', t) \<and> srvs_fit g' \<and>
      srvs_slots g' = (srvs_slots g)[i := True]"
  proof (cases g)
    case (RaftGroup r)
    with raft_group.start_fit [of r i durable] g i show ?thesis by fastforce
  next
    case (PaxosGroup p)
    with paxos_group.start_fit [of p i durable] g i show ?thesis by fastforce
  qed
next
  fix g :: Servers and i
  assume "srvs_fit g" "i < length (srvs_slots g)"
  then show "\<exists>g'. srvs_Shutdown (int i) g = Some g' \<and> srvs_fit g' \<and> srvs_slots g' = (srvs_slots g)[i := False]"
    using raft_group.shutdown_fit paxos_group.shutdown_fit by (cases g) fastforce+
next
  fix g :: Servers
  assume "srvs_fit g"
  then show "\<exists>g'. srvs_Kill g = Some g' \<and> srvs_slots g' = srvs_slots g"
    using raft_group.kill_fit paxos_group.kill_fit by (cases g) fastforce+
next
  fix g :: Servers
  assume "srvs_fit g"
  then show "srvs_Leader g < int (length (srvs_slots g))"
    using raft_group.leader_fit paxos_group.leader_fit by (cases g) auto
qed

end
