(* ===== verification/Service.thy ===== *)
theory Service
  imports Raft_Panics Paxos_Properties Lock_Properties Server_Groups
begin

text \<open>
  The lock service as a whole: servers on top of a consensus package. The server at a peer
  executes what its peer delivers; by the safety of the package below, any two servers are
  in the same state after the same number of commands, whenever they get there, and a
  server that is ahead continues from where the other one is.
\<close>

section \<open>Servers on Raft\<close>

text \<open>The operations among delivered messages; the rest is skipped by the applier.\<close>

definition msg_ops :: "command ApplyMsg list \<Rightarrow> Op list" where
  "msg_ops msgs = List.map_filter (\<lambda>m. if am_CommandValid m
     then (case am_Command m of Some (OpCommand op) \<Rightarrow> Some op | _ \<Rightarrow> None) else None) msgs"

lemma msg_ops_simps:
  "msg_ops [] = []"
  "msg_ops (m # ms) = (if am_CommandValid m then
     (case am_Command m of Some (OpCommand op) \<Rightarrow> [op] | _ \<Rightarrow> []) else []) @ msg_ops ms"
  "msg_ops (ms @ ms') = msg_ops ms @ msg_ops ms'"
  by (auto simp: msg_ops_def List.map_filter_def split: option.splits command.splits)

lemma rs_applier_ops: "rs_applier msgs srv = fold rs_applyOp (msg_ops msgs) srv"
  by (induction msgs arbitrary: srv)
     (auto simp: rs_applier_def msg_ops_simps rs_applyMsg_def split: option.splits command.splits)

text \<open>
  A server that has executed at least as many commands as another one continues from that
  one's table, whichever of the two moments is the earlier one.
\<close>

lemma servers_continue:
  assumes "rf_reachable N enable s" and "rf_reachable N enable t"
    and "rf_step\<^sup>*\<^sup>* s t \<or> rf_step\<^sup>*\<^sup>* t s" and "q < N" and "q' < N"
    and "length (rn_applied s q) \<le> length (rn_applied t q')"
    and "\<forall>op \<in> set (msg_ops (rn_applied t q')). op_ok op"
  shows "rs_table (rs_applier (rn_applied t q') (rs_StartServer N q' ps')) =
    spec_run (msg_ops (drop (length (rn_applied s q)) (rn_applied t q')))
      (rs_table (rs_applier (rn_applied s q) (rs_StartServer N q ps)))"
proof -
  let ?a = "rn_applied s q" and ?b = "rn_applied t q'"
  have "?a ! i = ?b ! i" if "i < length ?a" for i
    using applied_agree [OF assms(1) _ assms(4,5), of t i] applied_agree [OF assms(2) _ assms(5,4), of s i]
      assms(3,6) that by auto
  then have "take (length ?a) ?b = ?a" using assms(6) by (intro nth_equalityI) auto
  then have b: "?b = ?a @ drop (length ?a) ?b" by (metis append_take_drop_id)
  have ops: "msg_ops ?b = msg_ops ?a @ msg_ops (drop (length ?a) ?b)"
    by (subst b) (simp only: msg_ops_simps)
  have start: "rs_table (rs_StartServer N q' ps') = rs_table (rs_StartServer N q ps)"
    by (simp add: rs_StartServer_def rs_table_def)
  have "rs_table (rs_applier ?b (rs_StartServer N q' ps')) =
      spec_run (msg_ops ?b) (rs_table (rs_StartServer N q ps))"
    using raft_lock.run_table [OF TrueI assms(7)] start by (simp add: rs_applier_ops)
  moreover have "rs_table (rs_applier ?a (rs_StartServer N q ps)) =
      spec_run (msg_ops ?a) (rs_table (rs_StartServer N q ps))"
    using raft_lock.run_table [OF TrueI, of "msg_ops ?a"] assms(7) ops by (simp add: rs_applier_ops)
  ultimately show ?thesis using ops by simp
qed

text \<open>
  C3. Lock servers on Raft agree: take the server at one peer at one moment of a run and the
  server at another peer at another moment, earlier or later, each made fresh at the last
  start of its peer and having executed what its peer has delivered since. The table of the
  server that has executed more commands is what the abstract lock service makes of the table
  of the other one and the further commands; with the same number of commands the two tables
  are equal. A server that lags behind or has just been restarted is the one with fewer.
\<close>

theorem raft_servers_agree:
  assumes "rf_reachable N enable s" and "rf_reachable N enable t"
    and "rf_step\<^sup>*\<^sup>* s t \<or> rf_step\<^sup>*\<^sup>* t s" and "q < N" and "q' < N"
    and "length (rn_applied s q) \<le> length (rn_applied t q')"
    and "\<forall>op \<in> set (msg_ops (rn_applied t q')). op_ok op"
  shows "rs_table (rs_applier (rn_applied t q') (rs_StartServer N q' ps')) =
    spec_run (msg_ops (drop (length (rn_applied s q)) (rn_applied t q')))
      (rs_table (rs_applier (rn_applied s q) (rs_StartServer N q ps)))"
  by (rule servers_continue [OF assms])

text \<open>A run in which peer 0 gets the creation of a lock committed with the help of peer 1.\<close>

definition create_entry :: "command Log" where
  "create_entry = \<lparr>lg_Term = 1, lg_Command = Some (OpCommand (sample_op Create 0 1 0))\<rparr>"

definition create_request :: "command AppendEntriesArgs" where
  "create_request = \<lparr>ae_Term = 1, ae_PrevLogTerm = 0, ae_PrevLogIndex = 0, ae_Entries = [create_entry],
     ae_LeaderCommit = 1\<rparr>"

definition update_request :: "command AppendEntriesArgs" where
  "update_request = \<lparr>ae_Term = 1, ae_PrevLogTerm = 1, ae_PrevLogIndex = 1, ae_Entries = [],
     ae_LeaderCommit = 2\<rparr>"

definition create_run :: "command rf_action list" where
  "create_run = replicate 7 (RTick 0) @ [RCampaign 0, RVote (rdemo_vote 1 0 0 0) 1,
     RElect (rdemo_vote 1 0 0 0) [(1, ElSuccess)],
     RStart 0 0 (lg_Command create_entry), RSend 0 1 1, RAppend 0 1 create_request 1,
     RAppendReply 0 1 create_request 1 (ae_accept 1), RCommit 0 1, RApply 0, RDeliver 0,
     RSend 0 1 1, RAppend 0 1 update_request 2, RApply 1, RDeliver 1]"

definition create_state :: "command rnet" where
  "create_state = the (rx_run create_run (rn_init 3 True))"

definition restarted_state :: "command rnet" where
  "restarted_state = the (rx_run [RRestart 0] create_state)"

lemma create_facts:
  "rx_run create_run (rn_init 3 True) \<noteq> None"
  "rx_run [RRestart 0] create_state \<noteq> None"
  "msg_ops (rn_applied create_state 1) = [sample_op Create 0 1 0]"
  "length (rn_applied create_state 1) = 1"
  "rn_applied restarted_state 0 = []"
  unfolding not_None_eq [symmetric] by code_simp+

text \<open>
  The server at peer 0 has been restarted and has executed nothing yet when it is compared
  with the server at peer 1 before the restart.
\<close>

theorem raft_servers_agree_witness:
  "rf_step\<^sup>*\<^sup>* create_state restarted_state \<and> rn_applied restarted_state 0 = [] \<and>
   rs_table (rs_applier (rn_applied create_state 1) (rs_StartServer 3 1 (rp_MakePersister True))) =
   spec_run [sample_op Create 0 1 0] (rs_table (rs_applier [] (rs_StartServer 3 0 (rp_MakePersister True))))"
proof -
  have s: "rf_reachable 3 True create_state"
    using create_facts(1) steps_reachable [OF rx_run_steps rf_reachable.init, of create_run 3 True]
    by (auto simp: create_state_def)
  have run: "rf_step\<^sup>*\<^sup>* create_state restarted_state"
    using create_facts(2) rx_run_steps [of "[RRestart 0]" create_state] by (auto simp: restarted_state_def)
  have ok: "\<forall>op \<in> set (msg_ops (rn_applied create_state 1)). op_ok op"
    unfolding create_facts(3) using sample_ok by (simp add: sample_take_def)
  have "rs_table (rs_applier (rn_applied create_state 1) (rs_StartServer 3 1 (rp_MakePersister True))) =
      spec_run (msg_ops (drop (length (rn_applied restarted_state 0)) (rn_applied create_state 1)))
        (rs_table (rs_applier (rn_applied restarted_state 0) (rs_StartServer 3 0 (rp_MakePersister True))))"
    by (rule raft_servers_agree [OF steps_reachable [OF run s] s disjI2 [OF run] _ _ _ ok])
      (simp_all add: create_facts(5))
  then show ?thesis using run unfolding create_facts(5) list.size(3) drop_0 create_facts(3) by blast
qed

text \<open>
  The groups that eval/config.go can make of Raft servers: Start and Shutdown at any slot, in
  any order, and in between the servers run, which may change the state of a server in any
  way.
\<close>

inductive rss_group :: "nat \<Rightarrow> RaftServers \<Rightarrow> bool" for n where
  make: "rss_group n (MakeRaftServers n)"
| start: "rss_group n g \<Longrightarrow> rss_Start n i durable g = Some g' \<Longrightarrow> rss_group n g'"
| shutdown: "rss_group n g \<Longrightarrow> rss_Shutdown i g = Some g' \<Longrightarrow> rss_group n g'"
| serve: "rss_group n g \<Longrightarrow> i < n \<Longrightarrow> rss_servers g ! i = Some srv \<Longrightarrow>
    rss_group n (g\<lparr>rss_servers := (rss_servers g)[i := Some srv']\<rparr>)"

lemma rss_group_saved:
  "rss_group n g \<Longrightarrow> length (rss_servers g) = n \<and> length (rss_saved g) = n \<and>
     (\<forall>i < n. rss_servers g ! i \<noteq> None \<longrightarrow> rss_saved g ! i \<noteq> None)"
proof (induction rule: rss_group.induct)
  case (start g i durable g')
  then obtain ps srv where "rss_saved g' = (rss_saved g)[nat i := Some ps]"
      "rss_servers g' = (rss_servers g)[nat i := Some srv]"
    by (auto simp: rss_Start_def go_slices split: bind_splits)
  with start.IH show ?case by (auto simp: nth_update_if)
next
  case (shutdown g i g')
  then obtain ps where "rss_saved g' = (rss_saved g)[nat i := ps]"
      "rss_servers g' = (rss_servers g)[nat i := None]"
    by (auto simp: rss_Shutdown_def go_slices split: bind_splits)
  with shutdown.IH show ?case by (auto simp: nth_update_None)
next
  case (serve g i srv srv')
  then show ?case by (auto simp: nth_list_update)
qed (simp add: MakeRaftServers_def)

text \<open>
  C23. Shutting a Raft server down and starting it again: in every group made by Start and
  Shutdown, whatever its servers have done meanwhile, Shutdown of a slot whose server has not
  been killed and Start of it return, and the new server's peer has the term, the vote, the
  log and the start of the log of the old one, and its snapshot if it had taken one, whether
  or not the servers are durable; its lock table starts empty and is rebuilt from the log; the
  other servers are untouched. Start has stored the persister of the old server in saved,
  which is where Shutdown finds it.
\<close>

theorem raft_shutdown_start:
  assumes "rss_group n srvs" and "i < n" and "rss_servers srvs ! i = Some srv" and "\<not> rs_done srv"
  shows "\<exists>srvs1 srvs2 srv'. rss_Shutdown (int i) srvs = Some srvs1 \<and>
    rss_Start n (int i) durable srvs1 = Some srvs2 \<and>
    rss_servers srvs2 = (rss_servers srvs)[i := Some srv'] \<and>
    rf_currentTerm (rs_rf srv') = rf_currentTerm (rs_rf srv) \<and> rf_votedFor (rs_rf srv') = rf_votedFor (rs_rf srv) \<and>
    rf_logs (rs_rf srv') = rf_logs (rs_rf srv) \<and> rf_startIndex (rs_rf srv') = rf_startIndex (rs_rf srv) \<and>
    (0 < rf_startIndex (rs_rf srv) \<longrightarrow> rf_snapshot (rs_rf srv') = rf_snapshot (rs_rf srv)) \<and>
    rf_peers (rs_rf srv') = n \<and> rs_files srv' = Map.empty \<and> \<not> rs_done srv'"
proof -
  let ?ps = "rf_persister (rf_Persist (rs_rf srv))"
  let ?srv' = "rs_StartServer n i (rp_Copy ?ps)"
  let ?s1 = "srvs\<lparr>rss_servers := (rss_servers srvs)[i := None], rss_saved := (rss_saved srvs)[i := Some (rp_Copy ?ps)]\<rparr>"
  have len: "length (rss_servers srvs) = n" "length (rss_saved srvs) = n" "rss_saved srvs ! i \<noteq> None"
    using rss_group_saved [OF assms(1)] assms(2,3) by auto
  then have s1: "rss_Shutdown (int i) srvs = Some ?s1"
    using assms(2-4) by (auto simp: rss_Shutdown_def rs_Kill_def rss_shared_def rf_Kill_def go_index_def go_store_def)
  let ?s2 = "srvs\<lparr>rss_servers := (rss_servers srvs)[i := Some ?srv'], rss_saved := (rss_saved srvs)[i := Some (rp_Copy ?ps)]\<rparr>"
  have s2: "rss_Start n (int i) durable ?s1 = Some ?s2"
    using assms(2) len by (simp add: rss_Start_def rss_start_persister_def go_index_def go_store_def)
  have "rf_currentTerm (rf_Make n i (rp_Copy ?ps)) = rf_currentTerm (rs_rf srv) \<and>
      rf_votedFor (rf_Make n i (rp_Copy ?ps)) = rf_votedFor (rs_rf srv) \<and>
      rf_logs (rf_Make n i (rp_Copy ?ps)) = rf_logs (rs_rf srv) \<and>
      rf_startIndex (rf_Make n i (rp_Copy ?ps)) = rf_startIndex (rs_rf srv) \<and>
      (0 < rf_startIndex (rs_rf srv) \<longrightarrow> rf_snapshot (rf_Make n i (rp_Copy ?ps)) = rf_snapshot (rs_rf srv)) \<and>
      rf_peers (rf_Make n i (rp_Copy ?ps)) = n"
    by (simp add: rf_Make_def rf_readPersist_def rp_ReadRaftState_def rp_Copy_def rp_MakePersister_def
        rp_ReadSnapshot_def rf_Persist_def rf_persistL_def rp_Save_def Let_def)
  then show ?thesis
    using s1 s2 by (intro exI [of _ ?s1] exI [of _ ?s2] exI [of _ ?srv']) (simp add: rs_StartServer_def)
qed

definition started_group :: RaftServers where
  "started_group = the (rss_Start 2 1 False (MakeRaftServers 2))"

definition running_server :: RaftServer where
  "running_server = (let srv = the (rss_servers started_group ! 1)
     in srv\<lparr>rs_rf := (rs_rf srv)\<lparr>rf_currentTerm := 4, rf_votedFor := 0\<rparr>\<rparr>)"

definition running_group :: RaftServers where
  "running_group = started_group\<lparr>rss_servers := (rss_servers started_group)[1 := Some running_server]\<rparr>"

lemma running_facts:
  "rss_Start 2 1 False (MakeRaftServers 2) \<noteq> None" "rss_servers started_group ! 1 \<noteq> None"
  "rss_servers running_group ! 1 = Some running_server" "\<not> rs_done running_server"
  "rf_currentTerm (rs_rf running_server) = 4" "rf_votedFor (rs_rf running_server) = 0"
  by (simp_all add: running_group_def running_server_def started_group_def rss_Start_def MakeRaftServers_def
      go_index_def go_store_def rss_start_persister_def rs_StartServer_def Let_def)

theorem raft_shutdown_start_witness:
  "\<exists>srvs1 srvs2 srv'. rss_Shutdown 1 running_group = Some srvs1 \<and> rss_Start 2 1 False srvs1 = Some srvs2 \<and>
     rss_servers srvs2 = (rss_servers running_group)[1 := Some srv'] \<and>
     rf_currentTerm (rs_rf srv') = 4 \<and> rf_votedFor (rs_rf srv') = 0"
proof -
  have "rss_group 2 started_group"
    using running_facts(1) rss_group.start [OF rss_group.make] by (auto simp: started_group_def)
  then have "rss_group 2 running_group"
    unfolding running_group_def using running_facts(2) by (auto intro: rss_group.serve)
  from raft_shutdown_start [OF this _ running_facts(3,4), of False] running_facts(5,6)
  show ?thesis by auto
qed

section \<open>Servers on Paxos\<close>

text \<open>
  The applier of the server at peer q, with the states of the group of peers in which its
  rounds take place.
\<close>

fun pv_applier :: "nat \<Rightarrow> command cluster list \<Rightarrow> PaxosServer \<Rightarrow> PaxosServer panics" where
  "pv_applier q [] srv = Some srv"
| "pv_applier q (s # ss) srv = do {
     (srv1, applied) \<leftarrow> pv_apply_round (srv\<lparr>pv_px := cl_px s q\<rparr>);
     pv_applier q ss srv1
   }"

definition value_ops :: "command option list \<Rightarrow> Op list" where
  "value_ops vs = List.map_filter (\<lambda>v. case v of Some (OpCommand op) \<Rightarrow> Some op | _ \<Rightarrow> None) vs"

lemma value_ops_Cons:
  "value_ops [] = []"
  "value_ops (v # vs) = (case v of Some (OpCommand op) \<Rightarrow> [op] | _ \<Rightarrow> []) @ value_ops vs"
  by (auto simp: value_ops_def List.map_filter_def split: option.splits command.splits)

lemma value_ops_append: "value_ops (vs @ us) = value_ops vs @ value_ops us"
  by (simp add: value_ops_def List.map_filter_def)

text \<open>The operations that clients may propose.\<close>

definition proposals_ok :: "command cluster \<Rightarrow> bool" where
  "proposals_ok t \<longleftrightarrow> (\<forall>(seq, v) \<in> cl_proposed t. \<forall>op. v = Some (OpCommand op) \<longrightarrow> op_ok op)"

lemma pv_px_irrelevant:
  "pv_table (srv\<lparr>pv_px := px\<rparr>) = pv_table srv" "pv_inv (srv\<lparr>pv_px := px\<rparr>) = pv_inv srv"
  "pv_table (srv\<lparr>pv_applied := k\<rparr>) = pv_table srv" "pv_inv (srv\<lparr>pv_applied := k\<rparr>) = pv_inv srv"
  by (auto simp: pv_table_def pv_inv_def)

lemma pv_applyOp_applied: "pv_applied (pv_applyOp op srv) = pv_applied srv"
  by (auto simp: pv_applyOp_def pv_apply_defs pv_put_def pv_updSessL_def Let_def
      split: Opcode.splits option.splits)

text \<open>One round: nothing happens, or the value of the next instance is executed.\<close>

lemma apply_round_cases:
  assumes "pv_apply_round srv = Some (srv', b)" and "pv_inv srv"
    and "\<And>op. px_Status (pv_applied srv) (pv_px srv) = Some (Decided, Some (OpCommand op)) \<Longrightarrow> op_ok op"
  shows "srv' = srv \<or> (\<exists>v. px_Status (pv_applied srv) (pv_px srv) = Some (Decided, v) \<and>
    pv_applied srv' = pv_applied srv + 1 \<and> pv_inv srv' \<and>
    pv_table srv' = spec_run (value_ops [v]) (pv_table srv))"
proof -
  obtain status v where st: "px_Status (pv_applied srv) (pv_px srv) = Some (status, v)"
    using assms(1) by (auto simp: pv_apply_round_def split: bind_splits)
  show ?thesis
  proof (cases "status = Decided")
    case True
    show ?thesis
    proof (cases "\<exists>op. v = Some (OpCommand op)")
      case op: True
      then obtain op where v: "v = Some (OpCommand op)" by blast
      have "srv' = (pv_applyOp op srv)\<lparr>pv_applied := pv_applied srv + 1\<rparr>"
        using assms(1) st True v by (simp add: pv_apply_round_def pv_applyOp_applied)
      then show ?thesis
        using st True v assms(2,3) paxos_lock.apply_inv paxos_lock.apply_table
        by (auto simp: pv_px_irrelevant value_ops_Cons)
    next
      case False
      then have "srv' = srv\<lparr>pv_applied := pv_applied srv + 1\<rparr>"
        using assms(1) st True by (auto simp: pv_apply_round_def split: option.splits command.splits)
      moreover have "value_ops [v] = []" using False by (auto simp: value_ops_Cons split: option.splits command.splits)
      ultimately show ?thesis using st True assms(2) by (auto simp: pv_px_irrelevant)
    qed
  qed (use assms(1) st in \<open>simp add: pv_apply_round_def\<close>)
qed

lemma applier_executes_chosen:
  assumes "pv_applier q ss srv = Some srv'" and "pv_inv srv"
    and "\<forall>s \<in> set ss. px_reachable N enable s \<and> px_step\<^sup>*\<^sup>* s t" and "q < N"
    and "\<forall>seq. nil_free t seq \<and> done_ok t seq" and "proposals_ok t" and "cl_inv t"
  shows "\<exists>vs. pv_applied srv' = pv_applied srv + int (length vs) \<and>
    (\<forall>i < length vs. chosen t (pv_applied srv + int i) (vs ! i)) \<and>
    pv_table srv' = spec_run (value_ops vs) (pv_table srv)"
  using assms(1-3)
proof (induction ss arbitrary: srv)
  case Nil
  then show ?case by (intro exI [of _ "[]"]) (simp add: value_ops_Cons)
next
  case (Cons s ss)
  let ?srv = "srv\<lparr>pv_px := cl_px s q\<rparr>"
  obtain srv1 b where r: "pv_apply_round ?srv = Some (srv1, b)" "pv_applier q ss srv1 = Some srv'"
    using Cons.prems(1) by (auto split: bind_splits)
  have ch: "chosen t (pv_applied srv) v" if "px_Status (pv_applied srv) (cl_px s q) = Some (Decided, v)" for v
    using moment_chosen [of N enable s t _ q] that Cons.prems(3) assms(4,5) by simp
  then have "op_ok op" if "px_Status (pv_applied ?srv) (pv_px ?srv) = Some (Decided, Some (OpCommand op))" for op
    using chosen_proposed [OF assms(7)] that assms(6) by (fastforce simp: proposals_ok_def)
  from apply_round_cases [OF r(1) _ this] Cons.prems(2)
  consider (idle) "srv1 = ?srv"
    | (exec) v where "px_Status (pv_applied srv) (cl_px s q) = Some (Decided, v)"
        "pv_applied srv1 = pv_applied srv + 1" "pv_inv srv1"
        "pv_table srv1 = spec_run (value_ops [v]) (pv_table srv)"
    by (auto simp: pv_px_irrelevant)
  then show ?case
  proof cases
    case idle
    then show ?thesis using Cons.IH [OF r(2)] Cons.prems(2,3) by (simp add: pv_px_irrelevant)
  next
    case exec
    then obtain vs where vs: "pv_applied srv' = pv_applied srv1 + int (length vs)"
      "\<forall>i < length vs. chosen t (pv_applied srv1 + int i) (vs ! i)"
      "pv_table srv' = spec_run (value_ops vs) (pv_table srv1)"
      using Cons.IH [OF r(2) exec(3)] Cons.prems(3) by auto
    have "chosen t (pv_applied srv + int i) ((v # vs) ! i)" if "i < length (v # vs)" for i
      using that vs(2) exec(2) ch [OF exec(1)] by (cases i) (auto simp: ac_simps)
    then show ?thesis
      using vs exec(2,4) by (intro exI [of _ "v # vs"]) (auto simp: value_ops_Cons)
  qed
qed

text \<open>Likewise on Paxos: what one server has executed further are the chosen values.\<close>

lemma paxos_servers_continue:
  assumes "pv_applier q ss srv = Some srv1" and "pv_applier q' ss' srv' = Some srv1'"
    and "pv_StartServer N q ps = Some (srv, ts)" and "pv_StartServer N q' ps' = Some (srv', ts')"
    and "\<forall>s \<in> set (ss @ ss'). px_reachable N enable s \<and> px_step\<^sup>*\<^sup>* s t" and "px_reachable N enable t"
    and "q < N" and "q' < N" and "\<forall>seq. nil_free t seq \<and> done_ok t seq" and "proposals_ok t"
    and "pv_applied srv1 \<le> pv_applied srv1'"
  shows "\<exists>vs. pv_applied srv1' = pv_applied srv1 + int (length vs) \<and>
    (\<forall>i < length vs. chosen t (pv_applied srv1 + int i) (vs ! i)) \<and>
    pv_table srv1' = spec_run (value_ops vs) (pv_table srv1)"
proof -
  have t: "cl_inv t" using reachable_cl_inv assms(6) by blast
  have st: "pv_inv srv" "pv_inv srv'" "pv_applied srv = 0" "pv_applied srv' = 0" "pv_table srv = pv_table srv'"
    using assms(3,4) by (auto simp: pv_StartServer_def pv_inv_def pv_table_def split: bind_splits)
  obtain vs where vs: "pv_applied srv1 = int (length vs)" "\<forall>i < length vs. chosen t (int i) (vs ! i)"
    "pv_table srv1 = spec_run (value_ops vs) (pv_table srv)"
    using applier_executes_chosen [where enable = enable, OF assms(1) st(1) _ assms(7,9,10) t] assms(5) st(3) by auto
  obtain us where us: "pv_applied srv1' = int (length us)" "\<forall>i < length us. chosen t (int i) (us ! i)"
    "pv_table srv1' = spec_run (value_ops us) (pv_table srv')"
    using applier_executes_chosen [where enable = enable, OF assms(2) st(2) _ assms(8,9,10) t] assms(5) st(4) by auto
  have len: "length vs \<le> length us" using vs(1) us(1) assms(11) by simp
  have "take (length vs) us = vs"
  proof (rule nth_equalityI)
    show "take (length vs) us ! i = vs ! i" if "i < length (take (length vs) us)" for i
      using chosen_unique [OF t, of "int i" "us ! i" "vs ! i"] assms(9) vs(2) us(2) that len by auto
  qed (use len in simp)
  then have split: "us = vs @ drop (length vs) us" by (metis append_take_drop_id)
  have "value_ops us = value_ops vs @ value_ops (drop (length vs) us)"
    by (subst split) (rule value_ops_append)
  then have "pv_table srv1' = spec_run (value_ops (drop (length vs) us)) (pv_table srv1)"
    using vs(3) us(3) st(5) by simp
  moreover have "\<forall>i < length (drop (length vs) us). chosen t (pv_applied srv1 + int i) (drop (length vs) us ! i)"
    using us(2) vs(1) len by (auto simp flip: of_nat_add)
  ultimately show ?thesis using vs(1) us(1) len by (intro exI [of _ "drop (length vs) us"]) simp
qed

text \<open>
  C4. Lock servers on Paxos agree: two servers whose appliers have worked through the same
  number of instances, each looking at its own peer at any moments of a run, have the same
  lock table, provided that no nil value entered an accept phase of the run. The lock server
  never calls Done (the call in applier.go is commented out), so that done_ok holds in every
  run of the servers. No peer is restarted.
\<close>

theorem paxos_servers_agree:
  assumes "pv_applier q ss srv = Some srv1" and "pv_applier q' ss' srv' = Some srv1'"
    and "pv_StartServer N q ps = Some (srv, ts)" and "pv_StartServer N q' ps' = Some (srv', ts')"
    and "\<forall>s \<in> set (ss @ ss'). px_reachable N enable s \<and> px_step\<^sup>*\<^sup>* s t" and "px_reachable N enable t"
    and "q < N" and "q' < N" and "\<forall>seq. nil_free t seq \<and> done_ok t seq" and "proposals_ok t"
    and "pv_applied srv1 = pv_applied srv1'"
  shows "pv_table srv1 = pv_table srv1'"
  using paxos_servers_continue [OF assms(1-10)] assms(11) by (auto simp: value_ops_Cons)

text \<open>
  Peers 0 and 2 learn that the first instance is the creation of a lock, which peer 0
  proposed; peer 2 had another creation in mind.
\<close>

definition cmd :: "int32 \<Rightarrow> command option" where
  "cmd sessid = Some (OpCommand (sample_op Create sessid 1 0))"

definition choose_run :: "command action list" where
  "choose_run =
     [ActAlloc 0 0 False, ActSpawn 0 0 0 (cmd 0), ActBegin 0, ActAlloc 1 0 True, ActPrepare 0 0 1 1,
      ActPrepareDone 0 [(1, \<lparr>pr_Code = RpcOk, pr_AcPr = 0, pr_Value = None\<rparr>)],
      ActAccept 0 0 1 (cmd 0) 1, ActAcceptDone 0 [(1, \<lparr>ar_Reply = RpcOk\<rparr>)], ActDecide 0 (cmd 0) 0,
      ActAlloc 2 0 True, ActSpawn 1 2 0 (cmd 2), ActBegin 1, ActPrepare 2 0 1 1,
      ActPrepareDone 1 [(1, \<lparr>pr_Code = LowPrepare, pr_AcPr = 1, pr_Value = None\<rparr>)],
      ActBegin 1, ActPrepare 2 0 2 1,
      ActPrepareDone 1 [(1, \<lparr>pr_Code = RpcOk, pr_AcPr = 1, pr_Value = cmd 0\<rparr>)],
      ActAccept 2 0 2 (cmd 0) 1, ActAcceptDone 1 [(1, \<lparr>ar_Reply = RpcOk\<rparr>)], ActDecide 0 (cmd 0) 2]"

definition choose_state :: "command cluster" where
  "choose_state = the (cl_run choose_run (cl_init 3 True))"

definition fresh_server :: "nat \<Rightarrow> PaxosServer" where
  "fresh_server q = fst (the (pv_StartServer 3 q (px_MakePersister True)))"

lemma fresh_start: "q < 3 \<Longrightarrow> pv_StartServer 3 q (px_MakePersister True) = Some (fresh_server q, [])"
  by (simp add: fresh_server_def pv_StartServer_def px_Make_def px_readPersist_def
      ps_ReadPaxosState_def px_MakePersister_def go_store_def)

lemma choose_facts:
  "cl_run choose_run (cl_init 3 True) \<noteq> None"
  "\<forall>(p, seq, n, w) \<in> cl_acceptReq choose_state. w \<noteq> None"
  "cl_early choose_state = {}"
  "cl_proposed choose_state = {(0, cmd 0), (0, cmd 2)}"
  "map_option pv_applied (pv_applier 0 [choose_state] (fresh_server 0)) = Some 1"
  "map_option pv_applied (pv_applier 2 [choose_state] (fresh_server 2)) = Some 1"
  "map_option (\<lambda>srv. pv_files srv ''/a'') (pv_applier 0 [choose_state] (fresh_server 0)) = Some (Some 0)"
  unfolding not_None_eq [symmetric] by code_simp+

theorem paxos_servers_agree_witness:
  "\<exists>srv srv'. pv_applier 0 [choose_state] (fresh_server 0) = Some srv \<and>
     pv_applier 2 [choose_state] (fresh_server 2) = Some srv' \<and> pv_table srv = pv_table srv' \<and>
     pv_files srv ''/a'' \<noteq> None"
proof -
  obtain srv where a: "pv_applier 0 [choose_state] (fresh_server 0) = Some srv" "pv_applied srv = 1"
    "pv_files srv ''/a'' = Some 0"
    using choose_facts(5,7) by auto
  obtain srv' where b: "pv_applier 2 [choose_state] (fresh_server 2) = Some srv'" "pv_applied srv' = 1"
    using choose_facts(6) by auto
  have reach: "px_reachable 3 True choose_state"
    using choose_facts(1) by (auto simp: choose_state_def intro: cl_run_reachable)
  have nil: "\<forall>seq. nil_free choose_state seq \<and> done_ok choose_state seq"
    using choose_facts(2,3) by (fastforce simp: nil_free_def done_ok_def)
  have "proposals_ok choose_state"
    by (simp add: proposals_ok_def choose_facts(4) cmd_def op_ok_def sample_op_def twin_def)
  then show ?thesis
    using paxos_servers_agree [OF a(1) b(1) fresh_start fresh_start _ reach _ _ nil] a b reach by auto
qed

end
