(* ===== verification/Client_Properties.thy ===== *)
theory Client_Properties
  imports Lock_Properties
begin

text \<open>
  The client: which identifiers sessions get, what the request loop sends and to whom,
  when it panics, and how the leases that clients rely on fit the leases that servers
  revoke.
\<close>

section \<open>Session identifiers\<close>

text \<open>The identifier counter after k calls of Init in the process.\<close>

primrec assigned :: "nat \<Rightarrow> int32" where
  "assigned 0 = assignedId0"
| "assigned (Suc k) = snd (sess_Init 0 ProtoRaft 0 (assigned k))"

lemma assigned_eq: "assigned k = 2 * of_nat k - 2"
  by (induction k) (simp_all add: assignedId0_def sess_Init_def Let_def algebra_simps)

lemma Init_sessid: "se_sessid (fst (sess_Init servers ptl refresh (assigned k))) = 2 * of_nat k"
  by (simp add: sess_Init_def Let_def assigned_eq)

lemma twin_even: "twin (2 * w) = 2 * w + 1" for w :: int32
  by (simp add: twin_def xor_one_eq)

lemma twin_odd: "twin (2 * w + 1) = 2 * w" for w :: int32
  by (simp add: twin_def xor_one_eq)

lemma double_word_unat:
  assumes "k < 2147483648"
  shows "unat (2 * of_nat k :: int32) = 2 * k" and "unat (2 * of_nat k + 1 :: int32) = 2 * k + 1"
proof -
  have eq: "(2 * of_nat k :: int32) = of_nat (2 * k)" "(2 * of_nat k + 1 :: int32) = of_nat (2 * k + 1)"
    by simp_all
  show "unat (2 * of_nat k :: int32) = 2 * k"
    using assms by (subst eq(1), subst unat_of_nat) simp
  show "unat (2 * of_nat k + 1 :: int32) = 2 * k + 1"
    using assms by (subst eq(2), subst unat_of_nat) simp
qed

lemma unat_free_mark: "unat (- 1 :: int32) = 4294967295"
  by (simp add: unsigned_minus_1_eq_mask mask_eq_exp_minus_1)

text \<open>
  C30. The k-th session of a process gets the even identifier 2 k; its keep-alive stream,
  whose identifier is one more, is the twin that Release and Extend look for; up to the
  wrap-around of the counter the identifiers of different sessions differ, and neither
  stream has the number -1 that marks a free file.
\<close>

theorem session_ids_fit:
  assumes "j < k" and "k < 2147483647"
    and "sess = fst (sess_Init n ptl refresh (assigned k))"
    and "sess' = fst (sess_Init n' ptl' refresh' (assigned j))"
    and "op_Sessid op \<in> {se_sessid sess, se_sessid sess + 1}"
  shows "se_sessid sess + 1 = twin (se_sessid sess) \<and> op_ok op \<and>
    {se_sessid sess, se_sessid sess + 1} \<inter> {se_sessid sess', se_sessid sess' + 1} = {}"
proof -
  have id: "se_sessid sess = 2 * of_nat k" "se_sessid sess' = 2 * of_nat j"
    using assms(3,4) by (simp_all add: Init_sessid)
  note u = double_word_unat [of k] double_word_unat [of j]
  have "(2 * of_nat k :: int32) \<noteq> - 1" "(2 * of_nat k + 1 :: int32) \<noteq> - 1"
    using u(1,2) assms(2) unat_free_mark by force+
  then have "op_ok op" using assms(5) by (auto simp: op_ok_def id twin_even twin_odd)
  moreover have "{2 * of_nat k, 2 * of_nat k + 1 :: int32} \<inter> {2 * of_nat j, 2 * of_nat j + 1} = {}"
  proof -
    have "x \<noteq> y" if "unat x \<noteq> unat y" for x y :: int32 using that by blast
    then show ?thesis using u assms(1,2) by auto
  qed
  ultimately show ?thesis by (simp add: id twin_even)
qed

theorem session_ids_fit_witness:
  "se_sessid (fst (sess_Init 3 ProtoRaft 4 (assigned 1))) = 2 \<and> twin 2 = 3 \<and>
   op_ok (sample_op Acquire 3 1 0)"
proof -
  let ?s = "fst (sess_Init 3 ProtoRaft 4 (assigned 1))"
  have id: "se_sessid ?s = 2" using Init_sessid [of 3 ProtoRaft 4 1] by simp
  have "se_sessid ?s + 1 = twin (se_sessid ?s) \<and> op_ok (sample_op Acquire 3 1 0) \<and>
    {se_sessid ?s, se_sessid ?s + 1} \<inter>
      {se_sessid (fst (sess_Init 3 ProtoRaft 4 (assigned 0))),
       se_sessid (fst (sess_Init 3 ProtoRaft 4 (assigned 0))) + 1} = {}"
    by (rule session_ids_fit [OF _ _ refl refl]) (simp_all add: sample_op_def sess_Init_def assignedId0_def Let_def)
  then show ?thesis by (simp add: sess_Init_def assignedId0_def Let_def)
qed

section \<open>The request loop\<close>

lemma request_args_Some:
  "request_args rid path sess = Some (sess1, args) \<longleftrightarrow>
   rid < length (se_seq sess) \<and>
   sess1 = sess\<lparr>se_seq := (se_seq sess)[rid := se_seq sess ! rid + 1]\<rparr> \<and>
   args = \<lparr>path_Path = path, path_Sessid = se_sessid sess + of_nat rid,
           path_Seq = se_seq sess ! rid + 1\<rparr>"
  by (auto simp: request_args_def go_index_def)

lemma request_server_bound: "request_server sess = Some i \<Longrightarrow> i < se_servers sess"
proof -
  assume a: "request_server sess = Some i"
  then have "0 < int (se_servers sess)" by (auto simp: request_server_def split: if_splits)
  from go_rem_bounds(1) [OF this] a show ?thesis
    by (auto simp: request_server_def Let_def nat_less_iff split: if_splits)
qed

text \<open>What every call of a run of the request loop carries, and when the loop ends.\<close>

definition call_ok ::
  "nat \<Rightarrow> string \<Rightarrow> string \<Rightarrow> int \<Rightarrow> Session \<Rightarrow> nat \<times> string \<times> PathArgs \<Rightarrow> bool" where
  "call_ok rid path function lo sess = (\<lambda>(i, f, a).
     i < se_servers sess \<and> f = function \<and> path_Path a = path \<and>
     path_Sessid a = se_sessid sess + of_nat rid \<and>
     lo \<le> path_Seq a \<and> path_Seq a \<le> se_seq sess ! rid)"

definition request_end :: "nat \<Rightarrow> Session \<Rightarrow> Session \<Rightarrow> bool" where
  "request_end rid sess sess' \<longleftrightarrow> se_servers sess' = se_servers sess \<and>
     se_sessid sess' = se_sessid sess \<and> se_alive sess' = se_alive sess \<and>
     length (se_seq sess') = length (se_seq sess) \<and> se_seq sess ! rid \<le> se_seq sess' ! rid \<and>
     (\<forall>r. r \<noteq> rid \<longrightarrow> se_seq sess' ! r = se_seq sess ! r)"

definition request_spec ::
  "nat \<Rightarrow> string \<Rightarrow> string \<Rightarrow> int \<Rightarrow> Session \<Rightarrow>
   Session \<times> (nat \<times> string \<times> PathArgs) list \<times> ErrReply option \<Rightarrow> bool" where
  "request_spec rid path function lo sess = (\<lambda>(sess', calls, reply).
     request_end rid sess sess' \<and> (\<forall>c \<in> set calls. call_ok rid path function lo sess' c) \<and>
     sorted (map (\<lambda>(i, f, a). path_Seq a) calls) \<and>
     (\<forall>r. reply = Some r \<longrightarrow> er_Result r \<noteq> WrongLeader \<and> er_Result r \<noteq> RepeatedRequest))"

text \<open>The four ways a call ends: closed, tried again, sent with a new number, answered.\<close>

lemma request_loop_cases:
  assumes "request_loop rid path function args retry (ev # evs) sess = Some (sess', cs, reply)"
  obtains i calls where "i < se_servers sess" "cs = (i, function, args) # calls"
    "(\<exists>n. request_loop rid path function args n evs (sess\<lparr>se_leader := se_leader sess + 1\<rparr>) =
        Some (sess', calls, reply)) \<or>
     (\<exists>sess1 args1 n. request_args rid path sess = Some (sess1, args1) \<and>
        request_loop rid path function args1 n evs sess1 = Some (sess', calls, reply)) \<or>
     sess' \<in> {sess, sess\<lparr>se_leader := se_leader sess + 1\<rparr>} \<and> calls = [] \<and>
        (\<exists>r. reply = Some r \<and> er_Result r \<noteq> WrongLeader \<and> er_Result r \<noteq> RepeatedRequest)"
proof -
  let ?s1 = "sess\<lparr>se_leader := se_leader sess + 1\<rparr>"
  let ?again = "if retry - 1 = 0 then
      if ce_closed ev then Some (?s1, [], Some (err_result Terminated))
      else request_loop rid path function args (int (se_servers sess)) evs ?s1
    else request_loop rid path function args (retry - 1) evs ?s1"
  let ?new = "do { (sess1, args1) \<leftarrow> request_args rid path sess;
    request_loop rid path function args1 (int (se_servers sess)) evs sess1 }"
  define body where "body = (case ce_reply ev of None \<Rightarrow> ?again
    | Some r \<Rightarrow> if er_Result r = RepeatedRequest then ?new
        else if er_Result r \<noteq> WrongLeader then Some (sess, [], Some r) else ?again)"
  have "request_loop rid path function args retry (ev # evs) sess = do {
      i \<leftarrow> request_server sess; (s, c, r) \<leftarrow> body; Some (s, (i, function, args) # c, r) }"
    by (simp add: body_def Let_def)
  with assms obtain i calls where i: "request_server sess = Some i"
    "cs = (i, function, args) # calls" "body = Some (sess', calls, reply)"
    by (auto simp del: request_loop.simps split: bind_splits)
  from i(3) consider "?again = Some (sess', calls, reply)" | "?new = Some (sess', calls, reply)"
    | r where "er_Result r \<noteq> WrongLeader" "er_Result r \<noteq> RepeatedRequest" "sess' = sess"
        "calls = []" "reply = Some r"
    unfolding body_def by (auto split: option.splits if_splits)
  then show thesis
  proof cases
    case 1
    then show thesis
      by (intro that [OF request_server_bound [OF i(1)] i(2)]) (auto split: if_splits)
  next
    case 2
    then show thesis
      by (intro that [OF request_server_bound [OF i(1)] i(2)]) (auto split: bind_splits)
  next
    case 3
    then show thesis by (intro that [OF request_server_bound [OF i(1)] i(2)]) auto
  qed
qed

lemma request_spec_Cons:
  assumes "request_spec rid path function lo sess1 (sess', calls, reply)"
    and "request_end rid sess sess1" and "i < se_servers sess" and "path_Seq args \<le> lo"
    and "path_Path args = path" "path_Sessid args = se_sessid sess + of_nat rid"
      "path_Seq args = se_seq sess ! rid"
  shows "request_spec rid path function (path_Seq args) sess (sess', (i, function, args) # calls, reply)"
  using assms by (fastforce simp: request_spec_def request_end_def call_ok_def)

lemma request_loop_spec:
  assumes "request_loop rid path function args retry evs sess = Some (sess', calls, reply)"
    and "rid < length (se_seq sess)" and "path_Path args = path"
    and "path_Sessid args = se_sessid sess + of_nat rid" and "path_Seq args = se_seq sess ! rid"
  shows "request_spec rid path function (path_Seq args) sess (sess', calls, reply)"
  using assms
proof (induction evs arbitrary: args retry sess calls)
  case Nil
  then show ?case by (auto simp: request_spec_def request_end_def)
next
  case (Cons ev evs)
  have leader: "request_end rid sess (sess\<lparr>se_leader := l\<rparr>)" for l
    by (simp add: request_end_def)
  note here = request_spec_Cons [OF _ _ _ _ Cons.prems(3-5)]
  from Cons.prems(1) show ?case
  proof (rule request_loop_cases, elim disjE exE conjE)
    fix i cs n
    assume i: "i < se_servers sess" "calls = (i, function, args) # cs"
      and l: "request_loop rid path function args n evs (sess\<lparr>se_leader := se_leader sess + 1\<rparr>) =
        Some (sess', cs, reply)"
    show ?case unfolding i(2)
      by (rule here [OF Cons.IH [OF l] leader i(1)]) (use Cons.prems in simp_all)
  next
    fix i cs sess1 args1 n
    assume i: "i < se_servers sess" "calls = (i, function, args) # cs"
      and a: "request_args rid path sess = Some (sess1, args1)"
      and l: "request_loop rid path function args1 n evs sess1 = Some (sess', cs, reply)"
    have end1: "request_end rid sess sess1"
      using a Cons.prems(2) by (auto simp: request_args_Some request_end_def)
    have "request_spec rid path function (path_Seq args1) sess1 (sess', cs, reply)"
      using a Cons.prems(2) by (intro Cons.IH [OF l]) (auto simp: request_args_Some)
    from here [OF this end1 i(1)] i(2) a Cons.prems(5) show ?case by (simp add: request_args_Some)
  next
    fix i cs r
    assume "i < se_servers sess" "calls = (i, function, args) # cs" "cs = []" "reply = Some r"
      "er_Result r \<noteq> WrongLeader" "er_Result r \<noteq> RepeatedRequest"
      "sess' \<in> {sess, sess\<lparr>se_leader := se_leader sess + 1\<rparr>}"
    then show ?case using Cons.prems(3-5)
      by (auto simp: request_spec_def request_end_def call_ok_def)
  qed
qed

text \<open>
  C27. Every call that Request makes goes to an existing server, with the path it was given
  and the identifier of its stream; its numbers are new for the stream and never decrease
  from call to call; the other stream of the session keeps its number. An answer that
  Request returns is never WrongLeader and never RepeatedRequest.
\<close>

theorem request_numbers_fresh:
  assumes "sess_Request rid path function evs sess = Some (sess', calls, reply)"
  shows "(\<forall>(i, f, a) \<in> set calls. i < se_servers sess \<and> f = function \<and> path_Path a = path \<and>
      path_Sessid a = se_sessid sess + of_nat rid \<and>
      se_seq sess ! rid < path_Seq a \<and> path_Seq a \<le> se_seq sess' ! rid) \<and>
    sorted (map (\<lambda>(i, f, a). path_Seq a) calls) \<and> se_seq sess ! rid < se_seq sess' ! rid \<and>
    (\<forall>r. r \<noteq> rid \<longrightarrow> se_seq sess' ! r = se_seq sess ! r) \<and> se_alive sess' = se_alive sess \<and>
    (\<forall>r. reply = Some r \<longrightarrow> er_Result r \<notin> {WrongLeader, RepeatedRequest})"
proof -
  obtain sess1 args where a: "request_args rid path sess = Some (sess1, args)"
    and l: "request_loop rid path function args (int (se_servers sess)) evs sess1 =
      Some (sess', calls, reply)"
    using assms by (auto simp: sess_Request_def split: bind_splits)
  have "request_spec rid path function (path_Seq args) sess1 (sess', calls, reply)"
    using a by (intro request_loop_spec [OF l]) (auto simp: request_args_Some)
  with a show ?thesis
    by (fastforce simp: request_args_Some request_spec_def request_end_def call_ok_def)
qed

definition sample_session :: Session where
  "sample_session = fst (sess_Init 3 ProtoRaft 4 assignedId0)"

definition sample_events :: "call_event list" where
  "sample_events = [\<lparr>ce_reply = None, ce_closed = False\<rparr>,
     \<lparr>ce_reply = Some (err_result RepeatedRequest), ce_closed = False\<rparr>,
     \<lparr>ce_reply = Some (err_result OK), ce_closed = False\<rparr>]"

theorem request_numbers_fresh_witness:
  "\<exists>sess' calls. sess_Request 0 ''/a'' ''RaftServer.Create'' sample_events sample_session =
      Some (sess', calls, Some (err_result OK)) \<and> length calls = 3 \<and>
    sorted (map (\<lambda>(i, f, a). path_Seq a) calls)"
proof -
  let ?r = "sess_Request 0 ''/a'' ''RaftServer.Create'' sample_events sample_session"
  have r: "snd (snd (the ?r)) = Some (err_result OK)" "length (fst (snd (the ?r))) = 3" "?r \<noteq> None"
    by code_simp+
  then obtain sess' calls where
    run: "?r = Some (sess', calls, Some (err_result OK))" "length calls = 3" by auto
  show ?thesis using run request_numbers_fresh [OF run(1)] by blast
qed

section \<open>Trying the servers in turn\<close>

definition failed_call :: "call_event \<Rightarrow> bool" where
  "failed_call ev \<longleftrightarrow> (case ce_reply ev of None \<Rightarrow> True | Some r \<Rightarrow> er_Result r = WrongLeader)"

lemma request_server_nonneg:
  assumes "0 \<le> sint (se_leader sess)" and "0 < se_servers sess"
  shows "request_server sess = Some (nat (sint (se_leader sess)) mod se_servers sess)"
  using assms by (simp add: request_server_def Let_def go_rem_nonneg nat_mod_distrib)

lemma sint_plus_one:
  assumes "0 \<le> sint l" and "sint l + 1 < 2147483648"
  shows "sint (l + 1 :: int32) = sint l + 1"
  using assms by (simp add: sint_word_add signed_take_bit_int_eq_self)

lemma request_loop_turns:
  assumes "\<forall>ev \<in> set evs. failed_call ev" and "int (length evs) \<le> retry"
    and "0 < se_servers sess" and "0 \<le> sint (se_leader sess)"
    and "sint (se_leader sess) + int (length evs) < 2147483648"
  shows "\<exists>sess' reply. request_loop rid path function args retry evs sess =
    Some (sess', map (\<lambda>k. ((nat (sint (se_leader sess)) + k) mod se_servers sess, function, args))
      [0..<length evs], reply)"
  using assms
proof (induction evs arbitrary: retry sess)
  case (Cons ev evs)
  let ?s1 = "sess\<lparr>se_leader := se_leader sess + 1\<rparr>"
  let ?i = "\<lambda>k. ((nat (sint (se_leader sess)) + k) mod se_servers sess, function, args)"
  have srv: "request_server sess = Some (nat (sint (se_leader sess)) mod se_servers sess)"
    using Cons.prems(3,4) by (rule request_server_nonneg [rotated])
  have next1: "sint (se_leader sess + 1) = sint (se_leader sess) + 1"
    using Cons.prems(4,5) by (intro sint_plus_one) auto
  have IH: "\<exists>sess' reply. request_loop rid path function args n evs ?s1 =
      Some (sess', map (\<lambda>k. ?i (Suc k)) [0..<length evs], reply)" if "int (length evs) \<le> n" for n
    using Cons.IH [of n ?s1] that Cons.prems next1 by (simp add: nat_add_distrib)
  have shift: "map ?i [0..<length (ev # evs)] = ?i 0 # map (\<lambda>k. ?i (Suc k)) [0..<length evs]"
    by (simp add: upt_conv_Cons flip: map_Suc_upt del: upt_Suc)
  have none: "evs = []" if "retry = 1" using Cons.prems(2) that by simp
  have fail: "ce_reply ev = None \<or> (\<exists>r. ce_reply ev = Some r \<and> er_Result r = WrongLeader)"
    using Cons.prems(1) by (auto simp: failed_call_def split: option.splits)
  show ?case
    using fail IH [of "retry - 1"] Cons.prems(2) none unfolding shift
    by (auto simp: srv Let_def)
qed auto

lemma rotate_mod_inj: "inj_on (\<lambda>k. (a + k) mod n) {..<n::nat}"
proof (rule linorder_inj_onI')
  fix j k
  assume jk: "j \<in> {..<n}" "k \<in> {..<n}" "j < k"
  show "(a + j) mod n \<noteq> (a + k) mod n"
  proof
    assume "(a + j) mod n = (a + k) mod n"
    then have "n dvd (a + k) - (a + j)" using jk by (metis mod_eq_dvd_iff_nat add_left_mono less_imp_le)
    then have "n dvd k - j" by simp
    with jk show False by (meson dvd_imp_le lessThan_iff less_imp_diff_less not_le zero_less_diff)
  qed
qed

lemma rotate_mod_image: "0 < n \<Longrightarrow> (\<lambda>k. (a + k) mod n) ` {..<n} = {..<n::nat}"
  using rotate_mod_inj by (intro endo_inj_surj) auto

text \<open>
  C28. When as many calls in a row fail or find the wrong leader as there are servers,
  Request has tried every server once, as long as the counter has not reached its limit.
\<close>

theorem request_tries_every_server:
  assumes "\<forall>ev \<in> set evs. failed_call ev" and "length evs = se_servers sess"
    and "0 < se_servers sess" and "rid < length (se_seq sess)"
    and "0 \<le> sint (se_leader sess)"
    and "sint (se_leader sess) + int (se_servers sess) < 2147483648"
  shows "\<exists>sess' calls reply. sess_Request rid path function evs sess = Some (sess', calls, reply) \<and>
    distinct (map fst calls) \<and> set (map fst calls) = {..<se_servers sess}"
proof -
  obtain sess1 args where a: "request_args rid path sess = Some (sess1, args)"
    using assms(4) by (simp add: request_args_def go_index_def)
  have same: "se_servers sess1 = se_servers sess" "se_leader sess1 = se_leader sess"
    using a by (auto simp: request_args_Some)
  let ?l = "nat (sint (se_leader sess))"
  let ?calls = "map (\<lambda>k. ((?l + k) mod se_servers sess, function, args)) [0..<se_servers sess]"
  obtain sess' reply where loop:
    "request_loop rid path function args (int (se_servers sess)) evs sess1 = Some (sess', ?calls, reply)"
    using request_loop_turns [OF assms(1), of "int (se_servers sess)" sess1 rid path "function" args]
      assms same by auto
  have fst: "map fst ?calls = map (\<lambda>k. (?l + k) mod se_servers sess) [0..<se_servers sess]"
    by (simp add: o_def)
  have "distinct (map fst ?calls)" "set (map fst ?calls) = {..<se_servers sess}"
    using rotate_mod_inj [of ?l "se_servers sess"] rotate_mod_image [OF assms(3), of ?l]
    unfolding fst by (simp_all add: distinct_map lessThan_atLeast0)
  moreover have "sess_Request rid path function evs sess = Some (sess', ?calls, reply)"
    using a loop by (simp add: sess_Request_def)
  ultimately show ?thesis by blast
qed

theorem request_tries_every_server_witness:
  "\<exists>sess' calls reply. sess_Request 0 ''/a'' ''RaftServer.Create''
      (replicate 3 \<lparr>ce_reply = None, ce_closed = False\<rparr>) sample_session = Some (sess', calls, reply) \<and>
    set (map fst calls) = {..<3}"
  using request_tries_every_server [of "replicate 3 \<lparr>ce_reply = None, ce_closed = False\<rparr>"
      sample_session 0 "''/a''" "''RaftServer.Create''"]
  by (auto simp add: sample_session_def sess_Init_def Let_def failed_call_def)

text \<open>
  The counter is an int32 that wraps around: a session that has failed over
  2147483647 times panics with a negative index on the call after its next failure.
\<close>

theorem request_counter_overflow:
  "sess_Request 0 ''/a'' ''RaftServer.Create''
     [\<lparr>ce_reply = None, ce_closed = False\<rparr>, \<lparr>ce_reply = None, ce_closed = False\<rparr>]
     (sample_session\<lparr>se_leader := 2147483647\<rparr>) = None"
  by code_simp

section \<open>Leases\<close>

lemma IsHolding_lease:
  "sess_IsHolding path looks = Some (alive', True) \<Longrightarrow>
   \<exists>now alive lease. (now, alive) \<in> set looks \<and> alive path = Some lease \<and> now \<le> lease"
proof (induction path looks rule: sess_IsHolding.induct)
  case (2 path now alive looks)
  show ?case
  proof (cases "alive path")
    case (Some lease)
    show ?thesis
    proof (cases "now \<le> lease")
      case True
      then show ?thesis using Some by (metis list.set_intros(1))
    next
      case False
      have grace: "\<not> now > lease + GracePeriod" using "2.prems" Some False by auto
      have "sess_IsHolding path looks = Some (alive', True)"
        using "2.prems" Some False grace by simp
      from "2.IH" [OF Some False grace this] obtain n a l where
        "(n, a) \<in> set looks" "a path = Some l" "n \<le> l" by blast
      then show ?thesis by (intro exI [of _ n] exI [of _ a] exI [of _ l]) simp
    qed
  qed (use "2.prems" in simp)
qed simp

lemma set_map_filter: "y \<in> set (List.map_filter f xs) \<longleftrightarrow> (\<exists>x \<in> set xs. f x = Some y)"
  by (induction xs) (auto split: option.splits)

lemma rs_checkLeaseL_late:
  assumes "op \<in> set (rs_checkLeaseL order now srv)"
  shows "op_Lease op + GracePeriod < now"
proof -
  obtain path fl where "rs_files srv path = Some fl" "file_Lease fl + GracePeriod < now"
    "op = \<lparr>op_Code = Revoke, op_Path = path, op_Sessid = file_Sessid fl, op_Seq = 0,
      op_Lease = file_Lease fl\<rparr>"
    using assms unfolding rs_checkLeaseL_def set_map_filter
    by (elim bexE) (simp split: option.split_asm if_split_asm)
  then show ?thesis by simp
qed

lemma pv_checkLease_late:
  assumes "(r, op) \<in> set (pv_checkLease order now srv)"
  shows "op_Lease op + GracePeriod < now"
proof -
  obtain path where "pv_files srv path = Some r"
    "file_Lease (pv_fheap srv r) + GracePeriod < now"
    "op = \<lparr>op_Code = Revoke, op_Path = path, op_Sessid = file_Sessid (pv_fheap srv r), op_Seq = 0,
      op_Lease = file_Lease (pv_fheap srv r)\<rparr>"
    using assms unfolding pv_checkLease_def set_map_filter
    by (elim bexE) (simp add: Let_def split: option.split_asm if_split_asm)
  then show ?thesis by simp
qed

text \<open>
  C29. Leases leave a safety margin: when IsHolding has answered true under a lease and a
  server revokes the lock under that same lease, the server's clock shows more than the
  grace period of six seconds later than the client's clock did.
\<close>

theorem lease_margin:
  assumes "sess_IsHolding path [(now, alive)] = Some (alive', True)" and "alive path = Some lease"
    and "op \<in> set (rs_checkLeaseL order now' srv) \<or> (r, op) \<in> set (pv_checkLease order now' psrv)"
    and "op_Lease op = lease"
  shows "now + 6 < now'"
proof -
  have "now \<le> lease" using IsHolding_lease [OF assms(1)] assms(2) by auto
  moreover have "lease + GracePeriod < now'" using assms(3,4) rs_checkLeaseL_late pv_checkLease_late by blast
  ultimately show ?thesis by (simp add: GracePeriod_def DefaultLease_def)
qed

theorem lease_margin_witness:
  "sample_op Revoke 0 0 12 \<in> set (rs_checkLeaseL [''/a''] 19 sample_woken) \<and> (12::int) + 6 < 19"
proof -
  have r: "sample_op Revoke 0 0 12 \<in> set (rs_checkLeaseL [''/a''] 19 sample_woken)"
    by code_simp
  have "sess_IsHolding ''/a'' [(12, [''/a'' \<mapsto> 12])] = Some ([''/a'' \<mapsto> 12], True)" by simp
  from lease_margin [OF this _ disjI1 [OF r]] r show ?thesis by (simp add: sample_op_def)
qed

section \<open>Answers of a Paxos server that shuts down\<close>

text \<open>
  A Paxos server that is shut down while Create waits for its operation answers OK,
  although the operation has not been executed and the file does not exist.
\<close>

theorem paxos_shutdown_answers_OK:
  "\<exists>lefts srv. pv_Create sample_args [\<lparr>wk_closed = True, wk_srv = sample_paxos\<rparr>] sample_paxos =
      Some (lefts, Some (srv, err_result OK)) \<and>
    pv_files srv ''/a'' = None \<and> seq_of (pv_sessions srv) 0 = 0"
proof -
  let ?r = "pv_Create sample_args [\<lparr>wk_closed = True, wk_srv = sample_paxos\<rparr>] sample_paxos"
  have "?r \<noteq> None" "map_option snd (snd (the ?r)) = Some (err_result OK)"
    "map_option (\<lambda>(srv, r). pv_files srv ''/a'') (snd (the ?r)) = Some None"
    "map_option (\<lambda>(srv, r). seq_of (pv_sessions srv) 0) (snd (the ?r)) = Some 0"
    by code_simp+
  then show ?thesis by auto
qed

end
