(* ===== verification/Service_Locks.thy ===== *)
theory Service_Locks
  imports Service Client_Properties
begin

text \<open>
  What clients of the lock service can rely on, from the answers of the handlers down to
  the consensus package: two sessions that were told that they hold the same lock got it
  one after the other, and a lock is kept for its holder until the lease in the answer has
  run out and the grace period after it.
\<close>

section \<open>Servers on Raft\<close>

lemma Acquire_OK_holds:
  assumes "rs_Acquire now args wakes srv0 = (lefts, Some (srv, \<lparr>er_Result = OK, er_Lease = l\<rparr>))"
    and "path_Sessid args \<noteq> - 1"
  shows "ls_locks (rs_table srv) (path_Path args) = Some (Held (path_Sessid args) l)"
proof -
  have "rs_files srv (path_Path args) = Some \<lparr>file_Sessid = path_Sessid args, file_Lease = l\<rparr>"
    using assms(1) by (auto simp: rs_Acquire_def split: prod.splits if_splits option.splits)
  then show ?thesis using assms(2) by (simp add: rs_table_def file_lock_def)
qed

text \<open>
  C5. Mutual exclusion on Raft, from answer to answer: two handlers, at any two servers and
  at any two times of a run, answer OK to Acquire of the same path by two different sessions,
  each in a state in which its server has executed what its peer had delivered. A peer
  delivers its messages one by one, so that the answer may come between any two messages of a
  batch. Then the server with more commands has among the further ones a release or
  revocation of the lock of the first session and, after it, an Acquire of the second.
\<close>

theorem raft_mutual_exclusion:
  assumes "rf_reachable N enable s" and "rf_reachable N enable t"
    and "rf_step\<^sup>*\<^sup>* s t \<or> rf_step\<^sup>*\<^sup>* t s" and "q < N" and "q' < N"
    and "length (rn_applied s q) \<le> length (rn_applied t q')"
    and "\<forall>op \<in> set (msg_ops (rn_applied t q')). op_ok op"
    and "rs_Acquire now args wakes srv0 = (lefts, Some (srv, \<lparr>er_Result = OK, er_Lease = l\<rparr>))"
    and "rs_table srv = rs_table (rs_applier (rn_applied s q) (rs_StartServer N q ps))"
    and "rs_Acquire now' args' wakes' srv0' = (lefts', Some (srv', \<lparr>er_Result = OK, er_Lease = l'\<rparr>))"
    and "rs_table srv' = rs_table (rs_applier (rn_applied t q') (rs_StartServer N q' ps'))"
    and "path_Path args = path" and "path_Path args' = path"
    and "path_Sessid args \<noteq> - 1" and "path_Sessid args' \<noteq> - 1"
    and "path_Sessid args \<noteq> path_Sessid args'"
  shows "passed_on (msg_ops (drop (length (rn_applied s q)) (rn_applied t q'))) path
    (path_Sessid args) (path_Sessid args')"
proof -
  have "holds (rs_table srv) path (path_Sessid args)"
    using Acquire_OK_holds [OF assms(8,14)] assms(12) by (auto simp: holds_def)
  moreover have "holds (rs_table srv') path (path_Sessid args')"
    using Acquire_OK_holds [OF assms(10,15)] assms(13) by (auto simp: holds_def)
  moreover have "rs_table srv' =
      spec_run (msg_ops (drop (length (rn_applied s q)) (rn_applied t q'))) (rs_table srv)"
    using servers_continue [OF assms(1-7), of ps' ps] assms(9,11) by simp
  ultimately show ?thesis using run_handover assms(16) unfolding passed_on_def by metis
qed

text \<open>
  Peer 0 becomes the leader and gets operations committed with the help of peer 1: session 0
  creates and takes a lock; then it releases it and session 2 takes it. In batch_state the
  four operations are one batch, of which the first k messages have been delivered.
\<close>

definition op_entry :: "Op \<Rightarrow> command Log" where
  "op_entry op = \<lparr>lg_Term = 1, lg_Command = Some (OpCommand op)\<rparr>"

definition ops_request :: "int \<Rightarrow> int \<Rightarrow> Op list \<Rightarrow> command AppendEntriesArgs" where
  "ops_request prevTerm prev ops = \<lparr>ae_Term = 1, ae_PrevLogTerm = prevTerm, ae_PrevLogIndex = prev,
     ae_Entries = map op_entry ops, ae_LeaderCommit = prev + 1\<rparr>"

definition commit_ops :: "int \<Rightarrow> int \<Rightarrow> Op list \<Rightarrow> command rf_action list" where
  "commit_ops prevTerm prev ops =
     map (\<lambda>op. RStart 0 0 (Some (OpCommand op))) ops @
     [RSend 0 1 1, RAppend 0 1 (ops_request prevTerm prev ops) (prev + 1),
      RAppendReply 0 1 (ops_request prevTerm prev ops) (prev + 1) (ae_accept 1),
      RCommit 0 1, RCommit 0 1, RApply 0]"

definition lead_run :: "command rf_action list" where
  "lead_run = replicate 7 (RTick 0) @ [RCampaign 0, RVote (rdemo_vote 1 0 0 0) 1,
     RElect (rdemo_vote 1 0 0 0) [(1, ElSuccess)]]"

definition take_run :: "command rf_action list" where
  "take_run = lead_run @ commit_ops 0 0 sample_take @ [RDeliver 0, RDeliver 0]"

definition batch_run :: "nat \<Rightarrow> command rf_action list" where
  "batch_run k = lead_run @ commit_ops 0 0 (sample_take @ sample_pass) @ replicate k (RDeliver 0)"

definition take_state :: "command rnet" where
  "take_state = the (rx_run take_run (rn_init 3 True))"

definition batch_state :: "nat \<Rightarrow> command rnet" where
  "batch_state k = the (rx_run (batch_run k) (rn_init 3 True))"

definition later_state :: "Op list \<Rightarrow> command rnet" where
  "later_state ops =
     the (rx_run (commit_ops 1 2 ops @ replicate (length ops) (RDeliver 0)) take_state)"

lemma take_facts:
  "rx_run take_run (rn_init 3 True) \<noteq> None"
  "msg_ops (rn_applied take_state 0) = sample_take"
  "length (rn_applied take_state 0) = 2"
  unfolding not_None_eq [symmetric] by code_simp+

lemma batch_facts:
  "rx_run (batch_run 2) (rn_init 3 True) \<noteq> None"
  "rx_run [RDeliver 0, RDeliver 0] (batch_state 2) \<noteq> None"
  "msg_ops (rn_applied (batch_state 2) 0) = sample_take"
  "msg_ops (rn_applied (batch_state 4) 0) = sample_take @ sample_pass"
  "length (rn_applied (batch_state 2) 0) = 2"
  "length (rn_applied (batch_state 4) 0) = 4"
  unfolding not_None_eq [symmetric] by code_simp+

lemma batch_reachable:
  "rf_reachable 3 True (batch_state 2)" "rf_step\<^sup>*\<^sup>* (batch_state 2) (batch_state 4)"
proof -
  show "rf_reachable 3 True (batch_state 2)"
    using batch_facts(1) steps_reachable [OF rx_run_steps rf_reachable.init, of "batch_run 2" 3 True]
    by (auto simp: batch_state_def)
  have "batch_run 4 = batch_run 2 @ [RDeliver 0, RDeliver 0]"
    by (simp add: batch_run_def eval_nat_numeral)
  then have "batch_state 4 = the (rx_run [RDeliver 0, RDeliver 0] (batch_state 2))"
    using batch_facts(1) by (auto simp: batch_state_def rx_run_append)
  then show "rf_step\<^sup>*\<^sup>* (batch_state 2) (batch_state 4)"
    using batch_facts(2) rx_run_steps [of "[RDeliver 0, RDeliver 0]" "batch_state 2"] by auto
qed

lemma take_reachable: "rf_reachable 3 True take_state"
  using take_facts(1) steps_reachable [OF rx_run_steps rf_reachable.init, of take_run 3 True]
  by (auto simp: take_state_def)

lemma after_take:
  assumes "rx_run (commit_ops 1 2 ops @ replicate (length ops) (RDeliver 0)) take_state \<noteq> None"
  shows "rf_step\<^sup>*\<^sup>* take_state (later_state ops)" and "rf_reachable 3 True (later_state ops)"
  using assms rx_run_steps [of _ take_state] steps_reachable [OF _ take_reachable]
  by (auto simp: later_state_def)

lemma Acquire_wakes:
  "rs_Acquire now args wakes srv0 = (lefts, Some (srv, \<lparr>er_Result = OK, er_Lease = l\<rparr>)) \<Longrightarrow> srv \<in> set wakes"
  by (auto simp: rs_Acquire_def split: prod.splits if_splits option.splits dest: rs_operateL_applied)

text \<open>A handler that wakes up once its server has executed these operations.\<close>

lemma Acquire_answers:
  assumes "map_option snd (snd (rs_Acquire now args [srv] srv0)) = Some \<lparr>er_Result = OK, er_Lease = l\<rparr>"
  shows "\<exists>lefts. rs_Acquire now args [srv] srv0 = (lefts, Some (srv, \<lparr>er_Result = OK, er_Lease = l\<rparr>))"
proof -
  obtain lefts srv' where a: "rs_Acquire now args [srv] srv0 = (lefts, Some (srv', \<lparr>er_Result = OK, er_Lease = l\<rparr>))"
    using assms by (cases "rs_Acquire now args [srv] srv0") auto
  with Acquire_wakes [OF a] show ?thesis by auto
qed

definition other_args :: PathArgs where
  "other_args = \<lparr>path_Path = ''/a'', path_Sessid = 2, path_Seq = 1\<rparr>"

lemma sample_answers:
  "map_option snd (snd (rs_Acquire 0 sample_args [fold rs_applyOp sample_take sample_raft] sample_leader)) =
     Some \<lparr>er_Result = OK, er_Lease = 12\<rparr>"
  "map_option snd (snd (rs_Acquire 8000 other_args [fold rs_applyOp (sample_take @ sample_pass) sample_raft]
     sample_leader)) = Some \<lparr>er_Result = OK, er_Lease = 20\<rparr>"
  by code_simp+

theorem raft_mutual_exclusion_witness:
  "passed_on (msg_ops (drop 2 (rn_applied (batch_state 4) 0))) ''/a'' 0 2"
proof -
  let ?s = "batch_state 2" and ?t = "batch_state 4"
  note s = batch_reachable
  obtain lefts lefts' where
    a: "rs_Acquire 0 sample_args [fold rs_applyOp sample_take sample_raft] sample_leader =
      (lefts, Some (fold rs_applyOp sample_take sample_raft, \<lparr>er_Result = OK, er_Lease = 12\<rparr>))" and
    b: "rs_Acquire 8000 other_args [fold rs_applyOp (sample_take @ sample_pass) sample_raft] sample_leader =
      (lefts', Some (fold rs_applyOp (sample_take @ sample_pass) sample_raft, \<lparr>er_Result = OK, er_Lease = 20\<rparr>))"
    using sample_answers [THEN Acquire_answers] by blast
  have ok: "\<forall>op \<in> set (msg_ops (rn_applied ?t 0)). op_ok op" using sample_ok batch_facts(4) by simp
  have "rs_table (fold rs_applyOp sample_take sample_raft) =
      rs_table (rs_applier (rn_applied ?s 0) (rs_StartServer 3 0 (rp_MakePersister True)))"
    "rs_table (fold rs_applyOp (sample_take @ sample_pass) sample_raft) =
      rs_table (rs_applier (rn_applied ?t 0) (rs_StartServer 3 0 (rp_MakePersister True)))"
    by (simp_all only: rs_applier_ops batch_facts(3,4) sample_raft_def)
  from raft_mutual_exclusion [OF s(1) steps_reachable [OF s(2,1)] disjI1 [OF s(2)] _ _ _ ok a this(1) b this(2),
      of "''/a''"]
  show ?thesis by (simp add: batch_facts(5,6) sample_args_def other_args_def)
qed

text \<open>
  C11. A lock is safe until its lease has run out: a handler has answered OK to Acquire with
  lease l. As long as the session has not released the lock, its keep-alive calls do not
  shorten the lease, and every revocation of it was issued by a server whose clock did not
  show more than l plus the grace period, every server that has executed at least the
  commands behind the answer, at any message of a batch, has the lock held by that session,
  with a lease of at least l.
\<close>

theorem raft_lease_protects:
  assumes "rf_reachable N enable s" and "rf_reachable N enable t"
    and "rf_step\<^sup>*\<^sup>* s t \<or> rf_step\<^sup>*\<^sup>* t s" and "q < N" and "q' < N"
    and "length (rn_applied s q) \<le> length (rn_applied t q')"
    and "\<forall>op \<in> set (msg_ops (rn_applied t q')). op_ok op"
    and "rs_Acquire now args wakes srv0 = (lefts, Some (srv, \<lparr>er_Result = OK, er_Lease = l\<rparr>))"
    and "rs_table srv = rs_table (rs_applier (rn_applied s q) (rs_StartServer N q ps))"
    and "path_Sessid args = sessid" and "sessid \<noteq> - 1" and "path_Path args = path"
    and "further = msg_ops (drop (length (rn_applied s q)) (rn_applied t q'))"
    and "\<forall>op \<in> set further. op_Path op = path \<longrightarrow> op_Code op = Release \<longrightarrow>
      sessid \<noteq> op_Sessid op \<and> sessid \<noteq> twin (op_Sessid op)"
    and "\<forall>op \<in> set further. op_Path op = path \<longrightarrow> op_Code op = Extend \<longrightarrow>
      sessid = twin (op_Sessid op) \<longrightarrow> l \<le> op_Lease op"
    and "\<forall>op \<in> set further. op_Path op = path \<longrightarrow> op_Code op = Revoke \<longrightarrow> sessid = op_Sessid op \<longrightarrow>
      (\<exists>order clock rsrv. op \<in> set (rs_checkLeaseL order clock rsrv) \<and> clock \<le> l + GracePeriod)"
  shows "\<exists>lease \<ge> l. rs_files (rs_applier (rn_applied t q') (rs_StartServer N q' ps')) path =
    Some \<lparr>file_Sessid = sessid, file_Lease = lease\<rparr>"
proof -
  have "op_Lease op < l" if "op \<in> set further" "op_Path op = path" "op_Code op = Revoke"
    "sessid = op_Sessid op" for op
    using assms(16) that rs_checkLeaseL_late by fastforce
  then have "\<forall>op \<in> set further. keeps_lease path sessid l op"
    using assms(14,15) by (auto simp: keeps_lease_def)
  moreover have "held_until (rs_table srv) path sessid l"
    using Acquire_OK_holds [OF assms(8)] assms(10-12) by (auto simp: held_until_def)
  moreover have "rs_table (rs_applier (rn_applied t q') (rs_StartServer N q' ps')) =
      spec_run further (rs_table srv)"
    using servers_continue [OF assms(1-7), of ps' ps] assms(9,13) by simp
  ultimately have "held_until (rs_table (rs_applier (rn_applied t q') (rs_StartServer N q' ps'))) path sessid l"
    using run_keeps_lease by metis
  then obtain lease fl where "l \<le> lease" "file_lock fl = Held sessid lease"
      "rs_files (rs_applier (rn_applied t q') (rs_StartServer N q' ps')) path = Some fl"
    by (auto simp: held_until_def rs_table_def)
  then show ?thesis
    by (intro exI [of _ lease]) (auto simp: file_lock_def split: if_splits)
qed

text \<open>
  Session 2 tries in vain, a revocation of an older lease comes late, and a keep-alive call
  extends the lease: session 0 keeps the lock.
\<close>

definition sample_keep :: "Op list" where
  "sample_keep = [sample_op Acquire 2 1 20, sample_op Revoke 0 0 5, sample_op Extend 1 1 30]"

definition late_server :: RaftServer where
  "late_server = fold rs_applyOp [sample_op Create 0 1 0, sample_op Acquire 0 2 5] sample_raft"

lemma keep_facts:
  "rx_run (commit_ops 1 2 sample_keep @ replicate (length sample_keep) (RDeliver 0)) take_state \<noteq> None"
  "msg_ops (rn_applied (later_state sample_keep) 0) = sample_take @ sample_keep"
  "length (rn_applied (later_state sample_keep) 0) = 5"
  "msg_ops (drop 2 (rn_applied (later_state sample_keep) 0)) = sample_keep"
  "sample_op Revoke 0 0 5 \<in> set (rs_checkLeaseL [''/a''] 12 late_server)"
  unfolding not_None_eq [symmetric] by code_simp+

theorem raft_lease_protects_witness:
  "\<exists>lease \<ge> 12. rs_files (rs_applier (rn_applied (later_state sample_keep) 0)
     (rs_StartServer 3 0 (rp_MakePersister True))) ''/a'' = Some \<lparr>file_Sessid = 0, file_Lease = lease\<rparr>"
proof -
  let ?t = "later_state sample_keep"
  note t = after_take [OF keep_facts(1)]
  obtain lefts where
    a: "rs_Acquire 0 sample_args [fold rs_applyOp sample_take sample_raft] sample_leader =
      (lefts, Some (fold rs_applyOp sample_take sample_raft, \<lparr>er_Result = OK, er_Lease = 12\<rparr>))"
    using sample_answers(1) [THEN Acquire_answers] by blast
  have ok: "\<forall>op \<in> set (msg_ops (rn_applied ?t 0)). op_ok op"
    unfolding keep_facts(2) by (simp add: sample_keep_def sample_take_def sample_op_def op_ok_def twin_def)
  have table: "rs_table (fold rs_applyOp sample_take sample_raft) =
      rs_table (rs_applier (rn_applied take_state 0) (rs_StartServer 3 0 (rp_MakePersister True)))"
    by (simp only: rs_applier_ops take_facts(2) sample_raft_def)
  have len: "length (rn_applied take_state 0) \<le> length (rn_applied ?t 0)"
    by (simp add: take_facts(3) keep_facts(3))
  have revoke: "\<exists>order clock rsrv. sample_op Revoke 0 0 5 \<in> set (rs_checkLeaseL order clock rsrv) \<and>
      clock \<le> 12 + GracePeriod"
    using keep_facts(5) by (intro exI conjI) (auto simp: GracePeriod_def DefaultLease_def)
  show ?thesis
  proof (rule raft_lease_protects [OF take_reachable t(2) disjI1 [OF t(1)] _ _ len ok a table _ _ _ refl])
    let ?f = "msg_ops (drop (length (rn_applied take_state 0)) (rn_applied ?t 0))"
    have f: "?f = sample_keep" using keep_facts(4) take_facts(3) by simp
    show "\<forall>op \<in> set ?f. op_Path op = ''/a'' \<longrightarrow> op_Code op = Release \<longrightarrow>
        0 \<noteq> op_Sessid op \<and> 0 \<noteq> twin (op_Sessid op)"
      unfolding f by (simp add: sample_keep_def sample_op_def)
    show "\<forall>op \<in> set ?f. op_Path op = ''/a'' \<longrightarrow> op_Code op = Extend \<longrightarrow> 0 = twin (op_Sessid op) \<longrightarrow> 12 \<le> op_Lease op"
      unfolding f by (simp add: sample_keep_def sample_op_def)
    show "\<forall>op \<in> set ?f. op_Path op = ''/a'' \<longrightarrow> op_Code op = Revoke \<longrightarrow> 0 = op_Sessid op \<longrightarrow>
        (\<exists>order clock rsrv. op \<in> set (rs_checkLeaseL order clock rsrv) \<and> clock \<le> 12 + GracePeriod)"
      unfolding f using revoke by (auto simp: sample_keep_def sample_op_def)
  qed (simp_all add: sample_args_def)
qed

text \<open>
  C19. What an answer of a Raft server means: a handler has answered neither WrongLeader nor
  RepeatedRequest, in a state in which its server has executed the messages msgs since it was
  started. Clients send the requests of a stream one at a time with numbers from 1 upwards,
  so that no operation of the stream with that number or a higher one is among the messages
  but this request, possibly sent several times. Then the operation of this very request is
  among them, it was the first of the stream to reach its number and so took effect, and the
  table that the answer was read from is its effect followed by that of the later operations.
\<close>

theorem raft_answer_means_executed:
  assumes "(code, handler) \<in> set rs_handlers"
    and "handler now args wakes srv0 = (lefts, Some (srv, reply))"
    and "er_Result reply \<noteq> WrongLeader" and "er_Result reply \<noteq> RepeatedRequest"
    and "rs_table srv = rs_table (rs_applier msgs (rs_StartServer N q ps))"
    and "\<forall>op \<in> set (msg_ops msgs). op_ok op" and "0 < path_Seq args"
    and "\<forall>op \<in> set (msg_ops msgs). numbered op \<longrightarrow> op_Sessid op = path_Sessid args \<longrightarrow>
      path_Seq args \<le> op_Seq op \<longrightarrow> op_Code op = code \<and> op_Path op = path_Path args \<and> op_Seq op = path_Seq args"
  shows "\<exists>xs op ys. msg_ops msgs = xs @ op # ys \<and> op_Code op = code \<and> op_Path op = path_Path args \<and>
    op_Sessid op = path_Sessid args \<and> op_Seq op = path_Seq args \<and>
    ls_seen (spec_run xs (rs_table (rs_StartServer N q ps))) (path_Sessid args) < path_Seq args \<and>
    rs_table srv = spec_run ys (spec_apply op (spec_run xs (rs_table (rs_StartServer N q ps))))"
proof -
  let ?st = "rs_table (rs_StartServer N q ps)"
  have run: "rs_table srv = spec_run (msg_ops msgs) ?st"
    using raft_lock.run_table [OF TrueI assms(6)] assms(5) by (simp add: rs_applier_ops)
  have "ls_seen ?st (path_Sessid args) < path_Seq args"
    using assms(7) by (simp add: rs_table_def rs_StartServer_def seq_of_def)
  moreover have "path_Seq args \<le> ls_seen (spec_run (msg_ops msgs) ?st) (path_Sessid args)"
    using handler_reached [OF assms(1-4)] run by simp
  ultimately obtain xs op ys where op: "msg_ops msgs = xs @ op # ys" "numbered op" "op_Sessid op = path_Sessid args"
      "path_Seq args \<le> op_Seq op" "ls_seen (spec_run xs ?st) (path_Sessid args) < path_Seq args"
    using run_seen_source by blast
  moreover have "op_Code op = code \<and> op_Path op = path_Path args \<and> op_Seq op = path_Seq args"
    using assms(8) op(1-4) by simp
  moreover have "rs_table srv = spec_run ys (spec_apply op (spec_run xs ?st))" using run op(1) by simp
  ultimately show ?thesis by blast
qed

theorem raft_answer_means_executed_witness:
  "\<exists>xs op ys. msg_ops (rn_applied take_state 0) = xs @ op # ys \<and> op_Code op = Acquire \<and> op_Path op = ''/a'' \<and>
     op_Sessid op = 0 \<and> op_Seq op = 2 \<and>
     ls_seen (spec_run xs (rs_table (rs_StartServer 3 0 (rp_MakePersister True)))) 0 < 2"
proof -
  obtain lefts where
    a: "rs_Acquire 0 sample_args [fold rs_applyOp sample_take sample_raft] sample_leader =
      (lefts, Some (fold rs_applyOp sample_take sample_raft, \<lparr>er_Result = OK, er_Lease = 12\<rparr>))"
    using sample_answers(1) [THEN Acquire_answers] by blast
  have table: "rs_table (fold rs_applyOp sample_take sample_raft) =
      rs_table (rs_applier (rn_applied take_state 0) (rs_StartServer 3 0 (rp_MakePersister True)))"
    by (simp only: rs_applier_ops take_facts(2) sample_raft_def)
  have h: "(Acquire, rs_Acquire) \<in> set rs_handlers" by (simp add: rs_handlers_def)
  have ok: "\<forall>op \<in> set (msg_ops (rn_applied take_state 0)). op_ok op" using sample_ok take_facts(2) by simp
  have mine: "\<forall>op \<in> set (msg_ops (rn_applied take_state 0)). numbered op \<longrightarrow> op_Sessid op = path_Sessid sample_args \<longrightarrow>
      path_Seq sample_args \<le> op_Seq op \<longrightarrow>
      op_Code op = Acquire \<and> op_Path op = path_Path sample_args \<and> op_Seq op = path_Seq sample_args"
    unfolding take_facts(2) by (simp add: sample_take_def sample_op_def sample_args_def)
  from raft_answer_means_executed [OF h a _ _ table ok _ mine] show ?thesis
    by (simp add: sample_args_def) blast
qed

section \<open>Servers on Paxos\<close>

lemma pv_Acquire_OK_holds:
  assumes "pv_Acquire now args ws srv0 = Some (lefts, Some (srv, \<lparr>er_Result = OK, er_Lease = l\<rparr>))"
    and "path_Sessid args \<noteq> - 1"
  shows "holds (pv_table srv) (path_Path args) (path_Sessid args)"
proof -
  obtain r where "pv_files srv (path_Path args) = Some r" "file_Sessid (pv_fheap srv r) = path_Sessid args"
    using assms(1) by (auto simp: pv_Acquire_def split: prod.splits if_splits option.splits bind_splits)
  then show ?thesis using pv_holds [of srv "path_Path args" r] assms(2) by simp
qed

text \<open>
  C6. Mutual exclusion on Paxos, for runs in which no nil value has entered an accept phase
  (nil_free for every sequence number), Done is not called early (done_ok; the lock server
  never calls it), every proposed operation has a session identifier that can be assigned
  (proposals_ok) and no peer is restarted: two handlers, at any two servers whose appliers
  looked at their peers at any moments of such a run, answer OK to Acquire of the same path
  by two different sessions. Then the values chosen in the instances that one server has
  executed and the other has not contain a release or revocation of the lock of the first
  session and, after it, an Acquire of the second. The condition on nil values is a real one:
  a peer that learns of an instance it has not seen starts a nil proposer for it, and once
  such a proposer gets to its accept phase two peers may decide differently
  (paxos_nil_disagreement).
\<close>

theorem paxos_mutual_exclusion:
  assumes "pv_applier q ss srv = Some srv1" and "pv_applier q' ss' srv' = Some srv1'"
    and "pv_StartServer N q ps = Some (srv, ts)" and "pv_StartServer N q' ps' = Some (srv', ts')"
    and "\<forall>s \<in> set (ss @ ss'). px_reachable N enable s \<and> px_step\<^sup>*\<^sup>* s t" and "px_reachable N enable t"
    and "q < N" and "q' < N" and "\<forall>seq. nil_free t seq \<and> done_ok t seq" and "proposals_ok t"
    and "pv_applied srv1 \<le> pv_applied srv1'"
    and "pv_Acquire now args ws srv0 = Some (lefts, Some (srv2, \<lparr>er_Result = OK, er_Lease = l\<rparr>))"
    and "pv_table srv2 = pv_table srv1"
    and "pv_Acquire now' args' ws' srv0' = Some (lefts', Some (srv2', \<lparr>er_Result = OK, er_Lease = l'\<rparr>))"
    and "pv_table srv2' = pv_table srv1'"
    and "path_Path args = path" and "path_Path args' = path"
    and "path_Sessid args \<noteq> - 1" and "path_Sessid args' \<noteq> - 1"
    and "path_Sessid args \<noteq> path_Sessid args'"
  shows "\<exists>vs. pv_applied srv1' = pv_applied srv1 + int (length vs) \<and>
    (\<forall>i < length vs. chosen t (pv_applied srv1 + int i) (vs ! i)) \<and>
    passed_on (value_ops vs) path (path_Sessid args) (path_Sessid args')"
proof -
  obtain vs where vs: "pv_applied srv1' = pv_applied srv1 + int (length vs)"
      "\<forall>i < length vs. chosen t (pv_applied srv1 + int i) (vs ! i)"
      "pv_table srv1' = spec_run (value_ops vs) (pv_table srv1)"
    using paxos_servers_continue [OF assms(1-11)] by blast
  have "holds (pv_table srv1) path (path_Sessid args)"
    using pv_Acquire_OK_holds [OF assms(12,18)] assms(13,16) by simp
  moreover have "holds (spec_run (value_ops vs) (pv_table srv1)) path (path_Sessid args')"
    using pv_Acquire_OK_holds [OF assms(14,19)] assms(15,17) vs(3) by simp
  ultimately have "passed_on (value_ops vs) path (path_Sessid args) (path_Sessid args')"
    using run_handover assms(20) by blast
  with vs(1,2) show ?thesis by blast
qed

text \<open>
  Peers 0 and 1 decide the operations of the two sessions, one instance each. The server at
  peer 0 answers session 0 after two of them, the server at peer 1 session 2 after all four.
\<close>

definition decide_op :: "nat \<times> Op \<Rightarrow> command action list" where
  "decide_op = (\<lambda>(k, op). let v = Some (OpCommand op); i = int k in
     [ActAlloc 0 i False, ActSpawn k 0 i v, ActBegin k, ActAlloc 1 i True, ActPrepare 0 i 1 1,
      ActPrepareDone k [(1, \<lparr>pr_Code = RpcOk, pr_AcPr = 0, pr_Value = None\<rparr>)],
      ActAccept 0 i 1 v 1, ActAcceptDone k [(1, \<lparr>ar_Reply = RpcOk\<rparr>)], ActDecide i v 0, ActDecide i v 1])"

definition decide_run :: "command action list" where
  "decide_run = concat (map decide_op (enumerate 0 (sample_take @ sample_pass)))"

definition decide_state :: "command cluster" where
  "decide_state = the (cl_run decide_run (cl_init 3 True))"

definition paxos_at :: "nat \<Rightarrow> nat \<Rightarrow> PaxosServer" where
  "paxos_at q k = the (pv_applier q (replicate k decide_state) (fresh_server q))"

definition woken :: "PaxosServer \<Rightarrow> wake" where
  "woken srv = \<lparr>wk_closed = False, wk_srv = srv\<rparr>"

lemma decide_facts:
  "cl_run decide_run (cl_init 3 True) \<noteq> None"
  "\<forall>(p, seq, n, w) \<in> cl_acceptReq decide_state. w \<noteq> None"
  "cl_early decide_state = {}"
  "\<forall>(seq, v) \<in> cl_proposed decide_state. v \<in> (\<lambda>op. Some (OpCommand op)) ` set (sample_take @ sample_pass)"
  "map_option pv_applied (pv_applier 0 (replicate 2 decide_state) (fresh_server 0)) = Some 2"
  "map_option pv_applied (pv_applier 1 (replicate 4 decide_state) (fresh_server 1)) = Some 4"
  "map_option (map_option snd \<circ> snd) (pv_Acquire 0 sample_args [woken (paxos_at 0 2)] (fresh_server 0)) =
     Some (Some \<lparr>er_Result = OK, er_Lease = 12\<rparr>)"
  "map_option (map_option snd \<circ> snd) (pv_Acquire 8 other_args [woken (paxos_at 1 4)] (fresh_server 1)) =
     Some (Some \<lparr>er_Result = OK, er_Lease = 20\<rparr>)"
  unfolding not_None_eq [symmetric] by code_simp+

lemma pv_Acquire_answers:
  assumes "map_option (map_option snd \<circ> snd) (pv_Acquire now args [woken srv] srv0) =
    Some (Some \<lparr>er_Result = OK, er_Lease = l\<rparr>)"
  shows "\<exists>lefts. pv_Acquire now args [woken srv] srv0 =
    Some (lefts, Some (srv, \<lparr>er_Result = OK, er_Lease = l\<rparr>))"
  using assms
  by (auto simp: pv_Acquire_def pv_operateL_def woken_def split: bind_splits if_splits)

lemma decide_reachable: "px_reachable 3 True decide_state"
  using decide_facts(1) by (auto simp: decide_state_def intro: cl_run_reachable)

theorem paxos_mutual_exclusion_witness:
  "\<exists>vs. length vs = 2 \<and> chosen decide_state 2 (vs ! 0) \<and> chosen decide_state 3 (vs ! 1) \<and>
     passed_on (value_ops vs) ''/a'' 0 2"
proof -
  have app: "pv_applier 0 (replicate 2 decide_state) (fresh_server 0) = Some (paxos_at 0 2)"
      "pv_applied (paxos_at 0 2) = 2"
      "pv_applier 1 (replicate 4 decide_state) (fresh_server 1) = Some (paxos_at 1 4)"
      "pv_applied (paxos_at 1 4) = 4"
    using decide_facts(5,6) by (auto simp: paxos_at_def)
  obtain lefts lefts' where
    a: "pv_Acquire 0 sample_args [woken (paxos_at 0 2)] (fresh_server 0) =
      Some (lefts, Some (paxos_at 0 2, \<lparr>er_Result = OK, er_Lease = 12\<rparr>))" and
    b: "pv_Acquire 8 other_args [woken (paxos_at 1 4)] (fresh_server 1) =
      Some (lefts', Some (paxos_at 1 4, \<lparr>er_Result = OK, er_Lease = 20\<rparr>))"
    using decide_facts(7,8) [THEN pv_Acquire_answers] by blast
  have nil: "\<forall>seq. nil_free decide_state seq \<and> done_ok decide_state seq"
    using decide_facts(2,3) by (fastforce simp: nil_free_def done_ok_def)
  have "op_ok op" if "(seq, Some (OpCommand op)) \<in> cl_proposed decide_state" for seq op
    using decide_facts(4) sample_ok that by fastforce
  then have ok: "proposals_ok decide_state" by (auto simp: proposals_ok_def)
  obtain vs where "4 = 2 + int (length vs)" "\<forall>i < length vs. chosen decide_state (2 + int i) (vs ! i)"
      "passed_on (value_ops vs) ''/a'' 0 2"
    using paxos_mutual_exclusion [OF app(1,3) fresh_start fresh_start _ decide_reachable _ _ nil ok _ a refl b refl,
        of "''/a''"] app(2,4) decide_reachable
    by (auto simp: sample_args_def other_args_def)
  moreover from this(1,2) have "length vs = 2" "chosen decide_state 2 (vs ! 0)" "chosen decide_state 3 (vs ! 1)"
    by (simp, force, force dest: spec [of _ 1])
  ultimately show ?thesis by blast
qed

end
