(* ===== verification/Lab_Gob.thy ===== *)
theory Lab_Gob
  imports Go_Prelude
begin

text \<open>
  The wrapper labgob.go around encoding/gob: before a value is encoded or decoded, its type
  is searched for fields that gob would skip, and a variable that is decoded into is
  searched for values that gob would not overwrite. encoding/gob itself is a parameter, the
  record gob_lib: what Encode writes and whether it succeeds, and what Decode leaves in a
  variable.

  A reflect.Type is an index into the list of the program's types, which may refer to each
  other in cycles. Names are ASCII.
\<close>

section \<open>encoding/gob\<close>

record ('t, 'v) gob_lib =
  go_typeOf :: "'v \<Rightarrow> 't"
  go_zero :: "'t \<Rightarrow> 'v"
  gob_encode :: "'v \<Rightarrow> byte list \<times> bool"
  gob_decode :: "byte list \<Rightarrow> 'v \<Rightarrow> 'v \<times> bool"

text \<open>Documented behaviour: what has been encoded can be decoded into a new variable.\<close>

definition gob_roundtrip :: "('t, 'v) gob_lib \<Rightarrow> 'v \<Rightarrow> bool" where
  "gob_roundtrip gob v \<longleftrightarrow> snd (gob_encode gob v) \<and>
     gob_decode gob (fst (gob_encode gob v)) (go_zero gob (go_typeOf gob v)) = (v, True)"

section \<open>Types and values\<close>

datatype go_type =
    StructT "(string \<times> nat) list"
  | SliceT nat
  | ArrayT nat
  | PtrT nat
  | MapT nat nat
  | OtherT

datatype go_value =
    StructV "(string \<times> go_value) list"
  | PtrV "go_value option"
  | ScalarV string bool
  | OtherV

text \<open>
  A scalar carries the name of its type and whether it is the zero value of that type. Of
  the map type, the first index is the element type and the second the key type.
\<close>

definition kind_of :: "go_type list \<Rightarrow> nat \<Rightarrow> go_type" where
  "kind_of env t = (if t < length env then env ! t else OtherT)"

definition capital :: "string \<Rightarrow> bool" where
  "capital name = (case name of [] \<Rightarrow> False | c # _ \<Rightarrow> (65::nat) \<le> of_char c \<and> of_char c \<le> (90::nat))"

section \<open>The search for fields in lower case\<close>

text \<open>The variables of the package, and the fields that checkType has complained about.\<close>

record labgob =
  errorCount :: int
  checked :: "nat set"
  complaints :: "(string \<times> nat) list"
  warnings :: "string list"

definition labgob_start :: labgob where
  "labgob_start = \<lparr>errorCount = 0, checked = {}, complaints = [], warnings = []\<rparr>"

definition complain :: "string \<Rightarrow> nat \<Rightarrow> labgob \<Rightarrow> labgob" where
  "complain name t lg = lg\<lparr>errorCount := errorCount lg + 1, complaints := complaints lg @ [(name, t)]\<rparr>"

text \<open>The recursion follows the types, which may be cyclic, so it has fuel: the depth of the calls.\<close>

fun checkType :: "go_type list \<Rightarrow> nat \<Rightarrow> nat \<Rightarrow> labgob \<Rightarrow> labgob option"
  and checkFields :: "go_type list \<Rightarrow> nat \<Rightarrow> nat \<Rightarrow> (string \<times> nat) list \<Rightarrow> labgob \<Rightarrow> labgob option" where
  "checkType env 0 t lg = None"
| "checkType env (Suc n) t lg =
     (if t \<in> checked lg then Some lg
      else
        let lg1 = lg\<lparr>checked := insert t (checked lg)\<rparr>
        in (case kind_of env t of
              StructT fs \<Rightarrow> checkFields env n t fs lg1
            | SliceT elem \<Rightarrow> checkType env n elem lg1
            | ArrayT elem \<Rightarrow> checkType env n elem lg1
            | PtrT elem \<Rightarrow> checkType env n elem lg1
            | MapT elem key \<Rightarrow>
                (case checkType env n elem lg1 of
                   None \<Rightarrow> None
                 | Some lg2 \<Rightarrow> checkType env n key lg2)
            | OtherT \<Rightarrow> Some lg1))"
| "checkFields env n t [] lg = Some lg"
| "checkFields env n t ((name, ft) # fs) lg =
     (let lg1 = (if \<not> capital name then complain name t lg else lg)
      in (case checkType env n ft lg1 of
            None \<Rightarrow> None
          | Some lg2 \<Rightarrow> checkFields env n t fs lg2))"

text \<open>The number of types, and one more for the calls that find a type checked, is enough fuel.\<close>

definition checkValue :: "go_type list \<Rightarrow> nat \<Rightarrow> labgob \<Rightarrow> labgob option" where
  "checkValue env t lg = checkType env (Suc (length env)) t lg"

section \<open>The search for values that are not the default\<close>

text \<open>
  The flag says that the value was reached through a field in lower case: reflect's
  Interface panics on it.
\<close>

datatype gob_error = GobPanic

definition warn_default :: "string \<Rightarrow> string \<Rightarrow> labgob \<Rightarrow> labgob" where
  "warn_default name tname lg =
     (let lg1 = (if errorCount lg < 1
                 then lg\<lparr>warnings := warnings lg @ [if name = [] then tname else name]\<rparr> else lg)
      in lg1\<lparr>errorCount := errorCount lg1 + 1\<rparr>)"

fun checkDefault1 :: "bool \<Rightarrow> go_value \<Rightarrow> nat \<Rightarrow> string \<Rightarrow> labgob \<Rightarrow> gob_error + labgob"
  and checkDefaultFields ::
    "bool \<Rightarrow> (string \<times> go_value) list \<Rightarrow> nat \<Rightarrow> string \<Rightarrow> labgob \<Rightarrow> gob_error + labgob" where
  "checkDefault1 ro (StructV fs) depth name lg =
     (if depth > 3 then Inr lg else checkDefaultFields ro fs depth name lg)"
| "checkDefault1 ro (PtrV None) depth name lg = Inr lg"
| "checkDefault1 ro (PtrV (Some v)) depth name lg =
     (if depth > 3 then Inr lg else checkDefault1 ro v (depth + 1) name lg)"
| "checkDefault1 ro (ScalarV tname zero) depth name lg =
     (if depth > 3 then Inr lg
      else if ro then Inl GobPanic
      else if \<not> zero then Inr (warn_default name tname lg)
      else Inr lg)"
| "checkDefault1 ro OtherV depth name lg = Inr lg"
| "checkDefaultFields ro [] depth name lg = Inr lg"
| "checkDefaultFields ro ((f, v) # fs) depth name lg =
     (let name1 = (if name \<noteq> [] then name @ ''.'' @ f else f)
      in (case checkDefault1 (ro \<or> \<not> capital f) v (depth + 1) name1 lg of
            Inl e \<Rightarrow> Inl e
          | Inr lg1 \<Rightarrow> checkDefaultFields ro fs depth name lg1))"

definition checkDefault :: "go_value option \<Rightarrow> labgob \<Rightarrow> gob_error + labgob" where
  "checkDefault v lg = (case v of None \<Rightarrow> Inr lg | Some x \<Rightarrow> checkDefault1 False x 1 [] lg)"

section \<open>The encoder and the decoder\<close>

definition lab_Encode ::
  "(nat, 'v) gob_lib \<Rightarrow> go_type list \<Rightarrow> 'v \<Rightarrow> labgob \<Rightarrow> (labgob \<times> byte list \<times> bool) option" where
  "lab_Encode gob env v lg =
     map_option (\<lambda>lg1. (lg1, gob_encode gob v)) (checkValue env (go_typeOf gob v) lg)"

definition lab_Decode ::
  "(nat, 'v) gob_lib \<Rightarrow> ('v \<Rightarrow> go_value) \<Rightarrow> go_type list \<Rightarrow> byte list \<Rightarrow> 'v \<Rightarrow> labgob \<Rightarrow>
   (gob_error + (labgob \<times> 'v \<times> bool)) option" where
  "lab_Decode gob view env bytes v lg =
     map_option
       (\<lambda>lg1. case checkDefault (Some (view v)) lg1 of
                Inl e \<Rightarrow> Inl e
              | Inr lg2 \<Rightarrow> Inr (lg2, gob_decode gob bytes v))
       (checkValue env (go_typeOf gob v) lg)"

text \<open>Register and RegisterName, with what gob keeps of the registered names.\<close>

definition lab_Register ::
  "('t \<Rightarrow> 'g \<Rightarrow> 'g) \<Rightarrow> ('t \<Rightarrow> nat) \<Rightarrow> go_type list \<Rightarrow> 't \<Rightarrow> labgob \<times> 'g \<Rightarrow> (labgob \<times> 'g) option" where
  "lab_Register register ty env v = (\<lambda>(lg, g). map_option (\<lambda>lg1. (lg1, register v g)) (checkValue env (ty v) lg))"

section \<open>What checkType does\<close>

definition lower_fields :: "go_type list \<Rightarrow> nat \<Rightarrow> string list" where
  "lower_fields env t = (case kind_of env t of
     StructT fs \<Rightarrow> filter (\<lambda>f. \<not> capital f) (map fst fs) | _ \<Rightarrow> [])"

text \<open>The types that checkType looks at from a type.\<close>

definition parts :: "go_type list \<Rightarrow> nat \<Rightarrow> nat list" where
  "parts env t = (case kind_of env t of
     StructT fs \<Rightarrow> map snd fs | SliceT e \<Rightarrow> [e] | ArrayT e \<Rightarrow> [e] | PtrT e \<Rightarrow> [e]
   | MapT e k \<Rightarrow> [e, k] | OtherT \<Rightarrow> [])"

definition env_closed :: "go_type list \<Rightarrow> bool" where
  "env_closed env \<longleftrightarrow> (\<forall>t < length env. \<forall>u \<in> set (parts env t). u < length env)"

inductive part_of :: "go_type list \<Rightarrow> nat \<Rightarrow> nat \<Rightarrow> bool" for env where
  part_refl: "part_of env t t"
| part_step: "part_of env t u \<Longrightarrow> v \<in> set (parts env u) \<Longrightarrow> part_of env t v"

definition lowers :: "go_type list \<Rightarrow> nat set \<Rightarrow> nat" where
  "lowers env ts = (\<Sum>u\<in>ts. length (lower_fields env u))"

definition new_types :: "labgob \<Rightarrow> labgob \<Rightarrow> nat set" where
  "new_types lg lg' = checked lg' - checked lg"

text \<open>
  From lg to lg' the types ts have been searched, and c complaints been made on the way that
  are not about a newly checked type.
\<close>

definition explored :: "go_type list \<Rightarrow> labgob \<Rightarrow> nat list \<Rightarrow> nat \<Rightarrow> labgob \<Rightarrow> bool" where
  "explored env lg ts c lg' \<longleftrightarrow>
     checked lg \<subseteq> checked lg' \<and> set ts \<subseteq> checked lg' \<and> new_types lg lg' \<subseteq> {..<length env} \<and>
     (\<forall>u\<in>new_types lg lg'. set (parts env u) \<subseteq> checked lg') \<and>
     (\<forall>u\<in>new_types lg lg'. \<exists>t\<in>set ts. part_of env t u) \<and>
     errorCount lg' = errorCount lg + int c + int (lowers env (new_types lg lg')) \<and>
     warnings lg' = warnings lg"

lemma part_of_trans: "part_of env u v \<Longrightarrow> part_of env t u \<Longrightarrow> part_of env t v"
  by (induction rule: part_of.induct) (auto intro: part_of.intros)

lemma explored_refl: "set ts \<subseteq> checked lg \<Longrightarrow> explored env lg ts 0 lg"
  by (simp add: explored_def new_types_def lowers_def)

lemma explored_finite: "explored env lg ts c lg' \<Longrightarrow> finite (new_types lg lg')"
  by (auto simp: explored_def intro: finite_subset)

lemma new_types_trans:
  assumes "checked lg \<subseteq> checked lg1" "checked lg1 \<subseteq> checked lg2"
  shows "new_types lg lg2 = new_types lg lg1 \<union> new_types lg1 lg2"
    "new_types lg lg1 \<inter> new_types lg1 lg2 = {}"
  using assms by (auto simp: new_types_def)

lemma explored_trans:
  assumes a: "explored env lg ts c lg1" and b: "explored env lg1 us d lg2"
  shows "explored env lg (ts @ us) (c + d) lg2"
proof -
  have sub: "checked lg \<subseteq> checked lg1" "checked lg1 \<subseteq> checked lg2"
    using a b by (simp_all add: explored_def)
  note new = new_types_trans [OF sub]
  have "lowers env (new_types lg lg2) = lowers env (new_types lg lg1) + lowers env (new_types lg1 lg2)"
    using new explored_finite [OF a] explored_finite [OF b] by (simp add: lowers_def sum.union_disjoint)
  moreover have "set (parts env u) \<subseteq> checked lg2" if "u \<in> new_types lg lg1" for u
    using that a sub(2) unfolding explored_def by (meson subset_trans)
  ultimately show ?thesis
    using a b unfolding explored_def new(1) by auto
qed

lemma explored_complain:
  assumes "explored env (complain name t lg) ts c lg'"
  shows "explored env lg ts (Suc c) lg'"
  using assms by (simp add: explored_def complain_def new_types_def)

lemma explored_enter:
  assumes new: "t \<notin> checked lg" "t < length env"
    and e: "explored env (lg\<lparr>checked := insert t (checked lg)\<rparr>) (parts env t)
              (length (lower_fields env t)) lg'"
  shows "explored env lg [t] 0 lg'"
proof -
  let ?lg = "lg\<lparr>checked := insert t (checked lg)\<rparr>"
  have split: "new_types lg lg' = insert t (new_types ?lg lg')" and out: "t \<notin> new_types ?lg lg'"
    using new e by (auto simp: new_types_def explored_def)
  have sum: "lowers env (new_types lg lg') = length (lower_fields env t) + lowers env (new_types ?lg lg')"
    using split out explored_finite [OF e] by (simp add: lowers_def)
  have reach: "\<exists>s\<in>set [t]. part_of env s u" if u: "u \<in> new_types lg lg'" for u
  proof (cases "u = t")
    case True
    then show ?thesis by (simp add: part_refl)
  next
    case False
    then obtain v where "v \<in> set (parts env t)" "part_of env v u"
      using u e by (auto simp: split explored_def)
    then show ?thesis
      using part_of_trans [OF _ part_step [OF part_refl]] by simp
  qed
  have closed: "set (parts env u) \<subseteq> checked lg'" if "u \<in> new_types lg lg'" for u
    using that e by (auto simp: split explored_def)
  show ?thesis
    using e new(2) reach closed sum unfolding explored_def
    by (simp add: split)
qed

definition types_left :: "go_type list \<Rightarrow> labgob \<Rightarrow> nat" where
  "types_left env lg = card ({..<length env} - checked lg)"

lemma types_left_mono: "checked lg \<subseteq> checked lg' \<Longrightarrow> types_left env lg' \<le> types_left env lg"
  unfolding types_left_def by (intro card_mono) auto

lemma types_left_mark:
  assumes "t \<notin> checked lg" "t < length env"
  shows "types_left env (lg\<lparr>checked := insert t (checked lg)\<rparr>) < types_left env lg"
  unfolding types_left_def using assms by (intro psubset_card_mono) auto

lemma types_left_complain [simp]: "types_left env (complain name t lg) = types_left env lg"
  by (simp add: types_left_def complain_def)

lemma explored_types_left:
  "explored env lg ts c lg' \<Longrightarrow> types_left env lg' \<le> types_left env lg"
  by (rule types_left_mono) (simp add: explored_def)

lemma env_closedD: "env_closed env \<Longrightarrow> t < length env \<Longrightarrow> set (parts env t) \<subseteq> {..<length env}"
  by (auto simp: env_closed_def)

lemma check_explores:
  "env_closed env \<Longrightarrow> t < length env \<Longrightarrow> types_left env lg < n \<Longrightarrow>
     \<exists>lg'. checkType env n t lg = Some lg' \<and> explored env lg [t] 0 lg'"
  "env_closed env \<Longrightarrow> set (map snd fs) \<subseteq> {..<length env} \<Longrightarrow> types_left env lg < n \<Longrightarrow>
     \<exists>lg'. checkFields env n t fs lg = Some lg' \<and>
           explored env lg (map snd fs) (length (filter (\<lambda>f. \<not> capital f) (map fst fs))) lg'"
proof (induction env n t lg and env n t fs lg rule: checkType_checkFields.induct)
  case (2 env n t lg)
  show ?case
  proof (cases "t \<in> checked lg")
    case True
    then show ?thesis by (simp add: explored_refl)
  next
    case False
    let ?lg = "lg\<lparr>checked := insert t (checked lg)\<rparr>"
    have less: "types_left env ?lg < n"
      using types_left_mark [OF False 2(8)] 2(9) by simp
    note sub = env_closedD [OF 2(7) 2(8)]
    have "\<exists>lg'. checkType env (Suc n) t lg = Some lg' \<and>
            explored env ?lg (parts env t) (length (lower_fields env t)) lg'"
    proof (cases "kind_of env t")
      case (StructT fs)
      then show ?thesis
        using 2(1) [OF False refl StructT 2(7) _ less] sub False
        by (simp add: parts_def lower_fields_def)
    next
      case (MapT elem key)
      then have lt: "elem < length env" "key < length env"
        using sub by (simp_all add: parts_def)
      obtain lg2 where lg2: "checkType env n elem ?lg = Some lg2" "explored env ?lg [elem] 0 lg2"
        using 2(5) [OF False refl MapT 2(7) lt(1) less] by blast
      have less2: "types_left env lg2 < n"
        using explored_types_left [OF lg2(2)] less by simp
      obtain lg3 where lg3: "checkType env n key lg2 = Some lg3" "explored env lg2 [key] 0 lg3"
        using 2(6) [OF False refl MapT lg2(1) 2(7) lt(2) less2] by blast
      show ?thesis
        using explored_trans [OF lg2(2) lg3(2)] lg2(1) lg3(1) False MapT
        by (simp add: parts_def lower_fields_def)
    qed (use 2(2-4) [OF False refl] 2(7) sub less False in
          \<open>simp_all add: parts_def lower_fields_def explored_refl\<close>)
    then show ?thesis
      using explored_enter [OF False 2(8)] by blast
  qed
next
  case (4 env n t name ft fs lg)
  let ?lg = "if \<not> capital name then complain name t lg else lg"
  have less: "types_left env ?lg < n" and lt: "ft < length env" "set (map snd fs) \<subseteq> {..<length env}"
    using 4(4,5) by auto
  obtain lg2 where lg2: "checkType env n ft ?lg = Some lg2" "explored env ?lg [ft] 0 lg2"
    using 4(1) [OF refl 4(3) lt(1) less] by blast
  have less2: "types_left env lg2 < n"
    using explored_types_left [OF lg2(2)] less by simp
  obtain lg3 where lg3: "checkFields env n t fs lg2 = Some lg3"
    "explored env lg2 (map snd fs) (length (filter (\<lambda>f. \<not> capital f) (map fst fs))) lg3"
    using 4(2) [OF refl lg2(1) 4(3) lt(2) less2] by blast
  have "explored env ?lg (map snd ((name, ft) # fs)) (length (filter (\<lambda>f. \<not> capital f) (map fst fs))) lg3"
    using explored_trans [OF lg2(2) lg3(2)] by simp
  then show ?case
    using lg2(1) lg3(1) explored_complain by (auto split: if_splits)
qed (auto simp: explored_refl)

lemma checkType_checked: "t \<in> checked lg \<Longrightarrow> checkType env (Suc n) t lg = Some lg"
  by simp

lemma part_of_closed:
  assumes "part_of env t u" "t \<in> s" "\<forall>v\<in>s. set (parts env v) \<subseteq> s"
  shows "u \<in> s"
  using assms by (induction rule: part_of.induct) auto

lemma explored_closed:
  assumes e: "explored env lg [t] 0 lg'" and c: "\<forall>u\<in>checked lg. set (parts env u) \<subseteq> checked lg"
  shows "checked lg' = checked lg \<union> {u. part_of env t u}"
    and "\<forall>u\<in>checked lg'. set (parts env u) \<subseteq> checked lg'"
proof -
  show closed: "\<forall>u\<in>checked lg'. set (parts env u) \<subseteq> checked lg'"
  proof
    fix u assume u: "u \<in> checked lg'"
    show "set (parts env u) \<subseteq> checked lg'"
      using u e c by (cases "u \<in> checked lg") (auto simp: explored_def new_types_def)
  qed
  have "u \<in> checked lg'" if "part_of env t u" for u
    using part_of_closed [OF that _ closed] e by (simp add: explored_def)
  then show "checked lg' = checked lg \<union> {u. part_of env t u}"
    using e by (auto simp: explored_def new_types_def)
qed

lemma types_left_le: "types_left env lg \<le> length env"
  unfolding types_left_def using card_mono [of "{..<length env}" "{..<length env} - checked lg"] by simp

section \<open>Properties\<close>

text \<open>
  C38. checkValue returns for every type, recursive types included: it marks the types that
  the given one is built from, counts one error for each field in lower case of a type that
  was not marked before, keeps the marked types closed under their parts, and does nothing
  when it is called again.
\<close>

theorem labgob_checks_each_type_once:
  assumes "env_closed env" "t < length env"
    and "\<forall>u\<in>checked lg. set (parts env u) \<subseteq> checked lg"
  shows "\<exists>lg'. checkValue env t lg = Some lg' \<and>
     checked lg' = checked lg \<union> {u. part_of env t u} \<and>
     errorCount lg' = errorCount lg + int (\<Sum>u\<in>{u. part_of env t u} - checked lg. length (lower_fields env u)) \<and>
     (\<forall>u\<in>checked lg'. set (parts env u) \<subseteq> checked lg') \<and>
     checkValue env t lg' = Some lg'"
proof -
  obtain lg' where lg': "checkValue env t lg = Some lg'" "explored env lg [t] 0 lg'"
    using check_explores(1) [OF assms(1,2), of lg "Suc (length env)"] types_left_le [of env lg]
    by (auto simp: checkValue_def simp del: checkType.simps)
  note c = explored_closed [OF lg'(2) assms(3)]
  have "new_types lg lg' = {u. part_of env t u} - checked lg"
    using c(1) by (auto simp: new_types_def)
  moreover have "checkValue env t lg' = Some lg'"
    using lg'(2) unfolding checkValue_def by (intro checkType_checked) (simp add: explored_def)
  ultimately show ?thesis
    using lg' c by (auto simp: explored_def lowers_def)
qed

text \<open>A list node, with a field in lower case and a pointer to the next node.\<close>

definition list_types :: "go_type list" where
  "list_types = [StructT [(''Next'', 1), (''key'', 2)], PtrT 0, OtherT]"

theorem labgob_checks_each_type_once_witness:
  "(\<exists>lg'. checkValue list_types 0 labgob_start = Some lg' \<and>
     checked lg' = checked labgob_start \<union> {u. part_of list_types 0 u} \<and>
     errorCount lg' = errorCount labgob_start +
       int (\<Sum>u\<in>{u. part_of list_types 0 u} - checked labgob_start. length (lower_fields list_types u)) \<and>
     (\<forall>u\<in>checked lg'. set (parts list_types u) \<subseteq> checked lg') \<and>
     checkValue list_types 0 lg' = Some lg') \<and>
   map_option errorCount (checkValue list_types 0 labgob_start) = Some 1"
proof
  show "map_option errorCount (checkValue list_types 0 labgob_start) = Some 1"
    by code_simp
qed (rule labgob_checks_each_type_once,
     auto simp: list_types_def env_closed_def parts_def kind_of_def labgob_start_def less_Suc_eq numeral_3_eq_3)

text \<open>Decoding into a variable that holds a scalar in a field in lower case panics.\<close>

lemma checkDefault_unexported_panics:
  assumes "\<not> capital f"
  shows "checkDefault (Some (PtrV (Some (StructV [(f, ScalarV tname zero)])))) lg = Inl GobPanic"
  using assms by (simp add: checkDefault_def)

end
