(* ===== verification/Lab_Rpc.thy ===== *)
theory Lab_Rpc
  imports Lab_Gob
begin

text \<open>
  The simulated network labrpc.go: the network object with its ends, connections and
  servers, servers as collections of services, and one remote call from Call to its
  return. Values are encoded and decoded by the parameter gob_lib; the checks that labgob
  puts before it print and count, and are in Lab_Gob. Random choices, the moments at which
  the goroutine of a request looks at the network, and the state of the receivers when the
  handler runs are inputs. Delays have no effect but on those moments.
\<close>

section \<open>Messages\<close>

datatype rpc_error = RpcPanic | RpcFatal

record ('e, 't) reqMsg =
  rq_endname :: 'e
  rq_svcMeth :: string
  rq_argsType :: 't
  rq_args :: "byte list"

record replyMsg =
  rp_ok :: bool
  rp_reply :: "byte list"

definition no_reply :: replyMsg where
  "no_reply = \<lparr>rp_ok = False, rp_reply = []\<rparr>"

section \<open>Services and servers\<close>

text \<open>
  A method of a receiver: what MakeService looks at, the types that can be assigned to its
  first parameter, the type of the reply, and the function, on the state w of the receivers.
\<close>

record ('t, 'v, 'w) go_method =
  gm_Name :: string
  gm_PkgPath :: string
  gm_NumIn :: nat
  gm_In1 :: "'t \<Rightarrow> bool"
  gm_In2Ptr :: bool
  gm_NumOut :: nat
  gm_replyType :: 't
  gm_Func :: "'v \<Rightarrow> 'v \<Rightarrow> 'w \<Rightarrow> 'w \<times> 'v"

record ('t, 'v, 'w) RpcService =
  svc_name :: string
  svc_methods :: "string \<rightharpoonup> ('t, 'v, 'w) go_method"

definition handler_like :: "('t, 'v, 'w) go_method \<Rightarrow> bool" where
  "handler_like m \<longleftrightarrow> \<not> (gm_PkgPath m \<noteq> [] \<or> gm_NumIn m \<noteq> 3 \<or> \<not> gm_In2Ptr m \<or> gm_NumOut m \<noteq> 0)"

fun make_methods ::
  "('t, 'v, 'w) go_method list \<Rightarrow> (string \<rightharpoonup> ('t, 'v, 'w) go_method) \<Rightarrow> (string \<rightharpoonup> ('t, 'v, 'w) go_method)" where
  "make_methods [] methods = methods"
| "make_methods (m # ms) methods =
     make_methods ms (if handler_like m then methods(gm_Name m \<mapsto> m) else methods)"

definition MakeService :: "string \<Rightarrow> ('t, 'v, 'w) go_method list \<Rightarrow> ('t, 'v, 'w) RpcService" where
  "MakeService name ms = \<lparr>svc_name = name, svc_methods = make_methods ms Map.empty\<rparr>"

text \<open>
  The argument is decoded into a new variable of the type that the caller sent, whether that
  succeeds or not; reflect's Call panics when the method does not take it.
\<close>

definition svc_dispatch ::
  "('t, 'v) gob_lib \<Rightarrow> string \<Rightarrow> ('e, 't) reqMsg \<Rightarrow> ('t, 'v, 'w) RpcService \<Rightarrow> 'w \<Rightarrow>
   rpc_error + ('w \<times> replyMsg)" where
  "svc_dispatch gob methname req svc w =
     (case svc_methods svc methname of
        None \<Rightarrow> Inl RpcFatal
      | Some m \<Rightarrow>
          let args = fst (gob_decode gob (rq_args req) (go_zero gob (rq_argsType req)));
              (w1, replyv) = gm_Func m args (go_zero gob (gm_replyType m)) w
          in if \<not> gm_In1 m (rq_argsType req) then Inl RpcPanic
             else Inr (w1, \<lparr>rp_ok = True, rp_reply = fst (gob_encode gob replyv)\<rparr>))"

record ('t, 'v, 'w) Server =
  srv_services :: "string \<rightharpoonup> ('t, 'v, 'w) RpcService"
  srv_count :: int

definition MakeServer :: "('t, 'v, 'w) Server" where
  "MakeServer = \<lparr>srv_services = Map.empty, srv_count = 0\<rparr>"

definition AddService :: "('t, 'v, 'w) RpcService \<Rightarrow> ('t, 'v, 'w) Server \<Rightarrow> ('t, 'v, 'w) Server" where
  "AddService svc rs = rs\<lparr>srv_services := (srv_services rs)(svc_name svc \<mapsto> svc)\<rparr>"

definition srv_GetCount :: "('t, 'v, 'w) Server \<Rightarrow> int" where
  "srv_GetCount rs = srv_count rs"

text \<open>strings.LastIndex for one character: -1 when it does not occur.\<close>

fun last_index :: "char \<Rightarrow> string \<Rightarrow> int" where
  "last_index c [] = - 1"
| "last_index c (x # xs) =
     (if last_index c xs \<ge> 0 then last_index c xs + 1 else if x = c then 0 else - 1)"

text \<open>A method name without a dot makes the slice expression panic.\<close>

definition srv_dispatch ::
  "('t, 'v) gob_lib \<Rightarrow> ('e, 't) reqMsg \<Rightarrow> ('t, 'v, 'w) Server \<Rightarrow> 'w \<Rightarrow>
   rpc_error + (('t, 'v, 'w) Server \<times> 'w \<times> replyMsg)" where
  "srv_dispatch gob req rs w =
     (let rs1 = rs\<lparr>srv_count := srv_count rs + 1\<rparr>;
          dot = last_index (CHR ''.'') (rq_svcMeth req)
      in case (go_upto (rq_svcMeth req) dot, go_from (rq_svcMeth req) (dot + 1)) of
           (Some serviceName, Some methodName) \<Rightarrow>
             (case srv_services rs1 serviceName of
                None \<Rightarrow> Inl RpcFatal
              | Some svc \<Rightarrow>
                  (case svc_dispatch gob methodName req svc w of
                     Inl e \<Rightarrow> Inl e
                   | Inr (w1, reply) \<Rightarrow> Inr (rs1, w1, reply)))
         | _ \<Rightarrow> Inl RpcPanic)"

section \<open>The network\<close>

text \<open>
  Server objects are references. An absent entry of a map reads as the zero value: not
  enabled, not connected, no server.
\<close>

record ('e, 'n) Network =
  nw_reliable :: bool
  nw_longDelays :: bool
  nw_longReordering :: bool
  nw_ends :: "'e set"
  nw_enabled :: "'e \<Rightarrow> bool"
  nw_servers :: "'n \<Rightarrow> nat option"
  nw_connections :: "'e \<Rightarrow> 'n option"
  nw_done :: bool
  nw_count :: int32
  nw_bytes :: "64 word"

definition MakeNetwork :: "('e, 'n) Network" where
  "MakeNetwork = \<lparr>nw_reliable = True, nw_longDelays = False, nw_longReordering = False, nw_ends = {},
     nw_enabled = (\<lambda>_. False), nw_servers = (\<lambda>_. None), nw_connections = (\<lambda>_. None), nw_done = False,
     nw_count = 0, nw_bytes = 0\<rparr>"

text \<open>The goroutine of the network takes a request over.\<close>

definition nw_accept :: "('e, 't) reqMsg \<Rightarrow> ('e, 'n) Network \<Rightarrow> ('e, 'n) Network" where
  "nw_accept req rn = rn\<lparr>nw_count := nw_count rn + 1,
     nw_bytes := nw_bytes rn + of_nat (length (rq_args req))\<rparr>"

text \<open>A reply goes out.\<close>

definition nw_reply :: "replyMsg \<Rightarrow> ('e, 'n) Network \<Rightarrow> ('e, 'n) Network" where
  "nw_reply reply rn = rn\<lparr>nw_bytes := nw_bytes rn + of_nat (length (rp_reply reply))\<rparr>"

definition nw_Cleanup :: "('e, 'n) Network \<Rightarrow> rpc_error + ('e, 'n) Network" where
  "nw_Cleanup rn = (if nw_done rn then Inl RpcPanic else Inr (rn\<lparr>nw_done := True\<rparr>))"

definition nw_Reliable :: "bool \<Rightarrow> ('e, 'n) Network \<Rightarrow> ('e, 'n) Network" where
  "nw_Reliable yes rn = rn\<lparr>nw_reliable := yes\<rparr>"

definition nw_LongReordering :: "bool \<Rightarrow> ('e, 'n) Network \<Rightarrow> ('e, 'n) Network" where
  "nw_LongReordering yes rn = rn\<lparr>nw_longReordering := yes\<rparr>"

definition nw_LongDelays :: "bool \<Rightarrow> ('e, 'n) Network \<Rightarrow> ('e, 'n) Network" where
  "nw_LongDelays yes rn = rn\<lparr>nw_longDelays := yes\<rparr>"

definition readEndnameInfo ::
  "'e \<Rightarrow> ('e, 'n) Network \<Rightarrow> bool \<times> 'n option \<times> nat option \<times> bool \<times> bool \<times> bool" where
  "readEndnameInfo endname rn =
     (let servername = nw_connections rn endname
      in (nw_enabled rn endname, servername,
          case servername of None \<Rightarrow> None | Some name \<Rightarrow> nw_servers rn name,
          nw_reliable rn, nw_longReordering rn, nw_longDelays rn))"

definition isServerDead :: "'e \<Rightarrow> 'n \<Rightarrow> nat \<Rightarrow> ('e, 'n) Network \<Rightarrow> bool" where
  "isServerDead endname servername server rn \<longleftrightarrow>
     \<not> nw_enabled rn endname \<or> nw_servers rn servername \<noteq> Some server"

definition MakeEnd :: "'e \<Rightarrow> ('e, 'n) Network \<Rightarrow> rpc_error + ('e, 'n) Network" where
  "MakeEnd endname rn =
     (if endname \<in> nw_ends rn then Inl RpcFatal
      else Inr (rn\<lparr>nw_ends := insert endname (nw_ends rn), nw_enabled := (nw_enabled rn)(endname := False),
                 nw_connections := (nw_connections rn)(endname := None)\<rparr>))"

definition DeleteEnd :: "'e \<Rightarrow> ('e, 'n) Network \<Rightarrow> rpc_error + ('e, 'n) Network" where
  "DeleteEnd endname rn =
     (if endname \<notin> nw_ends rn then Inl RpcFatal
      else Inr (rn\<lparr>nw_ends := nw_ends rn - {endname}, nw_enabled := (nw_enabled rn)(endname := False),
                 nw_connections := (nw_connections rn)(endname := None)\<rparr>))"

definition AddServer :: "'n \<Rightarrow> nat \<Rightarrow> ('e, 'n) Network \<Rightarrow> ('e, 'n) Network" where
  "AddServer servername rs rn = rn\<lparr>nw_servers := (nw_servers rn)(servername := Some rs)\<rparr>"

definition DeleteServer :: "'n \<Rightarrow> ('e, 'n) Network \<Rightarrow> ('e, 'n) Network" where
  "DeleteServer servername rn = rn\<lparr>nw_servers := (nw_servers rn)(servername := None)\<rparr>"

definition Connect :: "'e \<Rightarrow> 'n \<Rightarrow> ('e, 'n) Network \<Rightarrow> ('e, 'n) Network" where
  "Connect endname servername rn =
     rn\<lparr>nw_connections := (nw_connections rn)(endname := Some servername)\<rparr>"

definition Enable :: "'e \<Rightarrow> bool \<Rightarrow> ('e, 'n) Network \<Rightarrow> ('e, 'n) Network" where
  "Enable endname yes rn = rn\<lparr>nw_enabled := (nw_enabled rn)(endname := yes)\<rparr>"

definition nw_GetCount :: "(nat \<Rightarrow> ('t, 'v, 'w) Server) \<Rightarrow> 'n \<Rightarrow> ('e, 'n) Network \<Rightarrow> rpc_error + int" where
  "nw_GetCount store servername rn =
     (case nw_servers rn servername of
        None \<Rightarrow> Inl RpcPanic
      | Some server \<Rightarrow> Inr (srv_GetCount (store server)))"

definition GetTotalCount :: "('e, 'n) Network \<Rightarrow> int" where
  "GetTotalCount rn = sint (nw_count rn)"

definition GetTotalBytes :: "('e, 'n) Network \<Rightarrow> 64 word" where
  "GetTotalBytes rn = nw_bytes rn"

section \<open>A request\<close>

text \<open>The first section: the request goes to a server, is dropped, or has nowhere to go.\<close>

datatype 'n route = ToServer 'n nat | Dropped | NoServer

definition processReq_begin :: "bool \<Rightarrow> ('e, 't) reqMsg \<Rightarrow> ('e, 'n) Network \<Rightarrow> 'n route" where
  "processReq_begin lose req rn =
     (case readEndnameInfo (rq_endname req) rn of
        (enabled, Some servername, Some server, reliable, longreordering, longDelays) \<Rightarrow>
          if enabled then if \<not> reliable \<and> lose then Dropped else ToServer servername server
          else NoServer
      | _ \<Rightarrow> NoServer)"

text \<open>
  The wait loop: a turn per 100 ms with the network as it is then; None for the reply when
  the server is found dead, no result at all when neither has happened yet.
\<close>

datatype ('e, 'n) wait_event = Returned replyMsg | Turn "('e, 'n) Network"

fun processReq_wait ::
  "'e \<Rightarrow> 'n \<Rightarrow> nat \<Rightarrow> ('e, 'n) wait_event list \<Rightarrow> replyMsg option option" where
  "processReq_wait endname servername server [] = None"
| "processReq_wait endname servername server (Returned reply # events) = Some (Some reply)"
| "processReq_wait endname servername server (Turn rn # events) =
     (if isServerDead endname servername server rn then Some None
      else processReq_wait endname servername server events)"

definition processReq_end ::
  "bool \<Rightarrow> bool \<Rightarrow> 'e \<Rightarrow> 'n \<Rightarrow> nat \<Rightarrow> replyMsg option \<Rightarrow> ('e, 'n) Network \<Rightarrow> replyMsg" where
  "processReq_end reliable lose endname servername server result rn =
     (case result of
        None \<Rightarrow> no_reply
      | Some reply \<Rightarrow>
          if isServerDead endname servername server rn then no_reply
          else if \<not> reliable \<and> lose then no_reply
          else reply)"

text \<open>
  What surrounds one request: the network when it is sent, with the choice of the select
  statement when that network has been cleaned up, when it is processed and when the server
  is tested for the last time after its handler has returned (sc_end), the two random
  choices, the turns of the wait loop before the handler returns, and whether it returns. The
  reply may be delayed after that last test; nothing is tested again before Call returns.
\<close>

record ('e, 'n) schedule =
  sc_send :: "('e, 'n) Network"
  sc_cleaned :: bool
  sc_begin :: "('e, 'n) Network"
  sc_dropRequest :: bool
  sc_turns :: "('e, 'n) Network list"
  sc_returns :: bool
  sc_end :: "('e, 'n) Network"
  sc_dropReply :: bool

text \<open>
  The whole of processReq: the server objects and the receivers after it, and the reply
  message, if one has been sent. The handler runs even when its reply is not waited for.
\<close>

definition processReq ::
  "('t, 'v) gob_lib \<Rightarrow> ('e, 'n) schedule \<Rightarrow> ('e, 't) reqMsg \<Rightarrow> (nat \<Rightarrow> ('t, 'v, 'w) Server) \<Rightarrow> 'w \<Rightarrow>
   rpc_error + ((nat \<Rightarrow> ('t, 'v, 'w) Server) \<times> 'w \<times> replyMsg option)" where
  "processReq gob sc req store w =
     (case processReq_begin (sc_dropRequest sc) req (sc_begin sc) of
        ToServer servername server \<Rightarrow>
          (case srv_dispatch gob req (store server) w of
             Inl e \<Rightarrow> Inl e
           | Inr (rs, w1, reply) \<Rightarrow>
               Inr (store(server := rs), w1,
                 map_option (\<lambda>result. processReq_end (nw_reliable (sc_begin sc)) (sc_dropReply sc)
                     (rq_endname req) servername server result (sc_end sc))
                   (processReq_wait (rq_endname req) servername server
                     (map Turn (sc_turns sc) @ (if sc_returns sc then [Returned reply] else [])))))
      | _ \<Rightarrow> Inr (store, w, Some no_reply))"

text \<open>
  Call: None when it does not return, Some None when it returns false, and the reply
  variable when it returns true.
\<close>

definition Call ::
  "('t, 'v) gob_lib \<Rightarrow> ('e, 'n) schedule \<Rightarrow> 'e \<Rightarrow> string \<Rightarrow> 'v \<Rightarrow> 'v \<Rightarrow>
   (nat \<Rightarrow> ('t, 'v, 'w) Server) \<Rightarrow> 'w \<Rightarrow>
   rpc_error + ((nat \<Rightarrow> ('t, 'v, 'w) Server) \<times> 'w \<times> 'v option option)" where
  "Call gob sc endname svcMeth args reply store w =
     (let (bytes, ok) = gob_encode gob args;
          req = \<lparr>rq_endname = endname, rq_svcMeth = svcMeth, rq_argsType = go_typeOf gob args,
                  rq_args = bytes\<rparr>
      in if \<not> ok then Inl RpcPanic
         else if nw_done (sc_send sc) \<and> sc_cleaned sc then Inr (store, w, Some None)
         else
           (case processReq gob sc req store w of
              Inl e \<Rightarrow> Inl e
            | Inr (store1, w1, None) \<Rightarrow> Inr (store1, w1, None)
            | Inr (store1, w1, Some rep) \<Rightarrow>
                if rp_ok rep then
                  (let (reply1, ok1) = gob_decode gob (rp_reply rep) reply
                   in if ok1 then Inr (store1, w1, Some (Some reply1)) else Inl RpcFatal)
                else Inr (store1, w1, Some None)))"

section \<open>Sequences of operations on the network\<close>

datatype ('e, 'n) nw_op =
    OpReliable bool
  | OpLongReordering bool
  | OpLongDelays bool
  | OpMakeEnd 'e
  | OpDeleteEnd 'e
  | OpAddServer 'n nat
  | OpDeleteServer 'n
  | OpConnect 'e 'n
  | OpEnable 'e bool
  | OpCleanup

fun nw_apply :: "('e, 'n) nw_op \<Rightarrow> ('e, 'n) Network \<Rightarrow> rpc_error + ('e, 'n) Network" where
  "nw_apply (OpReliable yes) rn = Inr (nw_Reliable yes rn)"
| "nw_apply (OpLongReordering yes) rn = Inr (nw_LongReordering yes rn)"
| "nw_apply (OpLongDelays yes) rn = Inr (nw_LongDelays yes rn)"
| "nw_apply (OpMakeEnd e) rn = MakeEnd e rn"
| "nw_apply (OpDeleteEnd e) rn = DeleteEnd e rn"
| "nw_apply (OpAddServer n rs) rn = Inr (AddServer n rs rn)"
| "nw_apply (OpDeleteServer n) rn = Inr (DeleteServer n rn)"
| "nw_apply (OpConnect e n) rn = Inr (Connect e n rn)"
| "nw_apply (OpEnable e yes) rn = Inr (Enable e yes rn)"
| "nw_apply OpCleanup rn = nw_Cleanup rn"

fun nw_run :: "('e, 'n) nw_op list \<Rightarrow> ('e, 'n) Network \<Rightarrow> rpc_error + ('e, 'n) Network" where
  "nw_run [] rn = Inr rn"
| "nw_run (x # xs) rn = (case nw_apply x rn of Inl e \<Rightarrow> Inl e | Inr rn1 \<Rightarrow> nw_run xs rn1)"

end
