(* ===== verification/Rpc_Properties.thy ===== *)
theory Rpc_Properties
  imports Lab_Rpc
begin

text \<open>
  The contract of a remote call on the simulated network: a call runs its handler at most
  once, on the server that its end is connected to; true comes with the handler's own reply
  and only from a server that is still there; a reliable network answers; a server that was
  removed stays silent, also when another one has taken its name.
\<close>

section \<open>Names of methods\<close>

lemma last_index_bounds: "last_index c xs < int (length xs)" "- 1 \<le> last_index c xs"
  by (induction xs) auto

lemma last_index_append: "c \<notin> set ys \<Longrightarrow> last_index c (xs @ c # ys) = int (length xs)"
proof (induction xs)
  case Nil
  have "last_index c ys = - 1" using Nil by (induction ys) auto
  then show ?case by simp
qed simp

lemma last_index_split:
  "last_index c xs \<ge> 0 \<Longrightarrow>
   xs = take (nat (last_index c xs)) xs @ c # drop (nat (last_index c xs + 1)) xs \<and>
   c \<notin> set (drop (nat (last_index c xs + 1)) xs)"
proof (induction xs)
  case (Cons x xs)
  show ?case
  proof (cases "last_index c xs \<ge> 0")
    case True
    then show ?thesis
      using Cons.IH by (simp add: nat_add_distrib)
  next
    case False
    then have "c \<notin> set xs"
      by (induction xs) (auto split: if_splits)
    with False Cons.prems show ?thesis by (auto split: if_splits)
  qed
qed simp

section \<open>Dispatch\<close>

definition run_handler ::
  "('t, 'v) gob_lib \<Rightarrow> ('t, 'v, 'w) go_method \<Rightarrow> 'v \<Rightarrow> 'w \<Rightarrow> 'w \<times> 'v" where
  "run_handler gob m args w = gm_Func m args (go_zero gob (gm_replyType m)) w"

text \<open>The server has the method, and the method takes arguments of this type.\<close>

definition serves ::
  "('t, 'v, 'w) Server \<Rightarrow> string \<Rightarrow> 't \<Rightarrow> ('t, 'v, 'w) go_method \<Rightarrow> bool" where
  "serves rs svcMeth t m \<longleftrightarrow> (\<exists>sname mname svc. svcMeth = sname @ ''.'' @ mname \<and> CHR ''.'' \<notin> set mname \<and>
     srv_services rs sname = Some svc \<and> svc_methods svc mname = Some m \<and> gm_In1 m t)"

definition the_request :: "('t, 'v) gob_lib \<Rightarrow> 'e \<Rightarrow> string \<Rightarrow> 'v \<Rightarrow> ('e, 't) reqMsg" where
  "the_request gob endname svcMeth args =
     \<lparr>rq_endname = endname, rq_svcMeth = svcMeth, rq_argsType = go_typeOf gob args,
      rq_args = fst (gob_encode gob args)\<rparr>"

lemma the_request_simps [simp]:
  "rq_endname (the_request gob endname svcMeth args) = endname"
  "rq_svcMeth (the_request gob endname svcMeth args) = svcMeth"
  by (simp_all add: the_request_def)

definition counted :: "('t, 'v, 'w) Server \<Rightarrow> ('t, 'v, 'w) Server" where
  "counted rs = rs\<lparr>srv_count := srv_count rs + 1\<rparr>"

lemma svc_dispatch_request:
  assumes "gob_roundtrip gob args"
  shows "svc_dispatch gob methname (the_request gob endname svcMeth args) svc w =
     (case svc_methods svc methname of
        None \<Rightarrow> Inl RpcFatal
      | Some m \<Rightarrow>
          if \<not> gm_In1 m (go_typeOf gob args) then Inl RpcPanic
          else Inr (fst (run_handler gob m args w),
                 \<lparr>rp_ok = True, rp_reply = fst (gob_encode gob (snd (run_handler gob m args w)))\<rparr>))"
  using assms
  by (simp add: svc_dispatch_def the_request_def gob_roundtrip_def run_handler_def Let_def
        split: option.splits prod.splits)

lemma srv_dispatch_request:
  assumes rt: "gob_roundtrip gob args"
  shows "srv_dispatch gob (the_request gob endname svcMeth args) rs w = Inr (rs1, w1, reply) \<longleftrightarrow>
    (\<exists>m. serves rs svcMeth (go_typeOf gob args) m \<and> rs1 = counted rs \<and>
         w1 = fst (run_handler gob m args w) \<and>
         reply = \<lparr>rp_ok = True, rp_reply = fst (gob_encode gob (snd (run_handler gob m args w)))\<rparr>)"
    (is "?l \<longleftrightarrow> ?r")
proof
  let ?dot = "last_index (CHR ''.'') svcMeth"
  assume l: ?l
  then have dot: "?dot \<ge> 0"
    by (auto simp: srv_dispatch_def the_request_def Let_def go_upto_def go_from_def
          split: option.splits if_splits)
  define sname mname where "sname = take (nat ?dot) svcMeth" and "mname = drop (nat (?dot + 1)) svcMeth"
  have name: "svcMeth = sname @ ''.'' @ mname" "CHR ''.'' \<notin> set mname"
    using last_index_split [OF dot] by (simp_all add: sname_def mname_def)
  have slices: "go_upto svcMeth ?dot = Some sname" "go_from svcMeth (?dot + 1) = Some mname"
    using dot last_index_bounds(1) [of "CHR ''.''" svcMeth]
    by (simp_all add: go_upto_def go_from_def sname_def mname_def)
  from l obtain svc where svc: "srv_services rs sname = Some svc"
    "svc_dispatch gob mname (the_request gob endname svcMeth args) svc w = Inr (w1, reply)" "rs1 = counted rs"
    by (auto simp: srv_dispatch_def Let_def counted_def slices the_request_def
          split: option.splits sum.splits)
  from svc(2) obtain m where "svc_methods svc mname = Some m" "gm_In1 m (go_typeOf gob args)"
    "w1 = fst (run_handler gob m args w)"
    "reply = \<lparr>rp_ok = True, rp_reply = fst (gob_encode gob (snd (run_handler gob m args w)))\<rparr>"
    by (auto simp: svc_dispatch_request [OF rt] split: option.splits if_splits)
  with svc name show ?r
    unfolding serves_def by blast
next
  assume ?r
  then obtain m sname mname svc where m: "svcMeth = sname @ ''.'' @ mname" "CHR ''.'' \<notin> set mname"
    "srv_services rs sname = Some svc" "svc_methods svc mname = Some m" "gm_In1 m (go_typeOf gob args)"
    and res: "rs1 = counted rs" "w1 = fst (run_handler gob m args w)"
    "reply = \<lparr>rp_ok = True, rp_reply = fst (gob_encode gob (snd (run_handler gob m args w)))\<rparr>"
    unfolding serves_def by blast
  have dot: "last_index (CHR ''.'') svcMeth = int (length sname)"
    using m(1,2) last_index_append [of "CHR ''.''" mname sname] by simp
  have slices: "go_upto svcMeth (int (length sname)) = Some sname"
    "go_from svcMeth (int (length sname) + 1) = Some mname"
    by (simp_all add: go_upto_def go_from_def m(1) nat_add_distrib)
  show ?l
    using m(3-5) res
    by (simp add: srv_dispatch_def Let_def dot slices svc_dispatch_request [OF rt] counted_def)
qed

section \<open>The goroutine of a request\<close>

lemma processReq_begin_ToServer:
  "processReq_begin lose req rn = ToServer n server \<longleftrightarrow>
   nw_enabled rn (rq_endname req) \<and> nw_connections rn (rq_endname req) = Some n \<and>
   nw_servers rn n = Some server \<and> (nw_reliable rn \<or> \<not> lose)"
  by (auto simp: processReq_begin_def readEndnameInfo_def Let_def split: option.splits prod.splits)

lemma processReq_wait_alive:
  "(\<forall>rn\<in>set turns. \<not> isServerDead e n server rn) \<Longrightarrow>
   processReq_wait e n server (map Turn turns @ [Returned reply]) = Some (Some reply)"
  by (induction turns) auto

lemma processReq_wait_result:
  "processReq_wait e n server (map Turn turns @ (if b then [Returned reply] else [])) = Some (Some r) \<Longrightarrow>
   r = reply"
  by (induction turns) (auto split: if_splits)

lemma processReq_end_ok:
  "rp_ok (processReq_end reliable lose e n server result rn) \<Longrightarrow>
   \<not> isServerDead e n server rn \<and> result = Some (processReq_end reliable lose e n server result rn)"
  by (auto simp: processReq_end_def no_reply_def split: option.splits if_splits)

lemma reply_origin:
  assumes "processReq_wait e n server (map Turn turns @ (if b then [Returned reply] else [])) = Some z"
    and "rp_ok (processReq_end reliable lose e n server z rn)"
  shows "processReq_end reliable lose e n server z rn = reply \<and> \<not> isServerDead e n server rn"
proof -
  from processReq_end_ok [OF assms(2)]
  have z: "\<not> isServerDead e n server rn" "z = Some (processReq_end reliable lose e n server z rn)"
    by blast+
  from assms(1) z(2)
  have "processReq_wait e n server (map Turn turns @ (if b then [Returned reply] else [])) =
      Some (Some (processReq_end reliable lose e n server z rn))" by simp
  with z(1) show ?thesis by (auto dest: processReq_wait_result)
qed

lemma Call_sent:
  assumes "snd (gob_encode gob args)" "\<not> (nw_done (sc_send sc) \<and> sc_cleaned sc)"
  shows "Call gob sc endname svcMeth args reply store w =
     (case processReq gob sc (the_request gob endname svcMeth args) store w of
        Inl e \<Rightarrow> Inl e
      | Inr (store1, w1, None) \<Rightarrow> Inr (store1, w1, None)
      | Inr (store1, w1, Some rep) \<Rightarrow>
          if rp_ok rep then
            (let (reply1, ok1) = gob_decode gob (rp_reply rep) reply
             in if ok1 then Inr (store1, w1, Some (Some reply1)) else Inl RpcFatal)
          else Inr (store1, w1, Some None))"
  using assms by (auto simp: Call_def the_request_def split_beta)

lemma Call_not_sent:
  assumes "snd (gob_encode gob args)" "nw_done (sc_send sc)" "sc_cleaned sc"
  shows "Call gob sc endname svcMeth args reply store w = Inr (store, w, Some None)"
  using assms by (simp add: Call_def split_beta)

lemma processReq_no_server:
  assumes "\<And>n server. processReq_begin (sc_dropRequest sc) req (sc_begin sc) \<noteq> ToServer n server"
  shows "processReq gob sc req store w = Inr (store, w, Some no_reply)"
  using assms by (cases "processReq_begin (sc_dropRequest sc) req (sc_begin sc)") (auto simp: processReq_def)

lemma processReq_served:
  assumes "processReq_begin (sc_dropRequest sc) req (sc_begin sc) = ToServer n server"
    and "processReq gob sc req store w = Inr (store', w', out)"
  obtains rs reply where "srv_dispatch gob req (store server) w = Inr (rs, w', reply)"
    "store' = store(server := rs)"
    "\<And>rep. out = Some rep \<Longrightarrow> rp_ok rep \<Longrightarrow> rep = reply \<and> \<not> isServerDead (rq_endname req) n server (sc_end sc)"
proof -
  from assms obtain rs reply where d: "srv_dispatch gob req (store server) w = Inr (rs, w', reply)"
      "store' = store(server := rs)"
    and out: "out = map_option (\<lambda>result. processReq_end (nw_reliable (sc_begin sc)) (sc_dropReply sc)
        (rq_endname req) n server result (sc_end sc))
      (processReq_wait (rq_endname req) n server
        (map Turn (sc_turns sc) @ (if sc_returns sc then [Returned reply] else [])))"
    by (auto simp: processReq_def split: sum.splits)
  show thesis
  proof (rule that [OF d])
    fix rep assume "out = Some rep" "rp_ok rep"
    then show "rep = reply \<and> \<not> isServerDead (rq_endname req) n server (sc_end sc)"
      unfolding out by (auto dest: reply_origin)
  qed
qed

text \<open>The cases of a call: the handler did not run, or it ran once.\<close>

lemma Call_cases:
  assumes call: "Call gob sc endname svcMeth args reply store w = Inr (store', w', result)"
    and rt: "gob_roundtrip gob args"
  obtains "store' = store" "w' = w" "result = Some None"
  | n server m where
      "nw_enabled (sc_begin sc) endname" "nw_connections (sc_begin sc) endname = Some n"
      "nw_servers (sc_begin sc) n = Some server" "serves (store server) svcMeth (go_typeOf gob args) m"
      "store' = store(server := counted (store server))" "w' = fst (run_handler gob m args w)"
      "\<And>reply'. result = Some (Some reply') \<Longrightarrow>
         \<not> isServerDead endname n server (sc_end sc) \<and>
         gob_decode gob (fst (gob_encode gob (snd (run_handler gob m args w)))) reply = (reply', True)"
proof (cases "nw_done (sc_send sc) \<and> sc_cleaned sc")
  case True
  with call rt show thesis
    using that(1) by (simp add: Call_not_sent gob_roundtrip_def)
next
  case False
  let ?req = "the_request gob endname svcMeth args"
  have sent: "snd (gob_encode gob args)" using rt by (simp add: gob_roundtrip_def)
  note call' = call [unfolded Call_sent [OF sent False]]
  show thesis
  proof (cases "\<exists>n server. processReq_begin (sc_dropRequest sc) ?req (sc_begin sc) = ToServer n server")
    case False
    then show thesis
      using call' that(1) by (simp add: processReq_no_server no_reply_def)
  next
    case True
    then obtain n server where b: "processReq_begin (sc_dropRequest sc) ?req (sc_begin sc) = ToServer n server"
      by blast
    from call' obtain out where p: "processReq gob sc ?req store w = Inr (store', w', out)"
      and res: "\<And>reply'. result = Some (Some reply') \<Longrightarrow>
        \<exists>rep. out = Some rep \<and> rp_ok rep \<and> gob_decode gob (rp_reply rep) reply = (reply', True)"
      by (auto split: sum.splits option.splits if_splits prod.splits)
    from processReq_served [OF b p] obtain rs rep where
      d: "srv_dispatch gob ?req (store server) w = Inr (rs, w', rep)" "store' = store(server := rs)"
      and alive: "\<And>x. out = Some x \<Longrightarrow> rp_ok x \<Longrightarrow> x = rep \<and> \<not> isServerDead endname n server (sc_end sc)"
      by auto
    from d(1) [unfolded srv_dispatch_request [OF rt]] obtain m where
      m: "serves (store server) svcMeth (go_typeOf gob args) m" "rs = counted (store server)"
        "w' = fst (run_handler gob m args w)"
        "rp_reply rep = fst (gob_encode gob (snd (run_handler gob m args w)))"
      by auto
    show thesis
      using b [unfolded processReq_begin_ToServer the_request_simps] m d(2) alive res
      by (intro that(2) [of n server m]) fastforce+
  qed
qed

section \<open>Removed servers\<close>

lemma nw_apply_server:
  "nw_apply x rn = Inr rn' \<Longrightarrow> x \<noteq> OpAddServer n server \<Longrightarrow> nw_servers rn n \<noteq> Some server \<Longrightarrow>
   nw_servers rn' n \<noteq> Some server"
  by (cases x) (auto simp: nw_Reliable_def nw_LongReordering_def nw_LongDelays_def MakeEnd_def DeleteEnd_def
      AddServer_def DeleteServer_def Connect_def Enable_def nw_Cleanup_def split: if_splits)

lemma nw_run_server:
  "nw_run xs rn = Inr rn' \<Longrightarrow> OpAddServer n server \<notin> set xs \<Longrightarrow> nw_servers rn n \<noteq> Some server \<Longrightarrow>
   nw_servers rn' n \<noteq> Some server"
proof (induction xs arbitrary: rn)
  case (Cons x xs)
  then obtain rn1 where rn1: "nw_apply x rn = Inr rn1" "nw_run xs rn1 = Inr rn'"
    by (auto split: sum.splits)
  have "nw_servers rn1 n \<noteq> Some server"
    using nw_apply_server [OF rn1(1)] Cons.prems(2,3) by auto
  then show ?case
    using Cons.IH [OF rn1(2)] Cons.prems(2) by simp
qed simp

lemma nw_run_append:
  "nw_run (xs @ ys) rn = (case nw_run xs rn of Inl e \<Rightarrow> Inl e | Inr rn1 \<Rightarrow> nw_run ys rn1)"
  by (induction xs arbitrary: rn) (auto split: sum.splits)

lemma nw_run_deleted:
  assumes "nw_run (xs @ OpDeleteServer n # ys) rn = Inr rn'" "OpAddServer n server \<notin> set ys"
  shows "nw_servers rn' n \<noteq> Some server"
proof -
  from assms(1) obtain rn1 where rn1: "nw_run ys (DeleteServer n rn1) = Inr rn'"
    by (auto simp: nw_run_append split: sum.splits)
  show ?thesis
    by (rule nw_run_server [OF rn1 assms(2)]) (simp add: DeleteServer_def)
qed

section \<open>A small example\<close>

text \<open>
  Values are lists of bytes, which encode as themselves; the handler Log.Add puts its
  argument in front of a log and replies with the log it found.
\<close>

definition bytes_gob :: "(unit, byte list) gob_lib" where
  "bytes_gob = \<lparr>go_typeOf = (\<lambda>_. ()), go_zero = (\<lambda>_. []), gob_encode = (\<lambda>v. (v, True)),
     gob_decode = (\<lambda>bs _. (bs, True))\<rparr>"

definition add_method :: "(unit, byte list, byte list) go_method" where
  "add_method = \<lparr>gm_Name = ''Add'', gm_PkgPath = [], gm_NumIn = 3, gm_In1 = (\<lambda>_. True), gm_In2Ptr = True,
     gm_NumOut = 0, gm_replyType = (), gm_Func = (\<lambda>args _ w. (args @ w, w))\<rparr>"

definition log_store :: "nat \<Rightarrow> (unit, byte list, byte list) Server" where
  "log_store = (\<lambda>_. AddService (MakeService ''Log'' [add_method]) MakeServer)"

definition log_net :: "(nat, nat) Network" where
  "log_net = Enable 0 True (AddServer 7 1 (Connect 0 7 (MakeNetwork\<lparr>nw_ends := {0}\<rparr>)))"

definition log_schedule :: "(nat, nat) Network \<Rightarrow> (nat, nat) schedule" where
  "log_schedule rn = \<lparr>sc_send = log_net, sc_cleaned = False, sc_begin = log_net, sc_dropRequest = True,
     sc_turns = [log_net], sc_returns = True, sc_end = rn, sc_dropReply = True\<rparr>"

lemmas log_defs = bytes_gob_def add_method_def log_store_def log_net_def log_schedule_def Enable_def AddServer_def
  DeleteServer_def Connect_def MakeNetwork_def AddService_def MakeService_def MakeServer_def handler_like_def

lemma log_serves: "serves (log_store 1) ''Log.Add'' () add_method"
  unfolding serves_def by (rule exI [of _ "''Log''"], rule exI [of _ "''Add''"]) (simp add: log_defs)

lemma log_call:
  "Call bytes_gob (log_schedule log_net) 0 ''Log.Add'' [3] [] log_store [9] =
   Inr (log_store(1 := counted (log_store 1)), [3, 9], Some (Some [9]))"
  by (simp add: Call_def processReq_def processReq_begin_def readEndnameInfo_def srv_dispatch_def svc_dispatch_def
      processReq_end_def isServerDead_def go_upto_def go_from_def counted_def log_defs)

text \<open>The server is removed and its name given to another one while the call is served.\<close>

definition log_replaced :: "(nat, nat) Network" where
  "log_replaced = AddServer 7 2 (DeleteServer 7 log_net)"

lemma log_call_replaced:
  "Call bytes_gob (log_schedule log_replaced) 0 ''Log.Add'' [3] [] log_store [9] =
   Inr (log_store(1 := counted (log_store 1)), [3, 9], Some None)"
  by (simp add: Call_def processReq_def processReq_begin_def readEndnameInfo_def srv_dispatch_def svc_dispatch_def
      processReq_end_def isServerDead_def go_upto_def go_from_def counted_def no_reply_def log_replaced_def log_defs)

section \<open>Properties\<close>

text \<open>
  C35. A call whose arguments can be sent either runs no handler, changes nothing and returns
  false, or runs the named handler of the server its end is connected to exactly once, on
  the arguments of the caller, and counts one call at that server. When it returns true, the
  reply is the one of that run, and at the last test after the handler had returned, before
  any delay of the reply, the server was still the one registered under its name and the end
  was still enabled.
\<close>

theorem rpc_runs_handler_at_most_once:
  assumes "Call gob sc endname svcMeth args reply store w = Inr (store', w', result)"
    and "gob_roundtrip gob args"
  shows "(store' = store \<and> w' = w \<and> result = Some None) \<or>
    (\<exists>n server m. nw_enabled (sc_begin sc) endname \<and> nw_connections (sc_begin sc) endname = Some n \<and>
       nw_servers (sc_begin sc) n = Some server \<and> serves (store server) svcMeth (go_typeOf gob args) m \<and>
       store' = store(server := counted (store server)) \<and> w' = fst (run_handler gob m args w) \<and>
       (\<forall>reply'. result = Some (Some reply') \<longrightarrow>
          nw_enabled (sc_end sc) endname \<and> nw_servers (sc_end sc) n = Some server \<and>
          (gob_roundtrip gob (snd (run_handler gob m args w)) \<longrightarrow>
           reply = go_zero gob (go_typeOf gob (snd (run_handler gob m args w))) \<longrightarrow>
           reply' = snd (run_handler gob m args w))))"
  using assms
proof (cases rule: Call_cases)
  case (2 n server m)
  have "reply' = snd (run_handler gob m args w)"
    if "result = Some (Some reply')" "gob_roundtrip gob (snd (run_handler gob m args w))"
      "reply = go_zero gob (go_typeOf gob (snd (run_handler gob m args w)))" for reply'
    using 2(7) [OF that(1)] that(2,3) by (simp add: gob_roundtrip_def)
  then show ?thesis
    using 2 unfolding isServerDead_def by blast
qed simp

theorem rpc_runs_handler_at_most_once_witness:
  "\<exists>n server m. nw_connections log_net 0 = Some n \<and> serves (log_store server) ''Log.Add'' () m \<and>
     nw_servers log_net n = Some server \<and> [3, 9] = fst (run_handler bytes_gob m [3] [9]) \<and>
     [9] = snd (run_handler bytes_gob m [3] [9])"
proof -
  have "gob_roundtrip bytes_gob v" for v
    by (simp add: gob_roundtrip_def bytes_gob_def)
  moreover have "go_typeOf bytes_gob v = ()" "go_zero bytes_gob t = []" "sc_begin (log_schedule rn) = log_net" for v t rn
    by (simp_all add: bytes_gob_def log_schedule_def)
  ultimately show ?thesis
    using rpc_runs_handler_at_most_once [OF log_call] by auto
qed

text \<open>
  C36. On a reliable network an end that is enabled and connected to a server which stays
  registered, is answered: the call returns true with the reply of the handler, however many
  turns the wait takes, whatever the random choices.
\<close>

theorem rpc_reliable_answers:
  assumes "\<not> nw_done (sc_send sc)" "nw_reliable (sc_begin sc)" "nw_enabled (sc_begin sc) endname"
    and "nw_connections (sc_begin sc) endname = Some n" "nw_servers (sc_begin sc) n = Some server"
    and "\<forall>rn\<in>set (sc_turns sc) \<union> {sc_end sc}. \<not> isServerDead endname n server rn" "sc_returns sc"
    and "serves (store server) svcMeth (go_typeOf gob args) m" "gob_roundtrip gob args"
    and "run_handler gob m args w = (w', r)" "gob_roundtrip gob r" "reply = go_zero gob (go_typeOf gob r)"
  shows "Call gob sc endname svcMeth args reply store w =
    Inr (store(server := counted (store server)), w', Some (Some r))"
proof -
  let ?req = "the_request gob endname svcMeth args"
  let ?rep = "\<lparr>rp_ok = True, rp_reply = fst (gob_encode gob r)\<rparr>"
  have b: "processReq_begin (sc_dropRequest sc) ?req (sc_begin sc) = ToServer n server"
    unfolding processReq_begin_ToServer using assms(2-5) by simp
  have d: "srv_dispatch gob ?req (store server) w = Inr (counted (store server), w', ?rep)"
    unfolding srv_dispatch_request [OF assms(9)] using assms(8,10) by (intro exI [of _ m]) simp
  have wait: "processReq_wait endname n server (map Turn (sc_turns sc) @ [Returned ?rep]) = Some (Some ?rep)"
    by (rule processReq_wait_alive) (use assms(6) in simp)
  have p: "processReq gob sc ?req store w = Inr (store(server := counted (store server)), w', Some ?rep)"
    using assms(2,6,7) by (simp add: processReq_def b d wait processReq_end_def)
  show ?thesis
    using assms(1,9,11,12) by (simp add: Call_sent p gob_roundtrip_def)
qed

theorem rpc_reliable_answers_witness:
  "Call bytes_gob (log_schedule log_net) 0 ''Log.Add'' [3] [] log_store [9] =
   Inr (log_store(1 := counted (log_store 1)), [3, 9], Some (Some [9]))"
  by (rule rpc_reliable_answers [where m = add_method and n = 7])
     (use log_serves in \<open>simp_all add: gob_roundtrip_def isServerDead_def run_handler_def log_defs\<close>)

text \<open>
  C37. No call returns true on behalf of a server that was removed while it was served, not
  even when another server has been registered under the same name since: the handler may
  have run, but its reply is discarded.
\<close>

theorem rpc_removed_server_silent:
  assumes "nw_connections (sc_begin sc) endname = Some n" "nw_servers (sc_begin sc) n = Some server"
    and "nw_run (ops @ OpDeleteServer n # ops') (sc_begin sc) = Inr (sc_end sc)"
    and "OpAddServer n server \<notin> set ops'"
    and "Call gob sc endname svcMeth args reply store w = Inr (store', w', result)" "gob_roundtrip gob args"
  shows "result = None \<or> result = Some None"
  using assms(5,6)
proof (cases rule: Call_cases)
  case (2 n' server' m)
  have "n' = n" "server' = server" using 2(2,3) assms(1,2) by simp_all
  moreover have "isServerDead endname n server (sc_end sc)"
    using nw_run_deleted [OF assms(3,4)] by (simp add: isServerDead_def)
  ultimately show ?thesis
    using 2(7) by (metis not_None_eq)
qed simp

theorem rpc_removed_server_silent_witness:
  "\<exists>result. Call bytes_gob (log_schedule log_replaced) 0 ''Log.Add'' [3] [] log_store [9] =
     Inr (log_store(1 := counted (log_store 1)), [3, 9], result) \<and> (result = None \<or> result = Some None)"
proof (rule exI, rule conjI)
  show "Call bytes_gob (log_schedule log_replaced) 0 ''Log.Add'' [3] [] log_store [9] =
     Inr (log_store(1 := counted (log_store 1)), [3, 9], Some None)"
    by (rule log_call_replaced)
  show "Some None = (None :: byte list option option) \<or> Some None = (Some None :: byte list option option)"
    by (rule rpc_removed_server_silent [where n = 7 and server = 1 and ops = "[]" and ops' = "[OpAddServer 7 2]",
          OF _ _ _ _ log_call_replaced])
       (simp_all add: log_replaced_def log_defs gob_roundtrip_def)
qed

end
