(* ===== verification/Harness_Net.thy ===== *)
theory Harness_Net
  imports Lab_Rpc
begin

text \<open>
  What the test harnesses of both consensus packages have in common: a group of servers on
  the simulated network, where every server has one end for each server, and ends are
  switched on and off to connect and disconnect servers. The record is extended by each
  harness; the operations work on every extension.
\<close>

section \<open>State and operations\<close>

record 'e ends_base =
  cfg_net :: "('e, nat) Network"
  cfg_n :: nat
  cfg_endnames :: "nat \<Rightarrow> 'e list option"

record 'e wiring = "'e ends_base" +
  cfg_connected :: "nat \<Rightarrow> bool"

definition cfg_enable :: "('e, 'z) ends_base_scheme \<Rightarrow> nat \<Rightarrow> nat \<Rightarrow> bool \<Rightarrow> ('e, nat) Network \<Rightarrow> ('e, nat) Network panics" where
  "cfg_enable cfg i j yes net =
     (case cfg_endnames cfg i of
        None \<Rightarrow> None
      | Some names \<Rightarrow> if j < length names then Some (Enable (names ! j) yes net) else None)"

fun connect_out :: "('e, 'z) wiring_scheme \<Rightarrow> nat \<Rightarrow> nat list \<Rightarrow> ('e, nat) Network \<Rightarrow> ('e, nat) Network panics" where
  "connect_out cfg i [] net = Some net"
| "connect_out cfg i (j # js) net =
     (if cfg_connected cfg j
      then (case cfg_enable cfg i j True net of None \<Rightarrow> None | Some net1 \<Rightarrow> connect_out cfg i js net1)
      else connect_out cfg i js net)"

fun connect_in :: "('e, 'z) wiring_scheme \<Rightarrow> nat \<Rightarrow> nat list \<Rightarrow> ('e, nat) Network \<Rightarrow> ('e, nat) Network panics" where
  "connect_in cfg i [] net = Some net"
| "connect_in cfg i (j # js) net =
     (if cfg_connected cfg j
      then (case cfg_enable cfg j i True net of None \<Rightarrow> None | Some net1 \<Rightarrow> connect_in cfg i js net1)
      else connect_in cfg i js net)"

definition cfg_connect :: "nat \<Rightarrow> ('e, 'z) wiring_scheme \<Rightarrow> ('e, 'z) wiring_scheme panics" where
  "cfg_connect i cfg =
     (if \<not> i < cfg_n cfg then None else
      let cfg1 = cfg\<lparr>cfg_connected := (cfg_connected cfg)(i := True)\<rparr>;
          js = [0..<cfg_n cfg]
      in (case connect_out cfg1 i js (cfg_net cfg1) of
            None \<Rightarrow> None
          | Some net1 \<Rightarrow> map_option (\<lambda>net2. cfg1\<lparr>cfg_net := net2\<rparr>) (connect_in cfg1 i js net1)))"

fun disconnect_out :: "('e, 'z) wiring_scheme \<Rightarrow> nat \<Rightarrow> nat list \<Rightarrow> ('e, nat) Network \<Rightarrow> ('e, nat) Network panics" where
  "disconnect_out cfg i [] net = Some net"
| "disconnect_out cfg i (j # js) net =
     (if cfg_endnames cfg i \<noteq> None
      then (case cfg_enable cfg i j False net of None \<Rightarrow> None | Some net1 \<Rightarrow> disconnect_out cfg i js net1)
      else disconnect_out cfg i js net)"

fun disconnect_in :: "('e, 'z) wiring_scheme \<Rightarrow> nat \<Rightarrow> nat list \<Rightarrow> ('e, nat) Network \<Rightarrow> ('e, nat) Network panics" where
  "disconnect_in cfg i [] net = Some net"
| "disconnect_in cfg i (j # js) net =
     (if cfg_endnames cfg j \<noteq> None
      then (case cfg_enable cfg j i False net of None \<Rightarrow> None | Some net1 \<Rightarrow> disconnect_in cfg i js net1)
      else disconnect_in cfg i js net)"

definition cfg_disconnect :: "nat \<Rightarrow> ('e, 'z) wiring_scheme \<Rightarrow> ('e, 'z) wiring_scheme panics" where
  "cfg_disconnect i cfg =
     (if \<not> i < cfg_n cfg then None else
      let cfg1 = cfg\<lparr>cfg_connected := (cfg_connected cfg)(i := False)\<rparr>;
          js = [0..<cfg_n cfg]
      in (case disconnect_out cfg1 i js (cfg_net cfg1) of
            None \<Rightarrow> None
          | Some net1 \<Rightarrow> map_option (\<lambda>net2. cfg1\<lparr>cfg_net := net2\<rparr>) (disconnect_in cfg1 i js net1)))"

fun make_ends :: "'e list \<Rightarrow> nat \<Rightarrow> ('e, nat) Network \<Rightarrow> rpc_error + ('e, nat) Network" where
  "make_ends [] j net = Inr net"
| "make_ends (name # names) j net =
     (case MakeEnd name net of
        Inl e \<Rightarrow> Inl e
      | Inr net1 \<Rightarrow> make_ends names (Suc j) (Connect name j net1))"

fun connect_all :: "nat list \<Rightarrow> ('e, 'z) wiring_scheme \<Rightarrow> ('e, 'z) wiring_scheme panics" where
  "connect_all [] cfg = Some cfg"
| "connect_all (i # is) cfg = (case cfg_connect i cfg of None \<Rightarrow> None | Some cfg1 \<Rightarrow> connect_all is cfg1)"

definition setunreliable :: "bool \<Rightarrow> ('e, 'z) wiring_scheme \<Rightarrow> ('e, 'z) wiring_scheme" where
  "setunreliable unrel cfg = cfg\<lparr>cfg_net := nw_Reliable (\<not> unrel) (cfg_net cfg)\<rparr>"

definition setlongreordering :: "bool \<Rightarrow> ('e, 'z) wiring_scheme \<Rightarrow> ('e, 'z) wiring_scheme" where
  "setlongreordering longrel cfg = cfg\<lparr>cfg_net := nw_LongReordering longrel (cfg_net cfg)\<rparr>"

definition rpcCount :: "(nat \<Rightarrow> ('t, 'v, 'w) Server) \<Rightarrow> nat \<Rightarrow> ('e, 'z) wiring_scheme \<Rightarrow> rpc_error + int" where
  "rpcCount store server cfg = nw_GetCount store server (cfg_net cfg)"

definition rpcTotal :: "('e, 'z) wiring_scheme \<Rightarrow> int" where
  "rpcTotal cfg = GetTotalCount (cfg_net cfg)"

definition bytesTotal :: "('e, 'z) wiring_scheme \<Rightarrow> 64 word" where
  "bytesTotal cfg = GetTotalBytes (cfg_net cfg)"

section \<open>The wiring\<close>

text \<open>The end with which server i calls server j.\<close>

definition cfg_end_name :: "('e, 'z) ends_base_scheme \<Rightarrow> nat \<Rightarrow> nat \<Rightarrow> 'e" where
  "cfg_end_name cfg i j = the (cfg_endnames cfg i) ! j"

text \<open>
  Started servers have one name per server, all names differ and are known to the network,
  and an end is connected to the server it is named for.
\<close>

definition ends_ok :: "('e, 'z) ends_base_scheme \<Rightarrow> bool" where
  "ends_ok cfg \<longleftrightarrow>
     (\<forall>i < cfg_n cfg. \<forall>names. cfg_endnames cfg i = Some names \<longrightarrow>
        length names = cfg_n cfg \<and> set names \<subseteq> nw_ends (cfg_net cfg)) \<and>
     (\<forall>i i' j j'. i < cfg_n cfg \<and> i' < cfg_n cfg \<and> j < cfg_n cfg \<and> j' < cfg_n cfg \<and>
        cfg_endnames cfg i \<noteq> None \<and> cfg_endnames cfg i' \<noteq> None \<and>
        cfg_end_name cfg i j = cfg_end_name cfg i' j' \<longrightarrow> i = i' \<and> j = j') \<and>
     (\<forall>i < cfg_n cfg. \<forall>j < cfg_n cfg. cfg_endnames cfg i \<noteq> None \<longrightarrow>
        nw_connections (cfg_net cfg) (cfg_end_name cfg i j) = Some j)"

text \<open>
  With connected flags: a server that is connected is started, and an end is enabled when
  both of its servers are connected, and only then.
\<close>

definition wired :: "('e, 'z) wiring_scheme \<Rightarrow> bool" where
  "wired cfg \<longleftrightarrow> ends_ok cfg \<and>
     (\<forall>i < cfg_n cfg. cfg_connected cfg i \<longrightarrow> cfg_endnames cfg i \<noteq> None) \<and>
     (\<forall>i < cfg_n cfg. \<forall>j < cfg_n cfg. cfg_endnames cfg i \<noteq> None \<longrightarrow>
        (nw_enabled (cfg_net cfg) (cfg_end_name cfg i j) \<longleftrightarrow> cfg_connected cfg i \<and> cfg_connected cfg j))"

text \<open>The effect of a loop of Enable calls: the ends whose flag it sets.\<close>

definition nw_set :: "('e \<Rightarrow> bool) \<Rightarrow> bool \<Rightarrow> ('e, nat) Network \<Rightarrow> ('e, nat) Network" where
  "nw_set hit yes net = net\<lparr>nw_enabled := (\<lambda>e. if hit e then yes else nw_enabled net e)\<rparr>"

lemma nw_set_sel [simp]:
  "nw_enabled (nw_set hit yes net) e = (if hit e then yes else nw_enabled net e)"
  "nw_connections (nw_set hit yes net) = nw_connections net"
  "nw_ends (nw_set hit yes net) = nw_ends net"
  "nw_servers (nw_set hit yes net) = nw_servers net"
  by (simp_all add: nw_set_def)

lemma nw_set_Enable: "nw_set hit yes (Enable e yes net) = nw_set (\<lambda>x. x = e \<or> hit x) yes net"
  by (auto simp: nw_set_def Enable_def fun_eq_iff)

lemma nw_set_none: "nw_set (\<lambda>_. False) yes net = net"
  by (simp add: nw_set_def)

lemma nw_set_twice: "nw_set g yes (nw_set f yes net) = nw_set (\<lambda>x. f x \<or> g x) yes net"
  by (auto simp: nw_set_def fun_eq_iff)

definition named :: "('e, 'z) ends_base_scheme \<Rightarrow> nat \<Rightarrow> bool" where
  "named cfg i \<longleftrightarrow> (\<exists>names. cfg_endnames cfg i = Some names \<and> length names = cfg_n cfg)"

lemma cfg_enable_named:
  "named cfg i \<Longrightarrow> j < cfg_n cfg \<Longrightarrow> cfg_enable cfg i j yes net = Some (Enable (cfg_end_name cfg i j) yes net)"
  by (auto simp: named_def cfg_enable_def cfg_end_name_def)

lemma connect_out_eq:
  "named cfg i \<Longrightarrow> set js \<subseteq> {..<cfg_n cfg} \<Longrightarrow>
   connect_out cfg i js net =
     Some (nw_set (\<lambda>e. \<exists>j\<in>set js. cfg_connected cfg j \<and> e = cfg_end_name cfg i j) True net)"
  by (induction js arbitrary: net)
     (auto simp: cfg_enable_named nw_set_none nw_set_Enable intro!: arg_cong [where f = "\<lambda>h. nw_set h True _"])

lemma connect_in_eq:
  "(\<And>j. j < cfg_n cfg \<Longrightarrow> cfg_connected cfg j \<Longrightarrow> named cfg j) \<Longrightarrow> i < cfg_n cfg \<Longrightarrow>
   set js \<subseteq> {..<cfg_n cfg} \<Longrightarrow>
   connect_in cfg i js net =
     Some (nw_set (\<lambda>e. \<exists>j\<in>set js. cfg_connected cfg j \<and> e = cfg_end_name cfg j i) True net)"
  by (induction js arbitrary: net)
     (auto simp: cfg_enable_named nw_set_none nw_set_Enable intro!: arg_cong [where f = "\<lambda>h. nw_set h True _"])

lemma disconnect_out_eq:
  "(cfg_endnames cfg i \<noteq> None \<Longrightarrow> named cfg i) \<Longrightarrow> set js \<subseteq> {..<cfg_n cfg} \<Longrightarrow>
   disconnect_out cfg i js net =
     Some (nw_set (\<lambda>e. \<exists>j\<in>set js. cfg_endnames cfg i \<noteq> None \<and> e = cfg_end_name cfg i j) False net)"
  by (induction js arbitrary: net)
     (auto simp: cfg_enable_named nw_set_none nw_set_Enable intro!: arg_cong [where f = "\<lambda>h. nw_set h False _"])

lemma disconnect_in_eq:
  "(\<And>j. j < cfg_n cfg \<Longrightarrow> cfg_endnames cfg j \<noteq> None \<Longrightarrow> named cfg j) \<Longrightarrow> i < cfg_n cfg \<Longrightarrow>
   set js \<subseteq> {..<cfg_n cfg} \<Longrightarrow>
   disconnect_in cfg i js net =
     Some (nw_set (\<lambda>e. \<exists>j\<in>set js. cfg_endnames cfg j \<noteq> None \<and> e = cfg_end_name cfg j i) False net)"
  by (induction js arbitrary: net)
     (auto simp: cfg_enable_named nw_set_none nw_set_Enable intro!: arg_cong [where f = "\<lambda>h. nw_set h False _"])

lemma ends_okD:
  assumes "ends_ok cfg"
  shows "i < cfg_n cfg \<Longrightarrow> cfg_endnames cfg i \<noteq> None \<Longrightarrow> named cfg i"
    and "i < cfg_n cfg \<Longrightarrow> cfg_endnames cfg i = Some names \<Longrightarrow> set names \<subseteq> nw_ends (cfg_net cfg)"
    and "i < cfg_n cfg \<Longrightarrow> i' < cfg_n cfg \<Longrightarrow> j < cfg_n cfg \<Longrightarrow> j' < cfg_n cfg \<Longrightarrow>
      cfg_endnames cfg i \<noteq> None \<Longrightarrow> cfg_endnames cfg i' \<noteq> None \<Longrightarrow>
      cfg_end_name cfg i j = cfg_end_name cfg i' j' \<longleftrightarrow> i = i' \<and> j = j'"
    and "i < cfg_n cfg \<Longrightarrow> j < cfg_n cfg \<Longrightarrow> cfg_endnames cfg i \<noteq> None \<Longrightarrow>
      nw_connections (cfg_net cfg) (cfg_end_name cfg i j) = Some j"
proof -
  show "named cfg i" if "i < cfg_n cfg" "cfg_endnames cfg i \<noteq> None"
    using assms that by (auto simp: ends_ok_def named_def)
  show "set names \<subseteq> nw_ends (cfg_net cfg)" if "i < cfg_n cfg" "cfg_endnames cfg i = Some names"
    using assms that unfolding ends_ok_def by blast
  show "cfg_end_name cfg i j = cfg_end_name cfg i' j' \<longleftrightarrow> i = i' \<and> j = j'"
    if "i < cfg_n cfg" "i' < cfg_n cfg" "j < cfg_n cfg" "j' < cfg_n cfg"
      "cfg_endnames cfg i \<noteq> None" "cfg_endnames cfg i' \<noteq> None"
    using assms that unfolding ends_ok_def by blast
  show "nw_connections (cfg_net cfg) (cfg_end_name cfg i j) = Some j"
    if "i < cfg_n cfg" "j < cfg_n cfg" "cfg_endnames cfg i \<noteq> None"
    using assms that unfolding ends_ok_def by blast
qed

lemma ends_ok_cong:
  assumes "ends_ok cfg" "cfg_n cfg' = cfg_n cfg" "cfg_endnames cfg' = cfg_endnames cfg"
    "nw_ends (cfg_net cfg') = nw_ends (cfg_net cfg)"
    "nw_connections (cfg_net cfg') = nw_connections (cfg_net cfg)"
  shows "ends_ok cfg'"
  using assms(1) unfolding ends_ok_def cfg_end_name_def assms(2-5) .

lemma wiredD:
  assumes "wired cfg"
  shows "i < cfg_n cfg \<Longrightarrow> cfg_endnames cfg i \<noteq> None \<Longrightarrow> named cfg i"
    and "ends_ok cfg"
    and "i < cfg_n cfg \<Longrightarrow> i' < cfg_n cfg \<Longrightarrow> j < cfg_n cfg \<Longrightarrow> j' < cfg_n cfg \<Longrightarrow>
      cfg_endnames cfg i \<noteq> None \<Longrightarrow> cfg_endnames cfg i' \<noteq> None \<Longrightarrow>
      cfg_end_name cfg i j = cfg_end_name cfg i' j' \<longleftrightarrow> i = i' \<and> j = j'"
    and "i < cfg_n cfg \<Longrightarrow> cfg_connected cfg i \<Longrightarrow> cfg_endnames cfg i \<noteq> None"
    and "i < cfg_n cfg \<Longrightarrow> j < cfg_n cfg \<Longrightarrow> cfg_endnames cfg i \<noteq> None \<Longrightarrow>
      nw_connections (cfg_net cfg) (cfg_end_name cfg i j) = Some j"
    and "i < cfg_n cfg \<Longrightarrow> j < cfg_n cfg \<Longrightarrow> cfg_endnames cfg i \<noteq> None \<Longrightarrow>
      nw_enabled (cfg_net cfg) (cfg_end_name cfg i j) \<longleftrightarrow> cfg_connected cfg i \<and> cfg_connected cfg j"
proof -
  show ok: "ends_ok cfg" using assms by (simp add: wired_def)
  note ends_okD(1,3,4) [OF ok]
  then show "i < cfg_n cfg \<Longrightarrow> cfg_endnames cfg i \<noteq> None \<Longrightarrow> named cfg i"
    and "i < cfg_n cfg \<Longrightarrow> i' < cfg_n cfg \<Longrightarrow> j < cfg_n cfg \<Longrightarrow> j' < cfg_n cfg \<Longrightarrow>
      cfg_endnames cfg i \<noteq> None \<Longrightarrow> cfg_endnames cfg i' \<noteq> None \<Longrightarrow>
      cfg_end_name cfg i j = cfg_end_name cfg i' j' \<longleftrightarrow> i = i' \<and> j = j'"
    and "i < cfg_n cfg \<Longrightarrow> j < cfg_n cfg \<Longrightarrow> cfg_endnames cfg i \<noteq> None \<Longrightarrow>
      nw_connections (cfg_net cfg) (cfg_end_name cfg i j) = Some j" by blast+
  show "cfg_endnames cfg i \<noteq> None" if "i < cfg_n cfg" "cfg_connected cfg i"
    using assms that unfolding wired_def by blast
  show "nw_enabled (cfg_net cfg) (cfg_end_name cfg i j) \<longleftrightarrow> cfg_connected cfg i \<and> cfg_connected cfg j"
    if "i < cfg_n cfg" "j < cfg_n cfg" "cfg_endnames cfg i \<noteq> None"
    using assms that unfolding wired_def by blast
qed

text \<open>The wiring only depends on the names, the connected flags and the network.\<close>

lemma wired_flags:
  assumes w: "wired cfg" and same: "cfg_n cfg' = cfg_n cfg" "cfg_endnames cfg' = cfg_endnames cfg"
      "cfg_connected cfg' = (cfg_connected cfg)(k := yes)"
    and net: "cfg_net cfg' = nw_set hit yes (cfg_net cfg)"
    and k: "k < cfg_n cfg" "yes \<Longrightarrow> cfg_endnames cfg k \<noteq> None"
    and hit: "\<And>i j. i < cfg_n cfg \<Longrightarrow> j < cfg_n cfg \<Longrightarrow> cfg_endnames cfg i \<noteq> None \<Longrightarrow>
      hit (cfg_end_name cfg i j) \<longleftrightarrow> (i = k \<or> j = k) \<and> (yes \<longrightarrow> cfg_connected cfg' i \<and> cfg_connected cfg' j)"
  shows "wired cfg'"
proof -
  have name: "cfg_end_name cfg' i j = cfg_end_name cfg i j" for i j
    by (simp add: cfg_end_name_def same)
  have conn: "cfg_endnames cfg i \<noteq> None" if "i < cfg_n cfg" "cfg_connected cfg' i" for i
    using that wiredD(4) [OF w, of i] k(2) by (auto simp: same split: if_splits)
  have en: "nw_enabled (cfg_net cfg') (cfg_end_name cfg i j) \<longleftrightarrow> cfg_connected cfg' i \<and> cfg_connected cfg' j"
    if "i < cfg_n cfg" "j < cfg_n cfg" "cfg_endnames cfg i \<noteq> None" for i j
    using hit [OF that] wiredD(6) [OF w that] by (auto simp: net same)
  have "ends_ok cfg'" by (rule ends_ok_cong [OF wiredD(2) [OF w] same(1,2)]) (simp_all add: net)
  then show ?thesis unfolding wired_def name same(1,2) using conn en by blast
qed

lemma connect_wired:
  assumes w: "wired cfg" and k: "k < cfg_n cfg" "cfg_endnames cfg k \<noteq> None"
  obtains net where
    "cfg_connect k cfg = Some (cfg\<lparr>cfg_connected := (cfg_connected cfg)(k := True), cfg_net := net\<rparr>)"
    "wired (cfg\<lparr>cfg_connected := (cfg_connected cfg)(k := True), cfg_net := net\<rparr>)"
proof -
  let ?cfg = "cfg\<lparr>cfg_connected := (cfg_connected cfg)(k := True)\<rparr>"
  let ?hit = "\<lambda>e. (\<exists>j\<in>set [0..<cfg_n cfg]. cfg_connected ?cfg j \<and> e = cfg_end_name ?cfg k j) \<or>
    (\<exists>j\<in>set [0..<cfg_n cfg]. cfg_connected ?cfg j \<and> e = cfg_end_name ?cfg j k)"
  have name: "cfg_end_name ?cfg i j = cfg_end_name cfg i j" "named ?cfg i = named cfg i" for i j
    by (simp_all add: cfg_end_name_def named_def)
  have names: "named ?cfg j" if "j < cfg_n cfg" "cfg_connected ?cfg j" for j
    using wiredD(1) [OF w that(1)] wiredD(4) [OF w that(1)] that(2) k(2) by (auto simp: name split: if_splits)
  let ?js = "[0..<cfg_n cfg]"
  have out: "connect_out ?cfg k ?js (cfg_net cfg) =
      Some (nw_set (\<lambda>e. \<exists>j\<in>set ?js. cfg_connected ?cfg j \<and> e = cfg_end_name ?cfg k j) True (cfg_net cfg))"
    by (rule connect_out_eq) (use names [of k] k in auto)
  have inn: "connect_in ?cfg k ?js net =
      Some (nw_set (\<lambda>e. \<exists>j\<in>set ?js. cfg_connected ?cfg j \<and> e = cfg_end_name ?cfg j k) True net)" for net
    by (rule connect_in_eq) (use names k in auto)
  have eq: "cfg_connect k cfg = Some (?cfg\<lparr>cfg_net := nw_set ?hit True (cfg_net cfg)\<rparr>)"
    using k(1) by (simp add: cfg_connect_def Let_def out inn nw_set_twice)
  define on where "on = cfg_connected ?cfg"
  have on_k: "on k" by (simp add: on_def)
  have hit: "?hit (cfg_end_name cfg i j) \<longleftrightarrow> (i = k \<or> j = k) \<and> on i \<and> on j"
    if ij: "i < cfg_n cfg" "j < cfg_n cfg" "cfg_endnames cfg i \<noteq> None" for i j
  proof -
    have "cfg_end_name cfg i j = cfg_end_name cfg k j' \<longleftrightarrow> i = k \<and> j = j'" if "j' < cfg_n cfg" for j'
      using wiredD(3) [OF w ij(1) k(1) ij(2) that ij(3) k(2)] .
    moreover have "cfg_end_name cfg i j = cfg_end_name cfg j' k \<longleftrightarrow> i = j' \<and> j = k"
      if j': "j' < cfg_n cfg" "on j'" for j'
      using wiredD(3) [OF w ij(1) j'(1) ij(2) k(1) ij(3)] names [OF j'(1)] j'(2) by (auto simp: named_def on_def)
    ultimately show ?thesis
      unfolding name on_def [symmetric] using ij on_k by (simp add: Bex_def) blast
  qed
  show thesis
    by (rule that [OF eq], rule wired_flags [OF w, where hit = ?hit and k = k and yes = True])
       (use k hit in \<open>auto simp: on_def\<close>)
qed

text \<open>The ends between k and the started servers.\<close>

definition touches :: "('e, 'z) wiring_scheme \<Rightarrow> nat \<Rightarrow> 'e \<Rightarrow> bool" where
  "touches cfg k e \<longleftrightarrow>
     (\<exists>j < cfg_n cfg. cfg_endnames cfg k \<noteq> None \<and> e = cfg_end_name cfg k j) \<or>
     (\<exists>j < cfg_n cfg. cfg_endnames cfg j \<noteq> None \<and> e = cfg_end_name cfg j k)"

lemma cfg_disconnect_eq:
  assumes names: "\<And>j. j < cfg_n cfg \<Longrightarrow> cfg_endnames cfg j \<noteq> None \<Longrightarrow> named cfg j" and k: "k < cfg_n cfg"
  shows "cfg_disconnect k cfg = Some (cfg\<lparr>cfg_connected := (cfg_connected cfg)(k := False),
    cfg_net := nw_set (touches cfg k) False (cfg_net cfg)\<rparr>)"
proof -
  let ?cfg = "cfg\<lparr>cfg_connected := (cfg_connected cfg)(k := False)\<rparr>" and ?js = "[0..<cfg_n cfg]"
  have same: "cfg_end_name ?cfg = cfg_end_name cfg" "named ?cfg = named cfg"
    by (simp_all add: cfg_end_name_def named_def fun_eq_iff)
  have out: "disconnect_out ?cfg k ?js (cfg_net cfg) =
      Some (nw_set (\<lambda>e. \<exists>j\<in>set ?js. cfg_endnames ?cfg k \<noteq> None \<and> e = cfg_end_name ?cfg k j) False (cfg_net cfg))"
    by (rule disconnect_out_eq) (use names [of k] k in \<open>auto simp: same\<close>)
  have inn: "disconnect_in ?cfg k ?js net =
      Some (nw_set (\<lambda>e. \<exists>j\<in>set ?js. cfg_endnames ?cfg j \<noteq> None \<and> e = cfg_end_name ?cfg j k) False net)" for net
    by (rule disconnect_in_eq) (use names k in \<open>auto simp: same\<close>)
  have "touches cfg k = (\<lambda>e. (\<exists>j\<in>set ?js. cfg_endnames ?cfg k \<noteq> None \<and> e = cfg_end_name ?cfg k j) \<or>
    (\<exists>j\<in>set ?js. cfg_endnames ?cfg j \<noteq> None \<and> e = cfg_end_name ?cfg j k))"
    by (auto simp: touches_def same fun_eq_iff)
  then show ?thesis
    using k by (simp add: cfg_disconnect_def Let_def out inn nw_set_twice)
qed

lemma disconnect_wired:
  assumes w: "wired cfg" and k: "k < cfg_n cfg"
  obtains net where
    "cfg_disconnect k cfg = Some (cfg\<lparr>cfg_connected := (cfg_connected cfg)(k := False), cfg_net := net\<rparr>)"
    "wired (cfg\<lparr>cfg_connected := (cfg_connected cfg)(k := False), cfg_net := net\<rparr>)"
proof -
  have hit: "touches cfg k (cfg_end_name cfg i j) \<longleftrightarrow> i = k \<or> j = k"
    if "i < cfg_n cfg" "j < cfg_n cfg" "cfg_endnames cfg i \<noteq> None" for i j
    using wiredD(3) [OF w] that k by (auto simp: touches_def)
  show thesis
    by (rule that [OF cfg_disconnect_eq], rule wiredD(1) [OF w], assumption+, rule k,
        rule wired_flags [OF w, where hit = "touches cfg k" and k = k and yes = False])
       (use k hit in auto)
qed

lemma wired_cong:
  assumes "wired cfg" "cfg_n cfg' = cfg_n cfg" "cfg_endnames cfg' = cfg_endnames cfg"
    "cfg_connected cfg' = cfg_connected cfg" "nw_ends (cfg_net cfg') = nw_ends (cfg_net cfg)"
    "nw_connections (cfg_net cfg') = nw_connections (cfg_net cfg)"
    "nw_enabled (cfg_net cfg') = nw_enabled (cfg_net cfg)"
  shows "wired cfg'"
  using assms(1) unfolding wired_def ends_ok_def cfg_end_name_def assms(2-7) .

lemma make_ends_spec:
  "make_ends names j net = Inr net' \<Longrightarrow>
   distinct names \<and> set names \<inter> nw_ends net = {} \<and> nw_ends net' = nw_ends net \<union> set names \<and>
   (\<forall>e. nw_enabled net' e \<longleftrightarrow> e \<notin> set names \<and> nw_enabled net e) \<and>
   (\<forall>e. e \<notin> set names \<longrightarrow> nw_connections net' e = nw_connections net e) \<and>
   (\<forall>k < length names. nw_connections net' (names ! k) = Some (j + k))"
proof (induction names arbitrary: j net)
  case (Cons name names)
  then obtain net1 where net1: "MakeEnd name net = Inr net1"
    "make_ends names (Suc j) (Connect name j net1) = Inr net'"
    by (auto split: sum.splits)
  from net1(1) have m: "name \<notin> nw_ends net" "nw_ends net1 = insert name (nw_ends net)"
    "nw_enabled net1 = (nw_enabled net)(name := False)"
    "nw_connections net1 = (nw_connections net)(name := None)"
    by (auto simp: MakeEnd_def split: if_splits)
  have nth: "nw_connections net' ((name # names) ! k) = Some (j + k)" if "k < length (name # names)" for k
    using Cons.IH [OF net1(2)] that m by (cases k) (auto simp: Connect_def)
  show ?case
    using Cons.IH [OF net1(2)] m nth by (auto simp: Connect_def)
qed simp

text \<open>A server gets a new set of ends, all of them disabled; the other ends stay as they are.\<close>

lemma new_ends_ok:
  assumes ok: "ends_ok c" and k: "k < cfg_n c" and len: "length names = cfg_n c"
    and net: "make_ends names 0 (cfg_net c) = Inr net"
    and c': "cfg_n c' = cfg_n c" "cfg_endnames c' = (cfg_endnames c)(k \<mapsto> names)" "cfg_net c' = net"
  shows "ends_ok c'"
    and "i < cfg_n c \<Longrightarrow> j < cfg_n c \<Longrightarrow> cfg_endnames c' i \<noteq> None \<Longrightarrow>
      nw_enabled net (cfg_end_name c' i j) \<longleftrightarrow> i \<noteq> k \<and> nw_enabled (cfg_net c) (cfg_end_name c i j)"
proof -
  note m = make_ends_spec [OF net]
  have name: "cfg_end_name c' i j = (if i = k then names ! j else cfg_end_name c i j)" for i j
    by (simp add: cfg_end_name_def c')
  have old: "cfg_end_name c i j \<in> nw_ends (cfg_net c)"
    if ij: "i < cfg_n c" "j < cfg_n c" "cfg_endnames c i \<noteq> None" for i j
  proof -
    obtain xs where xs: "cfg_endnames c i = Some xs" "length xs = cfg_n c"
      using ends_okD(1) [OF ok, of i] ij by (auto simp: named_def)
    then show ?thesis
      using ends_okD(2) [OF ok, of i xs] nth_mem [of j xs] ij by (auto simp: cfg_end_name_def)
  qed
  have new: "names ! j \<noteq> cfg_end_name c i' j'"
    if "j < cfg_n c" "i' < cfg_n c" "j' < cfg_n c" "cfg_endnames c i' \<noteq> None" for j i' j'
    using old [OF that(2-4)] m len that(1) by (metis disjoint_iff nth_mem)
  have other: "cfg_endnames c i \<noteq> None" "cfg_end_name c i j \<notin> set names"
    if "i < cfg_n c" "j < cfg_n c" "cfg_endnames c' i \<noteq> None" "i \<noteq> k" for i j
    using that old [of i j] m by (auto simp: c')
  show "ends_ok c'"
    unfolding ends_ok_def c'(1)
  proof (intro conjI allI impI)
    fix i names' assume i: "i < cfg_n c" "cfg_endnames c' i = Some names'"
    show "length names' = cfg_n c"
      using i len ends_okD(1) [OF ok, of i] by (auto simp: named_def c' split: if_splits)
    show "set names' \<subseteq> nw_ends (cfg_net c')"
      using i m ends_okD(2) [OF ok, of i] by (auto simp: c' split: if_splits)
  next
    fix i i' j j'
    assume a: "i < cfg_n c \<and> i' < cfg_n c \<and> j < cfg_n c \<and> j' < cfg_n c \<and> cfg_endnames c' i \<noteq> None \<and>
      cfg_endnames c' i' \<noteq> None \<and> cfg_end_name c' i j = cfg_end_name c' i' j'"
    have "i = i' \<and> j = j'"
      using a new [of j i' j'] new [of j' i j] ends_okD(3) [OF ok, of i i' j j'] m len
      by (auto simp: name c' nth_eq_iff_index_eq split: if_splits)
    then show "i = i'" "j = j'" by blast+
  next
    fix i j assume ij: "i < cfg_n c" "j < cfg_n c" "cfg_endnames c' i \<noteq> None"
    show "nw_connections (cfg_net c') (cfg_end_name c' i j) = Some j"
      using ij m len other [OF ij] ends_okD(4) [OF ok, of i j] by (auto simp: name c')
  qed
  show "nw_enabled net (cfg_end_name c' i j) \<longleftrightarrow> i \<noteq> k \<and> nw_enabled (cfg_net c) (cfg_end_name c i j)"
    if "i < cfg_n c" "j < cfg_n c" "cfg_endnames c' i \<noteq> None"
    using that m len other [OF that] by (auto simp: name)
qed

lemma new_ends_wired:
  assumes c: "wired c" "\<not> cfg_connected c k" and k: "k < cfg_n c" and len: "length names = cfg_n c"
    and net: "make_ends names 0 (cfg_net c) = Inr net"
  shows "wired (c\<lparr>cfg_endnames := (cfg_endnames c)(k \<mapsto> names), cfg_net := net\<rparr>)" (is "wired ?c")
proof -
  note new = new_ends_ok [OF wiredD(2) [OF c(1)] k len net, of ?c, simplified]
  have name: "cfg_end_name ?c i j = cfg_end_name c i j" if "i \<noteq> k" for i j
    using that by (simp add: cfg_end_name_def)
  have en: "nw_enabled net (cfg_end_name ?c i j) \<longleftrightarrow> cfg_connected c i \<and> cfg_connected c j"
    if "i < cfg_n c" "j < cfg_n c" "cfg_endnames ?c i \<noteq> None" for i j
    using new(2) [of i j] that wiredD(6) [OF c(1) that(1,2)] c(2) by (auto split: if_splits)
  show ?thesis
    using new(1) en wiredD(4) [OF c(1)] by (auto simp: wired_def)
qed

lemma connect_needs_start:
  assumes "cfg_connect i cfg = Some cfg'" "i < cfg_n cfg"
  shows "cfg_endnames cfg i \<noteq> None"
proof
  assume none: "cfg_endnames cfg i = None"
  let ?c = "cfg\<lparr>cfg_connected := (cfg_connected cfg)(i := True)\<rparr>"
  have "connect_out ?c i js net = None" if "i \<in> set js" for js net
    using that by (induction js arbitrary: net) (auto simp: cfg_enable_def none)
  then have "connect_out ?c i [0..<cfg_n cfg] (cfg_net cfg) = None" using assms(2) by simp
  with assms(1) show False by (simp add: cfg_connect_def Let_def split: if_splits)
qed

lemma cfg_connect_wired:
  assumes "wired cfg" "i < cfg_n cfg" "cfg_connect i cfg = Some cfg'"
  shows "wired cfg' \<and> cfg_n cfg' = cfg_n cfg \<and> cfg_endnames cfg' = cfg_endnames cfg \<and>
    cfg_connected cfg' = (cfg_connected cfg)(i := True)"
  by (rule connect_wired [OF assms(1,2) connect_needs_start [OF assms(3,2)]]) (use assms(3) in auto)

lemma cfg_disconnect_wired:
  assumes "wired cfg" "i < cfg_n cfg" "cfg_disconnect i cfg = Some cfg'"
  shows "wired cfg' \<and> cfg_n cfg' = cfg_n cfg \<and> cfg_endnames cfg' = cfg_endnames cfg \<and>
    cfg_connected cfg' = (cfg_connected cfg)(i := False)"
  by (rule disconnect_wired [OF assms(1,2)]) (use assms(3) in auto)

lemma connect_all_wired:
  "wired cfg \<Longrightarrow> set is \<subseteq> {..<cfg_n cfg} \<Longrightarrow> connect_all is cfg = Some cfg' \<Longrightarrow>
   wired cfg' \<and> cfg_n cfg' = cfg_n cfg"
proof (induction "is" arbitrary: cfg)
  case (Cons i "is")
  then obtain c where c: "cfg_connect i cfg = Some c" "connect_all is c = Some cfg'"
    by (auto split: option.splits)
  then show ?case using cfg_connect_wired [OF Cons.prems(1) _ c(1)] Cons.IH [of c] Cons.prems(2) by auto
qed simp

section \<open>Groups that are up\<close>

text \<open>All servers are started, and all ends have different names.\<close>

definition laid :: "('e, 'z) ends_base_scheme \<Rightarrow> bool" where
  "laid cfg \<longleftrightarrow> (\<forall>i < cfg_n cfg. named cfg i) \<and>
     (\<forall>i < cfg_n cfg. \<forall>i' < cfg_n cfg. \<forall>j < cfg_n cfg. \<forall>j' < cfg_n cfg.
        cfg_end_name cfg i j = cfg_end_name cfg i' j' \<longleftrightarrow> i = i' \<and> j = j')"

lemma ends_ok_laid: "ends_ok cfg \<Longrightarrow> (\<forall>i < cfg_n cfg. cfg_endnames cfg i \<noteq> None) \<Longrightarrow> laid cfg"
  by (simp add: laid_def ends_okD(1) ends_okD(3) [of cfg])

lemmas wired_laid = ends_ok_laid [OF wiredD(2)]

lemma laid_cong:
  assumes "laid cfg" "cfg_n cfg' = cfg_n cfg" "cfg_endnames cfg' = cfg_endnames cfg"
  shows "laid cfg'"
  using assms(1) unfolding laid_def named_def cfg_end_name_def assms(2,3) .

lemma laidD:
  assumes "laid cfg"
  shows "i < cfg_n cfg \<Longrightarrow> named cfg i"
    and "i < cfg_n cfg \<Longrightarrow> i' < cfg_n cfg \<Longrightarrow> j < cfg_n cfg \<Longrightarrow> j' < cfg_n cfg \<Longrightarrow>
      cfg_end_name cfg i j = cfg_end_name cfg i' j' \<longleftrightarrow> i = i' \<and> j = j'"
  using assms unfolding laid_def by blast+

lemma named_other [simp]:
  "named (cfg\<lparr>cfg_connected := cn, cfg_net := nt\<rparr>) = named cfg"
  "cfg_end_name (cfg\<lparr>cfg_connected := cn, cfg_net := nt\<rparr>) = cfg_end_name cfg"
  by (simp_all add: named_def cfg_end_name_def fun_eq_iff)

text \<open>Which ends a network has enabled, between the servers of the group.\<close>

definition links :: "('e, 'z) ends_base_scheme \<Rightarrow> (nat \<times> nat) set" where
  "links cfg = {(i, j). i < cfg_n cfg \<and> j < cfg_n cfg \<and> nw_enabled (cfg_net cfg) (cfg_end_name cfg i j)}"

section \<open>Runs of a harness\<close>

text \<open>
  Both harnesses start and crash servers in their own way and connect and disconnect them
  in the same way. An operation names a server of the group, and start makes up one name
  per server.
\<close>

datatype 'e cfg_op = CStart nat "'e list" nat | CCrash nat | CConnect nat | CDisconnect nat

fun hop_ok :: "nat \<Rightarrow> 'e cfg_op \<Rightarrow> bool" where
  "hop_ok n (CStart i names ref) \<longleftrightarrow> i < n \<and> length names = n"
| "hop_ok n (CCrash i) \<longleftrightarrow> i < n"
| "hop_ok n (CConnect i) \<longleftrightarrow> i < n"
| "hop_ok n (CDisconnect i) \<longleftrightarrow> i < n"

fun or_panic :: "'x \<Rightarrow> 's panics \<Rightarrow> 'x + 's" where
  "or_panic e None = Inl e"
| "or_panic e (Some s) = Inr s"

fun harness_apply ::
  "(nat \<Rightarrow> 'e list \<Rightarrow> nat \<Rightarrow> ('e, 'z) wiring_scheme \<Rightarrow> 'x + ('e, 'z) wiring_scheme) \<Rightarrow>
   (nat \<Rightarrow> ('e, 'z) wiring_scheme \<Rightarrow> ('e, 'z) wiring_scheme panics) \<Rightarrow> 'x \<Rightarrow>
   'e cfg_op \<Rightarrow> ('e, 'z) wiring_scheme \<Rightarrow> 'x + ('e, 'z) wiring_scheme" where
  "harness_apply start crash e (CStart i names ref) cfg = start i names ref cfg"
| "harness_apply start crash e (CCrash i) cfg = or_panic e (crash i cfg)"
| "harness_apply start crash e (CConnect i) cfg = or_panic e (cfg_connect i cfg)"
| "harness_apply start crash e (CDisconnect i) cfg = or_panic e (cfg_disconnect i cfg)"

fun harness_run ::
  "(nat \<Rightarrow> 'e list \<Rightarrow> nat \<Rightarrow> ('e, 'z) wiring_scheme \<Rightarrow> 'x + ('e, 'z) wiring_scheme) \<Rightarrow>
   (nat \<Rightarrow> ('e, 'z) wiring_scheme \<Rightarrow> ('e, 'z) wiring_scheme panics) \<Rightarrow> 'x \<Rightarrow>
   'e cfg_op list \<Rightarrow> ('e, 'z) wiring_scheme \<Rightarrow> 'x + ('e, 'z) wiring_scheme" where
  "harness_run start crash e [] cfg = Inr cfg"
| "harness_run start crash e (x # xs) cfg =
     (case harness_apply start crash e x cfg of Inl y \<Rightarrow> Inl y | Inr c \<Rightarrow> harness_run start crash e xs c)"

lemma or_panic_Inr: "or_panic e x = Inr y \<longleftrightarrow> x = Some y"
  by (cases x) auto

locale harness =
  fixes start :: "nat \<Rightarrow> 'e list \<Rightarrow> nat \<Rightarrow> ('e, 'z) wiring_scheme \<Rightarrow> 'x + ('e, 'z) wiring_scheme"
    and crash :: "nat \<Rightarrow> ('e, 'z) wiring_scheme \<Rightarrow> ('e, 'z) wiring_scheme panics"
    and e :: 'x
  assumes start_keeps: "wired cfg \<Longrightarrow> k < cfg_n cfg \<Longrightarrow> length names = cfg_n cfg \<Longrightarrow>
      start k names ref cfg = Inr cfg' \<Longrightarrow> wired cfg' \<and> cfg_n cfg' = cfg_n cfg"
    and crash_keeps: "wired cfg \<Longrightarrow> k < cfg_n cfg \<Longrightarrow> crash k cfg = Some cfg' \<Longrightarrow>
      wired cfg' \<and> cfg_n cfg' = cfg_n cfg"
begin

lemma apply_wired:
  assumes "wired cfg" "hop_ok (cfg_n cfg) x" "harness_apply start crash e x cfg = Inr cfg'"
  shows "wired cfg' \<and> cfg_n cfg' = cfg_n cfg"
proof (cases x)
  case (CStart i names ref)
  with assms show ?thesis using start_keeps [of cfg i names ref cfg'] by simp
next
  case (CCrash i)
  with assms show ?thesis using crash_keeps [of cfg i cfg'] by (simp add: or_panic_Inr)
next
  case (CConnect i)
  with assms show ?thesis using cfg_connect_wired [of cfg i cfg'] by (simp add: or_panic_Inr)
next
  case (CDisconnect i)
  with assms show ?thesis using cfg_disconnect_wired [of cfg i cfg'] by (simp add: or_panic_Inr)
qed

lemma run_wired:
  "wired cfg \<Longrightarrow> list_all (hop_ok (cfg_n cfg)) xs \<Longrightarrow> harness_run start crash e xs cfg = Inr cfg' \<Longrightarrow>
   wired cfg' \<and> cfg_n cfg' = cfg_n cfg"
proof (induction xs arbitrary: cfg)
  case (Cons x xs)
  then obtain c where c: "harness_apply start crash e x cfg = Inr c" "harness_run start crash e xs c = Inr cfg'"
    by (auto split: sum.splits)
  then show ?case using apply_wired [OF Cons.prems(1) _ c(1)] Cons.IH [of c] Cons.prems(2) by auto
qed simp

lemma run_partitions:
  assumes "wired cfg0" "harness_run start crash e xs cfg0 = Inr cfg" "list_all (hop_ok (cfg_n cfg0)) xs"
    and "i < cfg_n cfg0" "j < cfg_n cfg0" "cfg_endnames cfg i = Some ends"
  shows "nw_connections (cfg_net cfg) (ends ! j) = Some j \<and>
    (nw_enabled (cfg_net cfg) (ends ! j) \<longleftrightarrow> cfg_connected cfg i \<and> cfg_connected cfg j)"
  using run_wired [OF assms(1,3,2)] wiredD(5,6) [of cfg i j] assms(4-6) by (simp add: cfg_end_name_def)

end

end
