(* ===== verification/Raft_Config.thy ===== *)
theory Raft_Config
  imports Raft_Properties Harness_Net
begin

text \<open>
  The harness raft/config.go: a group of Raft peers on the simulated network, with
  operations to start, crash, connect and disconnect them, the readers of their apply
  channels, and the checks that the tests make.

  Arrays by server are functions; the names of ends that randstring makes up, references to
  new server objects, elapsed times and the states in which peers and logs are found are
  arguments. While a peer runs, saved[i] and the peer share one persister object, which is
  the persister of the peer's record. Every Fatalf and every panic is an error value;
  applyErr, which is only assigned after a Fatalf has ended the program, is left out.
\<close>

section \<open>State\<close>

record ('e, 'c) config = "'e wiring" +
  cfg_finished :: bool
  cfg_rafts :: "nat \<Rightarrow> 'c Raft option"
  cfg_saved :: "nat \<Rightarrow> 'c RfPersister option"
  cfg_logs :: "nat \<Rightarrow> int \<Rightarrow> 'c option option"
  cfg_lastApplied :: "nat \<Rightarrow> int"
  cfg_rpcs0 :: int
  cfg_bytes0 :: "64 word"
  cfg_maxIndex :: int
  cfg_maxIndex0 :: int

datatype 'c cfg_error =
    CfgPanic
  | NetError rpc_error
  | CommitMismatch int nat "'c option" nat "'c option"
  | OutOfOrder nat int
  | BadSnapshot nat
  | TooManyLeaders
  | NoLeader
  | TermsDiffer
  | UnexpectedLeader nat
  | CommittedDiffer int
  | TooFew int
  | NoAgreement
  | Timeout

text \<open>The current content of saved[i].\<close>

definition saved_now :: "nat \<Rightarrow> ('e, 'c) config \<Rightarrow> 'c RfPersister option" where
  "saved_now i cfg = (case cfg_rafts cfg i of Some rf \<Rightarrow> Some (rf_persister rf) | None \<Rightarrow> cfg_saved cfg i)"

section \<open>Crashing and starting\<close>

text \<open>The persister that crash1 leaves: a new object with the content of the old one.\<close>

definition crash_persister :: "'c RfPersister \<Rightarrow> 'c RfPersister" where
  "crash_persister ps =
     (let copy = rp_Copy ps;
          raftlog = rp_ReadRaftState copy;
          snapshot = rp_ReadSnapshot copy
      in rp_Save raftlog snapshot \<lparr>rp_raftstate = [], rp_snapshot = [], rp_enable = False\<rparr>)"

definition crash1 :: "nat \<Rightarrow> ('e, 'c) config \<Rightarrow> ('e, 'c) config panics" where
  "crash1 i cfg =
     map_option
       (\<lambda>cfg1. cfg1\<lparr>cfg_net := DeleteServer i (cfg_net cfg1),
                 cfg_saved := (cfg_saved cfg1)(i := map_option crash_persister (saved_now i cfg1)),
                 cfg_rafts := (cfg_rafts cfg1)(i := None)\<rparr>)
       (cfg_disconnect i cfg)"

text \<open>
  A snapshot of the harness is an encoded pair of an index and a list of commands; the
  decoder is the parameter dec.
\<close>

definition ingestSnap ::
  "(byte list \<Rightarrow> (int \<times> 'c option list) option) \<Rightarrow> nat \<Rightarrow> byte list \<Rightarrow> int \<Rightarrow> ('e, 'c) config \<Rightarrow>
   'c cfg_error + ('e, 'c) config" where
  "ingestSnap dec i snapshot index cfg =
     (case dec snapshot of
        None \<Rightarrow> Inl (BadSnapshot i)
      | Some (lastIncludedIndex, xlog) \<Rightarrow>
          if index \<noteq> - 1 \<and> index \<noteq> lastIncludedIndex then Inl (BadSnapshot i)
          else Inr (cfg\<lparr>cfg_logs := (cfg_logs cfg)(i := (\<lambda>j. if 0 \<le> j \<and> j < int (length xlog)
                                                       then Some (xlog ! nat j) else None)),
                        cfg_lastApplied := (cfg_lastApplied cfg)(i := lastIncludedIndex)\<rparr>))"

definition start_persister ::
  "(byte list \<Rightarrow> (int \<times> 'c option list) option) \<Rightarrow> nat \<Rightarrow> ('e, 'c) config \<Rightarrow>
   'c cfg_error + ('e, 'c) config \<times> 'c RfPersister" where
  "start_persister dec i cfg =
     (case cfg_saved cfg i of
        None \<Rightarrow> Inr (cfg, rp_MakePersister True)
      | Some ps \<Rightarrow>
          let copy = rp_Copy ps; snapshot = rp_ReadSnapshot copy
          in if length snapshot > 0
             then (case ingestSnap dec i snapshot (- 1) cfg of Inl e \<Rightarrow> Inl e | Inr cfg1 \<Rightarrow> Inr (cfg1, copy))
             else Inr (cfg, copy))"

definition start1 ::
  "(byte list \<Rightarrow> (int \<times> 'c option list) option) \<Rightarrow> nat \<Rightarrow> 'e list \<Rightarrow> nat \<Rightarrow> ('e, 'c) config \<Rightarrow>
   'c cfg_error + ('e, 'c) config" where
  "start1 dec i names ref cfg =
     (case crash1 i cfg of
        None \<Rightarrow> Inl CfgPanic
      | Some cfg1 \<Rightarrow>
          (case make_ends names 0 (cfg_net cfg1) of
             Inl e \<Rightarrow> Inl (NetError e)
           | Inr net \<Rightarrow>
               let cfg2 = cfg1\<lparr>cfg_endnames := (cfg_endnames cfg1)(i \<mapsto> names), cfg_net := net,
                             cfg_lastApplied := (cfg_lastApplied cfg1)(i := 0)\<rparr>
               in (case start_persister dec i cfg2 of
                     Inl e \<Rightarrow> Inl e
                   | Inr (cfg3, ps) \<Rightarrow>
                       Inr (cfg3\<lparr>cfg_saved := (cfg_saved cfg3)(i \<mapsto> ps),
                              cfg_rafts := (cfg_rafts cfg3)(i \<mapsto> rf_Make (cfg_n cfg3) i ps),
                              cfg_net := AddServer i ref (cfg_net cfg3)\<rparr>))))"

fun start_all ::
  "(byte list \<Rightarrow> (int \<times> 'c option list) option) \<Rightarrow> (nat \<Rightarrow> 'e list) \<Rightarrow> (nat \<Rightarrow> nat) \<Rightarrow> nat list \<Rightarrow>
   ('e, 'c) config \<Rightarrow> 'c cfg_error + ('e, 'c) config" where
  "start_all dec names refs [] cfg = Inr cfg"
| "start_all dec names refs (i # is) cfg =
     (case start1 dec i (names i) (refs i) (cfg\<lparr>cfg_logs := (cfg_logs cfg)(i := (\<lambda>_. None))\<rparr>) of
        Inl e \<Rightarrow> Inl e
      | Inr cfg1 \<Rightarrow> start_all dec names refs is cfg1)"

definition new_config :: "nat \<Rightarrow> ('e, 'c) config" where
  "new_config n = \<lparr>cfg_net = MakeNetwork, cfg_n = n, cfg_endnames = (\<lambda>_. None),
     cfg_connected = (\<lambda>_. False), cfg_finished = False, cfg_rafts = (\<lambda>_. None), cfg_saved = (\<lambda>_. None),
     cfg_logs = (\<lambda>_ _. None), cfg_lastApplied = (\<lambda>_. 0), cfg_rpcs0 = 0, cfg_bytes0 = 0,
     cfg_maxIndex = 0, cfg_maxIndex0 = 0\<rparr>"

definition make_config ::
  "(byte list \<Rightarrow> (int \<times> 'c option list) option) \<Rightarrow> (nat \<Rightarrow> 'e list) \<Rightarrow> (nat \<Rightarrow> nat) \<Rightarrow> nat \<Rightarrow> bool \<Rightarrow>
   'c cfg_error + ('e, 'c) config" where
  "make_config dec names refs n unreliable =
     (let cfg = setunreliable unreliable (new_config n);
          cfg1 = cfg\<lparr>cfg_net := nw_LongDelays True (cfg_net cfg)\<rparr>
      in (case start_all dec names refs [0..<n] cfg1 of
            Inl e \<Rightarrow> Inl e
          | Inr cfg2 \<Rightarrow> (case connect_all [0..<n] cfg2 of None \<Rightarrow> Inl CfgPanic | Some cfg3 \<Rightarrow> Inr cfg3)))"

definition checkTimeout :: "bool \<Rightarrow> int \<Rightarrow> 'c cfg_error + unit" where
  "checkTimeout failed seconds = (if \<not> failed \<and> seconds > 300 then Inl Timeout else Inr ())"

definition checkFinished :: "('e, 'c) config \<Rightarrow> bool" where
  "checkFinished cfg = cfg_finished cfg"

definition cfg_cleanup :: "bool \<Rightarrow> int \<Rightarrow> ('e, 'c) config \<Rightarrow> 'c cfg_error + ('e, 'c) config" where
  "cfg_cleanup failed seconds cfg =
     (let cfg1 = cfg\<lparr>cfg_finished := True, cfg_rafts := (\<lambda>i. map_option rf_Kill (cfg_rafts cfg i))\<rparr>
      in (case nw_Cleanup (cfg_net cfg1) of
            Inl e \<Rightarrow> Inl (NetError e)
          | Inr net \<Rightarrow>
              (case checkTimeout failed seconds of
                 Inl e \<Rightarrow> Inl e
               | Inr _ \<Rightarrow> Inr (cfg1\<lparr>cfg_net := net\<rparr>))))"

section \<open>The readers of the apply channels\<close>

fun checkLogs_loop ::
  "('e, 'c) config \<Rightarrow> nat \<Rightarrow> 'c ApplyMsg \<Rightarrow> nat list \<Rightarrow> 'c cfg_error option \<Rightarrow> 'c cfg_error option" where
  "checkLogs_loop cfg i m [] err_msg = err_msg"
| "checkLogs_loop cfg i m (j # js) err_msg =
     checkLogs_loop cfg i m js
       (case cfg_logs cfg j (am_CommandIndex m) of
          Some old \<Rightarrow> if old \<noteq> am_Command m
                      then Some (CommitMismatch (am_CommandIndex m) i (am_Command m) j old) else err_msg
        | None \<Rightarrow> err_msg)"

definition checkLogs ::
  "nat \<Rightarrow> 'c ApplyMsg \<Rightarrow> ('e, 'c) config \<Rightarrow> ('e, 'c) config \<times> 'c cfg_error option \<times> bool" where
  "checkLogs i m cfg =
     (let err_msg = checkLogs_loop cfg i m [0..<cfg_n cfg] None;
          prevok = (cfg_logs cfg i (am_CommandIndex m - 1) \<noteq> None);
          cfg1 = cfg\<lparr>cfg_logs := (cfg_logs cfg)(i := (cfg_logs cfg i)(am_CommandIndex m \<mapsto> am_Command m)),
                     cfg_maxIndex := (if am_CommandIndex m > cfg_maxIndex cfg then am_CommandIndex m
                                      else cfg_maxIndex cfg)\<rparr>
      in (cfg1, err_msg, prevok))"

text \<open>One message that applier reads.\<close>

definition applier_msg :: "nat \<Rightarrow> 'c ApplyMsg \<Rightarrow> ('e, 'c) config \<Rightarrow> 'c cfg_error + ('e, 'c) config" where
  "applier_msg i m cfg =
     (if \<not> am_CommandValid m then Inr cfg
      else
        let (cfg1, err_msg, prevok) = checkLogs i m cfg;
            err_msg1 = (if am_CommandIndex m > 1 \<and> \<not> prevok then Some (OutOfOrder i (am_CommandIndex m))
                        else err_msg)
        in (case err_msg1 of Some e \<Rightarrow> Inl e | None \<Rightarrow> Inr cfg1))"

definition SnapShotInterval :: int where "SnapShotInterval = 10"

text \<open>The log entries that applierSnap puts into a snapshot; an absent entry reads as nil.\<close>

definition snap_log :: "nat \<Rightarrow> int \<Rightarrow> ('e, 'c) config \<Rightarrow> 'c option list" where
  "snap_log i index cfg =
     map (\<lambda>j. case cfg_logs cfg i j of Some v \<Rightarrow> v | None \<Rightarrow> None) [0..index]"

text \<open>One message that applierSnap reads; enc is the encoder of snapshots.\<close>

definition applierSnap_msg ::
  "(byte list \<Rightarrow> (int \<times> 'c option list) option) \<Rightarrow> (int \<Rightarrow> 'c option list \<Rightarrow> byte list) \<Rightarrow> nat \<Rightarrow>
   'c ApplyMsg \<Rightarrow> ('e, 'c) config \<Rightarrow> 'c cfg_error + ('e, 'c) config" where
  "applierSnap_msg dec enc i m cfg =
     (if am_SnapshotValid m then ingestSnap dec i (am_Snapshot m) (am_SnapshotIndex m) cfg
      else if am_CommandValid m then
        if am_CommandIndex m \<noteq> cfg_lastApplied cfg i + 1 then Inl (OutOfOrder i (am_CommandIndex m))
        else
          let (cfg1, err_msg, prevok) = checkLogs i m cfg;
              err_msg1 = (if am_CommandIndex m > 1 \<and> \<not> prevok then Some (OutOfOrder i (am_CommandIndex m))
                          else err_msg);
              cfg2 = cfg1\<lparr>cfg_lastApplied := (cfg_lastApplied cfg1)(i := am_CommandIndex m)\<rparr>
          in (case err_msg1 of
                Some e \<Rightarrow> Inl e
              | None \<Rightarrow>
                  if (am_CommandIndex m + 1) mod SnapShotInterval = 0 then
                    (case cfg_rafts cfg2 i of
                       None \<Rightarrow> Inr cfg2
                     | Some rf \<Rightarrow>
                         (case rf_Snapshot (am_CommandIndex m)
                                 (enc (am_CommandIndex m) (snap_log i (am_CommandIndex m) cfg2)) rf of
                            None \<Rightarrow> Inl CfgPanic
                          | Some rf1 \<Rightarrow> Inr (cfg2\<lparr>cfg_rafts := (cfg_rafts cfg2)(i \<mapsto> rf1)\<rparr>)))
                  else Inr cfg2)
      else Inr cfg)"

section \<open>Checks\<close>

text \<open>
  One iteration of checkOneLeader: peers gives each peer as it is when it is asked. The
  answer is a leader of the last term that has one, if there is any.
\<close>

definition leaders_of :: "(nat \<Rightarrow> 'c Raft option) \<Rightarrow> ('e, 'c) config \<Rightarrow> (int \<times> nat) list" where
  "leaders_of peers cfg =
     concat (map (\<lambda>i. case peers i of
        Some rf \<Rightarrow> (let (term, leader) = rf_GetState rf in if leader then [(term, i)] else [])
      | None \<Rightarrow> []) (filter (cfg_connected cfg) [0..<cfg_n cfg]))"

definition oneLeader_round ::
  "(nat \<Rightarrow> 'c Raft option) \<Rightarrow> ('e, 'c) config \<Rightarrow> 'c cfg_error + nat option" where
  "oneLeader_round peers cfg =
     (if list_ex (\<lambda>i. peers i = None) (filter (cfg_connected cfg) [0..<cfg_n cfg]) then Inl CfgPanic
      else
        let leaders = leaders_of peers cfg;
            lastTermWithLeader = foldl max (- 1) (map fst leaders)
        in if \<not> distinct (map fst leaders) then Inl TooManyLeaders
           else if leaders = [] then Inr None
           else (case map_of leaders lastTermWithLeader of
                   None \<Rightarrow> Inl CfgPanic
                 | Some i \<Rightarrow> Inr (Some i)))"

fun checkOneLeader_loop ::
  "(nat \<Rightarrow> nat \<Rightarrow> 'c Raft option) \<Rightarrow> ('e, 'c) config \<Rightarrow> nat list \<Rightarrow> 'c cfg_error + nat" where
  "checkOneLeader_loop peers cfg [] = Inl NoLeader"
| "checkOneLeader_loop peers cfg (k # ks) =
     (case oneLeader_round (peers k) cfg of
        Inl e \<Rightarrow> Inl e
      | Inr (Some i) \<Rightarrow> Inr i
      | Inr None \<Rightarrow> checkOneLeader_loop peers cfg ks)"

definition checkOneLeader ::
  "(nat \<Rightarrow> nat \<Rightarrow> 'c Raft option) \<Rightarrow> ('e, 'c) config \<Rightarrow> 'c cfg_error + nat" where
  "checkOneLeader peers cfg = checkOneLeader_loop peers cfg [0..<10]"

fun checkTerms_loop ::
  "(nat \<Rightarrow> 'c Raft option) \<Rightarrow> ('e, 'c) config \<Rightarrow> nat list \<Rightarrow> int \<Rightarrow> 'c cfg_error + int" where
  "checkTerms_loop peers cfg [] term = Inr term"
| "checkTerms_loop peers cfg (i # is) term =
     (if cfg_connected cfg i then
        (case peers i of
           None \<Rightarrow> Inl CfgPanic
         | Some rf \<Rightarrow>
             let xterm = fst (rf_GetState rf)
             in if term = - 1 then checkTerms_loop peers cfg is xterm
                else if term \<noteq> xterm then Inl TermsDiffer
                else checkTerms_loop peers cfg is term)
      else checkTerms_loop peers cfg is term)"

definition checkTerms :: "(nat \<Rightarrow> 'c Raft option) \<Rightarrow> ('e, 'c) config \<Rightarrow> 'c cfg_error + int" where
  "checkTerms peers cfg = checkTerms_loop peers cfg [0..<cfg_n cfg] (- 1)"

fun checkNoLeader_loop ::
  "(nat \<Rightarrow> 'c Raft option) \<Rightarrow> ('e, 'c) config \<Rightarrow> nat list \<Rightarrow> 'c cfg_error + unit" where
  "checkNoLeader_loop peers cfg [] = Inr ()"
| "checkNoLeader_loop peers cfg (i # is) =
     (if cfg_connected cfg i then
        (case peers i of
           None \<Rightarrow> Inl CfgPanic
         | Some rf \<Rightarrow> if snd (rf_GetState rf) then Inl (UnexpectedLeader i)
                      else checkNoLeader_loop peers cfg is)
      else checkNoLeader_loop peers cfg is)"

definition checkNoLeader :: "(nat \<Rightarrow> 'c Raft option) \<Rightarrow> ('e, 'c) config \<Rightarrow> 'c cfg_error + unit" where
  "checkNoLeader peers cfg = checkNoLeader_loop peers cfg [0..<cfg_n cfg]"

fun nCommitted_loop ::
  "('e, 'c) config \<Rightarrow> int \<Rightarrow> nat list \<Rightarrow> int \<Rightarrow> 'c option \<Rightarrow> 'c cfg_error + int \<times> 'c option" where
  "nCommitted_loop cfg index [] count cmd = Inr (count, cmd)"
| "nCommitted_loop cfg index (i # is) count cmd =
     (case cfg_logs cfg i index of
        None \<Rightarrow> nCommitted_loop cfg index is count cmd
      | Some cmd1 \<Rightarrow>
          if count > 0 \<and> cmd \<noteq> cmd1 then Inl (CommittedDiffer index)
          else nCommitted_loop cfg index is (count + 1) cmd1)"

definition nCommitted :: "int \<Rightarrow> ('e, 'c) config \<Rightarrow> 'c cfg_error + int \<times> 'c option" where
  "nCommitted index cfg = nCommitted_loop cfg index [0..<cfg_n cfg] 0 None"

text \<open>
  wait: the harness as it is found in each of at most 30 rounds, and at the end; the answer
  None stands for -1, some peer has moved on. A peer that is crashed is a nil pointer.
\<close>

fun wait_loop :: "int \<Rightarrow> int \<Rightarrow> int \<Rightarrow> ('e, 'c) config list \<Rightarrow> 'c cfg_error + bool" where
  "wait_loop index n startTerm [] = Inr False"
| "wait_loop index n startTerm (cfg # cfgs) =
     (case nCommitted index cfg of
        Inl e \<Rightarrow> Inl e
      | Inr (nd, cmd) \<Rightarrow>
          if nd \<ge> n then Inr False
          else if startTerm > - 1 then
            (case find (\<lambda>i. case cfg_rafts cfg i of None \<Rightarrow> True | Some rf \<Rightarrow> fst (rf_GetState rf) > startTerm)
                    [0..<cfg_n cfg] of
               None \<Rightarrow> wait_loop index n startTerm cfgs
             | Some i \<Rightarrow> if cfg_rafts cfg i = None then Inl CfgPanic else Inr True)
          else wait_loop index n startTerm cfgs)"

definition cfg_wait ::
  "int \<Rightarrow> int \<Rightarrow> int \<Rightarrow> (nat \<Rightarrow> ('e, 'c) config) \<Rightarrow> ('e, 'c) config \<Rightarrow> 'c cfg_error + 'c option option" where
  "cfg_wait index n startTerm cfgs final =
     (case wait_loop index n startTerm (map cfgs [0..<30]) of
        Inl e \<Rightarrow> Inl e
      | Inr True \<Rightarrow> Inr None
      | Inr False \<Rightarrow>
          (case nCommitted index final of
             Inl e \<Rightarrow> Inl e
           | Inr (nd, cmd) \<Rightarrow> if nd < n then Inl (TooFew nd) else Inr (Some cmd)))"

text \<open>
  one: each round tries the servers in turn, from the one after the last that was tried,
  until one of them takes the command, and then polls the logs. A try is the peer that is
  found, None when it is not connected.
\<close>

fun one_submit ::
  "nat \<Rightarrow> int \<Rightarrow> 'c option \<Rightarrow> nat \<Rightarrow> 'c Raft option list \<Rightarrow> nat \<times> (nat \<times> 'c Raft \<times> int) option" where
  "one_submit n now cmd starts [] = (starts, None)"
| "one_submit n now cmd starts (rf # rfs) =
     (let starts1 = (starts + 1) mod n
      in (case rf of
            None \<Rightarrow> one_submit n now cmd starts1 rfs
          | Some r \<Rightarrow>
              (let (r1, index1, term, ok, tasks) = rf_Start now cmd r
               in if ok then (starts1, Some (starts1, r1, index1)) else one_submit n now cmd starts1 rfs)))"

fun one_poll :: "int \<Rightarrow> 'c option \<Rightarrow> int \<Rightarrow> ('e, 'c) config list \<Rightarrow> 'c cfg_error + bool" where
  "one_poll index cmd expectedServers [] = Inr False"
| "one_poll index cmd expectedServers (cfg # cfgs) =
     (case nCommitted index cfg of
        Inl e \<Rightarrow> Inl e
      | Inr (nd, cmd1) \<Rightarrow>
          if nd > 0 \<and> nd \<ge> expectedServers \<and> cmd1 = cmd then Inr True
          else one_poll index cmd expectedServers cfgs)"

fun cfg_one ::
  "nat \<Rightarrow> int \<Rightarrow> 'c option \<Rightarrow> int \<Rightarrow> bool \<Rightarrow> bool \<Rightarrow> nat \<Rightarrow> ('c Raft option list \<times> ('e, 'c) config list) list \<Rightarrow>
   'c cfg_error + int" where
  "cfg_one n now cmd expectedServers retry finished starts [] =
     (if \<not> finished then Inl NoAgreement else Inr (- 1))"
| "cfg_one n now cmd expectedServers retry finished starts ((tries, polls) # rounds) =
     (case one_submit n now cmd starts (take n tries) of
        (starts1, None) \<Rightarrow> cfg_one n now cmd expectedServers retry finished starts1 rounds
      | (starts1, Some (si, rf, index)) \<Rightarrow>
          (case one_poll index cmd expectedServers polls of
             Inl e \<Rightarrow> Inl e
           | Inr True \<Rightarrow> Inr index
           | Inr False \<Rightarrow>
               if \<not> retry then Inl NoAgreement
               else cfg_one n now cmd expectedServers retry finished starts1 rounds))"

section \<open>Statistics\<close>

definition cfg_begin :: "('e, 'c) config \<Rightarrow> ('e, 'c) config" where
  "cfg_begin cfg = cfg\<lparr>cfg_rpcs0 := rpcTotal cfg, cfg_bytes0 := bytesTotal cfg,
     cfg_maxIndex0 := cfg_maxIndex cfg\<rparr>"

text \<open>What end prints: peers, calls, bytes and agreements.\<close>

definition cfg_end ::
  "bool \<Rightarrow> int \<Rightarrow> ('e, 'c) config \<Rightarrow> 'c cfg_error + (nat \<times> int \<times> 64 word \<times> int) option" where
  "cfg_end failed seconds cfg =
     (case checkTimeout failed seconds of
        Inl e \<Rightarrow> Inl e
      | Inr _ \<Rightarrow>
          Inr (if failed then None
               else Some (cfg_n cfg, rpcTotal cfg - cfg_rpcs0 cfg, bytesTotal cfg - cfg_bytes0 cfg,
                      cfg_maxIndex cfg - cfg_maxIndex0 cfg)))"

text \<open>The size of an encoded state is what gob makes of it.\<close>

definition rp_RaftStateSize :: "('c gob list \<Rightarrow> int) \<Rightarrow> 'c RfPersister \<Rightarrow> int" where
  "rp_RaftStateSize gobsize ps = gobsize (rp_raftstate ps)"

fun LogSize_loop :: "('c gob list \<Rightarrow> int) \<Rightarrow> ('e, 'c) config \<Rightarrow> nat list \<Rightarrow> int \<Rightarrow> int panics" where
  "LogSize_loop gobsize cfg [] logsize = Some logsize"
| "LogSize_loop gobsize cfg (i # is) logsize =
     (case saved_now i cfg of
        None \<Rightarrow> None
      | Some ps \<Rightarrow>
          let n = rp_RaftStateSize gobsize ps
          in LogSize_loop gobsize cfg is (if n > logsize then n else logsize))"

definition LogSize :: "('c gob list \<Rightarrow> int) \<Rightarrow> ('e, 'c) config \<Rightarrow> int panics" where
  "LogSize gobsize cfg = LogSize_loop gobsize cfg [0..<cfg_n cfg] 0"

end
