(* ===== verification/Config_Properties.thy ===== *)
theory Config_Properties
  imports Raft_Config
begin

text \<open>
  What the harness of the Raft package does: which ends its connections enable, that its
  checks accept every run of the package, and what its crashes do to the persister.
\<close>

section \<open>Starting and crashing\<close>

lemma crash1_wired:
  assumes "wired cfg" "k < cfg_n cfg"
  obtains cfg' where "crash1 k cfg = Some cfg'" "wired cfg'" "cfg_n cfg' = cfg_n cfg"
    "cfg_endnames cfg' = cfg_endnames cfg" "cfg_connected cfg' = (cfg_connected cfg)(k := False)"
    "cfg_saved cfg' k = map_option crash_persister (saved_now k cfg)" "cfg_rafts cfg' k = None"
proof -
  obtain net where c: "cfg_disconnect k cfg =
      Some (cfg\<lparr>cfg_connected := (cfg_connected cfg)(k := False), cfg_net := net\<rparr>)"
    "wired (cfg\<lparr>cfg_connected := (cfg_connected cfg)(k := False), cfg_net := net\<rparr>)" (is "wired ?d")
    by (rule disconnect_wired [OF assms])
  let ?c = "?d\<lparr>cfg_net := DeleteServer k net,
    cfg_saved := (cfg_saved cfg)(k := map_option crash_persister (saved_now k ?d)),
    cfg_rafts := (cfg_rafts cfg)(k := None)\<rparr>"
  have "wired ?c" by (rule wired_cong [OF c(2)]) (simp_all add: DeleteServer_def)
  moreover have "saved_now k ?d = saved_now k cfg" by (simp add: saved_now_def split: option.split)
  ultimately show thesis
    by (intro that [of ?c]) (simp_all add: crash1_def c(1))
qed

lemma start_persister_sel:
  assumes "start_persister dec i cfg = Inr (cfg', ps)"
  shows "cfg_n cfg' = cfg_n cfg" "cfg_endnames cfg' = cfg_endnames cfg" "cfg_connected cfg' = cfg_connected cfg"
    "cfg_net cfg' = cfg_net cfg"
    "ps = (case cfg_saved cfg i of None \<Rightarrow> rp_MakePersister True | Some ps0 \<Rightarrow> rp_Copy ps0)"
  using assms
  by (auto simp: start_persister_def ingestSnap_def Let_def split: option.splits if_splits prod.splits sum.splits)

lemma start1_Inr:
  fixes cfg :: "('e, 'c) config"
  assumes "wired cfg" "k < cfg_n cfg" and start: "start1 dec k names ref cfg = Inr cfg'"
  obtains c :: "('e, 'c) config" and net where "wired c" "cfg_n c = cfg_n cfg" "cfg_endnames c = cfg_endnames cfg"
    "cfg_connected c = (cfg_connected cfg)(k := False)"
    "make_ends names 0 (cfg_net c) = Inr net" "cfg_n cfg' = cfg_n cfg"
    "cfg_endnames cfg' = (cfg_endnames cfg)(k \<mapsto> names)" "cfg_connected cfg' = cfg_connected c"
    "cfg_net cfg' = AddServer k ref net"
    "cfg_rafts cfg' k = Some (rf_Make (cfg_n cfg) k
       (case saved_now k cfg of None \<Rightarrow> rp_MakePersister True | Some ps \<Rightarrow> rp_Copy (crash_persister ps)))"
proof -
  from crash1_wired [OF assms(1,2)] obtain c where c: "crash1 k cfg = Some c" "wired c" "cfg_n c = cfg_n cfg"
    "cfg_endnames c = cfg_endnames cfg" "cfg_connected c = (cfg_connected cfg)(k := False)"
    "cfg_saved c k = map_option crash_persister (saved_now k cfg)" .
  from start obtain net c3 ps where net: "make_ends names 0 (cfg_net c) = Inr net"
    and p: "start_persister dec k (c\<lparr>cfg_endnames := (cfg_endnames c)(k \<mapsto> names), cfg_net := net,
              cfg_lastApplied := (cfg_lastApplied c)(k := 0)\<rparr>) = Inr (c3, ps)"
    and c': "cfg' = c3\<lparr>cfg_saved := (cfg_saved c3)(k \<mapsto> ps),
              cfg_rafts := (cfg_rafts c3)(k \<mapsto> rf_Make (cfg_n c3) k ps),
              cfg_net := AddServer k ref (cfg_net c3)\<rparr>"
    by (auto simp: start1_def c(1) Let_def split: sum.splits prod.splits)
  show thesis
    by (rule that [OF c(2-5) net])
       (auto simp: c' start_persister_sel [OF p] c(3-6) split: option.splits)
qed

lemma start1_wired:
  fixes cfg :: "('e, 'c) config"
  assumes w: "wired cfg" and k: "k < cfg_n cfg" and len: "length names = cfg_n cfg"
    and start: "start1 dec k names ref cfg = Inr cfg'"
  shows "wired cfg' \<and> cfg_n cfg' = cfg_n cfg \<and> cfg_endnames cfg' k \<noteq> None"
proof -
  obtain c :: "('e, 'c) config" and net where c: "wired c" "cfg_n c = cfg_n cfg"
    "cfg_endnames c = cfg_endnames cfg" "cfg_connected c = (cfg_connected cfg)(k := False)"
    and net: "make_ends names 0 (cfg_net c) = Inr net"
    and c': "cfg_n cfg' = cfg_n cfg" "cfg_endnames cfg' = (cfg_endnames cfg)(k \<mapsto> names)"
      "cfg_connected cfg' = cfg_connected c" "cfg_net cfg' = AddServer k ref net"
    by (rule start1_Inr [OF w k start])
  have "wired (c\<lparr>cfg_endnames := (cfg_endnames c)(k \<mapsto> names), cfg_net := net\<rparr>)"
    by (rule new_ends_wired [OF c(1) _ _ _ net]) (use k len c(2,4) in simp_all)
  then have "wired cfg'"
    by (rule wired_cong) (simp_all add: c' c(2,3) AddServer_def)
  with c' show ?thesis by simp
qed

interpretation raft_harness: harness "start1 dec" crash1 CfgPanic for dec
proof
  fix cfg cfg' :: "('e, 'c) config" and k
  assume "wired cfg" "k < cfg_n cfg" "crash1 k cfg = Some cfg'"
  then show "wired cfg' \<and> cfg_n cfg' = cfg_n cfg"
    by (metis crash1_wired option.inject)
qed (use start1_wired in blast)

lemma start_all_wired:
  "wired cfg \<Longrightarrow> set is \<subseteq> {..<cfg_n cfg} \<Longrightarrow> (\<forall>i\<in>set is. length (names i) = cfg_n cfg) \<Longrightarrow>
   start_all dec names refs is cfg = Inr cfg' \<Longrightarrow> wired cfg' \<and> cfg_n cfg' = cfg_n cfg"
proof (induction "is" arbitrary: cfg)
  case (Cons i "is")
  let ?c = "cfg\<lparr>cfg_logs := (cfg_logs cfg)(i := (\<lambda>_. None))\<rparr>"
  obtain c where c: "start1 dec i (names i) (refs i) ?c = Inr c" "start_all dec names refs is c = Inr cfg'"
    using Cons.prems(4) by (auto split: sum.splits)
  have "wired ?c" by (rule wired_cong [OF Cons.prems(1)]) simp_all
  then have "wired c" "cfg_n c = cfg_n cfg"
    using start1_wired [OF _ _ _ c(1)] Cons.prems(2,3) by auto
  then show ?case using Cons.IH [OF _ _ _ c(2)] Cons.prems(2,3) by simp
qed simp

lemma make_config_wired:
  fixes cfg :: "('e, 'c) config"
  assumes "make_config dec names refs n unreliable = Inr cfg" "\<forall>i<n. length (names i) = n"
  shows "wired cfg \<and> cfg_n cfg = n"
proof -
  let ?c = "setunreliable unreliable (new_config n) :: ('e, 'c) config"
  let ?d = "?c\<lparr>cfg_net := nw_LongDelays True (cfg_net ?c)\<rparr>"
  have d: "wired ?d" "cfg_n ?d = n"
    by (simp_all add: wired_def ends_ok_def setunreliable_def new_config_def)
  from assms(1) obtain c where c: "start_all dec names refs [0..<n] ?d = Inr c" "connect_all [0..<n] c = Some cfg"
    by (auto simp: make_config_def Let_def split: sum.splits option.splits)
  have "wired c \<and> cfg_n c = n" using start_all_wired [OF d(1) _ _ c(1)] assms(2) d(2) by (simp add: subset_iff)
  then show ?thesis using connect_all_wired [OF _ _ c(2)] by (simp add: subset_iff)
qed

section \<open>The checks\<close>























section \<open>Persisters\<close>

lemma crash_persister_sel:
  "rp_raftstate (crash_persister ps) = rp_raftstate ps" "rp_snapshot (crash_persister ps) = rp_snapshot ps"
  "\<not> rp_enable (crash_persister ps)"
  by (simp_all add: crash_persister_def rp_Save_def rp_Copy_def rp_ReadRaftState_def rp_ReadSnapshot_def
      rp_MakePersister_def)

lemma rp_Copy_eq: "rp_Copy ps = ps"
  by (simp add: rp_Copy_def rp_MakePersister_def)

lemma crash_persister_idle: "\<not> rp_enable ps \<Longrightarrow> crash_persister ps = ps"
  using crash_persister_sel [of ps] by (simp add: RfPersister.equality)

lemma rf_readPersist_persister: "rf_persister (fst (rf_readPersist bs rf)) = rf_persister rf"
  by (auto simp: rf_readPersist_def Let_def split: option.split)

lemma rf_Make_persister [simp]: "rf_persister (rf_Make n i ps) = ps"
  by (simp add: rf_Make_def Let_def split_beta rf_readPersist_persister)

section \<open>A small harness\<close>

definition small_names :: "nat \<Rightarrow> nat list" where
  "small_names i = [2 * i, 2 * i + 1]"

definition small_config :: "(nat, nat) config" where
  "small_config = (case make_config (\<lambda>_. None) small_names (\<lambda>i. i) 2 False of Inr c \<Rightarrow> c)"

lemmas config_defs = start1_def crash1_def cfg_disconnect_def cfg_connect_def cfg_enable_def start_persister_def
  saved_now_def MakeEnd_def Connect_def AddServer_def DeleteServer_def Enable_def MakeNetwork_def
  setunreliable_def nw_Reliable_def nw_LongDelays_def new_config_def

lemma small_config_ok: "make_config (\<lambda>_. None) small_names (\<lambda>i. i) 2 False = Inr small_config"
  unfolding small_config_def by (simp add: make_config_def small_names_def upt_rec config_defs Let_def)

text \<open>Server 0 is started again, gets a new term, and is started once more.\<close>

definition small_restarted :: "(nat, nat) config" where
  "small_restarted = (case start1 (\<lambda>_. None) 0 [10, 11] 5 small_config of Inr c \<Rightarrow> c)"

definition small_peer :: "nat Raft" where
  "small_peer = the (cfg_rafts small_restarted 0)"

definition small_twice :: "nat cfg_error + (nat, nat) config" where
  "small_twice = start1 (\<lambda>_. None) 0 [12, 13] 6
     (small_restarted\<lparr>cfg_rafts := (cfg_rafts small_restarted)(0 \<mapsto>
        rf_persistL False (small_peer\<lparr>rf_currentTerm := 7\<rparr>))\<rparr>)"

lemma small_restart:
  "saved_now 0 small_config \<noteq> None" "start1 (\<lambda>_. None) 0 [10, 11] 5 small_config = Inr small_restarted"
  "cfg_rafts small_restarted 0 = Some small_peer" "\<exists>c. small_twice = Inr c"
  unfolding small_twice_def small_peer_def small_restarted_def small_config_def
  by (simp_all add: make_config_def small_names_def upt_rec config_defs Let_def rp_Copy_eq rp_ReadSnapshot_def
      crash_persister_sel rp_MakePersister_def rf_persistL_def)

section \<open>Properties\<close>

text \<open>
  However the harness starts, crashes, connects and disconnects servers, the end with
  which a server calls another one leads to that server, and is enabled when both are
  connected and only then.
\<close>

lemma raft_config_partitions:
  assumes "make_config dec names refs n unreliable = Inr cfg0" and "\<forall>i<n. length (names i) = n"
    and "harness_run (start1 dec) crash1 CfgPanic ops cfg0 = Inr cfg" and "list_all (hop_ok n) ops"
    and "i < n" "j < n" "cfg_endnames cfg i = Some ends"
  shows "nw_connections (cfg_net cfg) (ends ! j) = Some j \<and>
    (nw_enabled (cfg_net cfg) (ends ! j) \<longleftrightarrow> cfg_connected cfg i \<and> cfg_connected cfg j)"
proof -
  have "wired cfg0" "cfg_n cfg0 = n" using make_config_wired [OF assms(1,2)] by blast+
  then show ?thesis using raft_harness.run_partitions [OF _ assms(3)] assms(4-7) by simp
qed

lemma raft_config_partitions_sample:
  "\<exists>cfg ends. harness_run (start1 (\<lambda>_. None)) crash1 CfgPanic [CDisconnect 1] small_config = Inr cfg \<and> cfg_endnames cfg 0 = Some ends \<and>
     nw_connections (cfg_net cfg) (ends ! 1) = Some 1 \<and> \<not> nw_enabled (cfg_net cfg) (ends ! 1)"
proof -
  have w: "wired small_config" "cfg_n small_config = 2"
    using make_config_wired [OF small_config_ok] by (auto simp: small_names_def)
  obtain cfg where cfg: "cfg_disconnect 1 small_config = Some cfg" "cfg_endnames cfg = cfg_endnames small_config"
    "cfg_connected cfg = (cfg_connected small_config)(1 := False)"
    by (rule disconnect_wired [OF w(1), of 1]) (use w(2) in auto)
  have ends: "cfg_endnames small_config 0 = Some [0, 1]"
    unfolding small_config_def by (simp add: make_config_def small_names_def upt_rec config_defs Let_def)
  have run: "harness_run (start1 (\<lambda>_. None)) crash1 CfgPanic [CDisconnect 1] small_config = Inr cfg" using cfg(1) by simp
  have "nw_connections (cfg_net cfg) ([0, 1] ! 1) = Some 1 \<and>
      (nw_enabled (cfg_net cfg) ([0, 1] ! 1) \<longleftrightarrow> cfg_connected cfg 0 \<and> cfg_connected cfg 1)"
    by (rule raft_config_partitions [OF small_config_ok _ run]) (simp_all add: small_names_def cfg(2) ends)
  with run cfg(2,3) ends show ?thesis by auto
qed




text \<open>
  A peer that was crashed and started again has a persister that no longer saves:
  whatever the peer persists afterwards is lost, and the next crash brings it back to the
  state of the first one.
\<close>

lemma raft_second_crash_loses_state:
  assumes "wired cfg" "i < cfg_n cfg" "saved_now i cfg \<noteq> None"
    and "length names = cfg_n cfg" "start1 dec i names ref cfg = Inr cfg1" "cfg_rafts cfg1 i = Some rf"
    and "rf_persister rf' = rf_persister rf"
    and "start1 dec i names' ref' (cfg1\<lparr>cfg_rafts := (cfg_rafts cfg1)(i \<mapsto> rf_persistL False rf')\<rparr>) = Inr cfg2"
  shows "cfg_rafts cfg2 i = Some rf"
proof -
  let ?c = "cfg1\<lparr>cfg_rafts := (cfg_rafts cfg1)(i \<mapsto> rf_persistL False rf')\<rparr>"
  from assms(3) obtain ps where ps: "saved_now i cfg = Some ps" by blast
  have rf: "rf = rf_Make (cfg_n cfg) i (crash_persister ps)"
    by (rule start1_Inr [OF assms(1,2,5)]) (use assms(6) ps in \<open>simp add: rp_Copy_eq\<close>)
  then have off: "\<not> rp_enable (rf_persister rf)" by (simp add: crash_persister_sel)
  then have same: "rf_persister (rf_persistL False rf') = rf_persister rf"
    using assms(7) by (simp add: rf_persistL_def)
  have w1: "wired cfg1" "cfg_n cfg1 = cfg_n cfg" using start1_wired [OF assms(1,2,4,5)] by blast+
  have w: "wired ?c" by (rule wired_cong [OF w1(1)]) simp_all
  have lt: "i < cfg_n ?c" using assms(2) w1(2) by simp
  have "cfg_rafts cfg2 i = Some (rf_Make (cfg_n ?c) i (rp_Copy (crash_persister (rf_persister rf))))"
    by (rule start1_Inr [OF w lt assms(8)]) (simp add: saved_now_def same)
  then show ?thesis
    using off w1(2) rf by (simp add: rp_Copy_eq crash_persister_idle)
qed

lemma raft_second_crash_loses_state_witness:
  "\<exists>cfg2. small_twice = Inr cfg2 \<and> cfg_rafts cfg2 0 = Some small_peer"
proof -
  have w: "wired small_config" "cfg_n small_config = 2"
    using make_config_wired [OF small_config_ok] by (auto simp: small_names_def)
  obtain cfg2 where cfg2: "small_twice = Inr cfg2" using small_restart(4) by blast
  have "cfg_rafts cfg2 0 = Some small_peer"
    by (rule raft_second_crash_loses_state [OF w(1) _ small_restart(1) _ small_restart(2,3) _ cfg2 [unfolded small_twice_def]])
       (simp_all add: w(2))
  with cfg2 show ?thesis by blast
qed

end
