(* ===== verification/Paxos_Config.thy ===== *)
theory Paxos_Config
  imports Paxos_Properties Harness_Net
begin

text \<open>
  The harness paxos/config.go: a group of Paxos peers on the simulated network, with the
  operations that start, crash, connect and partition them, and the checks on decided
  values. Connecting and disconnecting is the code of the Raft harness, word for word.

  As there, names of ends, references to new server objects, elapsed times and the states in
  which peers are found are arguments, and while a peer runs it shares its persister with
  saved[i].
\<close>

section \<open>State\<close>

record ('e, 'v) px_config = "'e wiring" +
  pc_pxa :: "nat \<Rightarrow> 'v Paxos option"
  pc_saved :: "nat \<Rightarrow> 'v PxPersister option"
  pc_rpcs0 :: int
  pc_bytes0 :: "64 word"

datatype pc_error =
    PcPanic
  | PcNet rpc_error
  | PcTimeout
  | TooManyGoroutines
  | DecidedDiffer int nat
  | TooFewDecided int int
  | TooManyDecided int int

definition pc_saved_now :: "nat \<Rightarrow> ('e, 'v) px_config \<Rightarrow> 'v PxPersister option" where
  "pc_saved_now i cfg =
     (case pc_pxa cfg i of Some px \<Rightarrow> Some (px_persister px) | None \<Rightarrow> pc_saved cfg i)"

section \<open>Network\<close>

definition setLongDelay :: "bool \<Rightarrow> ('e, 'v) px_config \<Rightarrow> ('e, 'v) px_config" where
  "setLongDelay yes cfg = cfg\<lparr>cfg_net := nw_LongReordering yes (nw_LongDelays yes (cfg_net cfg))\<rparr>"

definition pc_setunreliable :: "bool \<Rightarrow> ('e, 'v) px_config \<Rightarrow> ('e, 'v) px_config" where
  "pc_setunreliable unrel cfg = cfg\<lparr>cfg_net := nw_Reliable (\<not> unrel) (cfg_net cfg)\<rparr>"

definition pc_connect :: "nat \<Rightarrow> ('e, 'v) px_config \<Rightarrow> ('e, 'v) px_config panics" where
  "pc_connect i cfg = cfg_connect i cfg"

definition pc_disconnect :: "nat \<Rightarrow> ('e, 'v) px_config \<Rightarrow> ('e, 'v) px_config panics" where
  "pc_disconnect i cfg = cfg_disconnect i cfg"

definition disconnectIncome :: "nat \<Rightarrow> ('e, 'v) px_config \<Rightarrow> ('e, 'v) px_config panics" where
  "disconnectIncome i cfg =
     map_option (\<lambda>net. cfg\<lparr>cfg_net := net\<rparr>) (disconnect_in cfg i [0..<cfg_n cfg] (cfg_net cfg))"

definition pc_rpcCount :: "(nat \<Rightarrow> ('t, 'x, 'w) Server) \<Rightarrow> nat \<Rightarrow> ('e, 'v) px_config \<Rightarrow> rpc_error + int" where
  "pc_rpcCount store server cfg = nw_GetCount store server (cfg_net cfg)"

definition pc_rpcTotal :: "('e, 'v) px_config \<Rightarrow> int" where
  "pc_rpcTotal cfg = GetTotalCount (cfg_net cfg)"

definition pc_bytesTotal :: "('e, 'v) px_config \<Rightarrow> 64 word" where
  "pc_bytesTotal cfg = GetTotalBytes (cfg_net cfg)"

section \<open>Crashing and starting\<close>

definition pc_crash_persister :: "'v PxPersister \<Rightarrow> 'v PxPersister" where
  "pc_crash_persister ps =
     (let (state, pinsts) = ps_ReadPaxosState (ps_Copy ps)
      in ps_Save state pinsts \<lparr>ps_paxosstate = 0, ps_instanceState = [], ps_snapshotuntil = 0,
           ps_snapshot = [], ps_enable = False\<rparr>)"

definition pc_crash1 :: "nat \<Rightarrow> ('e, 'v) px_config \<Rightarrow> ('e, 'v) px_config panics" where
  "pc_crash1 i cfg =
     map_option
       (\<lambda>cfg1. cfg1\<lparr>cfg_net := DeleteServer i (cfg_net cfg1),
                 pc_saved := (pc_saved cfg1)(i := map_option pc_crash_persister (pc_saved_now i cfg1)),
                 pc_pxa := (pc_pxa cfg1)(i := None)\<rparr>)
       (pc_disconnect i cfg)"

definition pc_start_persister :: "nat \<Rightarrow> ('e, 'v) px_config \<Rightarrow> 'v PxPersister" where
  "pc_start_persister i cfg =
     (case pc_saved cfg i of Some ps \<Rightarrow> ps_Copy ps | None \<Rightarrow> px_MakePersister True)"

text \<open>The goroutines that Make starts are returned as tasks.\<close>

definition pc_start1 ::
  "nat \<Rightarrow> 'e list \<Rightarrow> nat \<Rightarrow> ('e, 'v) px_config \<Rightarrow> pc_error + ('e, 'v) px_config \<times> 'v task list" where
  "pc_start1 i names ref cfg =
     (case pc_crash1 i cfg of
        None \<Rightarrow> Inl PcPanic
      | Some cfg1 \<Rightarrow>
          (case make_ends names 0 (cfg_net cfg1) of
             Inl e \<Rightarrow> Inl (PcNet e)
           | Inr net \<Rightarrow>
               let cfg2 = cfg1\<lparr>cfg_endnames := (cfg_endnames cfg1)(i \<mapsto> names), cfg_net := net\<rparr>;
                   ps = pc_start_persister i cfg2
               in (case px_Make (cfg_n cfg2) i ps of
                     None \<Rightarrow> Inl PcPanic
                   | Some (px, tasks) \<Rightarrow>
                       Inr (cfg2\<lparr>pc_saved := (pc_saved cfg2)(i \<mapsto> ps),
                              pc_pxa := (pc_pxa cfg2)(i \<mapsto> px),
                              cfg_net := AddServer i ref (cfg_net cfg2)\<rparr>, tasks))))"

definition new_px_config :: "nat \<Rightarrow> ('e, 'v) px_config" where
  "new_px_config n = \<lparr>cfg_net = MakeNetwork, cfg_n = n, cfg_endnames = (\<lambda>_. None),
     cfg_connected = (\<lambda>_. False), pc_pxa = (\<lambda>_. None), pc_saved = (\<lambda>_. None), pc_rpcs0 = 0,
     pc_bytes0 = 0\<rparr>"

fun pc_start_all ::
  "(nat \<Rightarrow> 'e list) \<Rightarrow> (nat \<Rightarrow> nat) \<Rightarrow> nat list \<Rightarrow> ('e, 'v) px_config \<Rightarrow> pc_error + ('e, 'v) px_config" where
  "pc_start_all names refs [] cfg = Inr cfg"
| "pc_start_all names refs (i # is) cfg =
     (case pc_start1 i (names i) (refs i) cfg of
        Inl e \<Rightarrow> Inl e
      | Inr (cfg1, tasks) \<Rightarrow> pc_start_all names refs is cfg1)"

fun pc_connect_all :: "nat list \<Rightarrow> ('e, 'v) px_config \<Rightarrow> ('e, 'v) px_config panics" where
  "pc_connect_all [] cfg = Some cfg"
| "pc_connect_all (i # is) cfg =
     (case pc_connect i cfg of None \<Rightarrow> None | Some cfg1 \<Rightarrow> pc_connect_all is cfg1)"

text \<open>The last argument is the random choice between short and long delays.\<close>

definition pc_make_config ::
  "(nat \<Rightarrow> 'e list) \<Rightarrow> (nat \<Rightarrow> nat) \<Rightarrow> nat \<Rightarrow> bool \<Rightarrow> bool \<Rightarrow> pc_error + ('e, 'v) px_config" where
  "pc_make_config names refs n unreliable yes =
     (let cfg = setLongDelay yes (pc_setunreliable unreliable (new_px_config n))
      in (case pc_start_all names refs [0..<n] cfg of
            Inl e \<Rightarrow> Inl e
          | Inr cfg1 \<Rightarrow>
              (case pc_connect_all [0..<n] cfg1 of None \<Rightarrow> Inl PcPanic | Some cfg2 \<Rightarrow> Inr cfg2)))"

definition pc_checkTimeout :: "bool \<Rightarrow> int \<Rightarrow> pc_error + unit" where
  "pc_checkTimeout failed seconds = (if \<not> failed \<and> seconds > 600 then Inl PcTimeout else Inr ())"

definition pc_cleanup ::
  "bool \<Rightarrow> int \<Rightarrow> int \<Rightarrow> ('e, 'v) px_config \<Rightarrow> pc_error + ('e, 'v) px_config" where
  "pc_cleanup failed seconds goroutines cfg =
     (let cfg1 = cfg\<lparr>pc_pxa := (\<lambda>i. map_option px_Kill (pc_pxa cfg i))\<rparr>
      in (case nw_Cleanup (cfg_net cfg1) of
            Inl e \<Rightarrow> Inl (PcNet e)
          | Inr net \<Rightarrow>
              (case pc_checkTimeout failed seconds of
                 Inl e \<Rightarrow> Inl e
               | Inr _ \<Rightarrow> if goroutines \<ge> 10 then Inl TooManyGoroutines else Inr (cfg1\<lparr>cfg_net := net\<rparr>))))"

section \<open>Partitions\<close>

fun part_links ::
  "('e, 'v) px_config \<Rightarrow> nat \<Rightarrow> nat list \<Rightarrow> ('e, nat) Network \<Rightarrow> ('e, nat) Network panics" where
  "part_links cfg pa [] net = Some net"
| "part_links cfg pa (pb # pbs) net =
     (case cfg_enable cfg pa pb True net of
        None \<Rightarrow> None
      | Some net1 \<Rightarrow>
          (case cfg_enable cfg pb pa True net1 of
             None \<Rightarrow> None
           | Some net2 \<Rightarrow> part_links cfg pa pbs net2))"

fun part_members :: "nat list \<Rightarrow> nat list \<Rightarrow> ('e, 'v) px_config \<Rightarrow> ('e, 'v) px_config panics" where
  "part_members pi [] cfg = Some cfg"
| "part_members pi (pa # pas) cfg =
     (case part_links cfg pa pi (cfg_net cfg) of
        None \<Rightarrow> None
      | Some net \<Rightarrow>
          part_members pi pas (cfg\<lparr>cfg_connected := (cfg_connected cfg)(pa := True), cfg_net := net\<rparr>))"

fun part_groups :: "nat list list \<Rightarrow> ('e, 'v) px_config \<Rightarrow> ('e, 'v) px_config panics" where
  "part_groups [] cfg = Some cfg"
| "part_groups (pi # ps) cfg =
     (case part_members pi pi cfg of None \<Rightarrow> None | Some cfg1 \<Rightarrow> part_groups ps cfg1)"

fun disconnect_all :: "nat list \<Rightarrow> ('e, 'v) px_config \<Rightarrow> ('e, 'v) px_config panics" where
  "disconnect_all [] cfg = Some cfg"
| "disconnect_all (i # is) cfg =
     (case pc_disconnect i cfg of None \<Rightarrow> None | Some cfg1 \<Rightarrow> disconnect_all is cfg1)"

definition pc_partition :: "nat list list \<Rightarrow> ('e, 'v) px_config \<Rightarrow> ('e, 'v) px_config panics" where
  "pc_partition p cfg =
     (case disconnect_all [0..<cfg_n cfg] cfg of None \<Rightarrow> None | Some cfg1 \<Rightarrow> part_groups p cfg1)"

section \<open>Checks\<close>

text \<open>peers gives each peer as it is when Status is called, None when it is down.\<close>

fun ndecided_loop ::
  "(nat \<Rightarrow> 'v Paxos option) \<Rightarrow> int \<Rightarrow> nat list \<Rightarrow> int \<Rightarrow> 'v option \<Rightarrow> pc_error + int" where
  "ndecided_loop peers seq [] count v = Inr count"
| "ndecided_loop peers seq (i # is) count v =
     (case peers i of
        None \<Rightarrow> ndecided_loop peers seq is count v
      | Some px \<Rightarrow>
          (case px_Status seq px of
             None \<Rightarrow> Inl PcPanic
           | Some (decided, v1) \<Rightarrow>
               if decided = Decided then
                 if count > 0 \<and> v \<noteq> v1 then Inl (DecidedDiffer seq i)
                 else ndecided_loop peers seq is (count + 1) v1
               else ndecided_loop peers seq is count v))"

definition ndecided :: "(nat \<Rightarrow> 'v Paxos option) \<Rightarrow> int \<Rightarrow> ('e, 'v) px_config \<Rightarrow> pc_error + int" where
  "ndecided peers seq cfg = ndecided_loop peers seq [0..<cfg_n cfg] 0 None"

text \<open>The peers as they are found in each of at most 30 rounds, and at the end.\<close>

fun waitn_loop ::
  "int \<Rightarrow> int \<Rightarrow> ('e, 'v) px_config \<Rightarrow> (nat \<Rightarrow> 'v Paxos option) list \<Rightarrow> pc_error + unit" where
  "waitn_loop seq wanted cfg [] = Inr ()"
| "waitn_loop seq wanted cfg (peers # rounds) =
     (case ndecided peers seq cfg of
        Inl e \<Rightarrow> Inl e
      | Inr nd \<Rightarrow> if nd \<ge> wanted then Inr () else waitn_loop seq wanted cfg rounds)"

definition waitn ::
  "(nat \<Rightarrow> nat \<Rightarrow> 'v Paxos option) \<Rightarrow> (nat \<Rightarrow> 'v Paxos option) \<Rightarrow> int \<Rightarrow> int \<Rightarrow> ('e, 'v) px_config \<Rightarrow>
   pc_error + unit" where
  "waitn rounds final seq wanted cfg =
     (case waitn_loop seq wanted cfg (map rounds [0..<30]) of
        Inl e \<Rightarrow> Inl e
      | Inr _ \<Rightarrow>
          (case ndecided final seq cfg of
             Inl e \<Rightarrow> Inl e
           | Inr nd \<Rightarrow> if nd < wanted then Inl (TooFewDecided seq nd) else Inr ()))"

definition waitmajority ::
  "(nat \<Rightarrow> nat \<Rightarrow> 'v Paxos option) \<Rightarrow> (nat \<Rightarrow> 'v Paxos option) \<Rightarrow> int \<Rightarrow> ('e, 'v) px_config \<Rightarrow>
   pc_error + unit" where
  "waitmajority rounds final seq cfg = waitn rounds final seq (int (cfg_n cfg div 2) + 1) cfg"

definition checkmax ::
  "(nat \<Rightarrow> 'v Paxos option) \<Rightarrow> int \<Rightarrow> int \<Rightarrow> ('e, 'v) px_config \<Rightarrow> pc_error + unit" where
  "checkmax peers seq m cfg =
     (case ndecided peers seq cfg of
        Inl e \<Rightarrow> Inl e
      | Inr nd \<Rightarrow> if nd > m then Inl (TooManyDecided seq nd) else Inr ())"

text \<open>one: the value is given to a server, and all servers are waited for.\<close>

definition pc_one ::
  "(nat \<Rightarrow> nat \<Rightarrow> 'v Paxos option) \<Rightarrow> (nat \<Rightarrow> 'v Paxos option) \<Rightarrow> nat \<Rightarrow> int \<Rightarrow> 'v option \<Rightarrow>
   ('e, 'v) px_config \<Rightarrow> pc_error + ('e, 'v) px_config \<times> 'v task list" where
  "pc_one rounds final server seq cmd cfg =
     (case pc_pxa cfg server of
        None \<Rightarrow> Inl PcPanic
      | Some px \<Rightarrow>
          (case px_Start seq cmd px of
             None \<Rightarrow> Inl PcPanic
           | Some (px1, tasks) \<Rightarrow>
               let cfg1 = cfg\<lparr>pc_pxa := (pc_pxa cfg)(server \<mapsto> px1)\<rparr>
               in (case waitn rounds final seq (int (cfg_n cfg)) cfg1 of
                     Inl e \<Rightarrow> Inl e
                   | Inr _ \<Rightarrow> Inr (cfg1, tasks))))"

section \<open>Statistics\<close>

definition pc_begin :: "('e, 'v) px_config \<Rightarrow> ('e, 'v) px_config" where
  "pc_begin cfg = cfg\<lparr>pc_rpcs0 := pc_rpcTotal cfg, pc_bytes0 := pc_bytesTotal cfg\<rparr>"

definition pc_end ::
  "bool \<Rightarrow> int \<Rightarrow> ('e, 'v) px_config \<Rightarrow> pc_error + (nat \<times> int \<times> 64 word) option" where
  "pc_end failed seconds cfg =
     (case pc_checkTimeout failed seconds of
        Inl e \<Rightarrow> Inl e
      | Inr _ \<Rightarrow>
          Inr (if failed then None
               else Some (cfg_n cfg, pc_rpcTotal cfg - pc_rpcs0 cfg, pc_bytesTotal cfg - pc_bytes0 cfg)))"

end
