(* ===== verification/Paxos_Harness.thy ===== *)
theory Paxos_Harness
  imports Paxos_Config
begin

text \<open>
  What the harness of the Paxos package does: the ends that connections and partitions
  enable, that its check on decided values accepts every run of the package, and what its
  crashes do to the persister.
\<close>

section \<open>Starting and crashing\<close>

lemma pc_crash1_wired:
  assumes "wired cfg" "k < cfg_n cfg"
  obtains cfg' where "pc_crash1 k cfg = Some cfg'" "wired cfg'" "cfg_n cfg' = cfg_n cfg"
    "cfg_endnames cfg' = cfg_endnames cfg" "cfg_connected cfg' = (cfg_connected cfg)(k := False)"
    "pc_saved cfg' k = map_option pc_crash_persister (pc_saved_now k cfg)" "pc_pxa cfg' k = None"
proof -
  obtain net where c: "cfg_disconnect k cfg =
      Some (cfg\<lparr>cfg_connected := (cfg_connected cfg)(k := False), cfg_net := net\<rparr>)"
    "wired (cfg\<lparr>cfg_connected := (cfg_connected cfg)(k := False), cfg_net := net\<rparr>)" (is "wired ?d")
    by (rule disconnect_wired [OF assms])
  let ?c = "?d\<lparr>cfg_net := DeleteServer k net,
    pc_saved := (pc_saved cfg)(k := map_option pc_crash_persister (pc_saved_now k ?d)),
    pc_pxa := (pc_pxa cfg)(k := None)\<rparr>"
  have "wired ?c" by (rule wired_cong [OF c(2)]) (simp_all add: DeleteServer_def)
  moreover have "pc_saved_now k ?d = pc_saved_now k cfg" by (simp add: pc_saved_now_def split: option.split)
  ultimately show thesis
    by (intro that [of ?c]) (simp_all add: pc_crash1_def pc_disconnect_def c(1))
qed

lemma pc_start1_Inr:
  fixes cfg :: "('e, 'v) px_config"
  assumes "wired cfg" "k < cfg_n cfg" and start: "pc_start1 k names ref cfg = Inr (cfg', tasks)"
  obtains c :: "('e, 'v) px_config" and net px where "wired c" "cfg_n c = cfg_n cfg"
    "cfg_endnames c = cfg_endnames cfg" "\<not> cfg_connected c k" "make_ends names 0 (cfg_net c) = Inr net"
    "cfg_n cfg' = cfg_n cfg" "cfg_endnames cfg' = (cfg_endnames cfg)(k \<mapsto> names)"
    "cfg_connected cfg' = cfg_connected c" "cfg_net cfg' = AddServer k ref net"
    "pc_pxa cfg' k = Some px"
    "px_Make (cfg_n cfg) k (case pc_saved_now k cfg of None \<Rightarrow> px_MakePersister True
       | Some ps \<Rightarrow> ps_Copy (pc_crash_persister ps)) = Some (px, tasks)"
proof -
  from pc_crash1_wired [OF assms(1,2)] obtain c where c: "pc_crash1 k cfg = Some c" "wired c"
    "cfg_n c = cfg_n cfg" "cfg_endnames c = cfg_endnames cfg" "cfg_connected c = (cfg_connected cfg)(k := False)"
    "pc_saved c k = map_option pc_crash_persister (pc_saved_now k cfg)" .
  let ?ps = "case pc_saved_now k cfg of None \<Rightarrow> px_MakePersister True | Some ps \<Rightarrow> ps_Copy (pc_crash_persister ps)"
  have ps: "pc_start_persister k (c\<lparr>cfg_endnames := en, cfg_net := nt\<rparr>) = ?ps" for en nt
    by (simp add: pc_start_persister_def c(6) split: option.split)
  from start obtain net px where r: "make_ends names 0 (cfg_net c) = Inr net"
    "px_Make (cfg_n cfg) k ?ps = Some (px, tasks)"
    "cfg' = c\<lparr>cfg_endnames := (cfg_endnames c)(k \<mapsto> names), cfg_net := AddServer k ref net,
       pc_saved := (pc_saved c)(k \<mapsto> ?ps), pc_pxa := (pc_pxa c)(k \<mapsto> px)\<rparr>"
    by (auto simp: pc_start1_def c(1,3) ps Let_def split: sum.splits option.splits prod.splits)
  show thesis
    by (rule that [OF c(2-4) _ r(1)]) (use r(2) in \<open>auto simp: r(3) c(3-5)\<close>)
qed

lemma pc_start1_wired:
  fixes cfg :: "('e, 'v) px_config"
  assumes w: "wired cfg" and k: "k < cfg_n cfg" and len: "length names = cfg_n cfg"
    and start: "pc_start1 k names ref cfg = Inr (cfg', tasks)"
  shows "wired cfg' \<and> cfg_n cfg' = cfg_n cfg \<and> cfg_endnames cfg' = (cfg_endnames cfg)(k \<mapsto> names)"
proof -
  obtain c :: "('e, 'v) px_config" and net where c: "wired c" "cfg_n c = cfg_n cfg"
    "cfg_endnames c = cfg_endnames cfg" "\<not> cfg_connected c k"
    and net: "make_ends names 0 (cfg_net c) = Inr net"
    and c': "cfg_n cfg' = cfg_n cfg" "cfg_endnames cfg' = (cfg_endnames cfg)(k \<mapsto> names)"
      "cfg_connected cfg' = cfg_connected c" "cfg_net cfg' = AddServer k ref net"
    by (rule pc_start1_Inr [OF w k start])
  have "wired (c\<lparr>cfg_endnames := (cfg_endnames c)(k \<mapsto> names), cfg_net := net\<rparr>)"
    by (rule new_ends_wired [OF c(1,4) _ _ net]) (use k len c(2) in simp_all)
  then have "wired cfg'"
    by (rule wired_cong) (simp_all add: c' c(2,3) AddServer_def)
  with c' show ?thesis by simp
qed

interpretation paxos_harness: harness "\<lambda>k names ref cfg. map_sum id fst (pc_start1 k names ref cfg)" pc_crash1 PcPanic
proof
  fix cfg cfg' :: "('e, 'v) px_config" and k
  assume "wired cfg" "k < cfg_n cfg" "pc_crash1 k cfg = Some cfg'"
  then show "wired cfg' \<and> cfg_n cfg' = cfg_n cfg"
    by (metis pc_crash1_wired option.inject)
next
  fix cfg cfg' :: "('e, 'v) px_config" and k names ref
  assume a: "wired cfg" "k < cfg_n cfg" "length names = cfg_n cfg"
    "map_sum id fst (pc_start1 k names ref cfg) = Inr cfg'"
  then obtain tasks where "pc_start1 k names ref cfg = Inr (cfg', tasks)"
    by (cases "pc_start1 k names ref cfg") auto
  then show "wired cfg' \<and> cfg_n cfg' = cfg_n cfg"
    using pc_start1_wired [OF a(1-3)] by blast
qed

text \<open>The servers that the harness has started have names.\<close>

lemma pc_start_all_wired:
  "wired cfg \<Longrightarrow> set is \<subseteq> {..<cfg_n cfg} \<Longrightarrow> (\<forall>i\<in>set is. length (names i) = cfg_n cfg) \<Longrightarrow>
   pc_start_all names refs is cfg = Inr cfg' \<Longrightarrow>
   wired cfg' \<and> cfg_n cfg' = cfg_n cfg \<and>
   (\<forall>i. cfg_endnames cfg' i \<noteq> None \<longleftrightarrow> cfg_endnames cfg i \<noteq> None \<or> i \<in> set is)"
proof (induction "is" arbitrary: cfg)
  case (Cons i "is")
  obtain c tasks where c: "pc_start1 i (names i) (refs i) cfg = Inr (c, tasks)" "pc_start_all names refs is c = Inr cfg'"
    using Cons.prems(4) by (auto split: sum.splits)
  have "wired c" "cfg_n c = cfg_n cfg" "cfg_endnames c = (cfg_endnames cfg)(i \<mapsto> names i)"
    using pc_start1_wired [OF Cons.prems(1) _ _ c(1)] Cons.prems(2,3) by auto
  then show ?case using Cons.IH [OF _ _ _ c(2)] Cons.prems(2,3) by auto
qed simp

lemma pc_connect_all_wired:
  "wired cfg \<Longrightarrow> set is \<subseteq> {..<cfg_n cfg} \<Longrightarrow> pc_connect_all is cfg = Some cfg' \<Longrightarrow>
   wired cfg' \<and> cfg_n cfg' = cfg_n cfg \<and> cfg_endnames cfg' = cfg_endnames cfg"
proof (induction "is" arbitrary: cfg)
  case (Cons i "is")
  then obtain c where c: "cfg_connect i cfg = Some c" "pc_connect_all is c = Some cfg'"
    by (auto simp: pc_connect_def split: option.splits)
  then show ?case using cfg_connect_wired [OF Cons.prems(1) _ c(1)] Cons.IH [of c] Cons.prems(2) by auto
qed simp

lemma pc_make_config_wired:
  fixes cfg :: "('e, 'v) px_config"
  assumes "pc_make_config names refs n unreliable yes = Inr cfg" "\<forall>i<n. length (names i) = n"
  shows "wired cfg \<and> cfg_n cfg = n \<and> (\<forall>i<n. cfg_endnames cfg i \<noteq> None)"
proof -
  let ?d = "setLongDelay yes (pc_setunreliable unreliable (new_px_config n)) :: ('e, 'v) px_config"
  have d: "wired ?d" "cfg_n ?d = n"
    by (simp_all add: wired_def ends_ok_def setLongDelay_def pc_setunreliable_def new_px_config_def)
  from assms(1) obtain c where c: "pc_start_all names refs [0..<n] ?d = Inr c" "pc_connect_all [0..<n] c = Some cfg"
    by (auto simp: pc_make_config_def Let_def split: sum.splits option.splits)
  have "wired c \<and> cfg_n c = n \<and> (\<forall>i<n. cfg_endnames c i \<noteq> None)"
    using pc_start_all_wired [OF d(1) _ _ c(1)] assms(2) d(2) by (simp add: subset_iff)
  then show ?thesis using pc_connect_all_wired [OF _ _ c(2)] by (simp add: subset_iff)
qed

section \<open>Partitions\<close>

lemma disconnect_links:
  assumes l: "laid cfg" and k: "k < cfg_n cfg"
  obtains cfg' where "pc_disconnect k cfg = Some cfg'" "cfg_n cfg' = cfg_n cfg"
    "cfg_endnames cfg' = cfg_endnames cfg" "cfg_connected cfg' = (cfg_connected cfg)(k := False)"
    "links cfg' = links cfg - {(i, j). i = k \<or> j = k}"
proof -
  let ?c = "cfg\<lparr>cfg_connected := (cfg_connected cfg)(k := False),
    cfg_net := nw_set (touches cfg k) False (cfg_net cfg)\<rparr>"
  have eq: "pc_disconnect k cfg = Some ?c"
    unfolding pc_disconnect_def by (rule cfg_disconnect_eq) (use laidD(1) [OF l] k in auto)
  have some: "cfg_endnames cfg i \<noteq> None" if "i < cfg_n cfg" for i
    using laidD(1) [OF l that] by (auto simp: named_def)
  have "touches cfg k (cfg_end_name cfg i j) \<longleftrightarrow> i = k \<or> j = k" if "i < cfg_n cfg" "j < cfg_n cfg" for i j
    unfolding touches_def using laidD(2) [OF l] that k some by metis
  then have "links ?c = links cfg - {(i, j). i = k \<or> j = k}"
    by (auto simp: links_def)
  then show thesis using that [OF eq] by simp
qed

lemma disconnect_all_links:
  "laid cfg \<Longrightarrow> set is \<subseteq> {..<cfg_n cfg} \<Longrightarrow>
   \<exists>cfg'. disconnect_all is cfg = Some cfg' \<and> cfg_n cfg' = cfg_n cfg \<and> cfg_endnames cfg' = cfg_endnames cfg \<and>
     (\<forall>i. cfg_connected cfg' i \<longleftrightarrow> cfg_connected cfg i \<and> i \<notin> set is) \<and>
     links cfg' = links cfg - {(i, j). i \<in> set is \<or> j \<in> set is}"
proof (induction "is" arbitrary: cfg)
  case (Cons k "is")
  obtain c where c: "pc_disconnect k cfg = Some c" "cfg_n c = cfg_n cfg" "cfg_endnames c = cfg_endnames cfg"
    "cfg_connected c = (cfg_connected cfg)(k := False)" "links c = links cfg - {(i, j). i = k \<or> j = k}"
    by (rule disconnect_links [OF Cons.prems(1), of k]) (use Cons.prems(2) in auto)
  have "laid c" by (rule laid_cong [OF Cons.prems(1) c(2,3)])
  from Cons.IH [OF this] Cons.prems(2) c show ?case by auto
qed auto

lemma part_links_eq:
  "laid cfg \<Longrightarrow> pa < cfg_n cfg \<Longrightarrow> set pbs \<subseteq> {..<cfg_n cfg} \<Longrightarrow>
   part_links cfg pa pbs net = Some (nw_set (\<lambda>e. \<exists>pb\<in>set pbs. e = cfg_end_name cfg pa pb \<or>
     e = cfg_end_name cfg pb pa) True net)"
proof (induction pbs arbitrary: net)
  case (Cons pb pbs)
  have "cfg_enable cfg pa pb True nt = Some (Enable (cfg_end_name cfg pa pb) True nt)"
    "cfg_enable cfg pb pa True nt = Some (Enable (cfg_end_name cfg pb pa) True nt)" for nt
    using Cons.prems laidD(1) [OF Cons.prems(1)] by (auto intro: cfg_enable_named)
  then show ?case
    using Cons by (simp add: nw_set_Enable disj_assoc)
qed (simp add: nw_set_none)

lemma part_members_links:
  "laid cfg \<Longrightarrow> set pi \<subseteq> {..<cfg_n cfg} \<Longrightarrow> set pas \<subseteq> {..<cfg_n cfg} \<Longrightarrow>
   \<exists>cfg'. part_members pi pas cfg = Some cfg' \<and> cfg_n cfg' = cfg_n cfg \<and> cfg_endnames cfg' = cfg_endnames cfg \<and>
     (\<forall>i. cfg_connected cfg' i \<longleftrightarrow> cfg_connected cfg i \<or> i \<in> set pas) \<and>
     links cfg' = links cfg \<union> set pas \<times> set pi \<union> set pi \<times> set pas"
proof (induction pas arbitrary: cfg)
  case (Cons pa pas)
  let ?hit = "\<lambda>e. \<exists>pb\<in>set pi. e = cfg_end_name cfg pa pb \<or> e = cfg_end_name cfg pb pa"
  let ?c = "cfg\<lparr>cfg_connected := (cfg_connected cfg)(pa := True), cfg_net := nw_set ?hit True (cfg_net cfg)\<rparr>"
  have eq: "part_members pi (pa # pas) cfg = part_members pi pas ?c"
    using part_links_eq [OF Cons.prems(1) _ Cons.prems(2), of pa] Cons.prems(3) by simp
  have "?hit (cfg_end_name cfg i j) \<longleftrightarrow> i = pa \<and> j \<in> set pi \<or> i \<in> set pi \<and> j = pa"
    if "i < cfg_n cfg" "j < cfg_n cfg" for i j
    using laidD(2) [OF Cons.prems(1)] that Cons.prems(2,3) by (auto simp: subset_iff)
  then have "links ?c = links cfg \<union> {pa} \<times> set pi \<union> set pi \<times> {pa}"
    using Cons.prems(2,3) by (auto simp: links_def subset_iff)
  moreover have "laid ?c" by (rule laid_cong [OF Cons.prems(1)]) simp_all
  from Cons.IH [OF this] Cons.prems(2,3) obtain cfg' where "part_members pi pas ?c = Some cfg'"
    "cfg_n cfg' = cfg_n cfg" "cfg_endnames cfg' = cfg_endnames cfg"
    "\<forall>i. cfg_connected cfg' i \<longleftrightarrow> cfg_connected ?c i \<or> i \<in> set pas"
    "links cfg' = links ?c \<union> set pas \<times> set pi \<union> set pi \<times> set pas"
    by auto
  ultimately show ?case unfolding eq by auto
qed simp

lemma part_groups_links:
  "laid cfg \<Longrightarrow> (\<forall>g\<in>set p. set g \<subseteq> {..<cfg_n cfg}) \<Longrightarrow>
   \<exists>cfg'. part_groups p cfg = Some cfg' \<and> cfg_n cfg' = cfg_n cfg \<and> cfg_endnames cfg' = cfg_endnames cfg \<and>
     (\<forall>i. cfg_connected cfg' i \<longleftrightarrow> cfg_connected cfg i \<or> (\<exists>g\<in>set p. i \<in> set g)) \<and>
     links cfg' = links cfg \<union> (\<Union>g\<in>set p. set g \<times> set g)"
proof (induction p arbitrary: cfg)
  case (Cons g p)
  obtain c where c: "part_members g g cfg = Some c" "cfg_n c = cfg_n cfg" "cfg_endnames c = cfg_endnames cfg"
    "\<forall>i. cfg_connected c i \<longleftrightarrow> cfg_connected cfg i \<or> i \<in> set g"
    "links c = links cfg \<union> set g \<times> set g \<union> set g \<times> set g"
    using part_members_links [OF Cons.prems(1), of g g] Cons.prems(2) by auto
  have "laid c" by (rule laid_cong [OF Cons.prems(1) c(2,3)])
  from Cons.IH [OF this] Cons.prems(2) c show ?case by auto
qed simp

text \<open>A sequence of partitions.\<close>

fun pc_partitions :: "nat list list list \<Rightarrow> ('e, 'v) px_config \<Rightarrow> ('e, 'v) px_config panics" where
  "pc_partitions [] cfg = Some cfg"
| "pc_partitions (p # ps) cfg =
     (case pc_partition p cfg of None \<Rightarrow> None | Some cfg1 \<Rightarrow> pc_partitions ps cfg1)"

lemma pc_partition_links:
  assumes l: "laid cfg" and p: "\<forall>g\<in>set p. set g \<subseteq> {..<cfg_n cfg}"
  shows "\<exists>cfg'. pc_partition p cfg = Some cfg' \<and> cfg_n cfg' = cfg_n cfg \<and>
    cfg_endnames cfg' = cfg_endnames cfg \<and>
    (\<forall>i < cfg_n cfg. cfg_connected cfg' i \<longleftrightarrow> (\<exists>g\<in>set p. i \<in> set g)) \<and>
    links cfg' = (\<Union>g\<in>set p. set g \<times> set g)"
proof -
  obtain c where c: "disconnect_all [0..<cfg_n cfg] cfg = Some c" "cfg_n c = cfg_n cfg"
    "cfg_endnames c = cfg_endnames cfg" "\<forall>i. cfg_connected c i \<longleftrightarrow> cfg_connected cfg i \<and> i \<notin> set [0..<cfg_n cfg]"
    "links c = links cfg - {(i, j). i \<in> set [0..<cfg_n cfg] \<or> j \<in> set [0..<cfg_n cfg]}"
    using disconnect_all_links [OF l, of "[0..<cfg_n cfg]"] by (auto simp: subset_iff)
  have none: "links c = {}" using c(5) by (auto simp: links_def)
  have "laid c" by (rule laid_cong [OF l c(2,3)])
  from part_groups_links [OF this, of p] p c none show ?thesis
    by (auto simp: pc_partition_def)
qed

lemma pc_partitions_laid:
  "laid cfg \<Longrightarrow> (\<forall>p\<in>set ps. \<forall>g\<in>set p. set g \<subseteq> {..<cfg_n cfg}) \<Longrightarrow> pc_partitions ps cfg = Some cfg' \<Longrightarrow>
   laid cfg' \<and> cfg_n cfg' = cfg_n cfg"
proof (induction ps arbitrary: cfg)
  case (Cons p ps)
  obtain c where c: "pc_partition p cfg = Some c" "cfg_n c = cfg_n cfg" "cfg_endnames c = cfg_endnames cfg"
    using pc_partition_links [OF Cons.prems(1), of p] Cons.prems(2) by auto
  have "laid c" by (rule laid_cong [OF Cons.prems(1) c(2,3)])
  from Cons.IH [OF this] Cons.prems(2,3) c show ?case by auto
qed simp

section \<open>Restarting twice\<close>

text \<open>After a crash the persister is off and a second crash changes nothing in it.\<close>

lemma pc_crash_persister_sel [simp]:
  "ps_enable (pc_crash_persister ps) = False"
  "ps_paxosstate (pc_crash_persister ps) = ps_paxosstate ps"
  "ps_instanceState (pc_crash_persister ps) = ps_instanceState ps"
  by (simp_all add: pc_crash_persister_def ps_ReadPaxosState_def ps_Copy_def ps_Save_def)

lemma pc_crash_persister_idle: "pc_crash_persister (ps_Copy (pc_crash_persister ps)) = pc_crash_persister ps"
  by (simp add: pc_crash_persister_def ps_ReadPaxosState_def ps_Copy_def ps_Save_def px_MakePersister_def)

lemma ps_Copy_crash: "ps_Copy (pc_crash_persister ps) = pc_crash_persister ps"
  by (simp add: pc_crash_persister_def ps_ReadPaxosState_def ps_Copy_def ps_Save_def px_MakePersister_def)

lemma idle_persister:
  "\<not> ps_enable ps \<Longrightarrow> persistInstanceL seq inst ps = ps"
  "\<not> ps_enable (px_persister px) \<Longrightarrow> px_persistL False px = px"
  by (simp_all add: persistInstanceL_def px_persistL_def)

lemma readPersist_loop_persister:
  "readPersist_loop st i pinsts px = (px', tasks) \<Longrightarrow> px_persister px' = px_persister px"
  by (induction pinsts arbitrary: i px tasks) (fastforce simp: Let_def split: prod.splits if_splits)+

lemma px_Make_persister: "px_Make n me ps = Some (px, tasks) \<Longrightarrow> px_persister px = ps"
  by (auto simp: px_Make_def px_readPersist_def Let_def ps_ReadPaxosState_def go_store_def
      split: if_splits prod.splits Option.bind_splits dest!: readPersist_loop_persister)

text \<open>
  A peer that was crashed and started again no longer saves: a peer that runs on with the same persister
  object, whatever it has promised, accepted and decided, is brought back by its next crash
  to the state of the first one.
\<close>

lemma paxos_second_crash_loses_state:
  fixes cfg :: "('e, 'v) px_config"
  assumes "wired cfg" "i < cfg_n cfg" "pc_saved_now i cfg \<noteq> None"
    and "length names = cfg_n cfg" "pc_start1 i names ref cfg = Inr (cfg1, tasks1)" "pc_pxa cfg1 i = Some px"
    and "px_persister px' = px_persister px"
    and "pc_start1 i names' ref' (cfg1\<lparr>pc_pxa := (pc_pxa cfg1)(i \<mapsto> px_persistL False px')\<rparr>) = Inr (cfg2, tasks2)"
  shows "pc_pxa cfg2 i = Some px \<and> tasks2 = tasks1"
proof -
  let ?c = "cfg1\<lparr>pc_pxa := (pc_pxa cfg1)(i \<mapsto> px_persistL False px')\<rparr>"
  from assms(3) obtain ps where ps: "pc_saved_now i cfg = Some ps" by blast
  have mk: "px_Make (cfg_n cfg) i (pc_crash_persister ps) = Some (px, tasks1)"
    by (rule pc_start1_Inr [OF assms(1,2,5)]) (use assms(6) ps in \<open>simp add: ps_Copy_crash\<close>)
  then have off: "px_persister px = pc_crash_persister ps" by (rule px_Make_persister)
  then have now: "pc_saved_now i ?c = Some (pc_crash_persister ps)"
    using assms(7) by (simp add: pc_saved_now_def idle_persister)
  have w1: "wired cfg1" "cfg_n cfg1 = cfg_n cfg" using pc_start1_wired [OF assms(1,2,4,5)] by blast+
  have w: "wired ?c" by (rule wired_cong [OF w1(1)]) simp_all
  have lt: "i < cfg_n ?c" using assms(2) w1(2) by simp
  obtain px2 where "pc_pxa cfg2 i = Some px2"
    "px_Make (cfg_n cfg) i (pc_crash_persister ps) = Some (px2, tasks2)"
    by (rule pc_start1_Inr [OF w lt assms(8)]) (auto simp: now w1(2) ps_Copy_crash pc_crash_persister_idle [unfolded ps_Copy_crash])
  with mk show ?thesis by simp
qed

section \<open>Decided values\<close>

text \<open>A decision that a peer reports at some moment of a run is the chosen one at the end of it.\<close>

lemma px_Status_total: "\<exists>d v. px_Status seq px = Some (d, v)"
  using getInstanceL_total [of seq False px] by (auto simp: px_Status_def split: option.splits)

definition reports :: "(nat \<Rightarrow> 'v Paxos option) \<Rightarrow> int \<Rightarrow> nat \<Rightarrow> bool" where
  "reports peers seq i \<longleftrightarrow>
     (case peers i of None \<Rightarrow> False | Some px \<Rightarrow> map_option fst (px_Status seq px) = Some Decided)"

lemma ndecided_loop_agree:
  "(\<And>i px v. i \<in> set is \<Longrightarrow> peers i = Some px \<Longrightarrow> px_Status seq px = Some (Decided, v) \<Longrightarrow> v = w) \<Longrightarrow>
   (count > 0 \<longrightarrow> u = w) \<Longrightarrow> count \<ge> 0 \<Longrightarrow>
   ndecided_loop peers seq is count u = Inr (count + int (length (filter (reports peers seq) is)))"
proof (induction "is" arbitrary: count u)
  case (Cons i "is")
  have IH: "ndecided_loop peers seq is (count + 1) w = Inr (count + 1 + int (length (filter (reports peers seq) is)))"
    "ndecided_loop peers seq is count u = Inr (count + int (length (filter (reports peers seq) is)))"
    using Cons.prems by (auto intro!: Cons.IH)
  show ?case
  proof (cases "peers i")
    case None
    moreover have "\<not> reports peers seq i" by (simp add: reports_def None)
    ultimately show ?thesis by (simp add: IH(2))
  next
    case (Some px)
    obtain d v where st: "px_Status seq px = Some (d, v)" using px_Status_total by blast
    have "d = Decided \<Longrightarrow> v = w" using Cons.prems(1) [of i px v] Some st by simp
    moreover have "reports peers seq i \<longleftrightarrow> d = Decided" by (simp add: reports_def Some st)
    ultimately show ?thesis using Some st Cons.prems(2) IH by auto
  qed
qed simp

text \<open>The peers as a harness finds them one after the other in a run of the cluster.\<close>

definition read_in_run ::
  "nat \<Rightarrow> bool \<Rightarrow> (nat \<Rightarrow> 'v cluster) \<Rightarrow> 'v cluster \<Rightarrow> (nat \<Rightarrow> 'v Paxos option) \<Rightarrow> bool" where
  "read_in_run N enable ss t peers \<longleftrightarrow> px_reachable N enable (ss 0) \<and>
     (\<forall>i < N. px_step\<^sup>*\<^sup>* (ss i) (ss (Suc i))) \<and> px_step\<^sup>*\<^sup>* (ss N) t \<and>
     (\<forall>i < N. peers i = None \<or> peers i = Some (cl_px (ss i) i))"

lemma read_in_run_steps:
  assumes "read_in_run N enable ss t peers" "i \<le> N"
  shows "px_reachable N enable (ss i) \<and> px_step\<^sup>*\<^sup>* (ss i) t"
proof -
  have fwd: "j \<le> N \<Longrightarrow> px_step\<^sup>*\<^sup>* (ss k) (ss j)" if "k \<le> j" for k j
    using that
  proof (induction j rule: dec_induct)
    case (step j)
    then show ?case using assms(1) by (auto simp: read_in_run_def intro: rtranclp_trans)
  qed simp
  have "px_reachable N enable (ss i)"
    using run_reachable [OF fwd [of 0 i]] assms by (auto simp: read_in_run_def)
  moreover have "px_step\<^sup>*\<^sup>* (ss i) t"
    using fwd [of i N] assms by (auto simp: read_in_run_def intro: rtranclp_trans)
  ultimately show ?thesis ..
qed

section \<open>Properties\<close>

text \<open>
  C32. The check of the harness on decided values, in tests that restart no peer: with
  the peers read one after the other while the cluster runs on, ndecided never finds two
  different values, and returns the number of peers that report a decision. It is promised
  for a sequence number on two conditions: no nil value has entered the accept phase of that
  instance (nil_free), and the test has not called Done for it at a peer that had not decided
  it (done_ok). Crashes and restarts (crash1, start1) are not part of these runs; they lose
  promises (paxos_promise_lost_in_crash).
\<close>

theorem paxos_checks_accept:
  assumes "read_in_run N enable ss t peers" and "nil_free t seq" and "done_ok t seq" and "cfg_n cfg = N"
  shows "ndecided peers seq cfg = Inr (int (length (filter (reports peers seq) [0..<N])))"
proof -
  have run: "chosen t seq v"
    if i: "i < N" "peers i = Some px" "px_Status seq px = Some (Decided, v)" for i px v
  proof -
    have "px = cl_px (ss i) i" using assms(1) i(1,2) by (auto simp: read_in_run_def)
    with read_in_run_steps [OF assms(1), of i] i moment_chosen [OF _ _ assms(2,3)] show ?thesis by auto
  qed
  have t: "cl_inv t"
    using read_in_run_steps [OF assms(1), of N] run_reachable reachable_cl_inv by blast
  have "\<exists>w. \<forall>i px v. i \<in> set [0..<N] \<longrightarrow> peers i = Some px \<longrightarrow> px_Status seq px = Some (Decided, v) \<longrightarrow> v = w"
    using run chosen_unique [OF t assms(2)] by (metis atLeastLessThan_iff set_upt)
  then obtain w where w: "v = w" if "i \<in> set [0..<N]" "peers i = Some px" "px_Status seq px = Some (Decided, v)" for i px v
    by blast
  show ?thesis
    unfolding ndecided_def assms(4) by (subst ndecided_loop_agree [OF w]) auto
qed

text \<open>Peers 0 and 1 are read before peer 2 learns the value.\<close>

definition demo_moments :: "nat \<Rightarrow> nat cluster" where
  "demo_moments i = demo_state (if i < 2 then demo_decide else demo_decide @ demo_learn)"

theorem paxos_checks_accept_witness:
  "ndecided (\<lambda>i. Some (cl_px (demo_moments i) i)) 0 (new_px_config 3 :: (nat, nat) px_config) = Inr 2"
proof -
  have "read_in_run 3 True demo_moments (demo_moments 3) (\<lambda>i. Some (cl_px (demo_moments i) i))"
    using demo_decide_reachable demo_learn_steps
    by (auto simp: read_in_run_def demo_moments_def less_Suc_eq numeral_3_eq_3)
  moreover have "nil_free (demo_moments 3) 0" "done_ok (demo_moments 3) 0"
    using demo_status(3,5) by (simp_all add: demo_moments_def)
  moreover have "filter (reports (\<lambda>i. Some (cl_px (demo_moments i) i)) 0) [0..<3] = [0, 2]" by code_simp
  ultimately show ?thesis
    using paxos_checks_accept [of 3 True demo_moments "demo_moments 3" "\<lambda>i. Some (cl_px (demo_moments i) i)" 0
        "new_px_config 3 :: (nat, nat) px_config"]
    by (simp add: new_px_config_def)
qed

text \<open>
  C33. A partition of the Paxos harness links exactly the servers of each group: in a group
  that was set up and partitioned any number of times, partition of server numbers in range
  does not panic, marks the servers that are in some group as connected, and enables the end with which one
  server calls another when some group has both, and only then.
\<close>

theorem paxos_partition:
  fixes cfg0 cfg1 :: "('e, 'v) px_config"
  assumes "pc_make_config names refs n unreliable yes = Inr cfg0" "\<forall>i<n. length (names i) = n"
    and "pc_partitions ps cfg0 = Some cfg1" "\<forall>p\<in>set ps. \<forall>g\<in>set p. set g \<subseteq> {..<n}"
    and "\<forall>g\<in>set p. set g \<subseteq> {..<n}"
  shows "\<exists>cfg ends. pc_partition p cfg1 = Some cfg \<and>
    (\<forall>i<n. cfg_endnames cfg i = Some (ends i) \<and> (cfg_connected cfg i \<longleftrightarrow> (\<exists>g\<in>set p. i \<in> set g)) \<and>
      (\<forall>j<n. nw_enabled (cfg_net cfg) (ends i ! j) \<longleftrightarrow> (\<exists>g\<in>set p. i \<in> set g \<and> j \<in> set g)))"
proof -
  have w0: "wired cfg0" "cfg_n cfg0 = n" "\<forall>i<n. cfg_endnames cfg0 i \<noteq> None"
    using pc_make_config_wired [OF assms(1,2)] by auto
  then have "laid cfg0" using wired_laid by blast
  then have l1: "laid cfg1" "cfg_n cfg1 = n"
    using pc_partitions_laid [OF _ _ assms(3)] assms(4) w0(2) by auto
  obtain cfg where cfg: "pc_partition p cfg1 = Some cfg" "cfg_n cfg = n" "cfg_endnames cfg = cfg_endnames cfg1"
    "\<forall>i < n. cfg_connected cfg i \<longleftrightarrow> (\<exists>g\<in>set p. i \<in> set g)" "links cfg = (\<Union>g\<in>set p. set g \<times> set g)"
    using pc_partition_links [OF l1(1), of p] assms(5) l1(2) by auto
  have "laid cfg" by (rule laid_cong [OF l1(1)]) (simp_all add: cfg l1(2))
  then have names: "cfg_endnames cfg i = Some (the (cfg_endnames cfg i))" if "i < n" for i
    using laidD(1) [of cfg i] that cfg(2) by (auto simp: named_def)
  have "nw_enabled (cfg_net cfg) (the (cfg_endnames cfg i) ! j) \<longleftrightarrow> (i, j) \<in> links cfg" if "i < n" "j < n" for i j
    using that cfg(2) by (simp add: links_def cfg_end_name_def)
  then show ?thesis using cfg names by (intro exI [of _ cfg] exI [of _ "\<lambda>i. the (cfg_endnames cfg i)"]) auto
qed

definition pc_small_names :: "nat \<Rightarrow> nat list" where
  "pc_small_names i = [3 * i, 3 * i + 1, 3 * i + 2]"

definition pc_small :: "(nat, nat) px_config" where
  "pc_small = (case pc_make_config pc_small_names (\<lambda>i. i) 3 False True of Inr c \<Rightarrow> c)"

lemmas pc_defs = pc_start1_def pc_crash1_def pc_connect_def pc_disconnect_def cfg_disconnect_def cfg_connect_def
  cfg_enable_def pc_start_persister_def pc_saved_now_def MakeEnd_def Connect_def AddServer_def DeleteServer_def
  Enable_def MakeNetwork_def setLongDelay_def pc_setunreliable_def nw_Reliable_def nw_LongDelays_def
  nw_LongReordering_def new_px_config_def px_Make_def px_readPersist_def ps_ReadPaxosState_def
  px_MakePersister_def go_store_def

lemma pc_small_ok: "pc_make_config pc_small_names (\<lambda>i. i) 3 False True = Inr pc_small"
  unfolding pc_small_def by (simp add: pc_make_config_def pc_small_names_def upt_rec pc_defs Let_def)

theorem paxos_partition_witness:
  "\<exists>cfg ends. pc_partition [[0, 2], [1]] pc_small = Some cfg \<and> cfg_endnames cfg 0 = Some ends \<and>
     nw_enabled (cfg_net cfg) (ends ! 2) \<and> \<not> nw_enabled (cfg_net cfg) (ends ! 1)"
proof -
  obtain cfg ends where cfg: "pc_partition [[0, 2], [1]] pc_small = Some cfg"
    "\<forall>i<3. cfg_endnames cfg i = Some (ends i) \<and> (cfg_connected cfg i \<longleftrightarrow> (\<exists>g\<in>set [[0, 2], [1]]. i \<in> set g)) \<and>
      (\<forall>j<3. nw_enabled (cfg_net cfg) (ends i ! j) \<longleftrightarrow> (\<exists>g\<in>set [[0, 2], [1]]. i \<in> set g \<and> j \<in> set g))"
    using paxos_partition [OF pc_small_ok, of "[]" pc_small "[[0, 2], [1]]"]
    by (auto simp: pc_small_names_def)
  have "cfg_endnames cfg 0 = Some (ends 0)" "nw_enabled (cfg_net cfg) (ends 0 ! 2)"
    "\<not> nw_enabled (cfg_net cfg) (ends 0 ! 1)"
    using spec [OF cfg(2), of 0] by simp_all
  with cfg(1) show ?thesis by blast
qed

end
