(* ===== verification/Harness_Random.thy ===== *)
theory Harness_Random
  imports Go_Prelude
begin

text \<open>
  The random names and seeds of the harnesses (randstring and makeSeed of raft/config.go, which
  the other harnesses repeat). The bytes and the big integer that crypto/rand delivers are
  arguments; the base64 alphabet for URLs is that of the standard library.
\<close>

section \<open>Names of ends\<close>

definition base64_chars :: string where
  "base64_chars = ''ABCDEFGHIJKLMNOPQRSTUVWXYZabcdefghijklmnopqrstuvwxyz0123456789-_''"

definition base64_char :: "nat \<Rightarrow> char" where
  "base64_char k = base64_chars ! k"

text \<open>Three bytes are four characters; the last group is filled up with padding.\<close>

fun EncodeToString :: "byte list \<Rightarrow> string" where
  "EncodeToString [] = []"
| "EncodeToString [a] =
     [base64_char (unat a div 4), base64_char (unat a mod 4 * 16), CHR ''='', CHR ''='']"
| "EncodeToString [a, b] =
     [base64_char (unat a div 4), base64_char (unat a mod 4 * 16 + unat b div 16),
      base64_char (unat b mod 16 * 4), CHR ''='']"
| "EncodeToString (a # b # c # bytes) =
     [base64_char (unat a div 4), base64_char (unat a mod 4 * 16 + unat b div 16),
      base64_char (unat b mod 16 * 4 + unat c div 64), base64_char (unat c mod 64)] @ EncodeToString bytes"

text \<open>b is the buffer of 2n bytes after crypto/rand has filled it; slicing past the end panics.\<close>

definition randstring :: "nat \<Rightarrow> byte list \<Rightarrow> string panics" where
  "randstring n b = (let s = EncodeToString b in if n \<le> length s then Some (take n s) else None)"

lemma EncodeToString_length: "length (EncodeToString b) = (length b + 2) div 3 * 4"
proof (induction b rule: EncodeToString.induct)
  case (4 a b c bytes)
  have "(length (a # b # c # bytes) + 2) div 3 = Suc ((length bytes + 2) div 3)"
    using div_add_self2 [of 3 "length bytes + 2"] by (simp add: ac_simps)
  with 4 show ?case by simp
qed auto

lemma randstring_total: "length b = 2 * n \<Longrightarrow> \<exists>s. randstring n b = Some s \<and> length s = n"
  by (simp add: randstring_def Let_def EncodeToString_length)

lemma base64_char_inject: "i < 64 \<Longrightarrow> j < 64 \<Longrightarrow> base64_char i = base64_char j \<longleftrightarrow> i = j"
proof -
  have "distinct base64_chars" "length base64_chars = 64" by code_simp+
  then show "i < 64 \<Longrightarrow> j < 64 \<Longrightarrow> base64_char i = base64_char j \<longleftrightarrow> i = j"
    by (simp add: base64_char_def nth_eq_iff_index_eq)
qed

lemma byte_less: "unat (a :: byte) < 256"
  using unsigned_less [of a] by simp

lemma digits_inject: "b < m \<Longrightarrow> b' < m \<Longrightarrow> a * m + b = a' * m + b' \<Longrightarrow> a = a' \<and> b = (b' :: nat)"
  by (metis add.commute div_mult_self1 div_less less_nat_zero_code mod_less mod_mult_self3 add_0
      mult.commute bot_nat_0.extremum_strict)

lemma base64_group:
  fixes a b c a' b' c' :: byte
  shows "base64_char (unat a div 4) = base64_char (unat a' div 4) \<and>
   base64_char (unat a mod 4 * 16 + unat b div 16) = base64_char (unat a' mod 4 * 16 + unat b' div 16) \<and>
   base64_char (unat b mod 16 * 4 + unat c div 64) = base64_char (unat b' mod 16 * 4 + unat c' div 64) \<and>
   base64_char (unat c mod 64) = base64_char (unat c' mod 64) \<longleftrightarrow> a = a' \<and> b = b' \<and> c = c'" (is "?l \<longleftrightarrow> ?r")
proof
  define x y z x' y' z' where "x = unat a" "y = unat b" "z = unat c" "x' = unat a'" "y' = unat b'" "z' = unat c'"
  note defs = this
  have less: "x < 256" "x' < 256" "y < 256" "y' < 256" "z < 256" "z' < 256" unfolding defs by (rule byte_less)+
  have bounds: "x div 4 < 64" "x' div 4 < 64" "x mod 4 * 16 + y div 16 < 64" "x' mod 4 * 16 + y' div 16 < 64"
    "y mod 16 * 4 + z div 64 < 64" "y' mod 16 * 4 + z' div 64 < 64" "z mod 64 < 64" "z' mod 64 < 64"
    using less by linarith+
  assume ?l
  then have "x div 4 = x' div 4" "x mod 4 * 16 + y div 16 = x' mod 4 * 16 + y' div 16"
    "y mod 16 * 4 + z div 64 = y' mod 16 * 4 + z' div 64" "z mod 64 = z' mod 64"
    unfolding defs [symmetric] using bounds by (simp_all add: base64_char_inject)
  moreover have "y div 16 < 16" "y' div 16 < 16" "z div 64 < 4" "z' div 64 < 4" using less by linarith+
  ultimately have "x div 4 = x' div 4 \<and> x mod 4 = x' mod 4" "y div 16 = y' div 16 \<and> y mod 16 = y' mod 16"
    "z div 64 = z' div 64 \<and> z mod 64 = z' mod 64"
    using digits_inject [of "y div 16" 16 "y' div 16" "x mod 4" "x' mod 4"]
      digits_inject [of "z div 64" 4 "z' div 64" "y mod 16" "y' mod 16"] by auto
  then have "x = x' \<and> y = y' \<and> z = z'" by (metis div_mult_mod_eq)
  then show ?r unfolding defs by (simp add: word_unat_eq_iff)
qed simp

lemma three_more:
  assumes "3 * Suc m \<le> length b"
  obtains x y z r where "b = x # y # z # r" "3 * m \<le> length r"
proof -
  obtain x b1 where b1: "b = x # b1" using assms by (cases b) auto
  obtain y b2 where b2: "b1 = y # b2" using assms b1 by (cases b1) auto
  obtain z r where r: "b2 = z # r" using assms b1 b2 by (cases b2) auto
  show ?thesis by (rule that [of x y z r]) (use assms b1 b2 r in auto)
qed

lemma EncodeToString_prefix:
  "3 * m \<le> length b \<Longrightarrow> 3 * m \<le> length b' \<Longrightarrow>
   take (4 * m) (EncodeToString b) = take (4 * m) (EncodeToString b') \<longleftrightarrow> take (3 * m) b = take (3 * m) b'"
proof (induction m arbitrary: b b')
  case (Suc m)
  obtain x y z r where b: "b = x # y # z # r" "3 * m \<le> length r" using three_more [OF Suc.prems(1)] .
  obtain x' y' z' r' where b': "b' = x' # y' # z' # r'" "3 * m \<le> length r'" using three_more [OF Suc.prems(2)] .
  have k: "4 * Suc m = Suc (Suc (Suc (Suc (4 * m))))" "3 * Suc m = Suc (Suc (Suc (3 * m)))" by simp_all
  show ?case
    unfolding k b(1) b'(1) EncodeToString.simps append.simps take_Suc_Cons list.inject
    using Suc.IH [OF b(2) b'(2)] base64_group [of x x' y y' z z'] by blast
qed simp

text \<open>
  The harnesses draw names of 20 characters: they are equal exactly when the first 15 of the
  40 random bytes are. Names drawn from different bytes there are fresh.
\<close>

lemma randstring_names:
  assumes "length b = 40" and "length b' = 40"
  shows "randstring 20 b = randstring 20 b' \<longleftrightarrow> take 15 b = take 15 b'"
  using EncodeToString_prefix [of 5 b b'] assms by (simp add: randstring_def Let_def EncodeToString_length)

section \<open>Seeds\<close>

text \<open>crypto/rand delivers an integer from 0 to below 2^62; Int64 takes its low 64 bits.\<close>

definition makeSeed :: "int \<Rightarrow> int" where
  "makeSeed bigx = sint (word_of_int bigx :: 64 word)"

lemma makeSeed_exact: "0 \<le> bigx \<Longrightarrow> bigx < 2 ^ 62 \<Longrightarrow> makeSeed bigx = bigx"
  by (simp add: makeSeed_def signed_of_int signed_take_bit_int_eq_self)

end
