(* ===== verification/Eval_Config.thy ===== *)
theory Eval_Config
  imports Server_Groups Harness_Net
begin

text \<open>
  The harness eval/config.go of the benchmarks: a group of lock servers on Raft or on Paxos
  over the simulated network, with the sessions of its clients, and the failure drivers of
  eval/serverFailure.go.

  Names of ends, references to new server and session objects, and the states in which the
  running servers are found are arguments. The lock of the harness is held around each
  operation, so an operation is one step; only Shutdown gives it up while it kills the server,
  and session operations that run at that time, which use other ends, are taken before or
  after it.
\<close>

section \<open>State\<close>

record 'e EvalConfig = "'e ends_base" +
  ev_protocol :: Protocol
  ev_durable :: bool
  ev_reliable :: bool
  ev_longdelay :: bool
  ev_sessions :: "nat \<Rightarrow> 'e list option"
  ev_servers :: Servers
  ev_rpcs0 :: int
  ev_bytes0 :: "64 word"

datatype ev_error = EvPanic | EvNet rpc_error

definition ev_panic :: "'a panics \<Rightarrow> ev_error + 'a" where
  "ev_panic r = (case r of None \<Rightarrow> Inl EvPanic | Some x \<Rightarrow> Inr x)"

definition makeServers :: "nat \<Rightarrow> Protocol \<Rightarrow> Servers" where
  "makeServers n protocol =
     (if protocol = ProtoRaft then RaftGroup (MakeRaftServers n) else PaxosGroup (MakePaxosServers n))"

definition SetNetwork :: "bool \<Rightarrow> bool \<Rightarrow> 'e EvalConfig \<Rightarrow> 'e EvalConfig" where
  "SetNetwork unreliable longdelay cfg =
     cfg\<lparr>cfg_net := nw_LongReordering longdelay (nw_LongDelays longdelay (nw_Reliable (\<not> unreliable) (cfg_net cfg))),
       ev_reliable := \<not> unreliable, ev_longdelay := longdelay\<rparr>"

section \<open>Connections between servers\<close>

fun connect_to :: "'e EvalConfig \<Rightarrow> nat \<Rightarrow> nat list \<Rightarrow> ('e, nat) Network \<Rightarrow> ('e, nat) Network panics" where
  "connect_to cfg i [] net = Some net"
| "connect_to cfg i (t # to) net =
     (case cfg_enable cfg i t True net of None \<Rightarrow> None | Some net1 \<Rightarrow> connect_to cfg i to net1)"

fun connect_from :: "'e EvalConfig \<Rightarrow> nat \<Rightarrow> nat list \<Rightarrow> ('e, nat) Network \<Rightarrow> ('e, nat) Network panics" where
  "connect_from cfg i [] net = Some net"
| "connect_from cfg i (t # to) net =
     (case cfg_enable cfg t i True net of None \<Rightarrow> None | Some net1 \<Rightarrow> connect_from cfg i to net1)"

definition connectUnlocked :: "nat \<Rightarrow> nat list \<Rightarrow> 'e EvalConfig \<Rightarrow> 'e EvalConfig panics" where
  "connectUnlocked i to cfg =
     (case connect_to cfg i to (cfg_net cfg) of
        None \<Rightarrow> None
      | Some net1 \<Rightarrow> map_option (\<lambda>net2. cfg\<lparr>cfg_net := net2\<rparr>) (connect_from cfg i to net1))"

definition ev_Connect :: "nat \<Rightarrow> nat list \<Rightarrow> 'e EvalConfig \<Rightarrow> 'e EvalConfig panics" where
  "ev_Connect i to cfg = connectUnlocked i to cfg"

fun disconnect_to :: "'e EvalConfig \<Rightarrow> nat \<Rightarrow> nat list \<Rightarrow> ('e, nat) Network \<Rightarrow> ('e, nat) Network panics" where
  "disconnect_to cfg i [] net = Some net"
| "disconnect_to cfg i (f # from) net =
     (if \<not> i < cfg_n cfg then None
      else if cfg_endnames cfg i \<noteq> None
      then (case cfg_enable cfg i f False net of None \<Rightarrow> None | Some net1 \<Rightarrow> disconnect_to cfg i from net1)
      else disconnect_to cfg i from net)"

text \<open>The test is on the j-th row of names, where j counts the list, and not on the row that is used.\<close>

fun disconnect_from ::
  "'e EvalConfig \<Rightarrow> nat \<Rightarrow> nat \<Rightarrow> nat list \<Rightarrow> ('e, nat) Network \<Rightarrow> ('e, nat) Network panics" where
  "disconnect_from cfg i j [] net = Some net"
| "disconnect_from cfg i j (f # from) net =
     (if \<not> j < cfg_n cfg then None
      else if cfg_endnames cfg j \<noteq> None
      then (case cfg_enable cfg f i False net of None \<Rightarrow> None | Some net1 \<Rightarrow> disconnect_from cfg i (Suc j) from net1)
      else disconnect_from cfg i (Suc j) from net)"

definition disconnectUnlocked :: "nat \<Rightarrow> nat list \<Rightarrow> 'e EvalConfig \<Rightarrow> 'e EvalConfig panics" where
  "disconnectUnlocked i from cfg =
     (case disconnect_to cfg i from (cfg_net cfg) of
        None \<Rightarrow> None
      | Some net1 \<Rightarrow> map_option (\<lambda>net2. cfg\<lparr>cfg_net := net2\<rparr>) (disconnect_from cfg i 0 from net1))"

definition ev_Disconnect :: "nat \<Rightarrow> nat list \<Rightarrow> 'e EvalConfig \<Rightarrow> 'e EvalConfig panics" where
  "ev_Disconnect i from cfg = disconnectUnlocked i from cfg"

definition ev_All :: "'e EvalConfig \<Rightarrow> nat list" where
  "ev_All cfg = [0..<cfg_n cfg]"

fun connect_each :: "nat list \<Rightarrow> 'e EvalConfig \<Rightarrow> 'e EvalConfig panics" where
  "connect_each [] cfg = Some cfg"
| "connect_each (i # is) cfg =
     (case connectUnlocked i (ev_All cfg) cfg of None \<Rightarrow> None | Some cfg1 \<Rightarrow> connect_each is cfg1)"

definition ConnectAll :: "'e EvalConfig \<Rightarrow> 'e EvalConfig panics" where
  "ConnectAll cfg = connect_each [0..<cfg_n cfg] cfg"

fun separate :: "nat list \<Rightarrow> nat list \<Rightarrow> nat list \<Rightarrow> 'e EvalConfig \<Rightarrow> 'e EvalConfig panics" where
  "separate own other [] cfg = Some cfg"
| "separate own other (i # is) cfg =
     (case disconnectUnlocked i other cfg of
        None \<Rightarrow> None
      | Some cfg1 \<Rightarrow>
          (case connectUnlocked i own cfg1 of None \<Rightarrow> None | Some cfg2 \<Rightarrow> separate own other is cfg2))"

definition Partition :: "nat list \<Rightarrow> nat list \<Rightarrow> 'e EvalConfig \<Rightarrow> 'e EvalConfig panics" where
  "Partition p1 p2 cfg =
     (case separate p1 p2 p1 cfg of None \<Rightarrow> None | Some cfg1 \<Rightarrow> separate p2 p1 p2 cfg1)"

section \<open>Sessions\<close>

fun enable_session :: "'e list \<Rightarrow> nat list \<Rightarrow> bool \<Rightarrow> ('e, nat) Network \<Rightarrow> ('e, nat) Network panics" where
  "enable_session endnames [] yes net = Some net"
| "enable_session endnames (t # to) yes net =
     (if t < length endnames then enable_session endnames to yes (Enable (endnames ! t) yes net) else None)"

text \<open>Reading a missing key of the map gives nil, which has no elements.\<close>

definition session_names :: "nat \<Rightarrow> 'e EvalConfig \<Rightarrow> 'e list" where
  "session_names sess cfg = (case ev_sessions cfg sess of None \<Rightarrow> [] | Some endnames \<Rightarrow> endnames)"

definition connectSessionUnlocked :: "nat \<Rightarrow> nat list \<Rightarrow> 'e EvalConfig \<Rightarrow> 'e EvalConfig panics" where
  "connectSessionUnlocked sess to cfg =
     map_option (\<lambda>net. cfg\<lparr>cfg_net := net\<rparr>) (enable_session (session_names sess cfg) to True (cfg_net cfg))"

definition ConnectSession :: "nat \<Rightarrow> nat list \<Rightarrow> 'e EvalConfig \<Rightarrow> 'e EvalConfig panics" where
  "ConnectSession sess to cfg = connectSessionUnlocked sess to cfg"

definition disconnectSessionUnlocked :: "nat \<Rightarrow> nat list \<Rightarrow> 'e EvalConfig \<Rightarrow> 'e EvalConfig panics" where
  "disconnectSessionUnlocked sess from cfg =
     map_option (\<lambda>net. cfg\<lparr>cfg_net := net\<rparr>) (enable_session (session_names sess cfg) from False (cfg_net cfg))"

definition DisconnectSession :: "nat \<Rightarrow> nat list \<Rightarrow> 'e EvalConfig \<Rightarrow> 'e EvalConfig panics" where
  "DisconnectSession sess from cfg = disconnectSessionUnlocked sess from cfg"

definition session_threshold :: "'e EvalConfig \<Rightarrow> int" where
  "session_threshold cfg =
     2 + (if \<not> ev_reliable cfg then 2 else 0) + (if ev_longdelay cfg then 4 else 0)"

text \<open>The session is returned with the new value of the identifier counter of the session package.\<close>

definition MakeSession ::
  "'e list \<Rightarrow> nat \<Rightarrow> nat list \<Rightarrow> int32 \<Rightarrow> 'e EvalConfig \<Rightarrow> ev_error + 'e EvalConfig \<times> Session \<times> int32" where
  "MakeSession names ref to assignedId cfg =
     (case make_ends names 0 (cfg_net cfg) of
        Inl e \<Rightarrow> Inl (EvNet e)
      | Inr net \<Rightarrow>
          let (sess, assignedId1) = sess_Init (cfg_n cfg) (ev_protocol cfg) (session_threshold cfg) assignedId;
              cfg1 = cfg\<lparr>cfg_net := net, ev_sessions := (ev_sessions cfg)(ref \<mapsto> names)\<rparr>
          in (case connectSessionUnlocked ref to cfg1 of
                None \<Rightarrow> Inl EvPanic
              | Some cfg2 \<Rightarrow> Inr (cfg2, sess, assignedId1)))"

fun delete_ends :: "'e list \<Rightarrow> ('e, nat) Network \<Rightarrow> rpc_error + ('e, nat) Network" where
  "delete_ends [] net = Inr net"
| "delete_ends (name # names) net =
     (case DeleteEnd name net of Inl e \<Rightarrow> Inl e | Inr net1 \<Rightarrow> delete_ends names net1)"

definition DeleteSession :: "nat \<Rightarrow> 'e EvalConfig \<Rightarrow> ev_error + 'e EvalConfig" where
  "DeleteSession sess cfg =
     (case delete_ends (session_names sess cfg) (cfg_net cfg) of
        Inl e \<Rightarrow> Inl (EvNet e)
      | Inr net \<Rightarrow> Inr (cfg\<lparr>cfg_net := net, ev_sessions := (ev_sessions cfg)(sess := None)\<rparr>))"

section \<open>Servers\<close>

definition ShutdownServer :: "nat \<Rightarrow> 'e EvalConfig \<Rightarrow> 'e EvalConfig panics" where
  "ShutdownServer i cfg =
     (case disconnectUnlocked i (ev_All cfg) cfg of
        None \<Rightarrow> None
      | Some cfg1 \<Rightarrow>
          map_option (\<lambda>g. cfg1\<lparr>cfg_net := DeleteServer i (cfg_net cfg1), ev_servers := g\<rparr>)
            (srvs_Shutdown (int i) (ev_servers cfg1)))"

definition StartServer ::
  "nat \<Rightarrow> 'e list \<Rightarrow> nat \<Rightarrow> 'e EvalConfig \<Rightarrow> ev_error + 'e EvalConfig \<times> command task list" where
  "StartServer i names ref cfg =
     (if \<not> i < cfg_n cfg then Inl EvPanic
      else (case make_ends names 0 (cfg_net cfg) of
              Inl e \<Rightarrow> Inl (EvNet e)
            | Inr net \<Rightarrow>
                (case srvs_Start (cfg_n cfg) (int i) (ev_durable cfg) (ev_servers cfg) of
                   None \<Rightarrow> Inl EvPanic
                 | Some (g, tasks) \<Rightarrow>
                     Inr (cfg\<lparr>cfg_net := AddServer i ref net, cfg_endnames := (cfg_endnames cfg)(i \<mapsto> names),
                            ev_servers := g\<rparr>, tasks))))"

fun start_each ::
  "(nat \<Rightarrow> 'e list) \<Rightarrow> (nat \<Rightarrow> nat) \<Rightarrow> nat list \<Rightarrow> 'e EvalConfig \<Rightarrow> ev_error + 'e EvalConfig" where
  "start_each names refs [] cfg = Inr cfg"
| "start_each names refs (i # is) cfg =
     (case StartServer i (names i) (refs i) cfg of
        Inl e \<Rightarrow> Inl e
      | Inr (cfg1, tasks) \<Rightarrow> start_each names refs is cfg1)"

definition new_EvalConfig :: "nat \<Rightarrow> bool \<Rightarrow> Protocol \<Rightarrow> 'e EvalConfig" where
  "new_EvalConfig n durable protocol =
     \<lparr>cfg_net = MakeNetwork, cfg_n = n, cfg_endnames = (\<lambda>_. None), ev_protocol = protocol,
      ev_durable = durable, ev_reliable = False, ev_longdelay = False, ev_sessions = (\<lambda>_. None),
      ev_servers = makeServers n protocol, ev_rpcs0 = 0, ev_bytes0 = 0\<rparr>"

definition MakeConfig ::
  "(nat \<Rightarrow> 'e list) \<Rightarrow> (nat \<Rightarrow> nat) \<Rightarrow> nat \<Rightarrow> bool \<Rightarrow> bool \<Rightarrow> bool \<Rightarrow> Protocol \<Rightarrow> ev_error + 'e EvalConfig" where
  "MakeConfig names refs n unreliable longdelay durable protocol =
     (case start_each names refs [0..<n] (new_EvalConfig n durable protocol) of
        Inl e \<Rightarrow> Inl e
      | Inr cfg \<Rightarrow> map_sum id (SetNetwork unreliable longdelay) (ev_panic (ConnectAll cfg)))"

definition ev_Cleanup :: "'e EvalConfig \<Rightarrow> ev_error + 'e EvalConfig" where
  "ev_Cleanup cfg =
     (case srvs_Kill (ev_servers cfg) of
        None \<Rightarrow> Inl EvPanic
      | Some g \<Rightarrow>
          (case nw_Cleanup (cfg_net cfg) of
             Inl e \<Rightarrow> Inl (EvNet e)
           | Inr net \<Rightarrow> Inr (cfg\<lparr>cfg_net := net, ev_servers := g\<rparr>)))"

text \<open>
  Leader polls until the group has a leader; looks are the states in which the group is
  found one after the other. None is a call that still waits after the last look.
\<close>

fun ev_Leader :: "Servers list \<Rightarrow> 'e EvalConfig \<Rightarrow> ('e EvalConfig \<times> nat) option" where
  "ev_Leader [] cfg = None"
| "ev_Leader (g # looks) cfg =
     (let ld = srvs_Leader g
      in if ld < 0 then ev_Leader looks (cfg\<lparr>ev_servers := g\<rparr>) else Some (cfg\<lparr>ev_servers := g\<rparr>, nat ld))"

section \<open>Statistics\<close>

definition ev_begin :: "'e EvalConfig \<Rightarrow> 'e EvalConfig" where
  "ev_begin cfg = cfg\<lparr>ev_rpcs0 := GetTotalCount (cfg_net cfg), ev_bytes0 := GetTotalBytes (cfg_net cfg)\<rparr>"

definition ev_end :: "'e EvalConfig \<Rightarrow> nat \<times> int \<times> 64 word" where
  "ev_end cfg = (cfg_n cfg, GetTotalCount (cfg_net cfg) - ev_rpcs0 cfg, GetTotalBytes (cfg_net cfg) - ev_bytes0 cfg)"

section \<open>Failure drivers (serverFailure.go)\<close>

text \<open>
  A driver acts each time its timer fires and returns when the channel is closed. The
  variables that live between two rounds are its state; the round is given the names and
  the reference for the server it starts. A round of the leader driver that is still
  waiting for a leader gives None.
\<close>

definition restart :: "nat \<Rightarrow> 'e list \<Rightarrow> nat \<Rightarrow> 'e EvalConfig \<Rightarrow> ev_error + 'e EvalConfig" where
  "restart i names ref cfg =
     (case StartServer i names ref cfg of
        Inl e \<Rightarrow> Inl e
      | Inr (cfg1, tasks) \<Rightarrow> ev_panic (ev_Connect i (ev_All cfg1) cfg1))"

definition noFailure :: "'e EvalConfig \<Rightarrow> 'e EvalConfig" where
  "noFailure cfg = cfg"

definition periodicalLeaderFail ::
  "'e list \<Rightarrow> nat \<Rightarrow> Servers list \<Rightarrow> int \<Rightarrow> 'e EvalConfig \<Rightarrow> ev_error + ('e EvalConfig \<times> int) option" where
  "periodicalLeaderFail names ref looks fid cfg =
     (case (if fid \<ge> 0 then restart (nat fid) names ref cfg else Inr cfg) of
        Inl e \<Rightarrow> Inl e
      | Inr cfg1 \<Rightarrow>
          (case ev_Leader looks cfg1 of
             None \<Rightarrow> Inr None
           | Some (cfg2, ld) \<Rightarrow>
               map_sum id (\<lambda>cfg3. Some (cfg3, int ld)) (ev_panic (ShutdownServer ld cfg2))))"

text \<open>The servers other than the first leader, and a round that stops or starts the next of them.\<close>

definition other_servers :: "nat \<Rightarrow> nat list" where
  "other_servers ld = filter (\<lambda>i. i \<noteq> ld) [0..<5]"

definition nonLeaderFail ::
  "'e list \<Rightarrow> nat \<Rightarrow> nat list \<Rightarrow> bool \<times> nat \<Rightarrow> 'e EvalConfig \<Rightarrow> ev_error + ('e EvalConfig \<times> bool \<times> nat)" where
  "nonLeaderFail names ref servers st cfg =
     (let (updown, fid) = st;
          fid1 = Suc fid;
          st1 = (if fid1 \<ge> 4 then (\<not> updown, 0) else (updown, fid1))
      in if \<not> fid < length servers then Inl EvPanic
         else map_sum id (\<lambda>cfg1. (cfg1, st1))
           (if updown then restart (servers ! fid) names ref cfg else ev_panic (ShutdownServer (servers ! fid) cfg)))"

definition randomFail ::
  "'e list \<Rightarrow> nat \<Rightarrow> nat \<Rightarrow> int \<Rightarrow> 'e EvalConfig \<Rightarrow> ev_error + ('e EvalConfig \<times> int)" where
  "randomFail names ref choice fid cfg =
     (case (if fid \<ge> 0 then restart (nat fid) names ref cfg else Inr cfg) of
        Inl e \<Rightarrow> Inl e
      | Inr cfg1 \<Rightarrow> map_sum id (\<lambda>cfg2. (cfg2, int (choice mod 5))) (ev_panic (ShutdownServer (choice mod 5) cfg1)))"

text \<open>The counter of finished operations: one more per operation, printed and reset each second.\<close>

datatype stat_event = OpDone | StatTimer

fun stastic :: "stat_event list \<Rightarrow> nat \<Rightarrow> nat list \<times> nat" where
  "stastic [] cnt = ([], cnt)"
| "stastic (OpDone # evs) cnt = stastic evs (Suc cnt)"
| "stastic (StatTimer # evs) cnt = (let (stamps, rest) = stastic evs 0 in (cnt # stamps, rest))"

end
