(* ===== verification/Eval_Properties.thy ===== *)
theory Eval_Properties
  imports Eval_Config
begin

text \<open>
  What the harness of the benchmarks keeps: which ends are enabled after connections,
  partitions, shutdowns and restarts, that sessions do not disturb the servers' ends, and
  how many servers the failure drivers stop.
\<close>

section \<open>Connections\<close>

text \<open>The ends between server i and the servers of a list.\<close>

definition between :: "'e EvalConfig \<Rightarrow> nat \<Rightarrow> nat list \<Rightarrow> 'e \<Rightarrow> bool" where
  "between cfg i ts e \<longleftrightarrow> (\<exists>t\<in>set ts. e = cfg_end_name cfg i t \<or> e = cfg_end_name cfg t i)"

lemma connect_loops:
  assumes "laid cfg" "i < cfg_n cfg"
  shows "set to \<subseteq> {..<cfg_n cfg} \<Longrightarrow>
      connect_to cfg i to net = Some (nw_set (\<lambda>e. \<exists>t\<in>set to. e = cfg_end_name cfg i t) True net)"
    and "set to \<subseteq> {..<cfg_n cfg} \<Longrightarrow>
      connect_from cfg i to net = Some (nw_set (\<lambda>e. \<exists>t\<in>set to. e = cfg_end_name cfg t i) True net)"
  using assms laidD(1) [OF assms(1)]
  by (induction to arbitrary: net) (simp_all add: cfg_enable_named nw_set_none nw_set_Enable)

lemma disconnect_loops:
  assumes "laid cfg" "i < cfg_n cfg"
  shows "set from \<subseteq> {..<cfg_n cfg} \<Longrightarrow>
      disconnect_to cfg i from net = Some (nw_set (\<lambda>e. \<exists>t\<in>set from. e = cfg_end_name cfg i t) False net)"
    and "set from \<subseteq> {..<cfg_n cfg} \<Longrightarrow> j + length from \<le> cfg_n cfg \<Longrightarrow>
      disconnect_from cfg i j from net = Some (nw_set (\<lambda>e. \<exists>t\<in>set from. e = cfg_end_name cfg t i) False net)"
proof -
  have some: "cfg_endnames cfg k \<noteq> None" if "k < cfg_n cfg" for k
    using laidD(1) [OF assms(1) that] by (auto simp: named_def)
  show "disconnect_to cfg i from net = Some (nw_set (\<lambda>e. \<exists>t\<in>set from. e = cfg_end_name cfg i t) False net)"
    if "set from \<subseteq> {..<cfg_n cfg}"
    using that assms laidD(1) [OF assms(1)] some [OF assms(2)]
    by (induction "from" arbitrary: net) (simp_all add: cfg_enable_named nw_set_none nw_set_Enable)
  show "disconnect_from cfg i j from net = Some (nw_set (\<lambda>e. \<exists>t\<in>set from. e = cfg_end_name cfg t i) False net)"
    if "set from \<subseteq> {..<cfg_n cfg}" "j + length from \<le> cfg_n cfg"
    using that
  proof (induction "from" arbitrary: net j)
    case (Cons f "from")
    then show ?case
      using assms laidD(1) [OF assms(1), of f] some [of j]
      by (simp add: cfg_enable_named nw_set_none nw_set_Enable)
  qed (simp add: nw_set_none)
qed

lemma connectUnlocked_eq:
  assumes "laid cfg" "i < cfg_n cfg" "set to \<subseteq> {..<cfg_n cfg}"
  shows "connectUnlocked i to cfg = Some (cfg\<lparr>cfg_net := nw_set (between cfg i to) True (cfg_net cfg)\<rparr>)"
proof -
  have "between cfg i to = (\<lambda>e. (\<exists>t\<in>set to. e = cfg_end_name cfg i t) \<or> (\<exists>t\<in>set to. e = cfg_end_name cfg t i))"
    by (auto simp: between_def fun_eq_iff)
  then show ?thesis
    by (simp add: connectUnlocked_def connect_loops [OF assms(1,2,3)] nw_set_twice)
qed

lemma disconnectUnlocked_eq:
  assumes "laid cfg" "i < cfg_n cfg" "set from \<subseteq> {..<cfg_n cfg}" "length from \<le> cfg_n cfg"
  shows "disconnectUnlocked i from cfg = Some (cfg\<lparr>cfg_net := nw_set (between cfg i from) False (cfg_net cfg)\<rparr>)"
proof -
  have "between cfg i from = (\<lambda>e. (\<exists>t\<in>set from. e = cfg_end_name cfg i t) \<or> (\<exists>t\<in>set from. e = cfg_end_name cfg t i))"
    by (auto simp: between_def fun_eq_iff)
  then show ?thesis
    using assms(4)
    by (simp add: disconnectUnlocked_def disconnect_loops [OF assms(1,2,3)] nw_set_twice)
qed

lemma between_end:
  assumes "laid cfg" "k < cfg_n cfg" "set ts \<subseteq> {..<cfg_n cfg}" "i < cfg_n cfg" "j < cfg_n cfg"
  shows "between cfg k ts (cfg_end_name cfg i j) \<longleftrightarrow> i = k \<and> j \<in> set ts \<or> i \<in> set ts \<and> j = k"
  using laidD(2) [OF assms(1)] assms(2-5) by (auto simp: between_def subset_iff)

lemma links_set:
  assumes "laid cfg" "k < cfg_n cfg" "set ts \<subseteq> {..<cfg_n cfg}"
  shows "links (cfg\<lparr>cfg_net := nw_set (between cfg k ts) True (cfg_net cfg)\<rparr>) =
      links cfg \<union> {k} \<times> set ts \<union> set ts \<times> {k}"
    and "links (cfg\<lparr>cfg_net := nw_set (between cfg k ts) False (cfg_net cfg)\<rparr>) =
      links cfg - ({k} \<times> set ts \<union> set ts \<times> {k})"
proof -
  have name: "cfg_end_name (cfg\<lparr>cfg_net := nt\<rparr>) = cfg_end_name cfg" for nt
    by (simp add: cfg_end_name_def fun_eq_iff)
  show "links (cfg\<lparr>cfg_net := nw_set (between cfg k ts) True (cfg_net cfg)\<rparr>) =
      links cfg \<union> {k} \<times> set ts \<union> set ts \<times> {k}"
    using between_end [OF assms] assms(2,3) by (auto simp: links_def name split: if_splits)
  show "links (cfg\<lparr>cfg_net := nw_set (between cfg k ts) False (cfg_net cfg)\<rparr>) =
      links cfg - ({k} \<times> set ts \<union> set ts \<times> {k})"
    using between_end [OF assms] assms(2,3) by (auto simp: links_def name split: if_splits)
qed

lemma laid_net: "laid cfg \<Longrightarrow> laid (cfg\<lparr>cfg_net := net\<rparr>)"
  by (rule laid_cong) simp_all

text \<open>A step of Partition moves one server to its own side.\<close>

lemma separate_links:
  "laid cfg \<Longrightarrow> set own \<subseteq> {..<cfg_n cfg} \<Longrightarrow> set other \<subseteq> {..<cfg_n cfg} \<Longrightarrow> length other \<le> cfg_n cfg \<Longrightarrow>
   set own \<inter> set other = {} \<Longrightarrow> set is \<subseteq> set own \<Longrightarrow>
   \<exists>net. separate own other is cfg = Some (cfg\<lparr>cfg_net := net\<rparr>) \<and>
     links (cfg\<lparr>cfg_net := net\<rparr>) = (links cfg - (set is \<times> set other \<union> set other \<times> set is)) \<union>
       (set is \<times> set own \<union> set own \<times> set is)"
proof (induction "is" arbitrary: cfg)
  case (Cons i "is")
  have i: "i < cfg_n cfg" "i \<in> set own" using Cons.prems by auto
  define c1 where "c1 = cfg\<lparr>cfg_net := nw_set (between cfg i other) False (cfg_net cfg)\<rparr>"
  define c2 where "c2 = c1\<lparr>cfg_net := nw_set (between c1 i own) True (cfg_net c1)\<rparr>"
  have l: "laid c1" "laid c2" "cfg_n c1 = cfg_n cfg" "cfg_n c2 = cfg_n cfg"
    using Cons.prems(1) by (simp_all add: c1_def c2_def laid_net)
  have c1: "disconnectUnlocked i other cfg = Some c1"
    unfolding c1_def by (rule disconnectUnlocked_eq) (use Cons.prems i in auto)
  have c2: "connectUnlocked i own c1 = Some c2"
    unfolding c2_def by (rule connectUnlocked_eq) (use Cons.prems i l in auto)
  have lk: "links c2 = (links cfg - ({i} \<times> set other \<union> set other \<times> {i})) \<union> {i} \<times> set own \<union> set own \<times> {i}"
    unfolding c2_def using links_set(1) [OF l(1), of i own] links_set(2) [OF Cons.prems(1) i(1) Cons.prems(3)]
      Cons.prems(2) i l by (simp add: c1_def)
  obtain net where net: "separate own other is c2 = Some (c2\<lparr>cfg_net := net\<rparr>)"
    "links (c2\<lparr>cfg_net := net\<rparr>) = (links c2 - (set is \<times> set other \<union> set other \<times> set is)) \<union>
       (set is \<times> set own \<union> set own \<times> set is)"
    using Cons.IH [OF l(2)] Cons.prems l(4) by auto
  have "c2\<lparr>cfg_net := net\<rparr> = cfg\<lparr>cfg_net := net\<rparr>" by (simp add: c1_def c2_def)
  moreover have "set own \<inter> set other = {}" by (rule Cons.prems(5))
  ultimately show ?case using c1 c2 net lk i by (intro exI [of _ net]) auto
next
  case Nil
  show ?case by (rule exI [of _ "cfg_net cfg"]) simp
qed

lemma Partition_links:
  assumes "laid cfg" "set p1 \<subseteq> {..<cfg_n cfg}" "set p2 \<subseteq> {..<cfg_n cfg}" "length p1 \<le> cfg_n cfg"
    "length p2 \<le> cfg_n cfg" "set p1 \<inter> set p2 = {}"
  shows "\<exists>net. Partition p1 p2 cfg = Some (cfg\<lparr>cfg_net := net\<rparr>) \<and>
    links (cfg\<lparr>cfg_net := net\<rparr>) = (links cfg - (set p1 \<times> set p2 \<union> set p2 \<times> set p1)) \<union>
      (set p1 \<times> set p1 \<union> set p2 \<times> set p2)"
proof -
  obtain net where n1: "separate p1 p2 p1 cfg = Some (cfg\<lparr>cfg_net := net\<rparr>)"
    "links (cfg\<lparr>cfg_net := net\<rparr>) = (links cfg - (set p1 \<times> set p2 \<union> set p2 \<times> set p1)) \<union> (set p1 \<times> set p1)"
    using separate_links [OF assms(1-3,5,6), of p1] by auto
  obtain net2 where n2: "separate p2 p1 p2 (cfg\<lparr>cfg_net := net\<rparr>) = Some (cfg\<lparr>cfg_net := net2\<rparr>)"
    "links (cfg\<lparr>cfg_net := net2\<rparr>) = (links (cfg\<lparr>cfg_net := net\<rparr>) - (set p2 \<times> set p1 \<union> set p1 \<times> set p2)) \<union>
      (set p2 \<times> set p2)"
    using separate_links [OF laid_net [OF assms(1), of net], of p2 p1 p2] assms(2-6) by auto
  have "links (cfg\<lparr>cfg_net := net2\<rparr>) = (links cfg - (set p1 \<times> set p2 \<union> set p2 \<times> set p1)) \<union>
      (set p1 \<times> set p1 \<union> set p2 \<times> set p2)"
    unfolding n2(2) n1(2) using assms(6) by auto
  then show ?thesis by (intro exI [of _ net2]) (simp add: Partition_def n1(1) n2(1))
qed


section \<open>The state between two operations\<close>

text \<open>
  All servers have names, the servers of a set are down and the others run; a server is
  registered at the network and has its ends enabled when it runs, and only then. The ends
  of different sessions are their own.
\<close>

definition sessions_ok :: "'e EvalConfig \<Rightarrow> bool" where
  "sessions_ok cfg \<longleftrightarrow> (\<forall>s names. ev_sessions cfg s = Some names \<longrightarrow>
     set names \<subseteq> nw_ends (cfg_net cfg) \<and>
     (\<forall>i < cfg_n cfg. \<forall>ends. cfg_endnames cfg i = Some ends \<longrightarrow> set names \<inter> set ends = {}) \<and>
     (\<forall>s' names'. s \<noteq> s' \<longrightarrow> ev_sessions cfg s' = Some names' \<longrightarrow> set names \<inter> set names' = {}))"

definition up_except :: "nat set \<Rightarrow> 'e EvalConfig \<Rightarrow> bool" where
  "up_except down cfg \<longleftrightarrow> ends_ok cfg \<and> (\<forall>i < cfg_n cfg. cfg_endnames cfg i \<noteq> None) \<and>
     srvs_fit (ev_servers cfg) \<and> srvs_slots (ev_servers cfg) = map (\<lambda>i. i \<notin> down) [0..<cfg_n cfg] \<and>
     (\<forall>i < cfg_n cfg. nw_servers (cfg_net cfg) i = None \<longleftrightarrow> i \<in> down) \<and>
     links cfg = ({..<cfg_n cfg} - down) \<times> ({..<cfg_n cfg} - down) \<and> sessions_ok cfg"

lemma up_exceptD:
  assumes "up_except down cfg"
  shows "ends_ok cfg" "laid cfg" "srvs_fit (ev_servers cfg)" "length (srvs_slots (ev_servers cfg)) = cfg_n cfg"
    "srvs_slots (ev_servers cfg) = map (\<lambda>i. i \<notin> down) [0..<cfg_n cfg]"
    "i < cfg_n cfg \<Longrightarrow> nw_servers (cfg_net cfg) i = None \<longleftrightarrow> i \<in> down"
    "links cfg = ({..<cfg_n cfg} - down) \<times> ({..<cfg_n cfg} - down)" "sessions_ok cfg"
    "i < cfg_n cfg \<Longrightarrow> cfg_endnames cfg i \<noteq> None"
  using assms ends_ok_laid [of cfg] by (simp_all add: up_except_def)

lemma sessions_ok_cong:
  assumes "sessions_ok cfg" "cfg_n cfg' = cfg_n cfg" "cfg_endnames cfg' = cfg_endnames cfg"
    "ev_sessions cfg' = ev_sessions cfg" "nw_ends (cfg_net cfg') = nw_ends (cfg_net cfg)"
  shows "sessions_ok cfg'"
  using assms(1) unfolding sessions_ok_def assms(2-5) .

lemma map_not_insert: "k < n \<Longrightarrow> (map (\<lambda>i. i \<notin> down) [0..<n])[k := False] = map (\<lambda>i. i \<notin> insert k down) [0..<n]"
  by (rule nth_equalityI) (auto simp: nth_list_update)

lemma map_not_remove: "k < n \<Longrightarrow> (map (\<lambda>i. i \<notin> down) [0..<n])[k := True] = map (\<lambda>i. i \<notin> down - {k}) [0..<n]"
  by (rule nth_equalityI) (auto simp: nth_list_update)

text \<open>Shutting a server down never panics; it stops that server and isolates it.\<close>

lemma ShutdownServer_up:
  assumes up: "up_except down cfg" and k: "k < cfg_n cfg"
  obtains cfg' where "ShutdownServer k cfg = Some cfg'" "up_except (insert k down) cfg'" "cfg_n cfg' = cfg_n cfg"
    "nw_ends (cfg_net cfg') = nw_ends (cfg_net cfg)"
proof -
  note u = up_exceptD [OF up]
  let ?c = "cfg\<lparr>cfg_net := nw_set (between cfg k [0..<cfg_n cfg]) False (cfg_net cfg)\<rparr>"
  have c: "disconnectUnlocked k (ev_All cfg) cfg = Some ?c"
    unfolding ev_All_def by (rule disconnectUnlocked_eq [OF u(2) k]) (auto simp: subset_iff)
  obtain g where g: "srvs_Shutdown (int k) (ev_servers cfg) = Some g" "srvs_fit g"
    "srvs_slots g = (srvs_slots (ev_servers cfg))[k := False]"
    using srvs.shutdown_fit [OF u(3), of k] u(4) k by auto
  let ?d = "?c\<lparr>cfg_net := DeleteServer k (cfg_net ?c), ev_servers := g\<rparr>"
  have "links ?c = links cfg - ({k} \<times> {..<cfg_n cfg} \<union> {..<cfg_n cfg} \<times> {k})"
    using links_set(2) [OF u(2) k, of "[0..<cfg_n cfg]"] by (simp add: subset_iff atLeast0LessThan)
  moreover have "links ?d = links ?c" by (simp add: links_def DeleteServer_def cfg_end_name_def)
  ultimately have "links ?d = ({..<cfg_n cfg} - insert k down) \<times> ({..<cfg_n cfg} - insert k down)"
    using u(7) by auto
  moreover have "ends_ok ?d" by (rule ends_ok_cong [OF u(1)]) (simp_all add: DeleteServer_def)
  moreover have "sessions_ok ?d" by (rule sessions_ok_cong [OF u(8)]) (simp_all add: DeleteServer_def)
  moreover have "srvs_slots g = map (\<lambda>i. i \<notin> insert k down) [0..<cfg_n cfg]"
    unfolding g(3) u(5) by (rule map_not_insert [OF k])
  ultimately have "up_except (insert k down) ?d"
    using g(2) u(6,9) by (simp add: up_except_def DeleteServer_def)
  moreover have "ShutdownServer k cfg = Some ?d" using c g(1) by (simp add: ShutdownServer_def)
  ultimately show thesis by (intro that [of ?d]) (simp_all add: DeleteServer_def)
qed

text \<open>Starting a server and connecting it to all; new names never fail.\<close>

lemma make_ends_fresh:
  "distinct names \<Longrightarrow> set names \<inter> nw_ends net = {} \<Longrightarrow> \<exists>net'. make_ends names j net = Inr net'"
proof (induction names arbitrary: j net)
  case (Cons name names)
  then show ?case by (auto simp: MakeEnd_def Connect_def intro!: Cons.IH)
qed simp

lemma make_ends_servers: "make_ends names j net = Inr net' \<Longrightarrow> nw_servers net' = nw_servers net"
  by (induction names arbitrary: j net) (auto simp: MakeEnd_def Connect_def split: sum.splits if_splits)

lemma sessions_ok_new_ends:
  assumes "sessions_ok cfg" "make_ends names 0 (cfg_net cfg) = Inr net"
    and "cfg_n cfg' = cfg_n cfg" "cfg_endnames cfg' = (cfg_endnames cfg)(k \<mapsto> names)"
      "ev_sessions cfg' = ev_sessions cfg" "nw_ends (cfg_net cfg') = nw_ends net"
  shows "sessions_ok cfg'"
proof -
  have m: "set names \<inter> nw_ends (cfg_net cfg) = {}" "nw_ends net = nw_ends (cfg_net cfg) \<union> set names"
    using make_ends_spec [OF assms(2)] by auto
  show ?thesis
    using assms(1) m unfolding sessions_ok_def assms(3-6) by (fastforce split: if_splits)
qed

lemma StartServer_ends:
  assumes ok: "ends_ok cfg" "sessions_ok cfg" and g: "srvs_fit (ev_servers cfg)"
      "length (srvs_slots (ev_servers cfg)) = cfg_n cfg"
    and k: "k < cfg_n cfg" and len: "length names = cfg_n cfg"
    and start: "StartServer k names ref cfg = Inr (cfg', tasks)"
  shows "ends_ok cfg'" "sessions_ok cfg'" "srvs_fit (ev_servers cfg')" "cfg_n cfg' = cfg_n cfg"
    "srvs_slots (ev_servers cfg') = (srvs_slots (ev_servers cfg))[k := True]"
    "cfg_endnames cfg' = (cfg_endnames cfg)(k \<mapsto> names)"
    "nw_servers (cfg_net cfg') = (nw_servers (cfg_net cfg))(k \<mapsto> ref)"
    "i < cfg_n cfg \<Longrightarrow> j < cfg_n cfg \<Longrightarrow> cfg_endnames cfg' i \<noteq> None \<Longrightarrow>
      nw_enabled (cfg_net cfg') (cfg_end_name cfg' i j) \<longleftrightarrow> i \<noteq> k \<and> nw_enabled (cfg_net cfg) (cfg_end_name cfg i j)"
proof -
  obtain g' t where g': "srvs_Start (cfg_n cfg) (int k) (ev_durable cfg) (ev_servers cfg) = Some (g', t)"
    "srvs_fit g'" "srvs_slots g' = (srvs_slots (ev_servers cfg))[k := True]"
    using srvs.start_fit [OF g(1), of k "ev_durable cfg"] k g(2) by auto
  obtain net where net: "make_ends names 0 (cfg_net cfg) = Inr net"
    "cfg' = cfg\<lparr>cfg_net := AddServer k ref net, cfg_endnames := (cfg_endnames cfg)(k \<mapsto> names), ev_servers := g'\<rparr>"
    using start k g'(1) by (auto simp: StartServer_def split: sum.splits)
  let ?c = "cfg\<lparr>cfg_net := net, cfg_endnames := (cfg_endnames cfg)(k \<mapsto> names)\<rparr>"
  note new = new_ends_ok [OF ok(1) k len net(1), of ?c, simplified]
  show "ends_ok cfg'" by (rule ends_ok_cong [OF new(1)]) (simp_all add: net(2) AddServer_def)
  show "sessions_ok cfg'" by (rule sessions_ok_new_ends [OF ok(2) net(1)]) (simp_all add: net(2) AddServer_def)
  show "srvs_fit (ev_servers cfg')" "srvs_slots (ev_servers cfg') = (srvs_slots (ev_servers cfg))[k := True]"
    "cfg_n cfg' = cfg_n cfg" "cfg_endnames cfg' = (cfg_endnames cfg)(k \<mapsto> names)"
    "nw_servers (cfg_net cfg') = (nw_servers (cfg_net cfg))(k \<mapsto> ref)"
    using g' by (simp_all add: net(2) AddServer_def make_ends_servers [OF net(1)])
  show "nw_enabled (cfg_net cfg') (cfg_end_name cfg' i j) \<longleftrightarrow> i \<noteq> k \<and> nw_enabled (cfg_net cfg) (cfg_end_name cfg i j)"
    if "i < cfg_n cfg" "j < cfg_n cfg" "cfg_endnames cfg' i \<noteq> None"
    using new(2) [of i j] that by (simp add: net(2) AddServer_def cfg_end_name_def)
qed

lemma StartServer_fresh:
  assumes "srvs_fit (ev_servers cfg)" "length (srvs_slots (ev_servers cfg)) = cfg_n cfg" "k < cfg_n cfg"
    "distinct names" "set names \<inter> nw_ends (cfg_net cfg) = {}"
  shows "\<exists>cfg' tasks. StartServer k names ref cfg = Inr (cfg', tasks)"
proof -
  obtain net where "make_ends names 0 (cfg_net cfg) = Inr net" using make_ends_fresh [OF assms(4,5)] by blast
  moreover obtain g t where "srvs_Start (cfg_n cfg) (int k) (ev_durable cfg) (ev_servers cfg) = Some (g, t)"
    using srvs.start_fit [OF assms(1), of k "ev_durable cfg"] assms(2,3) by auto
  ultimately show ?thesis using assms(3) by (simp add: StartServer_def)
qed

lemma restart_links:
  assumes up: "up_except down cfg" and k: "k < cfg_n cfg" and len: "length names = cfg_n cfg"
    and run: "restart k names ref cfg = Inr cfg'"
  shows "cfg_n cfg' = cfg_n cfg" "ends_ok cfg'" "sessions_ok cfg'" "srvs_fit (ev_servers cfg')"
    "srvs_slots (ev_servers cfg') = map (\<lambda>i. i \<notin> down - {k}) [0..<cfg_n cfg]"
    "i < cfg_n cfg \<Longrightarrow> cfg_endnames cfg' i \<noteq> None"
    "i < cfg_n cfg \<Longrightarrow> nw_servers (cfg_net cfg') i = None \<longleftrightarrow> i \<in> down - {k}"
    "links cfg' = ({..<cfg_n cfg} - down) \<times> ({..<cfg_n cfg} - down) \<union> {k} \<times> {..<cfg_n cfg} \<union> {..<cfg_n cfg} \<times> {k}"
proof -
  note u = up_exceptD [OF up]
  obtain c tasks where c: "StartServer k names ref cfg = Inr (c, tasks)" "ev_panic (ev_Connect k (ev_All c) c) = Inr cfg'"
    using run by (auto simp: restart_def split: sum.splits)
  note s = StartServer_ends [OF u(1,8,3,4) k len c(1)]
  have all: "cfg_endnames c i \<noteq> None" if "i < cfg_n cfg" for i using u(9) that s(6) by simp
  then have l: "laid c" using ends_ok_laid [OF s(1)] s(4) by simp
  let ?c = "c\<lparr>cfg_net := nw_set (between c k [0..<cfg_n c]) True (cfg_net c)\<rparr>"
  have "connectUnlocked k (ev_All c) c = Some ?c"
    unfolding ev_All_def by (rule connectUnlocked_eq [OF l]) (use k s(4) in \<open>auto simp: subset_iff\<close>)
  then have cfg': "cfg' = ?c" using c(2) by (simp add: ev_Connect_def ev_panic_def)
  have "links c = {(i, j). (i, j) \<in> links cfg \<and> i \<noteq> k}"
    using s(8) all s(4) by (auto simp: links_def)
  moreover have "links ?c = links c \<union> {k} \<times> {..<cfg_n cfg} \<union> {..<cfg_n cfg} \<times> {k}"
    using links_set(1) [OF l, of k "[0..<cfg_n c]"] k s(4) by (simp add: subset_iff atLeast0LessThan)
  ultimately show "links cfg' =
      ({..<cfg_n cfg} - down) \<times> ({..<cfg_n cfg} - down) \<union> {k} \<times> {..<cfg_n cfg} \<union> {..<cfg_n cfg} \<times> {k}"
    unfolding cfg' using u(7) k by auto
  show "ends_ok cfg'" unfolding cfg' by (rule ends_ok_cong [OF s(1)]) simp_all
  show "sessions_ok cfg'" unfolding cfg' by (rule sessions_ok_cong [OF s(2)]) simp_all
  show "srvs_slots (ev_servers cfg') = map (\<lambda>i. i \<notin> down - {k}) [0..<cfg_n cfg]"
    using s(5) unfolding cfg' u(5) map_not_remove [OF k] by simp
  show "cfg_n cfg' = cfg_n cfg" "srvs_fit (ev_servers cfg')" using s(3,4) by (simp_all add: cfg')
  show "i < cfg_n cfg \<Longrightarrow> cfg_endnames cfg' i \<noteq> None" using all by (simp add: cfg')
  show "i < cfg_n cfg \<Longrightarrow> nw_servers (cfg_net cfg') i = None \<longleftrightarrow> i \<in> down - {k}"
    using u(6) by (auto simp: cfg' s(7))
qed

lemma restart_up:
  assumes up: "up_except down cfg" and down: "down \<subseteq> {k}" and k: "k < cfg_n cfg" and len: "length names = cfg_n cfg"
    and run: "restart k names ref cfg = Inr cfg'"
  shows "up_except {} cfg' \<and> cfg_n cfg' = cfg_n cfg"
proof -
  note r = restart_links [OF up k len run]
  have "links cfg' = {..<cfg_n cfg} \<times> {..<cfg_n cfg}" unfolding r(8) using down k by auto
  moreover have none: "down - {k} = {}" using down by auto
  ultimately show ?thesis using r(1-7) unfolding none by (simp add: up_except_def)
qed

text \<open>
  Connecting the restarted server to all others also enables the ends of the servers that are
  still down, in both directions: they are no longer isolated.
\<close>

lemma restart_reconnects_stopped:
  assumes "up_except down cfg" "k < cfg_n cfg" "length names = cfg_n cfg" "restart k names ref cfg = Inr cfg'"
    and "i \<in> down" "i < cfg_n cfg" "i \<noteq> k"
  shows "\<not> srvs_slots (ev_servers cfg') ! i \<and> nw_servers (cfg_net cfg') i = None \<and> {(i, k), (k, i)} \<subseteq> links cfg'"
  using restart_links(5,7,8) [OF assms(1-4)] assms(2,5-7) by auto

lemma restart_fresh:
  assumes up: "up_except down cfg" and k: "k < cfg_n cfg" and len: "length names = cfg_n cfg"
    and fresh: "distinct names" "set names \<inter> nw_ends (cfg_net cfg) = {}"
  shows "\<exists>cfg'. restart k names ref cfg = Inr cfg'"
proof -
  note u = up_exceptD [OF up]
  obtain c tasks where c: "StartServer k names ref cfg = Inr (c, tasks)"
    using StartServer_fresh [OF u(3,4) k fresh] by blast
  note s = StartServer_ends [OF u(1,8,3,4) k len c]
  have "laid c" using ends_ok_laid [OF s(1)] s(4,6) u(9) by simp
  then have "connectUnlocked k (ev_All c) c = Some (c\<lparr>cfg_net := nw_set (between c k [0..<cfg_n c]) True (cfg_net c)\<rparr>)"
    unfolding ev_All_def by (rule connectUnlocked_eq) (use k s(4) in \<open>auto simp: subset_iff\<close>)
  then show ?thesis using c by (simp add: restart_def ev_Connect_def ev_panic_def)
qed

section \<open>Setting the group up\<close>

text \<open>The servers of a set are started, and no end is enabled yet.\<close>

definition started :: "nat set \<Rightarrow> 'e EvalConfig \<Rightarrow> bool" where
  "started S cfg \<longleftrightarrow> ends_ok cfg \<and> sessions_ok cfg \<and> srvs_fit (ev_servers cfg) \<and>
     length (srvs_slots (ev_servers cfg)) = cfg_n cfg \<and>
     (\<forall>i < cfg_n cfg. (srvs_slots (ev_servers cfg) ! i \<longleftrightarrow> i \<in> S) \<and> (cfg_endnames cfg i = None \<longleftrightarrow> i \<notin> S) \<and>
        (nw_servers (cfg_net cfg) i = None \<longleftrightarrow> i \<notin> S) \<and>
        (\<forall>j < cfg_n cfg. i \<in> S \<longrightarrow> \<not> nw_enabled (cfg_net cfg) (cfg_end_name cfg i j)))"

lemma StartServer_started:
  assumes st: "started S cfg" and k: "k < cfg_n cfg" "length names = cfg_n cfg"
    and run: "StartServer k names ref cfg = Inr (cfg', tasks)"
  shows "started (insert k S) cfg' \<and> cfg_n cfg' = cfg_n cfg"
proof -
  have pre: "ends_ok cfg" "sessions_ok cfg" "srvs_fit (ev_servers cfg)"
    "length (srvs_slots (ev_servers cfg)) = cfg_n cfg" using st by (simp_all add: started_def)
  note s = StartServer_ends [OF pre k run]
  have "\<not> nw_enabled (cfg_net cfg') (cfg_end_name cfg' i j)" if "i < cfg_n cfg" "j < cfg_n cfg" "i \<in> insert k S" for i j
  proof -
    have "cfg_endnames cfg' i \<noteq> None" "i \<in> S \<Longrightarrow> \<not> nw_enabled (cfg_net cfg) (cfg_end_name cfg i j)"
      using st that s(6) by (auto simp: started_def)
    then show ?thesis using s(8) [of i j] that by auto
  qed
  then show ?thesis
    using s(1-7) pre(4) st by (auto simp: started_def nth_list_update k(1))
qed

lemma start_each_started:
  "started S cfg \<Longrightarrow> set is \<subseteq> {..<cfg_n cfg} \<Longrightarrow> (\<forall>i\<in>set is. length (names i) = cfg_n cfg) \<Longrightarrow>
   start_each names refs is cfg = Inr cfg' \<Longrightarrow> started (S \<union> set is) cfg' \<and> cfg_n cfg' = cfg_n cfg"
proof (induction "is" arbitrary: S cfg)
  case (Cons i "is")
  obtain c tasks where c: "StartServer i (names i) (refs i) cfg = Inr (c, tasks)" "start_each names refs is c = Inr cfg'"
    using Cons.prems(4) by (auto split: sum.splits)
  then have "started (insert i S) c" "cfg_n c = cfg_n cfg"
    using StartServer_started [OF Cons.prems(1) _ _ c(1)] Cons.prems(2,3) by auto
  then show ?case using Cons.IH [of "insert i S" c] c(2) Cons.prems(2,3) by auto
qed simp

lemma connect_each_links:
  "laid cfg \<Longrightarrow> set is \<subseteq> {..<cfg_n cfg} \<Longrightarrow>
   \<exists>net. connect_each is cfg = Some (cfg\<lparr>cfg_net := net\<rparr>) \<and> nw_ends net = nw_ends (cfg_net cfg) \<and>
     nw_connections net = nw_connections (cfg_net cfg) \<and> nw_servers net = nw_servers (cfg_net cfg) \<and>
     links (cfg\<lparr>cfg_net := net\<rparr>) = links cfg \<union> set is \<times> {..<cfg_n cfg} \<union> {..<cfg_n cfg} \<times> set is"
proof (induction "is" arbitrary: cfg)
  case Nil
  show ?case by (rule exI [of _ "cfg_net cfg"]) simp
next
  case (Cons i "is")
  let ?c = "cfg\<lparr>cfg_net := nw_set (between cfg i [0..<cfg_n cfg]) True (cfg_net cfg)\<rparr>"
  have i: "i < cfg_n cfg" using Cons.prems(2) by simp
  have c: "connectUnlocked i (ev_All cfg) cfg = Some ?c"
    unfolding ev_All_def by (rule connectUnlocked_eq [OF Cons.prems(1) i]) (simp add: subset_iff)
  have lk: "links ?c = links cfg \<union> {i} \<times> {..<cfg_n cfg} \<union> {..<cfg_n cfg} \<times> {i}"
    using links_set(1) [OF Cons.prems(1) i, of "[0..<cfg_n cfg]"] by (simp add: subset_iff atLeast0LessThan)
  obtain net where net: "connect_each is ?c = Some (?c\<lparr>cfg_net := net\<rparr>)" "nw_ends net = nw_ends (cfg_net ?c)"
    "nw_connections net = nw_connections (cfg_net ?c)" "nw_servers net = nw_servers (cfg_net ?c)"
    "links (?c\<lparr>cfg_net := net\<rparr>) = links ?c \<union> set is \<times> {..<cfg_n cfg} \<union> {..<cfg_n cfg} \<times> set is"
    using Cons.IH [of ?c] laid_net [OF Cons.prems(1)] Cons.prems(2) by auto
  have "links (cfg\<lparr>cfg_net := net\<rparr>) = links cfg \<union> set (i # is) \<times> {..<cfg_n cfg} \<union> {..<cfg_n cfg} \<times> set (i # is)"
    using net(5) lk by auto
  then show ?case using c net by (intro exI [of _ net]) simp
qed

lemma new_started: "0 < n \<Longrightarrow> started {} (new_EvalConfig n durable protocol)"
  by (auto simp: started_def new_EvalConfig_def ends_ok_def sessions_ok_def makeServers_def MakeRaftServers_def
      MakePaxosServers_def rss_fit_def pss_fit_def rss_slots_def pss_slots_def MakeNetwork_def)

lemma MakeConfig_up:
  assumes run: "MakeConfig names refs n unreliable longdelay durable protocol = Inr cfg"
    and n: "0 < n" "\<forall>i<n. length (names i) = n"
  shows "up_except {} cfg \<and> cfg_n cfg = n"
proof -
  obtain c where c: "start_each names refs [0..<n] (new_EvalConfig n durable protocol) = Inr c"
    "map_sum id (SetNetwork unreliable longdelay) (ev_panic (ConnectAll c)) = Inr cfg"
    using run by (auto simp: MakeConfig_def split: sum.splits)
  have s: "started {..<n} c" "cfg_n c = n"
    using start_each_started [OF new_started [OF n(1)] _ _ c(1)] n(2)
    by (auto simp: new_EvalConfig_def subset_iff atLeast0LessThan)
  have l: "laid c" by (rule ends_ok_laid) (use s in \<open>auto simp: started_def\<close>)
  obtain net where net: "ConnectAll c = Some (c\<lparr>cfg_net := net\<rparr>)" "nw_ends net = nw_ends (cfg_net c)"
    "nw_connections net = nw_connections (cfg_net c)" "nw_servers net = nw_servers (cfg_net c)"
    "links (c\<lparr>cfg_net := net\<rparr>) = links c \<union> {..<n} \<times> {..<n}"
    using connect_each_links [OF l, of "[0..<n]"] s(2) by (auto simp: ConnectAll_def subset_iff atLeast0LessThan)
  have cfg: "cfg = SetNetwork unreliable longdelay (c\<lparr>cfg_net := net\<rparr>)" using c(2) net(1) by (simp add: ev_panic_def)
  have "links cfg = links (c\<lparr>cfg_net := net\<rparr>)"
    by (simp add: cfg SetNetwork_def links_def cfg_end_name_def nw_LongReordering_def nw_LongDelays_def nw_Reliable_def)
  then have "links cfg = {..<n} \<times> {..<n}" using net(5) s(2) by (auto simp: links_def)
  moreover have "ends_ok c" "sessions_ok c" using s(1) by (simp_all add: started_def)
  then have "ends_ok cfg" "sessions_ok cfg"
    by (rule_tac [!] ends_ok_cong sessions_ok_cong,
        simp_all add: net(2,3) cfg SetNetwork_def nw_LongReordering_def nw_LongDelays_def nw_Reliable_def)
  moreover have "srvs_slots (ev_servers cfg) = map (\<lambda>i. i \<notin> {}) [0..<n]"
    using s by (intro nth_equalityI) (auto simp: started_def cfg SetNetwork_def)
  ultimately show ?thesis
    using s net(4) by (auto simp: up_except_def started_def cfg SetNetwork_def nw_LongReordering_def
        nw_LongDelays_def nw_Reliable_def)
qed

section \<open>Sessions\<close>

text \<open>What happens at the ends of sessions does not concern the servers.\<close>

lemma up_except_net:
  assumes up: "up_except down cfg"
    and same: "cfg_n cfg' = cfg_n cfg" "cfg_endnames cfg' = cfg_endnames cfg" "ev_servers cfg' = ev_servers cfg"
      "nw_servers (cfg_net cfg') = nw_servers (cfg_net cfg)"
    and ends: "\<And>i ends e. i < cfg_n cfg \<Longrightarrow> cfg_endnames cfg i = Some ends \<Longrightarrow> e \<in> set ends \<Longrightarrow>
      e \<in> nw_ends (cfg_net cfg') \<and> nw_enabled (cfg_net cfg') e = nw_enabled (cfg_net cfg) e \<and>
      nw_connections (cfg_net cfg') e = nw_connections (cfg_net cfg) e"
    and sess: "sessions_ok cfg'"
  shows "up_except down cfg'"
proof -
  note u = up_exceptD [OF up]
  have name: "cfg_end_name cfg' = cfg_end_name cfg" by (simp add: cfg_end_name_def same fun_eq_iff)
  have row: "cfg_end_name cfg i j \<in> set (the (cfg_endnames cfg i))" "cfg_endnames cfg i = Some (the (cfg_endnames cfg i))"
    if "i < cfg_n cfg" "j < cfg_n cfg" for i j
    using ends_okD(1) [OF u(1), of i] u(9) that by (auto simp: named_def cfg_end_name_def)
  have "links cfg' = links cfg"
    using ends [OF _ row(2) row(1)] by (auto simp: links_def same(1) name)
  moreover have "ends_ok cfg'"
    unfolding ends_ok_def same(1,2) name
  proof (intro conjI allI impI)
    fix i names assume i: "i < cfg_n cfg" "cfg_endnames cfg i = Some names"
    show "length names = cfg_n cfg" using ends_okD(1) [OF u(1), of i] i by (auto simp: named_def)
    show "set names \<subseteq> nw_ends (cfg_net cfg')" using ends [OF i] by blast
  next
    fix i i' j j'
    assume a: "i < cfg_n cfg \<and> i' < cfg_n cfg \<and> j < cfg_n cfg \<and> j' < cfg_n cfg \<and> cfg_endnames cfg i \<noteq> None \<and>
      cfg_endnames cfg i' \<noteq> None \<and> cfg_end_name cfg i j = cfg_end_name cfg i' j'"
    then show "i = i'" "j = j'" using ends_okD(3) [OF u(1), of i i' j j'] by blast+
  next
    fix i j assume ij: "i < cfg_n cfg" "j < cfg_n cfg" "cfg_endnames cfg i \<noteq> None"
    show "nw_connections (cfg_net cfg') (cfg_end_name cfg i j) = Some j"
      using ends [OF ij(1) row(2) [OF ij(1,2)] row(1) [OF ij(1,2)]] ends_okD(4) [OF u(1) ij] by simp
  qed
  ultimately show ?thesis using u sess by (simp add: up_except_def same)
qed

lemma enable_session_eq:
  "enable_session names to yes net = Some net' \<Longrightarrow>
   \<exists>hit. net' = nw_set hit yes net \<and> (\<forall>e. hit e \<longrightarrow> e \<in> set names)"
proof (induction to arbitrary: net)
  case Nil
  then show ?case by (intro exI [of _ "\<lambda>_. False"]) (simp add: nw_set_none)
next
  case (Cons t to)
  then have t: "t < length names" "enable_session names to yes (Enable (names ! t) yes net) = Some net'"
    by (auto split: if_splits)
  then obtain hit where "net' = nw_set hit yes (Enable (names ! t) yes net)" "\<forall>e. hit e \<longrightarrow> e \<in> set names"
    using Cons.IH by blast
  then show ?case
    using t(1) by (intro exI [of _ "\<lambda>x. x = names ! t \<or> hit x"]) (auto simp: nw_set_Enable)
qed

lemma sessions_okD:
  assumes "sessions_ok cfg"
  shows "i < cfg_n cfg \<Longrightarrow> cfg_endnames cfg i = Some ends \<Longrightarrow> set (session_names s cfg) \<inter> set ends = {}"
    and "ev_sessions cfg s' = Some names \<Longrightarrow> s' \<noteq> s \<Longrightarrow> set names \<inter> set (session_names s cfg) = {}"
  using assms unfolding sessions_ok_def session_names_def by (cases "ev_sessions cfg s"; simp; blast)+

lemma session_enable_up:
  assumes up: "up_except down cfg" and run: "enable_session (session_names s cfg) to yes (cfg_net cfg) = Some net"
  shows "up_except down (cfg\<lparr>cfg_net := net\<rparr>)"
proof -
  obtain hit where hit: "net = nw_set hit yes (cfg_net cfg)" "\<forall>e. hit e \<longrightarrow> e \<in> set (session_names s cfg)"
    using enable_session_eq [OF run] by blast
  have "\<not> hit e" if "i < cfg_n cfg" "cfg_endnames cfg i = Some ends" "e \<in> set ends" for i ends e
  proof -
    have "e \<notin> set (session_names s cfg)"
      using sessions_okD(1) [OF up_exceptD(8) [OF up] that(1,2), of s] that(3) by blast
    then show ?thesis using hit(2) by blast
  qed
  moreover have "e \<in> nw_ends (cfg_net cfg)" if "i < cfg_n cfg" "cfg_endnames cfg i = Some ends" "e \<in> set ends" for i ends e
    using ends_okD(2) [OF up_exceptD(1) [OF up] that(1,2)] that(3) by blast
  moreover have "sessions_ok (cfg\<lparr>cfg_net := net\<rparr>)"
    by (rule sessions_ok_cong [OF up_exceptD(8) [OF up]]) (simp_all add: hit(1))
  ultimately show ?thesis by (intro up_except_net [OF up]) (auto simp: hit(1))
qed

lemma MakeSession_up:
  assumes up: "up_except down cfg" and run: "MakeSession names ref to aid cfg = Inr (cfg', sess, aid')"
  shows "up_except down cfg' \<and> cfg_n cfg' = cfg_n cfg"
proof -
  obtain net where net: "make_ends names 0 (cfg_net cfg) = Inr net"
    "connectSessionUnlocked ref to (cfg\<lparr>cfg_net := net, ev_sessions := (ev_sessions cfg)(ref \<mapsto> names)\<rparr>) = Some cfg'"
    using run by (auto simp: MakeSession_def Let_def split: sum.splits option.splits prod.splits)
  let ?c = "cfg\<lparr>cfg_net := net, ev_sessions := (ev_sessions cfg)(ref \<mapsto> names)\<rparr>"
  have m: "set names \<inter> nw_ends (cfg_net cfg) = {}" "nw_ends net = nw_ends (cfg_net cfg) \<union> set names"
    "\<forall>e. nw_enabled net e \<longleftrightarrow> e \<notin> set names \<and> nw_enabled (cfg_net cfg) e"
    "\<forall>e. e \<notin> set names \<longrightarrow> nw_connections net e = nw_connections (cfg_net cfg) e"
    using make_ends_spec [OF net(1)] by auto
  have old: "e \<in> nw_ends (cfg_net cfg)" "e \<notin> set names"
    if "i < cfg_n cfg" "cfg_endnames cfg i = Some ends" "e \<in> set ends" for i ends e
    using ends_okD(2) [OF up_exceptD(1) [OF up] that(1,2)] that(3) m(1) by blast+
  have "sessions_ok ?c"
    using up_exceptD(8) [OF up] m(1,2) old unfolding sessions_ok_def by (simp add: disjoint_iff subset_iff) blast
  then have "up_except down ?c"
    using old m by (intro up_except_net [OF up]) (auto simp: make_ends_servers [OF net(1)])
  then show ?thesis
    using session_enable_up [of down ?c ref to True] net(2) by (auto simp: connectSessionUnlocked_def)
qed

lemma delete_ends_spec:
  "delete_ends names net = Inr net' \<Longrightarrow> nw_ends net' = nw_ends net - set names \<and> nw_servers net' = nw_servers net \<and>
   (\<forall>e. e \<notin> set names \<longrightarrow> nw_enabled net' e = nw_enabled net e \<and> nw_connections net' e = nw_connections net e)"
proof (induction names arbitrary: net)
  case (Cons name names)
  then obtain net1 where "DeleteEnd name net = Inr net1" "delete_ends names net1 = Inr net'" by (auto split: sum.splits)
  then show ?case using Cons.IH [of net1] by (auto simp: DeleteEnd_def split: if_splits)
qed simp

lemma DeleteSession_up:
  assumes up: "up_except down cfg" and run: "DeleteSession s cfg = Inr cfg'"
  shows "up_except down cfg' \<and> cfg_n cfg' = cfg_n cfg"
proof -
  obtain net where net: "delete_ends (session_names s cfg) (cfg_net cfg) = Inr net"
    "cfg' = cfg\<lparr>cfg_net := net, ev_sessions := (ev_sessions cfg)(s := None)\<rparr>"
    using run by (auto simp: DeleteSession_def split: sum.splits)
  note d = delete_ends_spec [OF net(1)] and ok = up_exceptD(8) [OF up]
  have other: "e \<in> nw_ends (cfg_net cfg) \<and> e \<notin> set (session_names s cfg)"
    if "i < cfg_n cfg" "cfg_endnames cfg i = Some ends" "e \<in> set ends" for i ends e
    using ends_okD(2) [OF up_exceptD(1) [OF up] that(1,2)] that(3) sessions_okD(1) [OF ok that(1,2), of s] by blast
  have "set names \<inter> set (session_names s cfg) = {}" if "ev_sessions cfg s' = Some names" "s' \<noteq> s" for s' names
    using sessions_okD(2) [OF ok that] .
  then have "sessions_ok cfg'"
    using ok d unfolding sessions_ok_def net(2) by (simp add: disjoint_iff subset_iff)
  then show ?thesis
    using other d by (intro conjI up_except_net [OF up]) (auto simp: net(2))
qed

section \<open>Failure drivers\<close>

text \<open>A group in which all servers run.\<close>

definition running :: "nat \<Rightarrow> Servers \<Rightarrow> bool" where
  "running n g \<longleftrightarrow> srvs_fit g \<and> srvs_slots g = replicate n True"

lemma up_except_servers:
  "up_except down cfg \<Longrightarrow> srvs_fit g \<Longrightarrow> srvs_slots g = srvs_slots (ev_servers cfg) \<Longrightarrow>
   up_except down (cfg\<lparr>ev_servers := g\<rparr>)"
  by (auto simp: up_except_def links_def cfg_end_name_def
      intro!: ends_ok_cong [of cfg "cfg\<lparr>ev_servers := g\<rparr>"] sessions_ok_cong [of cfg "cfg\<lparr>ev_servers := g\<rparr>"])

lemma up_running: "up_except {} cfg \<Longrightarrow> srvs_slots (ev_servers cfg) = replicate (cfg_n cfg) True"
  by (simp add: up_except_def map_replicate_const)

lemma ev_Leader_up:
  "up_except {} cfg \<Longrightarrow> list_all (running (cfg_n cfg)) looks \<Longrightarrow> ev_Leader looks cfg = Some (cfg', ld) \<Longrightarrow>
   up_except {} cfg' \<and> cfg_n cfg' = cfg_n cfg \<and> ld < cfg_n cfg \<and> cfg_net cfg' = cfg_net cfg"
proof (induction looks arbitrary: cfg)
  case (Cons g looks)
  have g: "srvs_fit g" "srvs_slots g = replicate (cfg_n cfg) True" using Cons.prems(2) by (simp_all add: running_def)
  have up: "up_except {} (cfg\<lparr>ev_servers := g\<rparr>)"
    by (rule up_except_servers [OF Cons.prems(1) g(1)]) (simp add: g(2) up_running [OF Cons.prems(1)])
  show ?case
  proof (cases "srvs_Leader g < 0")
    case True
    with Cons.IH [OF up] Cons.prems(2,3) show ?thesis by simp
  next
    case False
    with Cons.prems(3) have "cfg' = cfg\<lparr>ev_servers := g\<rparr>" "ld = nat (srvs_Leader g)" by auto
    with up False srvs.leader_fit [OF g(1)] g(2) show ?thesis by auto
  qed
qed simp

text \<open>
  A group under one of the two drivers that stop one server at a time, with the server that
  is down, or -1. Between two rounds the servers and the sessions work.
\<close>

inductive driven :: "nat \<Rightarrow> 'e EvalConfig \<Rightarrow> int \<Rightarrow> bool" for n where
  init: "MakeConfig names refs n unreliable longdelay durable protocol = Inr cfg \<Longrightarrow>
    0 < n \<Longrightarrow> \<forall>i<n. length (names i) = n \<Longrightarrow> driven n cfg (- 1)"
| servers: "driven n cfg fid \<Longrightarrow> srvs_fit g \<Longrightarrow> srvs_slots g = srvs_slots (ev_servers cfg) \<Longrightarrow>
    driven n (cfg\<lparr>ev_servers := g\<rparr>) fid"
| make_session: "driven n cfg fid \<Longrightarrow> MakeSession names ref to aid cfg = Inr (cfg', sess, aid') \<Longrightarrow> driven n cfg' fid"
| delete_session: "driven n cfg fid \<Longrightarrow> DeleteSession s cfg = Inr cfg' \<Longrightarrow> driven n cfg' fid"
| connect_session: "driven n cfg fid \<Longrightarrow> ConnectSession s to cfg = Some cfg' \<Longrightarrow> driven n cfg' fid"
| disconnect_session: "driven n cfg fid \<Longrightarrow> DisconnectSession s to cfg = Some cfg' \<Longrightarrow> driven n cfg' fid"
| leader_round: "driven n cfg fid \<Longrightarrow> length names = n \<Longrightarrow> list_all (running n) looks \<Longrightarrow>
    periodicalLeaderFail names ref looks fid cfg = Inr (Some (cfg', fid')) \<Longrightarrow> driven n cfg' fid'"
| random_round: "driven n cfg fid \<Longrightarrow> length names = n \<Longrightarrow> 5 \<le> n \<Longrightarrow>
    randomFail names ref choice fid cfg = Inr (cfg', fid') \<Longrightarrow> driven n cfg' fid'"

definition down_set :: "int \<Rightarrow> nat set" where
  "down_set fid = {i. int i = fid}"

lemma down_set_simps: "fid < 0 \<Longrightarrow> down_set fid = {}" "down_set (int k) = {k}"
  by (auto simp: down_set_def)

lemma back_up:
  assumes "up_except (down_set fid) cfg" "fid < int (cfg_n cfg)" "length names = cfg_n cfg"
    and "(if fid \<ge> 0 then restart (nat fid) names ref cfg else Inr cfg) = Inr cfg'"
  shows "up_except {} cfg' \<and> cfg_n cfg' = cfg_n cfg"
proof (cases "fid \<ge> 0")
  case True
  then have "down_set fid \<subseteq> {nat fid}" "nat fid < cfg_n cfg" using assms(2) by (auto simp: down_set_def)
  then show ?thesis using restart_up [OF assms(1) _ _ assms(3)] assms(4) True by simp
qed (use assms in \<open>simp add: down_set_simps\<close>)

lemma stop_one:
  assumes "up_except {} cfg" "k < cfg_n cfg" "ShutdownServer k cfg = Some cfg'"
  shows "up_except (down_set (int k)) cfg' \<and> cfg_n cfg' = cfg_n cfg"
  using ShutdownServer_up [OF assms(1,2)] assms(3) by (metis option.inject down_set_simps(2))

lemma driven_up: "driven n cfg fid \<Longrightarrow> up_except (down_set fid) cfg \<and> cfg_n cfg = n \<and> fid < int n"
proof (induction rule: driven.induct)
  case (init names refs unreliable longdelay durable protocol cfg)
  then show ?case using MakeConfig_up [OF init(1-3)] by (simp add: down_set_simps)
next
  case (servers cfg fid g)
  then show ?case using up_except_servers by auto
next
  case (make_session cfg fid names ref to aid cfg' sess aid')
  then show ?case using MakeSession_up by blast
next
  case (delete_session cfg fid s cfg')
  then show ?case using DeleteSession_up by blast
next
  case (connect_session cfg fid s to cfg')
  then show ?case
    using session_enable_up [of _ cfg s to True] by (auto simp: ConnectSession_def connectSessionUnlocked_def)
next
  case (disconnect_session cfg fid s to cfg')
  then show ?case
    using session_enable_up [of _ cfg s to False] by (auto simp: DisconnectSession_def disconnectSessionUnlocked_def)
next
  case (leader_round cfg fid names looks ref cfg' fid')
  then obtain c d ld where c: "(if fid \<ge> 0 then restart (nat fid) names ref cfg else Inr cfg) = Inr c"
    "ev_Leader looks c = Some (d, ld)" "ShutdownServer ld d = Some cfg'" "fid' = int ld"
    by (auto simp: periodicalLeaderFail_def ev_panic_def split: sum.splits option.splits prod.splits)
  have u: "up_except {} c \<and> cfg_n c = n" using back_up [OF _ _ _ c(1)] leader_round by simp
  then have "up_except {} d \<and> cfg_n d = n \<and> ld < n" using ev_Leader_up [OF _ _ c(2)] leader_round(3) by simp
  then show ?case using stop_one [OF _ _ c(3)] c(4) by simp
next
  case (random_round cfg fid names ref choice cfg' fid')
  then obtain c where c: "(if fid \<ge> 0 then restart (nat fid) names ref cfg else Inr cfg) = Inr c"
    "ShutdownServer (choice mod 5) c = Some cfg'" "fid' = int (choice mod 5)"
    by (auto simp: randomFail_def ev_panic_def split: sum.splits option.splits)
  have "up_except {} c \<and> cfg_n c = n" using back_up [OF _ _ _ c(1)] random_round by simp
  moreover have "choice mod 5 < n" using random_round(3) by (metis less_le_trans mod_less_divisor zero_less_numeral)
  ultimately show ?case using stop_one [OF _ _ c(2)] c(3) by simp
qed

text \<open>With new names, and a leader to be found, the next round succeeds.\<close>

lemma back_up_fresh:
  assumes "up_except (down_set fid) cfg" "fid < int (cfg_n cfg)" "length names = cfg_n cfg"
    and "distinct names" "set names \<inter> nw_ends (cfg_net cfg) = {}"
  shows "\<exists>cfg'. (if fid \<ge> 0 then restart (nat fid) names ref cfg else Inr cfg) = Inr cfg'"
  using restart_fresh [OF assms(1) _ assms(3-5), of "nat fid" ref] assms(2) by auto

lemma ev_Leader_found:
  "\<exists>g\<in>set looks. srvs_Leader g \<ge> 0 \<Longrightarrow> \<exists>cfg' ld. ev_Leader looks cfg = Some (cfg', ld)"
  by (induction looks arbitrary: cfg) (auto simp: Let_def)

lemma next_rounds:
  assumes d: "driven n cfg fid" and names: "length names = n" "distinct names" "set names \<inter> nw_ends (cfg_net cfg) = {}"
  shows "5 \<le> n \<Longrightarrow> \<exists>cfg'. randomFail names ref choice fid cfg = Inr (cfg', int (choice mod 5))"
    and "list_all (running n) looks \<Longrightarrow> \<exists>g\<in>set looks. srvs_Leader g \<ge> 0 \<Longrightarrow>
      \<exists>cfg' fid'. periodicalLeaderFail names ref looks fid cfg = Inr (Some (cfg', fid'))"
proof -
  have u: "up_except (down_set fid) cfg" "cfg_n cfg = n" "fid < int n" using driven_up [OF d] by auto
  obtain c where c: "(if fid \<ge> 0 then restart (nat fid) names ref cfg else Inr cfg) = Inr c"
    using back_up_fresh [of fid cfg names ref] u names by auto
  have uc: "up_except {} c" "cfg_n c = n" using back_up [OF u(1) _ _ c] u names(1) by auto
  show "\<exists>cfg'. randomFail names ref choice fid cfg = Inr (cfg', int (choice mod 5))" if n: "5 \<le> n"
  proof -
    have "choice mod 5 < n" using n by (metis less_le_trans mod_less_divisor zero_less_numeral)
    then obtain cfg' where "ShutdownServer (choice mod 5) c = Some cfg'"
      using ShutdownServer_up [OF uc(1), of "choice mod 5"] uc(2) by blast
    then show ?thesis by (simp add: randomFail_def c ev_panic_def)
  qed
  show "\<exists>cfg' fid'. periodicalLeaderFail names ref looks fid cfg = Inr (Some (cfg', fid'))"
    if l: "list_all (running n) looks" "\<exists>g\<in>set looks. srvs_Leader g \<ge> 0"
  proof -
    obtain e ld where e: "ev_Leader looks c = Some (e, ld)" using ev_Leader_found [OF l(2)] by blast
    then have "up_except {} e" "ld < cfg_n e" using ev_Leader_up [OF uc(1) _ e] l(1) uc(2) by auto
    then obtain cfg' where "ShutdownServer ld e = Some cfg'" by (rule ShutdownServer_up)
    then show ?thesis by (simp add: periodicalLeaderFail_def c e ev_panic_def)
  qed
qed

text \<open>
  The driver that stops the servers other than the leader stops all of them before it starts
  one again: after four rounds one of five servers is left, which is no majority.
\<close>

lemma other_servers_set: "ld < 5 \<Longrightarrow> length (other_servers ld) = 4 \<and> set (other_servers ld) = {..<5} - {ld}"
  by (auto simp: other_servers_def upt_rec less_Suc_eq numeral_eq_Suc)

lemma nonLeaderFail_stops:
  assumes "up_except (set (take k (other_servers ld))) cfg" "cfg_n cfg = 5" "ld < 5" "k < 4"
  shows "\<exists>cfg'. nonLeaderFail names ref (other_servers ld) (False, k) cfg =
      Inr (cfg', (if k = 3 then (True, 0) else (False, Suc k))) \<and>
    up_except (set (take (Suc k) (other_servers ld))) cfg' \<and> cfg_n cfg' = 5"
proof -
  let ?i = "other_servers ld ! k"
  have k: "k < length (other_servers ld)" using other_servers_set [OF assms(3)] assms(4) by simp
  then have "?i < cfg_n cfg" using other_servers_set [OF assms(3)] nth_mem [OF k] assms(2) by auto
  then obtain cfg' where "ShutdownServer ?i cfg = Some cfg'" "up_except (insert ?i (set (take k (other_servers ld)))) cfg'"
    "cfg_n cfg' = cfg_n cfg" by (rule ShutdownServer_up [OF assms(1)])
  moreover have "set (take (Suc k) (other_servers ld)) = insert ?i (set (take k (other_servers ld)))"
    using k by (simp add: take_Suc_conv_app_nth)
  moreover have "(if Suc k \<ge> 4 then (\<not> False, 0) else (False, Suc k)) = (if k = 3 then (True, 0) else (False, Suc k))"
    using assms(4) by auto
  ultimately show ?thesis using k assms(2) by (simp add: nonLeaderFail_def ev_panic_def)
qed

fun nonLeader_rounds ::
  "nat \<Rightarrow> 'e list \<Rightarrow> nat \<Rightarrow> nat list \<Rightarrow> bool \<times> nat \<Rightarrow> 'e EvalConfig \<Rightarrow> ev_error + ('e EvalConfig \<times> bool \<times> nat)" where
  "nonLeader_rounds 0 names ref servers st cfg = Inr (cfg, st)"
| "nonLeader_rounds (Suc k) names ref servers st cfg =
     (case nonLeaderFail names ref servers st cfg of
        Inl e \<Rightarrow> Inl e
      | Inr (cfg1, st1) \<Rightarrow> nonLeader_rounds k names ref servers st1 cfg1)"

lemma nonLeaderFail_loses_majority:
  assumes "up_except {} cfg" "cfg_n cfg = 5" "ld < 5"
  shows "\<exists>cfg'. nonLeader_rounds 4 names ref (other_servers ld) (False, 0) cfg = Inr (cfg', True, 0) \<and>
    up_except ({..<5} - {ld}) cfg'"
proof -
  note stop = nonLeaderFail_stops [where names = names and ref = ref and ld = ld, OF _ _ assms(3)]
  obtain c1 where c1: "nonLeaderFail names ref (other_servers ld) (False, 0) cfg = Inr (c1, False, 1)"
    "up_except (set (take 1 (other_servers ld))) c1" "cfg_n c1 = 5"
    using stop [of 0 cfg] assms(1,2) by auto
  obtain c2 where c2: "nonLeaderFail names ref (other_servers ld) (False, 1) c1 = Inr (c2, False, 2)"
    "up_except (set (take 2 (other_servers ld))) c2" "cfg_n c2 = 5"
    using stop [OF c1(2,3)] by (auto simp: numeral_2_eq_2)
  obtain c3 where c3: "nonLeaderFail names ref (other_servers ld) (False, 2) c2 = Inr (c3, False, 3)"
    "up_except (set (take 3 (other_servers ld))) c3" "cfg_n c3 = 5"
    using stop [OF c2(2,3)] by auto
  obtain c4 where c4: "nonLeaderFail names ref (other_servers ld) (False, 3) c3 = Inr (c4, True, 0)"
    "up_except (set (take 4 (other_servers ld))) c4"
    using stop [OF c3(2,3)] by auto
  have "set (take 4 (other_servers ld)) = {..<5} - {ld}" using other_servers_set [OF assms(3)] by simp
  then show ?thesis
    using c1(1) c2(1) c3(1) c4 by (simp add: numeral_eq_Suc)
qed

section \<open>Properties\<close>

text \<open>
  C34. The drivers that stop the leader, or a random server, stop one server at a time:
  whatever the servers and the sessions do between the rounds, the group runs without the
  server stopped last and with all others; that server is not registered at the network
  and its ends are disabled in both directions, while all ends between the others are enabled
  and lead to the server they are named for. The next round never panics: with new names
  it restarts the stopped server and stops another one.
\<close>

theorem eval_one_server_down:
  assumes "driven n cfg fid"
  shows "(\<forall>i<n. (srvs_slots (ev_servers cfg) ! i \<longleftrightarrow> int i \<noteq> fid) \<and>
      (nw_servers (cfg_net cfg) i \<noteq> None \<longleftrightarrow> int i \<noteq> fid) \<and>
      (\<exists>ends. cfg_endnames cfg i = Some ends \<and>
        (\<forall>j<n. nw_connections (cfg_net cfg) (ends ! j) = Some j \<and>
          (nw_enabled (cfg_net cfg) (ends ! j) \<longleftrightarrow> int i \<noteq> fid \<and> int j \<noteq> fid)))) \<and>
    (length names = n \<and> distinct names \<and> set names \<inter> nw_ends (cfg_net cfg) = {} \<longrightarrow>
      (5 \<le> n \<longrightarrow> (\<exists>cfg'. randomFail names ref choice fid cfg = Inr (cfg', int (choice mod 5)))) \<and>
      (list_all (running n) looks \<and> (\<exists>g\<in>set looks. srvs_Leader g \<ge> 0) \<longrightarrow>
        (\<exists>cfg' fid'. periodicalLeaderFail names ref looks fid cfg = Inr (Some (cfg', fid')))))"
proof (intro conjI allI impI)
  have u: "up_except (down_set fid) cfg" "cfg_n cfg = n" using driven_up [OF assms] by auto
  note d = up_exceptD [OF u(1)]
  fix i assume i: "i < n"
  show "srvs_slots (ev_servers cfg) ! i \<longleftrightarrow> int i \<noteq> fid" "nw_servers (cfg_net cfg) i \<noteq> None \<longleftrightarrow> int i \<noteq> fid"
    using d(5,6) i u(2) by (simp_all add: down_set_def)
  obtain ends where ends: "cfg_endnames cfg i = Some ends" using d(9) i u(2) by auto
  have "nw_connections (cfg_net cfg) (ends ! j) = Some j" if "j < n" for j
    using ends_okD(4) [OF d(1), of i j] i that u(2) ends by (simp add: cfg_end_name_def)
  moreover have "nw_enabled (cfg_net cfg) (ends ! j) \<longleftrightarrow> (i, j) \<in> links cfg" if "j < n" for j
    using i that u(2) ends by (simp add: links_def cfg_end_name_def)
  then have "nw_enabled (cfg_net cfg) (ends ! j) \<longleftrightarrow> int i \<noteq> fid \<and> int j \<noteq> fid" if "j < n" for j
    using i that u(2) by (auto simp: d(7) down_set_def)
  ultimately show "\<exists>ends. cfg_endnames cfg i = Some ends \<and> (\<forall>j<n. nw_connections (cfg_net cfg) (ends ! j) = Some j \<and>
      (nw_enabled (cfg_net cfg) (ends ! j) \<longleftrightarrow> int i \<noteq> fid \<and> int j \<noteq> fid))" using ends by blast
qed (use next_rounds [OF assms] in blast)+

text \<open>A group of two servers on Paxos, whose leader is stopped by the first round.\<close>

definition ev_small_names :: "nat \<Rightarrow> nat list" where
  "ev_small_names i = [2 * i, 2 * i + 1]"

definition ev_small :: "nat EvalConfig" where
  "ev_small = (case MakeConfig ev_small_names (\<lambda>i. i) 2 False False False ProtoPaxos of Inr c \<Rightarrow> c)"

lemmas ev_defs = MakeConfig_def new_EvalConfig_def StartServer_def ConnectAll_def connectUnlocked_def ev_All_def
  cfg_enable_def makeServers_def MakePaxosServers_def MakeNetwork_def MakeEnd_def Connect_def AddServer_def Enable_def
  ev_panic_def SetNetwork_def nw_Reliable_def nw_LongDelays_def nw_LongReordering_def pss_Start_def
  pss_start_persister_def pv_StartServer_def px_Make_def px_readPersist_def ps_ReadPaxosState_def px_MakePersister_def
  go_store_def go_index_def

lemma ev_small_ok:
  "MakeConfig ev_small_names (\<lambda>i. i) 2 False False False ProtoPaxos = Inr ev_small"
  "nw_ends (cfg_net ev_small) = {0, 1, 2, 3}" "srvs_Leader (ev_servers ev_small) = 0"
  unfolding ev_small_def by (auto simp: ev_defs ev_small_names_def upt_rec Let_def pss_Leader_def)

theorem eval_one_server_down_witness:
  "\<exists>cfg fid. periodicalLeaderFail [4, 5] 9 [ev_servers ev_small] (- 1) ev_small = Inr (Some (cfg, fid)) \<and>
     (\<forall>i<2. srvs_slots (ev_servers cfg) ! i \<longleftrightarrow> int i \<noteq> fid)"
proof -
  have d: "driven 2 ev_small (- 1)" by (rule driven.init [OF ev_small_ok(1)]) (simp_all add: ev_small_names_def)
  have r: "list_all (running 2) [ev_servers ev_small]"
    using driven_up [OF d] up_running [of ev_small] by (auto simp: running_def down_set_simps up_except_def)
  obtain cfg fid where run: "periodicalLeaderFail [4, 5] 9 [ev_servers ev_small] (- 1) ev_small = Inr (Some (cfg, fid))"
    using eval_one_server_down [OF d, of "[4, 5]" 9 0 "[ev_servers ev_small]"] r ev_small_ok(2,3) by auto
  have "driven 2 cfg fid" by (rule driven.leader_round [OF d _ r run]) simp
  with eval_one_server_down [of 2 cfg fid] run show ?thesis by blast
qed

end
