(* ===== verification/Eval_Bench.thy ===== *)
theory Eval_Bench
  imports Eval_Properties
begin

text \<open>
  The benchmarks of src/src/eval: which groups they set up and in which order, the loops of
  their clients, and the channels through which clients and the main goroutine talk. What
  the session operations answer is an argument; the session client and the servers are
  verified in their own theories.
\<close>

section \<open>The runs\<close>

fun itoa :: "nat \<Rightarrow> string" where
  "itoa k = (if k < 10 then [char_of (48 + k)] else itoa (k div 10) @ [char_of (48 + k mod 10)])"

declare itoa.simps [simp del]

datatype failure_driver = NoFailure | PeriodicalLeaderFail | NonLeaderFail | RandomFail

datatype bench_test =
    OneClientTest
  | ManyClientTest nat
  | ManyClientContendTest nat
  | ClientFailureTest
  | FailureParallelTest failure_driver
  | FailureContendTest failure_driver

text \<open>One call of MakeConfig, the test that is run on it and its name; Cleanup follows.\<close>

record bench_run =
  br_n :: nat
  br_unreliable :: bool
  br_longdelay :: bool
  br_durable :: bool
  br_protocol :: Protocol
  br_test :: bench_test
  br_testname :: string

text \<open>Each setting is run on a Raft group and then on a Paxos group.\<close>

definition bench_pair :: "nat \<Rightarrow> bool \<Rightarrow> bool \<Rightarrow> bool \<Rightarrow> bench_test \<Rightarrow> string \<Rightarrow> bench_run list" where
  "bench_pair n unreliable longdelay durable test name =
     [\<lparr>br_n = n, br_unreliable = unreliable, br_longdelay = longdelay, br_durable = durable,
       br_protocol = ProtoRaft, br_test = test, br_testname = name @ '' protocol: Raft''\<rparr>,
      \<lparr>br_n = n, br_unreliable = unreliable, br_longdelay = longdelay, br_durable = durable,
       br_protocol = ProtoPaxos, br_test = test, br_testname = name @ '' protocol: Paxos''\<rparr>]"

definition oneClientSpeed :: "nat \<Rightarrow> bench_run list" where
  "oneClientSpeed rnd = concat (map (\<lambda>srv.
     let testname = ''Round '' @ itoa rnd @ [CHR 0x0A] @ ''one client sequential servers: '' @ itoa srv
     in bench_pair srv False False False OneClientTest (testname @ '' reliable, no long delay'') @
        bench_pair srv False True False OneClientTest (testname @ '' reliable, long delay''))
     [3, 5, 7, 9, 11])"

definition manyClientSpeed :: "nat \<Rightarrow> bench_run list" where
  "manyClientSpeed rnd = concat (map (\<lambda>clt.
     let testname = ''Round '' @ itoa rnd @ [CHR 0x0A] @ ''many clients parallel no contend servers: 5, clients:'' @ itoa clt
     in bench_pair 5 False False False (ManyClientTest clt) (testname @ '' reliable, no long delay'') @
        bench_pair 5 True False False (ManyClientTest clt) (testname @ '' unreliable, no long delay''))
     [5, 10, 20, 40])"

definition manyClientContend :: "nat \<Rightarrow> bench_run list" where
  "manyClientContend rnd = concat (map (\<lambda>clt.
     let testname = ''Round '' @ itoa rnd @ [CHR 0x0A] @ ''many clients contend servers: 5, clients:'' @ itoa clt
     in bench_pair 5 False False False (ManyClientContendTest clt) (testname @ '' reliable, no long delay''))
     [5, 10, 20, 40])"

definition clientFailure :: "nat \<Rightarrow> bench_run list" where
  "clientFailure rnd =
     bench_pair 5 False False False ClientFailureTest
       (''Round '' @ itoa rnd @ [CHR 0x0A] @ ''client failure servers: 5 clients: 20, reliable no long delay,'')"

definition failureParallel :: "bench_run list" where
  "failureParallel =
     (let testname = ''Failure ops parallel servers: 5 clients: 20, reliable no long dealy,''
      in bench_pair 5 False False False (FailureParallelTest NoFailure) (testname @ '' no failure (baseline)'') @
         bench_pair 5 False False False (FailureParallelTest PeriodicalLeaderFail) (testname @ '' leader failure'') @
         bench_pair 5 False False False (FailureParallelTest NonLeaderFail) (testname @ '' nonleader failure''))"

definition failureContend :: "bench_run list" where
  "failureContend =
     (let testname = ''Failure ops contend servers: 5 clients: 20, reliable no long dealy,''
      in bench_pair 5 False False False (FailureContendTest NoFailure) (testname @ '' no failure (baseline)'') @
         bench_pair 5 False False False (FailureContendTest PeriodicalLeaderFail) (testname @ '' leader failure'') @
         bench_pair 5 False False False (FailureContendTest RandomFail) (testname @ '' random failure''))"

definition eval_main :: "bench_run list" where
  "eval_main = failureParallel @ failureContend @
     concat (map (\<lambda>i. oneClientSpeed i @ manyClientSpeed i @ manyClientContend i @ clientFailure i) [0..<5])"

text \<open>
  The failure drivers have the number 5 built in. Every run with one of them has five servers,
  every group has an odd number of servers, three at least, and none is durable.
\<close>

fun uses_driver :: "bench_test \<Rightarrow> bool" where
  "uses_driver (FailureParallelTest d) = True"
| "uses_driver (FailureContendTest d) = True"
| "uses_driver _ = False"

definition sized :: "bench_run \<Rightarrow> bool" where
  "sized r \<longleftrightarrow> odd (br_n r) \<and> 3 \<le> br_n r \<and> \<not> br_durable r \<and> (uses_driver (br_test r) \<longrightarrow> br_n r = 5)"

lemma bench_pair_sized:
  "list_all sized (bench_pair n u l d test name) \<longleftrightarrow> odd n \<and> 3 \<le> n \<and> \<not> d \<and> (uses_driver test \<longrightarrow> n = 5)"
  by (auto simp: bench_pair_def sized_def)

lemma list_all_concat: "list_all P (concat xss) \<longleftrightarrow> list_all (list_all P) xss"
  by (induction xss) auto

lemma eval_main_sizes: "list_all sized eval_main"
  unfolding eval_main_def failureParallel_def failureContend_def oneClientSpeed_def manyClientSpeed_def
    manyClientContend_def clientFailure_def Let_def
  by (simp only: list_all_append list_all_concat bench_pair_sized list.map list.pred_inject list.pred_map o_def
      uses_driver.simps) (simp add: list_all_iff)

section \<open>Loops of one client\<close>

text \<open>
  The first call of Create that answers OK ends the loop of oneClientTest; answers are those of
  the calls, and None is a loop that still runs after the last of them.
\<close>

fun create_loop :: "Err list \<Rightarrow> Err list option" where
  "create_loop [] = None"
| "create_loop (err # errs) = (if err = OK then Some errs else create_loop errs)"

text \<open>
  Rounds of Acquire and Release: a dot for every period-th round and a mark for each call
  that does not answer OK. The modulus of Go panics for a period of zero.
\<close>

fun client_rounds :: "nat \<Rightarrow> string \<Rightarrow> nat list \<Rightarrow> (nat \<Rightarrow> Err) \<Rightarrow> (nat \<Rightarrow> Err) \<Rightarrow> string panics" where
  "client_rounds period mark [] acq rel = Some []"
| "client_rounds period mark (j # js) acq rel =
     (if period = 0 then None
      else map_option
        (\<lambda>out. (if j mod period = 0 then ''.'' else []) @ (if acq j \<noteq> OK then mark else []) @
               (if rel j \<noteq> OK then mark else []) @ out)
        (client_rounds period mark js acq rel))"

definition oneClientTest :: "Err list \<Rightarrow> (nat \<Rightarrow> Err) \<Rightarrow> (nat \<Rightarrow> Err) \<Rightarrow> string panics option" where
  "oneClientTest creates acq rel =
     map_option (\<lambda>_. client_rounds (1000 div 100) [CHR ''?'', CHR 0x0A] [0..<1000] acq rel) (create_loop creates)"

definition manyClientTest :: "nat \<Rightarrow> (nat \<Rightarrow> Err) \<Rightarrow> (nat \<Rightarrow> Err) \<Rightarrow> string panics" where
  "manyClientTest clt acq rel =
     (if clt = 0 then None
      else let ops = 1000 div clt in client_rounds (ops * clt div 100) ''?'' [0..<ops] acq rel)"

text \<open>Every round of failureParallelTest also tells the counter goroutine about its two operations.\<close>

definition failureParallelTest :: "(nat \<Rightarrow> Err) \<Rightarrow> (nat \<Rightarrow> Err) \<Rightarrow> (string \<times> stat_event list) panics" where
  "failureParallelTest acq rel =
     map_option (\<lambda>out. (out, concat (map (\<lambda>_. [OpDone, OpDone]) [1..<1001])))
       (client_rounds (1000 * 20 div 100) ''?'' [1..<1001] acq rel)"

lemma client_rounds_total: "0 < period \<Longrightarrow> \<exists>out. client_rounds period mark js acq rel = Some out"
  by (induction js) auto

text \<open>The period is never zero when there is a round, whatever the number of clients.\<close>

lemma manyClientTest_total:
  assumes "0 < clt"
  shows "\<exists>out. manyClientTest clt acq rel = Some out"
proof (cases "1000 div clt = 0")
  case False
  then have "clt \<le> 1000" by (metis div_less not_le)
  have "1000 = 1000 div clt * clt + 1000 mod clt" by simp
  moreover have "1000 mod clt < 1000 div clt * clt \<or> 1000 mod clt < 500"
    using False assms by (metis div_mult_mod_eq less_le_trans mod_less_divisor mult.commute mult_le_mono1 mult_1
        not_less_eq_eq One_nat_def Suc_leI gr0I)
  ultimately have "100 \<le> 1000 div clt * clt" by linarith
  then have "0 < 1000 div clt * clt div 100" by (simp add: div_greater_zero_iff)
  then show ?thesis using assms client_rounds_total by (simp add: manyClientTest_def Let_def)
qed (use assms in \<open>simp add: manyClientTest_def\<close>)

text \<open>The stamps of the counter goroutine add up to the operations.\<close>

lemma stastic_total: "stastic evs cnt = (stamps, rest) \<Longrightarrow> sum_list stamps + rest = cnt + count_list evs OpDone"
proof (induction evs cnt arbitrary: stamps rest rule: stastic.induct)
  case (3 evs cnt)
  then obtain stamps1 where "stastic evs 0 = (stamps1, rest)" "stamps = cnt # stamps1"
    by (auto simp: Let_def split: prod.splits)
  with 3 show ?case by simp
qed auto

section \<open>Clients that contend for one lock\<close>

text \<open>
  manyClientContendTest: clt clients, a channel of capacity ops, and the main goroutine, which
  takes ops tokens from it and then closes the channel that ends the clients. A client is in
  its loop, has acquired the lock and is about to send a token, has sent it and is about to
  release the lock, or has ended. The last field counts the calls of Acquire that answered OK.
\<close>

datatype client_pc = InLoop | Sending | Releasing | Ended

record contend =
  ct_pc :: "nat \<Rightarrow> client_pc"
  ct_ch :: nat
  ct_got :: nat
  ct_done :: bool
  ct_acquired :: nat

definition contend_init :: contend where
  "contend_init = \<lparr>ct_pc = (\<lambda>_. InLoop), ct_ch = 0, ct_got = 0, ct_done = False, ct_acquired = 0\<rparr>"

inductive contend_step :: "nat \<Rightarrow> nat \<Rightarrow> contend \<Rightarrow> contend \<Rightarrow> bool" for clt ops where
  acquire_ok: "i < clt \<Longrightarrow> ct_pc s i = InLoop \<Longrightarrow> \<not> ct_done s \<Longrightarrow>
    contend_step clt ops s (s\<lparr>ct_pc := (ct_pc s)(i := Sending), ct_acquired := Suc (ct_acquired s)\<rparr>)"
| acquire_fails: "i < clt \<Longrightarrow> ct_pc s i = InLoop \<Longrightarrow> \<not> ct_done s \<Longrightarrow> contend_step clt ops s s"
| send: "i < clt \<Longrightarrow> ct_pc s i = Sending \<Longrightarrow> ct_ch s < ops \<Longrightarrow>
    contend_step clt ops s (s\<lparr>ct_pc := (ct_pc s)(i := Releasing), ct_ch := Suc (ct_ch s)\<rparr>)"
| release: "i < clt \<Longrightarrow> ct_pc s i = Releasing \<Longrightarrow>
    contend_step clt ops s (s\<lparr>ct_pc := (ct_pc s)(i := InLoop)\<rparr>)"
| finish: "i < clt \<Longrightarrow> ct_pc s i = InLoop \<Longrightarrow> ct_done s \<Longrightarrow>
    contend_step clt ops s (s\<lparr>ct_pc := (ct_pc s)(i := Ended)\<rparr>)"
| receive: "ct_got s < ops \<Longrightarrow> 0 < ct_ch s \<Longrightarrow>
    contend_step clt ops s (s\<lparr>ct_ch := ct_ch s - 1, ct_got := Suc (ct_got s)\<rparr>)"
| close_done: "ct_got s = ops \<Longrightarrow> \<not> ct_done s \<Longrightarrow> contend_step clt ops s (s\<lparr>ct_done := True\<rparr>)"

text \<open>Tokens are acquisitions: received, in the channel, or about to be sent.\<close>

definition contend_inv :: "nat \<Rightarrow> nat \<Rightarrow> contend \<Rightarrow> bool" where
  "contend_inv clt ops s \<longleftrightarrow>
     ct_acquired s = ct_got s + ct_ch s + card {i. i < clt \<and> ct_pc s i = Sending} \<and>
     ct_got s \<le> ops \<and> ct_ch s \<le> ops \<and> (ct_done s \<longrightarrow> ct_got s = ops)"

lemma finite_pc [simp]: "finite {k::nat. k < clt \<and> P k}"
  by (rule finite_subset [of _ "{..<clt}"]) auto

lemma pc_set_add:
  fixes clt :: nat
  assumes "i < clt" "pc i \<noteq> x"
  shows "card {k. k < clt \<and> (pc(i := x)) k = x} = Suc (card {k. k < clt \<and> pc k = x})"
proof -
  have eq: "{k. k < clt \<and> (pc(i := x)) k = x} = insert i {k. k < clt \<and> pc k = x}" using assms by auto
  show ?thesis unfolding eq by (rule card_insert_disjoint [OF finite_pc]) (use assms in simp)
qed

lemma pc_set_same: "pc i \<noteq> x \<Longrightarrow> y \<noteq> x \<Longrightarrow> {k. k < clt \<and> (pc(i := y)) k = x} = {k. k < clt \<and> pc k = x}"
  by auto

lemma pc_set_remove:
  fixes clt :: nat
  assumes "i < clt" "pc i = x" "y \<noteq> x"
  shows "Suc (card {k. k < clt \<and> (pc(i := y)) k = x}) = card {k. k < clt \<and> pc k = x}"
proof -
  have eq: "{k. k < clt \<and> pc k = x} = insert i {k. k < clt \<and> (pc(i := y)) k = x}" using assms by auto
  show ?thesis unfolding eq by (rule card_insert_disjoint [OF finite_pc, symmetric]) (use assms in simp)
qed

lemma contend_step_inv: "contend_step clt ops s t \<Longrightarrow> contend_inv clt ops s \<Longrightarrow> contend_inv clt ops t"
proof (induction rule: contend_step.induct)
  case (acquire_ok i s)
  then show ?case using pc_set_add [of i clt "ct_pc s" Sending] by (auto simp: contend_inv_def)
next
  case (send i s)
  then show ?case using pc_set_remove [of i clt "ct_pc s" Sending Releasing] by (auto simp: contend_inv_def)
next
  case (release i s)
  then show ?case using pc_set_same [of "ct_pc s" i Sending InLoop clt] by (auto simp: contend_inv_def)
next
  case (finish i s)
  then show ?case using pc_set_same [of "ct_pc s" i Sending Ended clt] by (auto simp: contend_inv_def)
qed (auto simp: contend_inv_def)

lemma contend_reach_inv: "(contend_step clt ops)\<^sup>*\<^sup>* contend_init s \<Longrightarrow> contend_inv clt ops s"
proof (induction rule: rtranclp_induct)
  case base
  show ?case by (simp add: contend_inv_def contend_init_def)
qed (rule contend_step_inv)

text \<open>When the measurement ends, at least ops acquisitions have succeeded.\<close>

lemma contend_measured:
  "(contend_step clt ops)\<^sup>*\<^sup>* contend_init s \<Longrightarrow> ct_done s \<Longrightarrow> ops \<le> ct_acquired s"
  using contend_reach_inv [of clt ops s] by (simp add: contend_inv_def)

text \<open>
  A client that is about to send when the channel is full after the last token was taken waits
  for ever: no step changes it any more, and the main goroutine waits for it.
\<close>

lemma contend_stuck:
  assumes "(contend_step clt ops)\<^sup>*\<^sup>* s t" "ct_pc s i = Sending" "ct_ch s = ops" "ct_got s = ops"
  shows "ct_pc t i = Sending \<and> ct_ch t = ops \<and> ct_got t = ops"
  using assms(1)
proof (induction rule: rtranclp_induct)
  case (step t u)
  from step.hyps(2) step.IH show ?case by (induction rule: contend_step.induct) auto
qed (use assms in simp)

definition one_busy :: "client_pc \<Rightarrow> nat \<Rightarrow> nat \<Rightarrow> nat \<Rightarrow> contend" where
  "one_busy pc ch got acq = \<lparr>ct_pc = (\<lambda>_. InLoop)(0 := pc), ct_ch = ch, ct_got = got, ct_done = False, ct_acquired = acq\<rparr>"

lemma one_busy_round:
  assumes "0 < clt" "ch < ops"
  shows "(contend_step clt ops)\<^sup>*\<^sup>* (one_busy InLoop ch got acq) (one_busy InLoop (Suc ch) got (Suc acq))"
proof -
  have "contend_step clt ops (one_busy InLoop ch got acq) (one_busy Sending ch got (Suc acq))"
    using contend_step.acquire_ok [of 0 clt "one_busy InLoop ch got acq" ops] assms(1)
    by (simp add: one_busy_def fun_upd_def)
  moreover have "contend_step clt ops (one_busy Sending ch got (Suc acq)) (one_busy Releasing (Suc ch) got (Suc acq))"
    using contend_step.send [of 0 clt "one_busy Sending ch got (Suc acq)" ops] assms
    by (simp add: one_busy_def fun_upd_def if_distrib cong: if_cong)
  moreover have "contend_step clt ops (one_busy Releasing (Suc ch) got (Suc acq)) (one_busy InLoop (Suc ch) got (Suc acq))"
    using contend_step.release [of 0 clt "one_busy Releasing (Suc ch) got (Suc acq)" ops] assms(1)
    by (simp add: one_busy_def fun_upd_def if_distrib cong: if_cong)
  ultimately show ?thesis by (meson rtranclp.rtrancl_into_rtrancl rtranclp.rtrancl_refl)
qed

lemma one_busy_receive:
  "0 < ch \<Longrightarrow> got < ops \<Longrightarrow> contend_step clt ops (one_busy InLoop ch got acq) (one_busy InLoop (ch - 1) (Suc got) acq)"
  using contend_step.receive [of "one_busy InLoop ch got acq" ops clt] by (simp add: one_busy_def)

lemma one_busy_take:
  assumes "0 < clt" "got \<le> ops" "0 < ops"
  shows "\<exists>acq. (contend_step clt ops)\<^sup>*\<^sup>* contend_init (one_busy InLoop 0 got acq)"
  using assms(2)
proof (induction got)
  case 0
  have "contend_init = one_busy InLoop 0 0 0" by (simp add: contend_init_def one_busy_def fun_upd_def)
  then show ?case by (metis rtranclp.rtrancl_refl)
next
  case (Suc got)
  then obtain acq where a: "(contend_step clt ops)\<^sup>*\<^sup>* contend_init (one_busy InLoop 0 got acq)" by auto
  have "(contend_step clt ops)\<^sup>*\<^sup>* (one_busy InLoop 0 got acq) (one_busy InLoop 1 got (Suc acq))"
    using one_busy_round [of clt 0 ops got acq] assms(1,3) by simp
  moreover have "contend_step clt ops (one_busy InLoop 1 got (Suc acq)) (one_busy InLoop 0 (Suc got) (Suc acq))"
    using one_busy_receive [of 1 got ops clt "Suc acq"] Suc.prems by simp
  ultimately show ?case using a by (meson rtranclp.rtrancl_into_rtrancl rtranclp_trans)
qed

lemma one_busy_fill:
  assumes "0 < clt" "ch \<le> ops" "0 < ops"
  shows "\<exists>acq. (contend_step clt ops)\<^sup>*\<^sup>* contend_init (one_busy InLoop ch ops acq)"
  using assms(2)
proof (induction ch)
  case (Suc ch)
  then obtain acq where "(contend_step clt ops)\<^sup>*\<^sup>* contend_init (one_busy InLoop ch ops acq)" by auto
  then show ?case using one_busy_round [of clt ch ops ops acq] assms(1) Suc.prems by (meson Suc_le_lessD rtranclp_trans)
qed (use one_busy_take [OF assms(1) _ assms(3), of ops] in simp)

lemma contend_can_hang:
  assumes "0 < clt" "0 < ops"
  shows "\<exists>s. (contend_step clt ops)\<^sup>*\<^sup>* contend_init s \<and> ct_done s \<and>
    (\<forall>t. (contend_step clt ops)\<^sup>*\<^sup>* s t \<longrightarrow> ct_pc t 0 \<noteq> Ended)"
proof -
  obtain acq where a: "(contend_step clt ops)\<^sup>*\<^sup>* contend_init (one_busy InLoop ops ops acq)"
    using one_busy_fill [OF assms(1) _ assms(2), of ops] by auto
  have b: "contend_step clt ops (one_busy InLoop ops ops acq) (one_busy Sending ops ops (Suc acq))"
    using contend_step.acquire_ok [of 0 clt "one_busy InLoop ops ops acq" ops] assms(1)
    by (simp add: one_busy_def fun_upd_def)
  let ?s = "(one_busy Sending ops ops (Suc acq))\<lparr>ct_done := True\<rparr>"
  have c: "contend_step clt ops (one_busy Sending ops ops (Suc acq)) ?s"
    by (rule contend_step.close_done) (simp_all add: one_busy_def)
  have "(contend_step clt ops)\<^sup>*\<^sup>* contend_init ?s" using a b c by (meson rtranclp.rtrancl_into_rtrancl)
  moreover have "ct_pc t 0 = Sending" if "(contend_step clt ops)\<^sup>*\<^sup>* ?s t" for t
    using contend_stuck [OF that, of 0] by (simp add: one_busy_def)
  ultimately show ?thesis by (intro exI [of _ ?s]) (auto simp: one_busy_def)
qed

section \<open>Contention under server failures\<close>

text \<open>
  failureContendTest: as above, with a second channel to the counter goroutine, which takes a
  token for each operation until the test is over. The main goroutine counts reports.
\<close>

datatype failure_pc = FcLoop | FcAcquired | FcReporting | FcReleasing | FcReleased | FcEnded

record failure_contend =
  fc_pc :: "nat \<Rightarrow> failure_pc"
  fc_ch :: nat
  fc_rptch :: nat
  fc_got :: nat
  fc_done :: bool
  fc_counting :: bool
  fc_acquired :: nat

definition failure_init :: failure_contend where
  "failure_init = \<lparr>fc_pc = (\<lambda>_. FcLoop), fc_ch = 0, fc_rptch = 0, fc_got = 0, fc_done = False,
     fc_counting = True, fc_acquired = 0\<rparr>"

inductive failure_step :: "nat \<Rightarrow> nat \<Rightarrow> failure_contend \<Rightarrow> failure_contend \<Rightarrow> bool" for clt ops where
  acquire_ok: "i < clt \<Longrightarrow> fc_pc s i = FcLoop \<Longrightarrow> \<not> fc_done s \<Longrightarrow>
    failure_step clt ops s (s\<lparr>fc_pc := (fc_pc s)(i := FcAcquired), fc_acquired := Suc (fc_acquired s)\<rparr>)"
| acquire_fails: "i < clt \<Longrightarrow> fc_pc s i = FcLoop \<Longrightarrow> \<not> fc_done s \<Longrightarrow> failure_step clt ops s s"
| tell_acquire: "i < clt \<Longrightarrow> fc_pc s i = FcAcquired \<Longrightarrow> fc_ch s < ops \<Longrightarrow>
    failure_step clt ops s (s\<lparr>fc_pc := (fc_pc s)(i := FcReporting), fc_ch := Suc (fc_ch s)\<rparr>)"
| report: "i < clt \<Longrightarrow> fc_pc s i = FcReporting \<Longrightarrow> fc_rptch s < ops \<Longrightarrow>
    failure_step clt ops s (s\<lparr>fc_pc := (fc_pc s)(i := FcReleasing), fc_rptch := Suc (fc_rptch s)\<rparr>)"
| release: "i < clt \<Longrightarrow> fc_pc s i = FcReleasing \<Longrightarrow>
    failure_step clt ops s (s\<lparr>fc_pc := (fc_pc s)(i := FcReleased)\<rparr>)"
| tell_release: "i < clt \<Longrightarrow> fc_pc s i = FcReleased \<Longrightarrow> fc_ch s < ops \<Longrightarrow>
    failure_step clt ops s (s\<lparr>fc_pc := (fc_pc s)(i := FcLoop), fc_ch := Suc (fc_ch s)\<rparr>)"
| finish: "i < clt \<Longrightarrow> fc_pc s i = FcLoop \<Longrightarrow> fc_done s \<Longrightarrow>
    failure_step clt ops s (s\<lparr>fc_pc := (fc_pc s)(i := FcEnded)\<rparr>)"
| count: "fc_counting s \<Longrightarrow> 0 < fc_ch s \<Longrightarrow> failure_step clt ops s (s\<lparr>fc_ch := fc_ch s - 1\<rparr>)"
| stop_counting: "fc_counting s \<Longrightarrow> fc_done s \<Longrightarrow> failure_step clt ops s (s\<lparr>fc_counting := False\<rparr>)"
| receive: "fc_got s < ops \<Longrightarrow> 0 < fc_rptch s \<Longrightarrow>
    failure_step clt ops s (s\<lparr>fc_rptch := fc_rptch s - 1, fc_got := Suc (fc_got s)\<rparr>)"
| close_done: "fc_got s = ops \<Longrightarrow> \<not> fc_done s \<Longrightarrow> failure_step clt ops s (s\<lparr>fc_done := True\<rparr>)"

definition failure_inv :: "nat \<Rightarrow> nat \<Rightarrow> failure_contend \<Rightarrow> bool" where
  "failure_inv clt ops s \<longleftrightarrow>
     fc_got s + fc_rptch s + card {i. i < clt \<and> fc_pc s i = FcAcquired} +
       card {i. i < clt \<and> fc_pc s i = FcReporting} = fc_acquired s \<and>
     fc_got s \<le> ops \<and> fc_ch s \<le> ops \<and> fc_rptch s \<le> ops \<and> (fc_done s \<longrightarrow> fc_got s = ops)"

lemma failure_step_inv: "failure_step clt ops s t \<Longrightarrow> failure_inv clt ops s \<Longrightarrow> failure_inv clt ops t"
proof (induction rule: failure_step.induct)
  case (acquire_ok i s)
  then show ?case
    using pc_set_add [of i clt "fc_pc s" FcAcquired] pc_set_same [of "fc_pc s" i FcReporting FcAcquired clt]
    by (auto simp: failure_inv_def)
next
  case (tell_acquire i s)
  then show ?case
    using pc_set_remove [of i clt "fc_pc s" FcAcquired FcReporting] pc_set_add [of i clt "fc_pc s" FcReporting]
    by (auto simp: failure_inv_def)
next
  case (report i s)
  then show ?case
    using pc_set_remove [of i clt "fc_pc s" FcReporting FcReleasing] pc_set_same [of "fc_pc s" i FcAcquired FcReleasing clt]
    by (auto simp: failure_inv_def)
next
  case (release i s)
  then show ?case
    using pc_set_same [of "fc_pc s" i FcReporting FcReleased clt] pc_set_same [of "fc_pc s" i FcAcquired FcReleased clt]
    by (auto simp: failure_inv_def)
next
  case (tell_release i s)
  then show ?case
    using pc_set_same [of "fc_pc s" i FcReporting FcLoop clt] pc_set_same [of "fc_pc s" i FcAcquired FcLoop clt]
    by (auto simp: failure_inv_def)
next
  case (finish i s)
  then show ?case
    using pc_set_same [of "fc_pc s" i FcReporting FcEnded clt] pc_set_same [of "fc_pc s" i FcAcquired FcEnded clt]
    by (auto simp: failure_inv_def)
qed (auto simp: failure_inv_def)

lemma failure_measured:
  assumes "(failure_step clt ops)\<^sup>*\<^sup>* failure_init s" "fc_done s"
  shows "ops \<le> fc_acquired s"
proof -
  have "failure_inv clt ops s"
    using assms(1)
  proof (induction rule: rtranclp_induct)
    case base
    show ?case by (simp add: failure_inv_def failure_init_def)
  qed (rule failure_step_inv)
  then show ?thesis using assms(2) by (simp add: failure_inv_def)
qed

section \<open>Clients that fail while they hold the lock\<close>

text \<open>
  clientFailureTest: a client that has acquired the lock sends its number and ends; the main
  goroutine deletes and closes its session and starts it again with a new one.
\<close>

datatype holder_pc = CfLoop | CfAcquired | CfSent | CfClosed

record client_failure =
  cf_pc :: "nat \<Rightarrow> holder_pc"
  cf_ch :: "nat list"
  cf_got :: nat
  cf_done :: bool

definition holder_init :: client_failure where
  "holder_init = \<lparr>cf_pc = (\<lambda>_. CfLoop), cf_ch = [], cf_got = 0, cf_done = False\<rparr>"

inductive holder_step :: "nat \<Rightarrow> nat \<Rightarrow> client_failure \<Rightarrow> client_failure \<Rightarrow> bool" for clt ops where
  acquire_ok: "i < clt \<Longrightarrow> cf_pc s i = CfLoop \<Longrightarrow> \<not> cf_done s \<Longrightarrow>
    holder_step clt ops s (s\<lparr>cf_pc := (cf_pc s)(i := CfAcquired)\<rparr>)"
| acquire_fails: "i < clt \<Longrightarrow> cf_pc s i = CfLoop \<Longrightarrow> \<not> cf_done s \<Longrightarrow> holder_step clt ops s s"
| send: "i < clt \<Longrightarrow> cf_pc s i = CfAcquired \<Longrightarrow> length (cf_ch s) < ops \<Longrightarrow>
    holder_step clt ops s (s\<lparr>cf_pc := (cf_pc s)(i := CfSent), cf_ch := cf_ch s @ [i]\<rparr>)"
| finish: "i < clt \<Longrightarrow> cf_pc s i = CfLoop \<Longrightarrow> cf_done s \<Longrightarrow>
    holder_step clt ops s (s\<lparr>cf_pc := (cf_pc s)(i := CfClosed)\<rparr>)"
| replace: "cf_got s < ops \<Longrightarrow> cf_ch s = i # q \<Longrightarrow>
    holder_step clt ops s (s\<lparr>cf_pc := (cf_pc s)(i := CfLoop), cf_ch := q, cf_got := Suc (cf_got s)\<rparr>)"
| close_done: "cf_got s = ops \<Longrightarrow> \<not> cf_done s \<Longrightarrow> holder_step clt ops s (s\<lparr>cf_done := True\<rparr>)"

definition holder_inv :: "nat \<Rightarrow> client_failure \<Rightarrow> bool" where
  "holder_inv clt s \<longleftrightarrow> distinct (cf_ch s) \<and> set (cf_ch s) = {i. i < clt \<and> cf_pc s i = CfSent}"

lemma holder_step_inv: "holder_step clt ops s t \<Longrightarrow> holder_inv clt s \<Longrightarrow> holder_inv clt t"
proof (induction rule: holder_step.induct)
  case (replace s i q)
  then have "i < clt" "cf_pc s i = CfSent" "i \<notin> set q" "insert i (set q) = {i. i < clt \<and> cf_pc s i = CfSent}"
    by (auto simp: holder_inv_def)
  then have "set q = {k. k < clt \<and> ((cf_pc s)(i := CfLoop)) k = CfSent}" by auto
  then show ?case using replace by (simp add: holder_inv_def)
next
  case (acquire_ok i s)
  then have "{k. k < clt \<and> ((cf_pc s)(i := CfAcquired)) k = CfSent} = {k. k < clt \<and> cf_pc s k = CfSent}"
    by (intro pc_set_same) simp_all
  then show ?case using acquire_ok(4) unfolding holder_inv_def by simp
next
  case (finish i s)
  then have "{k. k < clt \<and> ((cf_pc s)(i := CfClosed)) k = CfSent} = {k. k < clt \<and> cf_pc s k = CfSent}"
    by (intro pc_set_same) simp_all
  then show ?case using finish(4) unfolding holder_inv_def by simp
next
  case (send i s)
  have "{k. k < clt \<and> ((cf_pc s)(i := CfSent)) k = CfSent} = insert i {k. k < clt \<and> cf_pc s k = CfSent}"
    using send(1) by auto
  moreover have "i \<notin> {k. k < clt \<and> cf_pc s k = CfSent}" using send(2) by simp
  ultimately show ?case using send(4) unfolding holder_inv_def by simp
qed (simp_all add: holder_inv_def)

text \<open>
  Every number is in the channel once at most, so with a channel of at least as many places as
  there are clients no client ever waits with the lock in its hands.
\<close>

lemma holder_never_blocks:
  assumes reach: "(holder_step clt ops)\<^sup>*\<^sup>* holder_init s" and i: "i < clt" "cf_pc s i = CfAcquired" and "clt \<le> ops"
  shows "\<exists>t. holder_step clt ops s t \<and> cf_pc t i = CfSent"
proof -
  have inv: "holder_inv clt s"
    using reach
  proof (induction rule: rtranclp_induct)
    case base
    show ?case by (simp add: holder_inv_def holder_init_def)
  qed (rule holder_step_inv)
  then have "length (cf_ch s) = card {k. k < clt \<and> cf_pc s k = CfSent}"
    using distinct_card [of "cf_ch s"] by (simp add: holder_inv_def)
  also have "\<dots> \<le> card ({..<clt} - {i})"
  proof (rule card_mono)
    show "{k. k < clt \<and> cf_pc s k = CfSent} \<subseteq> {..<clt} - {i}"
    proof
      fix k assume "k \<in> {k. k < clt \<and> cf_pc s k = CfSent}"
      then have "k < clt" "cf_pc s k = CfSent" by simp_all
      moreover from this(2) i(2) have "k \<noteq> i" by auto
      ultimately show "k \<in> {..<clt} - {i}" by simp
    qed
  qed simp
  also have "\<dots> = clt - 1" using i(1) by simp
  finally have "length (cf_ch s) < ops" using assms(4) i(1) by simp
  then show ?thesis
    using holder_step.send [OF i] by (intro exI [of _ "s\<lparr>cf_pc := (cf_pc s)(i := CfSent), cf_ch := cf_ch s @ [i]\<rparr>"]) simp
qed

end
