(* ===== verification/Eval_Sessions.thy ===== *)
theory Eval_Sessions
  imports Eval_Bench Client_Properties
begin

text \<open>
  The clients of the benchmarks: the slice of sessions that a test makes, the paths of its
  locks, the replacement of a session whose client failed, and the closing of the sessions.
  A slot of the slice holds the address of a session object and the object.
\<close>

section \<open>Setting the clients up\<close>

type_synonym slots = "nat \<Rightarrow> (nat \<times> Session) option"

text \<open>
  The clients make their sessions in the given order: one after the other, or, where each
  client has a goroutine for it, in the order in which they get the lock of the harness.
\<close>

fun make_sessions ::
  "(nat \<Rightarrow> 'e list) \<Rightarrow> (nat \<Rightarrow> nat) \<Rightarrow> nat list \<Rightarrow> slots \<Rightarrow> int32 \<Rightarrow> 'e EvalConfig \<Rightarrow>
   ev_error + 'e EvalConfig \<times> slots \<times> int32" where
  "make_sessions names refs [] sess aid cfg = Inr (cfg, sess, aid)"
| "make_sessions names refs (i # is) sess aid cfg =
     (case MakeSession (names i) (refs i) (ev_All cfg) aid cfg of
        Inl e \<Rightarrow> Inl e
      | Inr (cfg1, s, aid1) \<Rightarrow> make_sessions names refs is (sess(i \<mapsto> (refs i, s))) aid1 cfg1)"

text \<open>The path on which client i of a test works.\<close>

fun bench_path :: "bench_test \<Rightarrow> string \<Rightarrow> nat \<Rightarrow> string" where
  "bench_path OneClientTest testname i = ''oneClientTest/'' @ testname"
| "bench_path (ManyClientTest clt) testname i = ''manyClientParallel/'' @ itoa i"
| "bench_path (ManyClientContendTest clt) testname i = ''manyClientContend/'' @ testname"
| "bench_path ClientFailureTest testname i = ''clientFailure/mutex''"
| "bench_path (FailureParallelTest d) testname i = ''failureParallel/'' @ testname @ itoa i"
| "bench_path (FailureContendTest d) testname i = ''failureParallel/'' @ testname"

text \<open>The main goroutine of clientFailureTest replaces the session of a client that has the lock.\<close>

definition replace_session ::
  "'e list \<Rightarrow> nat \<Rightarrow> nat \<Rightarrow> slots \<Rightarrow> int32 \<Rightarrow> 'e EvalConfig \<Rightarrow> ev_error + 'e EvalConfig \<times> slots \<times> int32" where
  "replace_session names ref i sess aid cfg =
     (case sess i of
        None \<Rightarrow> Inl EvPanic
      | Some (old, s) \<Rightarrow>
          (case DeleteSession old cfg of
             Inl e \<Rightarrow> Inl e
           | Inr cfg1 \<Rightarrow>
               (case sess_Close s of
                  None \<Rightarrow> Inl EvPanic
                | Some s1 \<Rightarrow>
                    (case MakeSession names ref (ev_All cfg1) aid cfg1 of
                       Inl e \<Rightarrow> Inl e
                     | Inr (cfg2, s2, aid1) \<Rightarrow> Inr (cfg2, sess(i \<mapsto> (ref, s2)), aid1)))))"

text \<open>
  A client creates its lock; the answer is not looked at. The calls run on the network beside
  the harness, whose own state they leave alone.
\<close>

definition create_lock :: "string \<Rightarrow> call_event list \<Rightarrow> nat \<Rightarrow> slots \<Rightarrow> slots panics" where
  "create_lock path evs i sess =
     (case sess i of
        None \<Rightarrow> None
      | Some (ref, s) \<Rightarrow> map_option (\<lambda>(s1, err). sess(i \<mapsto> (ref, s1))) (sess_Create path evs s))"

fun create_locks :: "(nat \<Rightarrow> string) \<Rightarrow> (nat \<Rightarrow> call_event list) \<Rightarrow> nat list \<Rightarrow> slots \<Rightarrow> slots panics" where
  "create_locks path evs [] sess = Some sess"
| "create_locks path evs (i # is) sess =
     (case create_lock (path i) (evs i) i sess of None \<Rightarrow> None | Some sess1 \<Rightarrow> create_locks path evs is sess1)"

text \<open>
  One session per client, and the given clients create the locks. Making a session does not
  depend on the calls of other clients, so that all sessions are made first.
\<close>

definition bench_setup ::
  "bench_test \<Rightarrow> string \<Rightarrow> nat list \<Rightarrow> nat list \<Rightarrow> (nat \<Rightarrow> call_event list) \<Rightarrow> (nat \<Rightarrow> 'e list) \<Rightarrow> (nat \<Rightarrow> nat) \<Rightarrow>
   int32 \<Rightarrow> 'e EvalConfig \<Rightarrow> ev_error + 'e EvalConfig \<times> slots \<times> int32" where
  "bench_setup test testname clients creators evs names refs aid cfg =
     (case make_sessions names refs clients Map.empty aid cfg of
        Inl e \<Rightarrow> Inl e
      | Inr (cfg1, sess, aid1) \<Rightarrow>
          (case create_locks (bench_path test testname) evs creators sess of
             None \<Rightarrow> Inl EvPanic
           | Some sess1 \<Rightarrow> Inr (cfg1, sess1, aid1)))"

text \<open>manyClientTest: the order is that in which the goroutines of the clients get the harness.\<close>

definition manyClient_setup ::
  "nat \<Rightarrow> nat list \<Rightarrow> (nat \<Rightarrow> call_event list) \<Rightarrow> (nat \<Rightarrow> 'e list) \<Rightarrow> (nat \<Rightarrow> nat) \<Rightarrow> int32 \<Rightarrow> 'e EvalConfig \<Rightarrow>
   ev_error + 'e EvalConfig \<times> slots \<times> int32" where
  "manyClient_setup clt order evs names refs aid cfg =
     bench_setup (ManyClientTest clt) [] order order evs names refs aid cfg"

definition contend_setup ::
  "nat \<Rightarrow> string \<Rightarrow> (nat \<Rightarrow> call_event list) \<Rightarrow> (nat \<Rightarrow> 'e list) \<Rightarrow> (nat \<Rightarrow> nat) \<Rightarrow> int32 \<Rightarrow> 'e EvalConfig \<Rightarrow>
   ev_error + 'e EvalConfig \<times> slots \<times> int32" where
  "contend_setup clt testname evs names refs aid cfg =
     bench_setup (ManyClientContendTest clt) testname [0..<clt] [0] evs names refs aid cfg"

definition clientFailure_setup ::
  "string \<Rightarrow> (nat \<Rightarrow> call_event list) \<Rightarrow> (nat \<Rightarrow> 'e list) \<Rightarrow> (nat \<Rightarrow> nat) \<Rightarrow> int32 \<Rightarrow> 'e EvalConfig \<Rightarrow>
   ev_error + 'e EvalConfig \<times> slots \<times> int32" where
  "clientFailure_setup testname evs names refs aid cfg =
     bench_setup ClientFailureTest testname [0..<20] [0] evs names refs aid cfg"

definition failureContend_setup ::
  "failure_driver \<Rightarrow> string \<Rightarrow> (nat \<Rightarrow> call_event list) \<Rightarrow> (nat \<Rightarrow> 'e list) \<Rightarrow> (nat \<Rightarrow> nat) \<Rightarrow> int32 \<Rightarrow> 'e EvalConfig \<Rightarrow>
   ev_error + 'e EvalConfig \<times> slots \<times> int32" where
  "failureContend_setup failure testname evs names refs aid cfg =
     bench_setup (FailureContendTest failure) testname [0..<20] [0] evs names refs aid cfg"

definition failureParallel_setup ::
  "failure_driver \<Rightarrow> string \<Rightarrow> (nat \<Rightarrow> call_event list) \<Rightarrow> (nat \<Rightarrow> 'e list) \<Rightarrow> (nat \<Rightarrow> nat) \<Rightarrow> int32 \<Rightarrow> 'e EvalConfig \<Rightarrow>
   ev_error + 'e EvalConfig \<times> slots \<times> int32" where
  "failureParallel_setup failure testname evs names refs aid cfg =
     bench_setup (FailureParallelTest failure) testname [0..<20] [0..<20] evs names refs aid cfg"

definition close_session :: "nat \<Rightarrow> slots \<Rightarrow> slots panics" where
  "close_session i sess =
     (case sess i of
        None \<Rightarrow> None
      | Some (ref, s) \<Rightarrow> map_option (\<lambda>s1. sess(i \<mapsto> (ref, s1))) (sess_Close s))"

section \<open>Paths\<close>

text \<open>Reading the digits back gives the number, so different clients have different paths.\<close>

definition atoi :: "string \<Rightarrow> nat" where
  "atoi digits = foldl (\<lambda>k c. k * 10 + (of_char c - 48)) 0 digits"

lemma atoi_itoa: "atoi (itoa k) = k"
proof (induction k rule: itoa.induct)
  case (1 k)
  show ?case
  proof (cases "k < 10")
    case True
    then show ?thesis by (subst itoa.simps) (simp add: atoi_def)
  next
    case False
    then have "atoi (itoa k) = atoi (itoa (k div 10)) * 10 + k mod 10"
      by (subst itoa.simps) (simp add: atoi_def)
    then show ?thesis using 1 False by simp
  qed
qed

lemma itoa_inject: "itoa i = itoa j \<longleftrightarrow> i = j"
  by (metis atoi_itoa)

fun contends :: "bench_test \<Rightarrow> bool" where
  "contends (ManyClientTest clt) = False"
| "contends (FailureParallelTest d) = False"
| "contends _ = True"

lemma bench_path_inject:
  "bench_path test testname i = bench_path test testname j \<longleftrightarrow> contends test \<or> i = j"
  by (cases test) (simp_all add: itoa_inject)

section \<open>Sessions\<close>

lemma make_ends_total:
  "distinct names \<Longrightarrow> set names \<inter> nw_ends net = {} \<Longrightarrow> \<exists>net'. make_ends names j net = Inr net'"
proof (induction names arbitrary: j net)
  case (Cons name names)
  then show ?case
    using Cons.IH [of "Connect name j (net\<lparr>nw_ends := insert name (nw_ends net),
      nw_enabled := (nw_enabled net)(name := False), nw_connections := (nw_connections net)(name := None)\<rparr>)" "Suc j"]
    by (auto simp: MakeEnd_def Connect_def)
qed simp

lemma enable_session_total:
  "set to \<subseteq> {..<length names} \<Longrightarrow> \<exists>net'. enable_session names to yes net = Some net'"
  by (induction to arbitrary: net) auto

text \<open>A session is made whenever the names drawn for its ends are fresh.\<close>

lemma MakeSession_total:
  assumes "distinct names" and "set names \<inter> nw_ends (cfg_net cfg) = {}" and "length names = cfg_n cfg"
  shows "\<exists>cfg'. MakeSession names ref (ev_All cfg) aid cfg =
      Inr (cfg', fst (sess_Init (cfg_n cfg) (ev_protocol cfg) (session_threshold cfg) aid), aid + 2) \<and>
    cfg_n cfg' = cfg_n cfg \<and> ev_protocol cfg' = ev_protocol cfg \<and>
    ev_sessions cfg' = (ev_sessions cfg)(ref \<mapsto> names) \<and>
    nw_ends (cfg_net cfg') = nw_ends (cfg_net cfg) \<union> set names"
proof -
  obtain net where net: "make_ends names 0 (cfg_net cfg) = Inr net"
    using make_ends_total [OF assms(1,2)] by blast
  obtain net' where net': "enable_session names (ev_All cfg) True net = Some net'"
    using enable_session_total [of "ev_All cfg" names] assms(3) by (auto simp: ev_All_def atLeast0LessThan)
  from enable_session_eq [OF net'] have "nw_ends net' = nw_ends net" by auto
  then have ends: "nw_ends net' = nw_ends (cfg_net cfg) \<union> set names" using make_ends_spec [OF net] by simp
  show ?thesis
    using net net' ends
    by (simp add: MakeSession_def sess_Init_def Let_def connectSessionUnlocked_def session_names_def)
qed

lemma make_sessions_driven:
  "make_sessions names refs is sess aid cfg = Inr (cfg', sess', aid') \<Longrightarrow> driven n cfg fid \<Longrightarrow> driven n cfg' fid"
proof (induction "is" arbitrary: sess aid cfg)
  case (Cons i "is")
  then obtain cfg1 s aid1 where "MakeSession (names i) (refs i) (ev_All cfg) aid cfg = Inr (cfg1, s, aid1)"
      "make_sessions names refs is (sess(i \<mapsto> (refs i, s))) aid1 cfg1 = Inr (cfg', sess', aid')"
    by (auto split: sum.splits)
  then show ?case using Cons.IH Cons.prems(2) driven.make_session by blast
qed simp

lemma bench_setup_driven:
  "bench_setup test testname clients creators evs names refs aid cfg = Inr (cfg', sess', aid') \<Longrightarrow>
   driven n cfg fid \<Longrightarrow> driven n cfg' fid"
  by (auto simp: bench_setup_def split: sum.splits option.splits intro: make_sessions_driven)

text \<open>Names for the ends of new sessions: no name twice, and none that the network knows.\<close>

definition fresh_names :: "(nat \<Rightarrow> 'e list) \<Rightarrow> nat list \<Rightarrow> 'e EvalConfig \<Rightarrow> bool" where
  "fresh_names names is cfg \<longleftrightarrow>
     (\<forall>i \<in> set is. distinct (names i) \<and> length (names i) = cfg_n cfg \<and>
        set (names i) \<inter> nw_ends (cfg_net cfg) = {} \<and>
        (\<forall>j \<in> set is. i \<noteq> j \<longrightarrow> set (names i) \<inter> set (names j) = {}))"

text \<open>
  With fresh names all clients get a session, in whatever order they come: open, connected to
  all servers, and with the next numbers of the identifier counter.
\<close>

lemma make_sessions_total:
  assumes "fresh_names names is cfg" and "distinct is"
  shows "\<exists>cfg' sess'. make_sessions names refs is sess aid cfg = Inr (cfg', sess', aid + 2 * of_nat (length is)) \<and>
    cfg_n cfg' = cfg_n cfg \<and> (\<forall>i. i \<notin> set is \<longrightarrow> sess' i = sess i) \<and>
    (\<forall>k < length is. \<exists>s. sess' (is ! k) = Some (refs (is ! k), s) \<and> \<not> se_done s \<and>
       se_servers s = cfg_n cfg \<and> se_seq s = [0, 0] \<and> se_leader s = 0 \<and> se_sessid s = aid + 2 * of_nat (Suc k))"
  using assms
proof (induction "is" arbitrary: sess aid cfg)
  case (Cons i "is")
  let ?s = "fst (sess_Init (cfg_n cfg) (ev_protocol cfg) (session_threshold cfg) aid)"
  obtain cfg1 where m: "MakeSession (names i) (refs i) (ev_All cfg) aid cfg = Inr (cfg1, ?s, aid + 2)"
      "cfg_n cfg1 = cfg_n cfg" "nw_ends (cfg_net cfg1) = nw_ends (cfg_net cfg) \<union> set (names i)"
    using MakeSession_total [of "names i" cfg "refs i" aid] Cons.prems(1) by (auto simp: fresh_names_def)
  have d: "distinct is" using Cons.prems(2) by simp
  have "fresh_names names is cfg1"
    using Cons.prems m(2,3) unfolding fresh_names_def by (simp add: Int_Un_distrib) metis
  from Cons.IH [OF this d, of "sess(i \<mapsto> (refs i, ?s))" "aid + 2", unfolded m(2)] obtain cfg' sess' where
    r: "make_sessions names refs is (sess(i \<mapsto> (refs i, ?s))) (aid + 2) cfg1 =
        Inr (cfg', sess', aid + 2 + 2 * of_nat (length is))" "cfg_n cfg' = cfg_n cfg"
      "\<forall>j. j \<notin> set is \<longrightarrow> sess' j = (sess(i \<mapsto> (refs i, ?s))) j"
      "\<forall>k < length is. \<exists>s. sess' (is ! k) = Some (refs (is ! k), s) \<and> \<not> se_done s \<and>
         se_servers s = cfg_n cfg \<and> se_seq s = [0, 0] \<and> se_leader s = 0 \<and> se_sessid s = aid + 2 + 2 * of_nat (Suc k)"
    by blast
  have "\<exists>s. sess' ((i # is) ! k) = Some (refs ((i # is) ! k), s) \<and> \<not> se_done s \<and>
      se_servers s = cfg_n cfg \<and> se_seq s = [0, 0] \<and> se_leader s = 0 \<and> se_sessid s = aid + 2 * of_nat (Suc k)" if "k < length (i # is)" for k
  proof (cases k)
    case 0
    then show ?thesis using r(3) Cons.prems(2) by (simp add: sess_Init_def Let_def)
  next
    case (Suc l)
    then show ?thesis using r(4) that by (auto simp: algebra_simps)
  qed
  then show ?case
    using r m(1) Cons.prems(2) by (intro exI [of _ cfg'] exI [of _ sess']) (simp add: algebra_simps)
qed simp

text \<open>
  A request does not panic as long as the counter of tried servers cannot pass the int32
  limit, which takes two thousand million failed calls.
\<close>

lemma request_loop_total:
  assumes "0 < se_servers sess" and "rid < length (se_seq sess)" and "0 \<le> sint (se_leader sess)"
    and "sint (se_leader sess) + int (length evs) < 2147483648"
  shows "\<exists>r. request_loop rid path function args retry evs sess = Some r"
  using assms
proof (induction evs arbitrary: args retry sess)
  case (Cons ev evs)
  have srv: "request_server sess = Some (nat (sint (se_leader sess)) mod se_servers sess)"
    using Cons.prems(1,3) by (rule request_server_nonneg [rotated])
  have next1: "sint (se_leader sess + 1) = sint (se_leader sess) + 1"
    using Cons.prems(3,4) by (intro sint_plus_one) auto
  have again: "\<exists>r. request_loop rid path function args m evs (sess\<lparr>se_leader := se_leader sess + 1\<rparr>) = Some r" for m
    using Cons.prems next1 by (intro Cons.IH) auto
  have new: "\<exists>r. request_loop rid path function args1 m evs (sess\<lparr>se_seq := (se_seq sess)[rid := x]\<rparr>) = Some r" for args1 m x
    using Cons.prems by (intro Cons.IH) auto
  have args: "request_args rid path sess = Some (sess\<lparr>se_seq := (se_seq sess)[rid := se_seq sess ! rid + 1]\<rparr>,
      \<lparr>path_Path = path, path_Sessid = se_sessid sess + of_nat rid, path_Seq = se_seq sess ! rid + 1\<rparr>)"
    using Cons.prems(2) by (simp add: request_args_Some)
  let ?args1 = "\<lparr>path_Path = path, path_Sessid = se_sessid sess + of_nat rid, path_Seq = se_seq sess ! rid + 1\<rparr>"
  obtain r1 r2 r3 where
    "request_loop rid path function args (int (se_servers sess)) evs (sess\<lparr>se_leader := se_leader sess + 1\<rparr>) = Some r1"
    "request_loop rid path function args (retry - 1) evs (sess\<lparr>se_leader := se_leader sess + 1\<rparr>) = Some r2"
    "request_loop rid path function ?args1 (int (se_servers sess)) evs
       (sess\<lparr>se_seq := (se_seq sess)[rid := se_seq sess ! rid + 1]\<rparr>) = Some r3"
    using again [of "int (se_servers sess)"] again [of "retry - 1"] new by blast
  then show ?case
    by (cases r1; cases r2; cases r3) (auto simp: srv args Let_def split: option.splits)
qed simp

lemma sess_Create_total:
  assumes "0 < se_servers s" and "0 < length (se_seq s)" and "0 \<le> sint (se_leader s)"
    and "sint (se_leader s) + int (length evs) < 2147483648"
  shows "\<exists>s1 err. sess_Create path evs s = Some (s1, err)"
proof -
  have "\<exists>r. request_loop 0 path (se_protocol s @ ''Create'')
      \<lparr>path_Path = path, path_Sessid = se_sessid s, path_Seq = se_seq s ! 0 + 1\<rparr> (int (se_servers s)) evs
      (s\<lparr>se_seq := (se_seq s)[0 := se_seq s ! 0 + 1]\<rparr>) = Some r"
    using assms by (intro request_loop_total) auto
  then show ?thesis
    using assms(2) by (auto simp: sess_Create_def sess_Request_def request_args_def go_index_def)
qed

text \<open>A slot with a session that has made no call yet.\<close>

definition new_slot :: "nat \<Rightarrow> slots \<Rightarrow> nat \<Rightarrow> bool" where
  "new_slot n sess i \<longleftrightarrow> (\<exists>ref s. sess i = Some (ref, s) \<and> se_servers s = n \<and> se_seq s = [0, 0] \<and> se_leader s = 0)"

lemma create_locks_total:
  assumes "0 < n" and "distinct is" and "\<forall>i \<in> set is. new_slot n sess i \<and> length (evs i) < 2147483648"
  shows "\<exists>sess'. create_locks path evs is sess = Some sess'"
  using assms(2,3)
proof (induction "is" arbitrary: sess)
  case (Cons i "is")
  obtain ref s where s: "sess i = Some (ref, s)" "se_servers s = n" "se_seq s = [0, 0]" "se_leader s = 0"
    using Cons.prems(2) by (auto simp: new_slot_def)
  obtain s1 err where c: "sess_Create (path i) (evs i) s = Some (s1, err)"
    using sess_Create_total [of s "evs i" "path i"] s assms(1) Cons.prems(2) by auto
  have "\<exists>sess'. create_locks path evs is (sess(i \<mapsto> (ref, s1))) = Some sess'"
    using Cons.prems by (intro Cons.IH) (auto simp: new_slot_def)
  then show ?case by (simp add: create_lock_def s(1) c)
qed simp

text \<open>
  The clients of a test are set up without a panic, whatever the answers to their calls, when
  the names drawn are fresh.
\<close>

lemma bench_setup_total:
  assumes "fresh_names names clients cfg" and "distinct clients" and "0 < cfg_n cfg"
    and "distinct creators" and "set creators \<subseteq> set clients"
    and "\<forall>i \<in> set creators. length (evs i) < 2147483648"
  shows "\<exists>cfg' sess'. bench_setup test testname clients creators evs names refs aid cfg =
    Inr (cfg', sess', aid + 2 * of_nat (length clients))"
proof -
  obtain cfg' sess' where m: "make_sessions names refs clients Map.empty aid cfg =
      Inr (cfg', sess', aid + 2 * of_nat (length clients))"
    and s: "\<forall>k < length clients. \<exists>s. sess' (clients ! k) = Some (refs (clients ! k), s) \<and> \<not> se_done s \<and>
      se_servers s = cfg_n cfg \<and> se_seq s = [0, 0] \<and> se_leader s = 0 \<and> se_sessid s = aid + 2 * of_nat (Suc k)"
    using make_sessions_total [OF assms(1,2), of refs Map.empty aid] by blast
  have "new_slot (cfg_n cfg) sess' i" if "i \<in> set creators" for i
    using s that assms(5) unfolding new_slot_def by (metis in_set_conv_nth subsetD)
  then obtain sess'' where "create_locks (bench_path test testname) evs creators sess' = Some sess''"
    using create_locks_total [OF assms(3,4)] assms(6) by blast
  then show ?thesis by (simp add: bench_setup_def m)
qed

text \<open>The sessions of the slots as the harness knows them.\<close>

definition slots_ok :: "slots \<Rightarrow> 'e EvalConfig \<Rightarrow> bool" where
  "slots_ok sess cfg \<longleftrightarrow>
     (\<forall>i ref s. sess i = Some (ref, s) \<longrightarrow> (\<exists>names. ev_sessions cfg ref = Some names \<and> distinct names)) \<and>
     (\<forall>i j ref s s'. sess i = Some (ref, s) \<longrightarrow> sess j = Some (ref, s') \<longrightarrow> i = j)"

lemma delete_ends_total:
  "distinct names \<Longrightarrow> set names \<subseteq> nw_ends net \<Longrightarrow> \<exists>net'. delete_ends names net = Inr net'"
proof (induction names arbitrary: net)
  case (Cons name names)
  let ?net = "net\<lparr>nw_ends := nw_ends net - {name}, nw_enabled := (nw_enabled net)(name := False),
    nw_connections := (nw_connections net)(name := None)\<rparr>"
  have "DeleteEnd name net = Inr ?net" using Cons.prems(2) by (simp add: DeleteEnd_def)
  moreover have "\<exists>net'. delete_ends names ?net = Inr net'" by (rule Cons.IH) (use Cons.prems in auto)
  ultimately show ?case by simp
qed simp

lemma DeleteSession_total:
  assumes "up_except down cfg" and "ev_sessions cfg ref = Some names" and "distinct names"
  shows "\<exists>cfg'. DeleteSession ref cfg = Inr cfg' \<and> cfg_n cfg' = cfg_n cfg \<and>
    ev_sessions cfg' = (ev_sessions cfg)(ref := None) \<and>
    nw_ends (cfg_net cfg') = nw_ends (cfg_net cfg) - set names"
proof -
  have "set names \<subseteq> nw_ends (cfg_net cfg)"
    using up_exceptD(8) [OF assms(1)] assms(2) by (auto simp: sessions_ok_def)
  then obtain net where net: "delete_ends names (cfg_net cfg) = Inr net"
    using delete_ends_total [OF assms(3)] by blast
  then show ?thesis
    using delete_ends_spec [OF net] by (simp add: DeleteSession_def session_names_def assms(2))
qed

text \<open>
  The main goroutine of clientFailureTest can always replace an open session: the old one is
  deleted and closed, the client gets a new open session with the next identifier, the other
  clients keep theirs, and the servers are not disturbed.
\<close>

lemma replace_session_total:
  assumes "driven n cfg fid" and "slots_ok sess cfg" and "sess i = Some (old, s)" and "\<not> se_done s"
    and "distinct names" and "length names = n" and "set names \<inter> nw_ends (cfg_net cfg) = {}"
    and "ev_sessions cfg ref = None"
  shows "\<exists>cfg' s'. replace_session names ref i sess aid cfg = Inr (cfg', sess(i \<mapsto> (ref, s')), aid + 2) \<and>
    driven n cfg' fid \<and> slots_ok (sess(i \<mapsto> (ref, s'))) cfg' \<and> \<not> se_done s' \<and> se_sessid s' = aid + 2"
proof -
  have up: "up_except (down_set fid) cfg" "cfg_n cfg = n" using driven_up [OF assms(1)] by auto
  obtain olds where olds: "ev_sessions cfg old = Some olds" "distinct olds"
    using assms(2,3) unfolding slots_ok_def by blast
  obtain cfg1 where d: "DeleteSession old cfg = Inr cfg1" "cfg_n cfg1 = n"
      "ev_sessions cfg1 = (ev_sessions cfg)(old := None)"
      "nw_ends (cfg_net cfg1) = nw_ends (cfg_net cfg) - set olds"
    using DeleteSession_total [OF up(1) olds] up(2) by auto
  let ?s = "fst (sess_Init (cfg_n cfg1) (ev_protocol cfg1) (session_threshold cfg1) aid)"
  have "set names \<inter> nw_ends (cfg_net cfg1) = {}" using assms(7) d(4) by auto
  then obtain cfg2 where m: "MakeSession names ref (ev_All cfg1) aid cfg1 = Inr (cfg2, ?s, aid + 2)"
      "ev_sessions cfg2 = (ev_sessions cfg1)(ref \<mapsto> names)"
    using MakeSession_total [OF assms(5), of cfg1 ref aid] assms(6) d(2) by auto
  have run: "replace_session names ref i sess aid cfg = Inr (cfg2, sess(i \<mapsto> (ref, ?s)), aid + 2)"
    by (simp add: replace_session_def assms(3,4) d(1) sess_Close_def m(1))
  have "driven n cfg2 fid"
    by (rule driven.make_session [OF driven.delete_session [OF assms(1) d(1)] m(1)])
  moreover have "slots_ok (sess(i \<mapsto> (ref, ?s))) cfg2"
  proof -
    have known: "ref' \<noteq> ref \<and> ref' \<noteq> old \<and> (\<exists>ns. ev_sessions cfg ref' = Some ns \<and> distinct ns)"
      if "sess j = Some (ref', s')" "j \<noteq> i" for j ref' s'
      using assms(2,3,8) that unfolding slots_ok_def by (metis option.distinct(1))
    then show ?thesis
      using assms(2,5) unfolding slots_ok_def by (simp add: m(2) d(3)) metis
  qed
  ultimately show ?thesis using run by (auto simp: sess_Init_def Let_def)
qed

text \<open>A session is closed once: closing panics on a session that is closed already.\<close>

lemma close_session_once:
  assumes "close_session i sess = Some sess'"
  shows "close_session i sess' = None \<and> (\<forall>j. j \<noteq> i \<longrightarrow> close_session j sess' = None \<longleftrightarrow> close_session j sess = None)"
  using assms by (auto simp: close_session_def sess_Close_def split: option.splits prod.splits if_splits)

end
