(* ===== verification/Spec2Isabelle.thy ===== *)
theory Spec2Isabelle
  imports Paxos_Faults Paxos_Types Paxos_Progress Raft_Majority Service_Locks Rpc_Properties Config_Properties Paxos_Harness
    Harness_Random Eval_Sessions
begin

text \<open>
  A verification of the replicated lock service under src/src.

  \<^bold>\<open>The program.\<close> Clients (package session) create, remove, acquire, release and extend named
  locks with leases. A group of lock servers keeps the lock table replicated. There are two
  implementations, one on the package raft (package raftserver) and one on the package paxos
  (package paxosserver); both answer the same remote calls. Servers and clients talk over a
  simulated network (package labrpc) that encodes values with labgob, a wrapper around
  encoding/gob. A client sends a request to one server after the other until one accepts it;
  the server has the consensus package below it order the operation, waits until its applier
  has executed it, and answers from the lock table.

  \<^bold>\<open>Shared theory.\<close> Go_Prelude: Go slices with their bounds checks (None is the run-time panic),
  int32 and bytes as words, and three contracts as locales: quorums (two majorities meet),
  transitions (reachable states are closed under steps) and runs (a function that performs
  named steps makes runs executable). They are interpreted on majorities of peers and on the
  step relations and executors of both consensus packages.

  \<^bold>\<open>Paxos\<close> (src/src/paxos).
  \<^item> Paxos_Node: a peer with its instances in an explicit store, and every operation of
    paxos.go, acceptor.go, persister.go and ticker.go: Start, Done, Max, Min, Status, the
    handlers Prepare, Accept, Decide and GetDone, persisting and restarting, one tick.
  \<^item> Paxos_Proposer: the proposer goroutine of proposer.go as its critical sections and reply
    loops.
  \<^item> Paxos_Cluster: all peers and the messages between them, px_step, one rule per critical
    section, Done with any sequence number at any time included; peers stay up, there is no
    rule for a restart. Paxos_Exec: the same as a function on named actions.
  \<^item> Paxos_Agreement: the invariant cl_inv of all reachable states and the classical safety
    argument, in the locale ballot_voting, which extends quorums.
  \<^item> Paxos_Properties: agreement, validity and stability of what Status reports; the whole
    handlers as runs of px_step; what a promise binds; what Persist and Make keep; the bound
    that a tick puts on Min. Paxos_Faults: where the package falls short: an accepted nil is
    forgotten, an instance that is forgotten before it is decided gets decided all the same, a
    promise is lost in a crash, a failed GetDone call reads as a decision, a group of one peer
    never decides. Paxos_Types: every operation keeps a peer well-formed
    and none panics on a well-formed peer.
  \<^item> Paxos_Progress: from every reachable state a majority can decide an instance without the
    other peers, by runs that serve one peer after the other.

  \<^bold>\<open>Raft\<close> (src/src/raft).
  \<^item> Raft_Node, Raft_Election, Raft_Log: a peer and every section that runs under its lock,
    of raft.go, persisting.go, persister.go, election.go, log_transmission.go, snapshot.go.
  \<^item> Raft_Cluster: all peers and the messages, rf_step, with loss, delay, repetition and
    reordering, restarts included; the applier takes a batch of messages from the log and
    sends them one by one. Raft_Exec: the same as a function on named actions, and the steps
    other than restarts.
  \<^item> Raft_Facts: what each section does to the fields of a peer. Raft_Invariant: the
    invariant rn_inv, with the logs of the leaders, votes and acknowledgements as history.
    Raft_Safety, Raft_Steps, Raft_Preserve, Raft_Replicate: every step keeps it.
  \<^item> Raft_Properties: election safety, log matching, leader completeness and state machine
    safety over whole runs. Raft_Progress: the committer's binary search finds the order
    statistic of the match indices; the retry loop of the sender goes strictly down;
    Persist and Make; a candidate that crashes can vote twice. Raft_Panics: no section leaves
    the bounds of its arrays in a reachable state.
  \<^item> Raft_Majority: from every reachable state a majority can elect a leader of its own, bring
    its log to all of them, and commit and apply a new command, without the other peers.

  \<^bold>\<open>Lock service\<close> (src/src/session, src/src/raftserver, src/src/paxosserver).
  \<^item> Session: the data of common.go and the client of client.go, its request loop on int32
    counters included.
  \<^item> Lock_Spec: the abstract lock service, and the locale lock_replica: a server whose apply
    function refines it on the states that satisfy its invariant. The consequences (one
    holder at a time, hand-over only through release or revocation, leases, requests executed
    once, where a request number was reached) are proved there once.
  \<^item> Raft_Server, Paxos_Server: the appliers, the handlers with their waiting loops, the lease
    tickers, and starting and stopping groups of servers. Each interprets lock_replica.
  \<^item> Lock_Properties, Client_Properties: what answers mean, the equivalence of the two
    servers, request numbers, session identifiers, fairness of the request loop, the margin
    between the client's and the server's view of a lease, and two errors of the code.
  \<^item> Service: servers on top of the consensus packages. Any two servers of a group have the
    same lock table after the same number of operations, for Raft and for Paxos; in the groups
    that Start and Shutdown make, Shutdown followed by Start keeps what a Raft server had.
  \<^item> Service_Locks: what clients can rely on, from the answers of the handlers down to the
    consensus packages: mutual exclusion on Raft and on Paxos, that a lock is kept for its
    holder until the lease in the answer and the grace period are over, and that an answer of
    a Raft server means that the request took effect.

  \<^bold>\<open>Network\<close> (src/src/labrpc, src/src/labgob).
  \<^item> Lab_Gob: the checks of labgob.go on the graph of the program's types, which may be
    cyclic: they end, count each field once and do nothing when repeated.
  \<^item> Lab_Rpc: the network object, servers and services, and one remote call from Call to its
    return. Rpc_Properties: a call runs its handler at most once, true comes with the reply
    of that run and only from a server that is still registered, a reliable network
    answers, a removed server is silent.

  \<^bold>\<open>Test harnesses\<close> (src/src/raft/config.go, src/src/paxos/config.go).
  \<^item> Harness_Net: what the harnesses share: servers with one end for each server, ends switched
    on and off, the invariant that relates ends to connected servers, and the locale harness,
    in which it is proved for every way to start and crash servers that keeps it.
  \<^item> Raft_Config, Paxos_Config: the two harnesses on top of it: starting, crashing, connecting
    and partitioning servers, the readers of the apply channels and the checks of the tests.
    Both interpret harness.
  \<^item> Config_Properties, Paxos_Harness: ends are enabled exactly between connected servers, and
    after a partition exactly inside its groups; the checks accept the runs of Raft_Cluster
    and of Paxos_Cluster in which no server is crashed; a persister does not survive a second
    crash.
  \<^item> Harness_Random: the random names of ends and the seeds; names are equal only when the
    first 15 random bytes are.

  \<^bold>\<open>Benchmarks\<close> (src/src/eval).
  \<^item> Server_Groups: the interface Servers as the locale server_group, interpreted on the Raft
    group, on the Paxos group and on the value that dispatches to one of them.
  \<^item> Eval_Config: the harness config.go with its sessions, and the drivers of serverFailure.go
    as rounds. Eval_Properties: under the drivers that stop the leader or a random server
    exactly one server is down and isolated at a time and no round panics; the driver that
    stops the others leaves one server of five.
  \<^item> Eval_Bench: the settings of all runs, the loops of the clients and the channels between
    clients and main goroutine as step relations: what is counted when a measurement ends, a
    run that hangs, and that clientFailureTest never blocks a client.
  \<^item> Eval_Sessions: the sessions and locks that a test sets up and the replacement of the
    session of a failed client: with fresh names nothing panics, clients have different
    identifiers, and clients that are not meant to contend have different paths.

  \<^bold>\<open>How the code is translated.\<close> A struct is a record, an enumeration a datatype, an operation a
  definition; errors are values: None for a run-time panic, sums where there are several. A
  goroutine that an operation starts is returned as a task. What the code cannot decide by
  itself is an argument: the wall clock, random choices, the order in which a map is visited,
  the replies of calls, and the states in which a goroutine finds the shared state when it
  takes a lock again. A loop that waits takes the list of its wake-ups and has no result when
  the list ends before the loop does. Only checkType has fuel: one more than the number of
  types, which labgob_checks_each_type_once shows to be enough. Terms, ballots, sequence
  numbers and log positions are mathematical integers, since they grow by one at a time;
  request numbers, which are int64 in the code, are mathematical integers as well. Session
  identifiers and the leader counter of the client are int32. A persister that a server and
  the group of servers share is kept in the peer of the server while it runs (rss_shared).

  \<^bold>\<open>Assumptions.\<close> Paxos agreement and the results that rest on it have two hypotheses on the
  sequence number in question: nil_free, no nil value has entered its accept phase, and
  done_ok, the contract of Done: no peer was given a Done that covers it before it had decided
  it. The code enforces neither, and Paxos_Faults shows that agreement fails without each of
  them. The lock server never calls Done (the call in applier.go is commented out); the tests
  of the paxos package do. Validity needs done_ok only, stability and progress neither. Peers
  are never restarted in Paxos_Cluster, although the harnesses can do it; what Persist and
  Make keep, and that a crash loses promises, is shown for one peer. In Raft_Cluster a peer
  restarts the way the groups of servers do it, with its state persisted by Shutdown; the
  crashes of the test harness, which do not persist first, are not steps of it, and the
  checks of the harness are shown to pass for tests without them; a crash that loses
  unpersisted state is the subject of raft_candidate_votes_twice_after_crash. An answer is
  tied to the request that it answers under the assumption that the requests of a stream are
  sent one at a time. The lock servers take no snapshots, so logs start at position 0 in Raft_Cluster; Raft_Node and
  Raft_Log have snapshots.

  \<^bold>\<open>Not modelled.\<close> Measured times, the lengths of delays and waits, and printed marks on which
  nothing depends; encoding/gob, reflect and crypto/rand, which are parameters; the wrapping of
  servers into services of the network package. Everything else of the implementation is
  modelled; the test files are not.
\<close>

end
